(* ===== verification/Mp_Prelude.thy ===== *)
theory Mp_Prelude
  imports Main "HOL-Library.Word" "HOL-Library.Signed_Division"
begin

text \<open>
  Shared vocabulary of the development: the machine types of the 32-bit ports (\<open>mp_uint_t\<close>,
  \<open>size_t\<close> and pointers are 32 bits wide, \<open>src/py/mpconfig.h\<close>), the fact collections the
  component theories add to, and the generic lemmas on words, lists and digit strings the
  component proofs rest on. Nothing here models a line of the sources.
\<close>

unbundle bit_operations_syntax

type_synonym u8 = "8 word"
type_synonym u16 = "16 word"
type_synonym u32 = "32 word"
type_synonym u64 = "64 word"
type_synonym mp_uint_t = "32 word"

named_theorems word_nat \<open>reading word operations as arithmetic on natural numbers\<close>

section \<open>Words\<close>

lemma unat_u16_less [simp]: "unat (d :: u16) < 65536"
  using unsigned_less [of d] by simp

lemma unat_u16_le [simp]: "unat (d :: u16) \<le> 65535"
  using unat_u16_less [of d] by linarith

lemma unat_u32_less [simp]: "unat (d :: u32) < 4294967296"
  using unsigned_less [of d] by simp

lemma unat_u8_less [simp]: "unat (d :: u8) < 256"
  using unsigned_less [of d] by simp

lemma unat_ucast_16_32 [simp, word_nat]: "unat (ucast (d :: u16) :: u32) = unat d"
  by transfer (simp add: take_bit_eq_mod)

lemma unat_ucast_32_16 [word_nat]: "unat (ucast (x :: u32) :: u16) = unat x mod 65536"
  by (simp add: unsigned_ucast_eq take_bit_eq_mod)

lemma and_mask_take_bit_16: "(x :: u32) AND 0xFFFF = take_bit 16 x"
  by (simp add: take_bit_eq_mask mask_eq_exp_minus_1)

lemma unat_and_mask_16 [word_nat]: "unat ((x :: u32) AND 0xFFFF) = unat x mod 65536"
  unfolding and_mask_take_bit_16 by (simp only: unsigned_take_bit_eq) (simp add: take_bit_eq_mod)

lemma unat_drop_bit_u32 [word_nat]: "unat (drop_bit n (x :: u32)) = unat x div 2 ^ n"
  by (simp only: unat_drop_bit_eq) (simp only: drop_bit_eq_div)

lemma unat_push_bit_u32 [word_nat]: "unat (push_bit n (x :: u32)) = (unat x * 2 ^ n) mod 4294967296"
  by (simp only: unsigned_push_bit_eq) (simp add: push_bit_eq_mult take_bit_eq_mod)

lemma unat_add_u32: "unat x + unat y < 4294967296 \<Longrightarrow> unat (x + y :: u32) = unat x + unat y"
  by (simp add: unat_word_ariths)

lemma unat_mult_u32: "unat x * unat y < 4294967296 \<Longrightarrow> unat (x * y :: u32) = unat x * unat y"
  by (simp add: unat_word_ariths)

lemma unat_sub_u32: "unat y \<le> unat x \<Longrightarrow> unat (x - y :: u32) = unat x - unat y"
  by (simp add: unat_sub word_le_nat_alt)

lemma u16_mult_le: "unat (x :: u16) * unat (y :: u16) \<le> 4294836225"
proof -
  have "unat x * unat y \<le> 65535 * 65535" by (intro mult_mono) simp_all
  then show ?thesis by simp
qed

lemma unat_mult_ucast_16 [word_nat]: "unat ((ucast (x :: u16) :: u32) * ucast (y :: u16)) = unat x * unat y"
proof -
  have "unat x * unat y < 4294967296" using u16_mult_le [of x y] by linarith
  then show ?thesis by (simp add: unat_mult_u32)
qed

lemma or_eq_plus_disjoint:
  fixes x y :: "'a::len word"
  assumes "unat x mod 2 ^ n = 0" "unat y < 2 ^ n"
  shows "x OR y = x + y"
proof -
  have "\<not> bit x i \<or> \<not> bit y i" for i
  proof (cases "i < n")
    case True
    have "take_bit n x = 0"
      using assms(1) by (metis take_bit_eq_mod unsigned_0 unsigned_take_bit_eq word_unat_eq_iff)
    with True have "\<not> bit x i" by (metis bit_0_eq bit_take_bit_iff bot_apply bot_bool_def)
    then show ?thesis ..
  next
    case False
    have "take_bit n y = y"
      using assms(2) by (metis take_bit_nat_eq_self unsigned_take_bit_eq word_unat_eq_iff)
    with False have "\<not> bit y i" by (metis bit_take_bit_iff)
    then show ?thesis ..
  qed
  then show ?thesis by (simp add: disjunctive_add)
qed

text \<open>Signed readings: a 32-bit word built from a small integer reads back as that integer.\<close>

lemma sint_word_of_int_u32:
  assumes "- 2147483648 \<le> k" "k < 2147483648"
  shows "sint (word_of_int k :: u32) = k"
proof -
  have "sint (word_of_int k :: u32) = signed_take_bit 31 k" by (simp add: sint_sbintrunc')
  also have "\<dots> = k" using assms by (intro signed_take_bit_int_eq_self) simp_all
  finally show ?thesis .
qed

lemma ucast_16_32_of_int: "(ucast (d :: u16) :: u32) = word_of_int (int (unat d))"
  by (simp only: ucast_eq uint_nat)

lemma word_of_int_sint_u32: "word_of_int (sint (w :: u32)) = w"
  by simp

lemma uint_mod_sint: "uint (w :: u32) = sint w mod 4294967296"
  by (simp add: uint_sint take_bit_eq_mod)

lemma unat_of_sint:
  fixes w :: "'a::len word"
  shows "0 \<le> sint w \<Longrightarrow> int (unat w) = sint w" "sint w < 0 \<Longrightarrow> int (unat (- w)) = - sint w"
proof -
  have lt: "sint w < 2 ^ LENGTH('a)" "- (2 ^ LENGTH('a)) < sint w"
  proof -
    have "(2 :: int) ^ LENGTH('a) = 2 * 2 ^ (LENGTH('a) - 1)" by (cases "LENGTH('a)") simp_all
    then show "sint w < 2 ^ LENGTH('a)" "- (2 ^ LENGTH('a)) < sint w"
      using sint_lt [of w] sint_ge [of w] zero_less_power [of "2 :: int" "LENGTH('a) - 1"] by linarith+
  qed
  have rep: "int (unat (word_of_int k :: 'a word)) = k" if "0 \<le> k" "k < 2 ^ LENGTH('a)" for k
    using that by (simp add: uint_word_of_int)
  have "word_of_int (sint w) = w" "word_of_int (- sint w) = - w" by simp_all
  then show "0 \<le> sint w \<Longrightarrow> int (unat w) = sint w" "sint w < 0 \<Longrightarrow> int (unat (- w)) = - sint w"
    using rep [of "sint w"] rep [of "- sint w"] lt by simp_all
qed

lemma sgn_int_diff: "sgn (int a - int b) = (if a < b then -1 else if b < a then 1 else 0)"
  by (auto simp: sgn_if)

section \<open>Division with remainder\<close>

lemma mod_mult_step:
  fixes x y m b :: nat
  assumes "0 < m"
  shows "(x + m * y) mod (m * b) = x mod m + m * ((y + x div m) mod b)"
  using assms by (simp add: mod_mult2_eq)

lemma div_add_multiple: "0 < c \<Longrightarrow> (a + b * c) div c = b + a div (c :: nat)"
  by simp

section \<open>Lists\<close>

lemma take_length_append [simp]: "take (length xs) (xs @ ys) = xs"
  by simp

lemma list_update_take_drop:
  "i < length xs \<Longrightarrow> xs[i := x] = take i xs @ x # drop (Suc i) xs"
  by (simp add: upd_conv_take_nth_drop)

end
