(* ===== verification/Mpn.thy ===== *)
theory Mpn
  imports Mp_Prelude
begin

text \<open>
  The digit-array layer of the arbitrary precision integers, \<open>mpn_*\<close> in \<open>src/py/mpz.c\<close>: the
  functions on non-negative integers held as arrays of 16-bit digits, least significant digit
  first (\<open>MPZ_DIG_SIZE\<close> is 16 on the 32-bit ports, \<open>src/py/mpz.h\<close>). A digit is a \<open>16 word\<close>
  (\<open>mpz_dig_t\<close>) and every accumulator is a \<open>32 word\<close> (\<open>mpz_dbl_dig_t\<close>), so the wrap-around
  of the C arithmetic is in the model.

  An array argument with its length (\<open>jdig\<close>, \<open>jlen\<close>) is the list of its \<open>jlen\<close> digits. A
  function that fills \<open>idig\<close> returns the digits it stores from \<open>idig[0]\<close> on, and, where the
  length it reports differs from the number of digits stored, that length as well. All these
  loops read position \<open>i\<close> of their inputs before they store a digit at a position they will
  read again, so sharing \<open>idig\<close> with an input does not change what they compute.
\<close>

section \<open>Digits\<close>

type_synonym dig = "16 word"
type_synonym dbl = "32 word"

abbreviation DIG_SIZE :: nat where "DIG_SIZE \<equiv> 16"
abbreviation DIG_BASE :: nat where "DIG_BASE \<equiv> 65536"
abbreviation DIG_MASK :: dbl where "DIG_MASK \<equiv> 0xFFFF"
abbreviation DIG_MSB :: dig where "DIG_MSB \<equiv> 0x8000"

definition dig_lo :: "dbl \<Rightarrow> dig" where
  \<comment> \<open>\<open>*idig = x & DIG_MASK\<close>\<close>
  "dig_lo x = ucast (x AND DIG_MASK)"

definition dig_hi :: "dbl \<Rightarrow> dbl" where
  \<comment> \<open>\<open>x >>= DIG_SIZE\<close>\<close>
  "dig_hi x = drop_bit DIG_SIZE x"

text \<open>The number a digit array stands for, and the normal form without a leading zero digit.\<close>

fun mpn_val :: "dig list \<Rightarrow> nat" where
  "mpn_val [] = 0"
| "mpn_val (d # ds) = unat d + DIG_BASE * mpn_val ds"

definition normalised :: "dig list \<Rightarrow> bool" where
  "normalised ds \<longleftrightarrow> (ds = [] \<or> last ds \<noteq> 0)"

section \<open>The operations\<close>

text \<open>\<open>mpn_remove_trailing_zeros\<close>: the length of the array without its leading zero digits.\<close>

fun mpn_remove_trailing_zeros_from :: "dig list \<Rightarrow> nat" where
  \<comment> \<open>the argument is the array read from \<open>idig\<close> downwards\<close>
  "mpn_remove_trailing_zeros_from [] = 0"
| "mpn_remove_trailing_zeros_from (d # ds) =
     (if d = 0 then mpn_remove_trailing_zeros_from ds else Suc (length ds))"

definition mpn_remove_trailing_zeros :: "dig list \<Rightarrow> nat" where
  "mpn_remove_trailing_zeros ds = mpn_remove_trailing_zeros_from (rev ds)"

text \<open>\<open>mpn_cmp\<close>: the sign of \<open>i - j\<close>, comparing lengths first and then digits from the top.\<close>

fun mpn_cmp_loop :: "nat \<Rightarrow> dig list \<Rightarrow> dig list \<Rightarrow> int" where
  "mpn_cmp_loop 0 i j = 0"
| "mpn_cmp_loop (Suc n) i j =
     (let cmp = sint ((ucast (i ! n) :: dbl) - ucast (j ! n)) in
      if cmp < 0 then -1 else if cmp > 0 then 1 else mpn_cmp_loop n i j)"

definition mpn_cmp :: "dig list \<Rightarrow> dig list \<Rightarrow> int" where
  "mpn_cmp i j =
     (if length i < length j then -1
      else if length i > length j then 1
      else mpn_cmp_loop (length i) i j)"

text \<open>\<open>mpn_shl\<close>: \<open>j << n\<close> for \<open>n > 0\<close>, from the high end of the array downwards.\<close>

fun mpn_shl_loop :: "nat \<Rightarrow> dbl \<Rightarrow> dig list \<Rightarrow> dig list \<Rightarrow> dig list" where
  \<comment> \<open>the third argument is \<open>j\<close> read from its top digit down, the last the digits stored so far\<close>
  "mpn_shl_loop n_part d [] acc = dig_lo (drop_bit (DIG_SIZE - n_part) d) # acc"
| "mpn_shl_loop n_part d (j # js) acc =
     (let d = d OR ucast j in
      mpn_shl_loop n_part (push_bit DIG_SIZE d) js (dig_lo (drop_bit (DIG_SIZE - n_part) d) # acc))"

definition mpn_shl :: "dig list \<Rightarrow> nat \<Rightarrow> dig list \<times> nat" where
  "mpn_shl j n =
     (let n_whole = (n + DIG_SIZE - 1) mod 2 ^ 32 div DIG_SIZE;
          n_part = (if n mod DIG_SIZE = 0 then DIG_SIZE else n mod DIG_SIZE);
          i = replicate (n_whole - 1) 0 @ mpn_shl_loop n_part 0 (rev j) []
      in (i, mpn_remove_trailing_zeros i))"

text \<open>\<open>mpn_shr\<close>: \<open>j >> n\<close>. Only the top digit of the result is tested for zero.\<close>

fun mpn_shr_loop :: "nat \<Rightarrow> dig list \<Rightarrow> dig list" where
  "mpn_shr_loop n_part [] = []"
| "mpn_shr_loop n_part [j] = [dig_lo (drop_bit n_part (ucast j))]"
| "mpn_shr_loop n_part (j # j1 # js) =
     dig_lo (drop_bit n_part (ucast j OR push_bit DIG_SIZE (ucast j1)))
       # mpn_shr_loop n_part (j1 # js)"

definition mpn_shr :: "dig list \<Rightarrow> nat \<Rightarrow> dig list \<times> nat" where
  "mpn_shr j n =
     (let n_whole = n div DIG_SIZE; n_part = n mod DIG_SIZE in
      if n_whole \<ge> length j then ([], 0)
      else let i = mpn_shr_loop n_part (drop n_whole j) in
           (i, if last i = 0 then length i - 1 else length i))"

text \<open>\<open>mpn_add\<close>: \<open>j + k\<close>, for \<open>j\<close> at least as long as \<open>k\<close>.\<close>

fun mpn_add_loop :: "dbl \<Rightarrow> dig list \<Rightarrow> dig list \<Rightarrow> dig list" where
  "mpn_add_loop carry (j # js) (k # ks) =
     (let carry = carry + (ucast j + ucast k) in dig_lo carry # mpn_add_loop (dig_hi carry) js ks)"
| "mpn_add_loop carry (j # js) [] =
     (let carry = carry + ucast j in dig_lo carry # mpn_add_loop (dig_hi carry) js [])"
| "mpn_add_loop carry [] ks = (if carry \<noteq> 0 then [ucast carry] else [])"

definition mpn_add :: "dig list \<Rightarrow> dig list \<Rightarrow> dig list" where
  "mpn_add j k = mpn_add_loop 0 j k"

text \<open>\<open>mpn_sub\<close>: \<open>j - k\<close>, for \<open>j \<ge> k\<close>. The borrow is a signed 32-bit value shifted
  arithmetically.\<close>

fun mpn_sub_loop :: "dbl \<Rightarrow> dig list \<Rightarrow> dig list \<Rightarrow> dig list" where
  "mpn_sub_loop borrow (j # js) (k # ks) =
     (let borrow = borrow + (ucast j - ucast k)
      in dig_lo borrow # mpn_sub_loop (signed_drop_bit DIG_SIZE borrow) js ks)"
| "mpn_sub_loop borrow (j # js) [] =
     (let borrow = borrow + ucast j
      in dig_lo borrow # mpn_sub_loop (signed_drop_bit DIG_SIZE borrow) js [])"
| "mpn_sub_loop borrow [] ks = []"

definition mpn_sub :: "dig list \<Rightarrow> dig list \<Rightarrow> dig list \<times> nat" where
  "mpn_sub j k = (let i = mpn_sub_loop 0 j k in (i, mpn_remove_trailing_zeros i))"

text \<open>\<open>mpn_mul_dig_add_dig\<close>: \<open>i * dmul + dadd\<close> in place.\<close>

fun mpn_mul_dig_add_dig_loop :: "dbl \<Rightarrow> dig list \<Rightarrow> dig \<Rightarrow> dig list" where
  "mpn_mul_dig_add_dig_loop carry [] dmul = (if carry \<noteq> 0 then [ucast carry] else [])"
| "mpn_mul_dig_add_dig_loop carry (i # is) dmul =
     (let carry = carry + ucast i * ucast dmul
      in dig_lo carry # mpn_mul_dig_add_dig_loop (dig_hi carry) is dmul)"

definition mpn_mul_dig_add_dig :: "dig list \<Rightarrow> dig \<Rightarrow> dig \<Rightarrow> dig list" where
  "mpn_mul_dig_add_dig i dmul dadd = mpn_mul_dig_add_dig_loop (ucast dadd) i dmul"

text \<open>
  \<open>mpn_mul\<close>: schoolbook multiplication into a zeroed buffer. A row adds \<open>j * kdig\<close> at the
  current position; its result is the buffer from there on and how far \<open>id\<close> got. \<open>None\<close> is a
  store past the end of the buffer.
\<close>

fun mpn_mul_row :: "dbl \<Rightarrow> dig list \<Rightarrow> dig list \<Rightarrow> dig \<Rightarrow> (dig list \<times> nat) option" where
  "mpn_mul_row carry is [] k =
     (if carry \<noteq> 0
      then (case is of [] \<Rightarrow> None | _ # ds \<Rightarrow> Some (ucast carry # ds, 1))
      else Some (is, 0))"
| "mpn_mul_row carry [] (j # js) k = None"
| "mpn_mul_row carry (i # is) (j # js) k =
     (let carry = carry + (ucast i + ucast j * ucast k)
      in map_option (\<lambda>(ds, n). (dig_lo carry # ds, Suc n)) (mpn_mul_row (dig_hi carry) is js k))"

fun mpn_mul_loop :: "dig list \<Rightarrow> dig list \<Rightarrow> dig list \<Rightarrow> (dig list \<times> nat) option" where
  "mpn_mul_loop i j [] = Some (i, 0)"
| "mpn_mul_loop i j [k] = mpn_mul_row 0 i j k"
| "mpn_mul_loop i j (k # k1 # ks) =
     (case mpn_mul_row 0 i j k of
        Some (d # ds, _) \<Rightarrow> map_option (\<lambda>(ds, n). (d # ds, Suc n)) (mpn_mul_loop ds j (k1 # ks))
      | _ \<Rightarrow> None)"

definition mpn_mul :: "dig list \<Rightarrow> dig list \<Rightarrow> dig list \<Rightarrow> (dig list \<times> nat) option" where
  "mpn_mul i j k = mpn_mul_loop i j k"

section \<open>Digit strings and the numbers they stand for\<close>

lemma unat_dig_lo: "unat (dig_lo x) = unat x mod DIG_BASE"
  by (simp add: dig_lo_def word_nat)

lemma unat_dig_hi: "unat (dig_hi x) = unat x div DIG_BASE"
  by (simp add: dig_hi_def word_nat)

lemma dig_split: "unat (dig_lo x) + DIG_BASE * unat (dig_hi x) = unat x"
  by (simp add: unat_dig_lo unat_dig_hi)

lemma mpn_val_append [simp]:
  "mpn_val (xs @ ys) = mpn_val xs + DIG_BASE ^ length xs * mpn_val ys"
  by (induction xs) (simp_all add: algebra_simps)

lemma mpn_val_replicate_0 [simp]: "mpn_val (replicate n 0) = 0"
  by (induction n) simp_all

lemma mpn_val_less: "mpn_val ds < DIG_BASE ^ length ds"
proof (induction ds)
  case (Cons d ds)
  have "unat d + DIG_BASE * mpn_val ds < DIG_BASE * (mpn_val ds + 1)"
    using unat_u16_less [of d] by simp
  also have "\<dots> \<le> DIG_BASE * DIG_BASE ^ length ds"
    using Cons by (intro mult_le_mono2) simp
  finally show ?case by simp
qed simp

lemma mpn_val_ge:
  assumes "ds \<noteq> []" "last ds \<noteq> 0"
  shows "DIG_BASE ^ (length ds - 1) \<le> mpn_val ds"
proof -
  have ds: "ds = butlast ds @ [last ds]" using assms by simp
  have "1 \<le> unat (last ds)" using assms(2) by (simp add: Suc_le_eq unat_gt_0)
  then have "DIG_BASE ^ length (butlast ds) * 1 \<le> DIG_BASE ^ length (butlast ds) * unat (last ds)"
    by (intro mult_le_mono2)
  also have "\<dots> \<le> mpn_val (butlast ds @ [last ds])" by simp
  finally show ?thesis using ds by simp
qed

lemma mpn_val_normalised_0: "normalised ds \<Longrightarrow> mpn_val ds = 0 \<longleftrightarrow> ds = []"
  using mpn_val_ge [of ds] by (fastforce simp: normalised_def)

lemma mpn_val_split: "mpn_val ds = mpn_val (take n ds) + DIG_BASE ^ min n (length ds) * mpn_val (drop n ds)"
  by (metis append_take_drop_id length_take min.commute mpn_val_append)

lemma normalised_Nil [simp]: "normalised []"
  by (simp add: normalised_def)

lemma mpn_remove_trailing_zeros_from_le: "mpn_remove_trailing_zeros_from ds \<le> length ds"
  by (induction ds) simp_all

lemma mpn_remove_trailing_zeros_from_take:
  "let r = mpn_remove_trailing_zeros_from ds; t = take r (rev ds)
   in mpn_val t = mpn_val (rev ds) \<and> normalised t"
  by (induction ds)
     (auto simp: Let_def normalised_def mpn_remove_trailing_zeros_from_le)

lemma mpn_remove_trailing_zeros_le: "mpn_remove_trailing_zeros ds \<le> length ds"
  using mpn_remove_trailing_zeros_from_le [of "rev ds"] by (simp add: mpn_remove_trailing_zeros_def)

lemma mpn_remove_trailing_zeros_val [simp]:
  "mpn_val (take (mpn_remove_trailing_zeros ds) ds) = mpn_val ds"
  using mpn_remove_trailing_zeros_from_take [of "rev ds"]
  by (simp add: mpn_remove_trailing_zeros_def Let_def)

lemma mpn_remove_trailing_zeros_normalised [simp]:
  "normalised (take (mpn_remove_trailing_zeros ds) ds)"
  using mpn_remove_trailing_zeros_from_take [of "rev ds"]
  by (simp add: mpn_remove_trailing_zeros_def Let_def)

lemma mpn_strip_zeros:
  assumes "n = mpn_remove_trailing_zeros i"
  shows "mpn_val (take n i) = mpn_val i" "normalised (take n i)" "n \<le> length i"
  using assms by (simp_all add: mpn_remove_trailing_zeros_val mpn_remove_trailing_zeros_normalised
      mpn_remove_trailing_zeros_le)

section \<open>Comparison\<close>

lemma sint_dig_diff: "sint ((ucast (a :: dig) :: dbl) - ucast (b :: dig)) = int (unat a) - int (unat b)"
  using unat_u16_less [of a] unat_u16_less [of b]
  by (simp only: ucast_16_32_of_int wi_hom_sub) (rule sint_word_of_int_u32, linarith+)

lemma mpn_cmp_loop_sgn:
  "n \<le> length i \<Longrightarrow> n \<le> length j \<Longrightarrow>
   mpn_cmp_loop n i j = sgn (int (mpn_val (take n i)) - int (mpn_val (take n j)))"
proof (induction n)
  case (Suc n)
  define x y where "x = mpn_val (take n i)" and "y = mpn_val (take n j)"
  define a b where "a = unat (i ! n)" and "b = unat (j ! n)"
  have len: "length (take n i) = n" "length (take n j) = n" using Suc.prems by simp_all
  have lt: "x < DIG_BASE ^ n" "y < DIG_BASE ^ n"
    using mpn_val_less [of "take n i"] mpn_val_less [of "take n j"] len by (simp_all add: x_def y_def)
  have vi: "mpn_val (take (Suc n) i) = x + DIG_BASE ^ n * a"
    and vj: "mpn_val (take (Suc n) j) = y + DIG_BASE ^ n * b"
    using Suc.prems len by (simp_all add: take_Suc_conv_app_nth x_def y_def a_def b_def)
  have step: "a < b \<Longrightarrow> x + DIG_BASE ^ n * a < y + DIG_BASE ^ n * b"
    if "x < DIG_BASE ^ n" for x y a b :: nat
  proof -
    assume "a < b"
    have "x + DIG_BASE ^ n * a < DIG_BASE ^ n * (a + 1)" using that by simp
    also have "\<dots> \<le> DIG_BASE ^ n * b" using \<open>a < b\<close> by (intro mult_le_mono2) simp
    finally show ?thesis by simp
  qed
  show ?case
    using Suc step [OF lt(1), of a b y] step [OF lt(2), of b a x]
    by (auto simp: sint_dig_diff vi vj Let_def sgn_int_diff simp flip: x_def y_def a_def b_def
        simp del: of_nat_add of_nat_mult)
qed simp

lemma mpn_cmp_sgn:
  assumes "normalised i" "normalised j"
  shows "mpn_cmp i j = sgn (int (mpn_val i) - int (mpn_val j))"
proof -
  have shorter: "mpn_val x < mpn_val y" if "length x < length y" "normalised y" for x y
  proof -
    have "mpn_val x < DIG_BASE ^ length x" by (rule mpn_val_less)
    also have "\<dots> \<le> DIG_BASE ^ (length y - 1)" using that(1) by (intro power_increasing) auto
    also have "\<dots> \<le> mpn_val y" using that by (intro mpn_val_ge) (auto simp: normalised_def)
    finally show ?thesis .
  qed
  show ?thesis
    using shorter [of i j] shorter [of j i] assms mpn_cmp_loop_sgn [of "length i" i j]
    by (auto simp: mpn_cmp_def)
qed

lemma mpn_val_last_0:
  assumes "ds \<noteq> []" "last ds = 0"
  shows "mpn_val ds < DIG_BASE ^ (length ds - 1)"
proof -
  have "mpn_val ds = mpn_val (butlast ds @ [last ds])" using assms(1) by simp
  also have "\<dots> = mpn_val (butlast ds)" using assms(2) by simp
  also have "\<dots> < DIG_BASE ^ length (butlast ds)" by (rule mpn_val_less)
  finally show ?thesis by simp
qed

lemma normalised_iff_val: "normalised ds \<longleftrightarrow> ds = [] \<or> DIG_BASE ^ (length ds - 1) \<le> mpn_val ds"
  using mpn_val_last_0 [of ds] mpn_val_ge [of ds] by (auto simp: normalised_def)

section \<open>Addition and subtraction\<close>

lemma mpn_add_loop_val:
  assumes "length ks \<le> length js" "unat carry \<le> 1"
  shows "mpn_val (mpn_add_loop carry js ks) = unat carry + mpn_val js + mpn_val ks"
  using assms
proof (induction carry js ks rule: mpn_add_loop.induct)
  case (1 carry j js k ks)
  let ?c = "carry + (ucast j + ucast k)"
  have c: "unat ?c = unat carry + unat j + unat k"
    using "1.prems"(2) unat_u16_less [of j] unat_u16_less [of k] by (simp add: unat_add_u32 del: unat_u16_less)
  have "unat (dig_hi ?c) \<le> 1"
    using c "1.prems"(2) unat_u16_less [of j] unat_u16_less [of k] by (simp add: unat_dig_hi del: unat_u16_less)
  with 1 show ?case using dig_split [of ?c] c by (simp add: Let_def)
next
  case (2 carry j js)
  let ?c = "carry + ucast j"
  have c: "unat ?c = unat carry + unat j"
    using "2.prems"(2) unat_u16_less [of j] by (simp add: unat_add_u32 del: unat_u16_less)
  have "unat (dig_hi ?c) \<le> 1"
    using c "2.prems"(2) unat_u16_less [of j] by (simp add: unat_dig_hi del: unat_u16_less)
  with 2 show ?case using dig_split [of ?c] c by (simp add: Let_def)
next
  case (3 carry ks)
  then show ?case by (auto simp: word_nat unat_eq_0)
qed

lemma mpn_add_loop_shape:
  assumes "length ks \<le> length js" "unat carry \<le> 1"
  shows "length (mpn_add_loop carry js ks) = length js \<or>
    length (mpn_add_loop carry js ks) = Suc (length js) \<and> last (mpn_add_loop carry js ks) \<noteq> 0"
  using assms
proof (induction carry js ks rule: mpn_add_loop.induct)
  case (1 carry j js k ks)
  have "unat (dig_hi (carry + (ucast j + ucast k))) \<le> 1"
    using "1.prems"(2) unat_u16_less [of j] unat_u16_less [of k]
    by (simp add: unat_dig_hi unat_add_u32 del: unat_u16_less)
  with 1 show ?case by (auto simp: Let_def)
next
  case (2 carry j js)
  have "unat (dig_hi (carry + ucast j)) \<le> 1"
    using "2.prems"(2) unat_u16_less [of j] by (simp add: unat_dig_hi unat_add_u32 del: unat_u16_less)
  with 2 show ?case by (auto simp: Let_def)
next
  case (3 carry ks)
  then have "ucast carry = (0 :: dig) \<longleftrightarrow> carry = 0"
    by (simp add: word_unat_eq_iff word_nat)
  then show ?case by auto
qed

lemma mpn_add_val: "length k \<le> length j \<Longrightarrow> mpn_val (mpn_add j k) = mpn_val j + mpn_val k"
  by (simp add: mpn_add_def mpn_add_loop_val)

lemma mpn_add_length: "length k \<le> length j \<Longrightarrow> length (mpn_add j k) \<le> length j + 1"
  using mpn_add_loop_shape [of k j 0] by (auto simp: mpn_add_def)

lemma mpn_add_normalised:
  assumes "length k \<le> length j" "normalised j"
  shows "normalised (mpn_add j k)"
  using mpn_add_loop_shape [OF assms(1), of 0, simplified]
proof
  assume len: "length (mpn_add_loop 0 j k) = length j"
  have "mpn_val j \<le> mpn_val (mpn_add j k)" by (simp add: mpn_add_val assms(1))
  with len assms(2) show ?thesis
    by (fastforce simp: normalised_iff_val mpn_add_def)
qed (auto simp: normalised_def mpn_add_def)

lemma unat_dig_lo_of_int: "int (unat (dig_lo (word_of_int t))) = t mod int DIG_BASE"
proof -
  have "int (unat (dig_lo (word_of_int t))) = uint (word_of_int t :: dbl) mod 65536"
    by (simp add: unat_dig_lo of_nat_mod flip: uint_nat)
  also have "\<dots> = t mod 4294967296 mod 65536" by (simp add: uint_word_of_int)
  also have "\<dots> = t mod 65536" by (rule mod_mod_cancel) simp
  finally show ?thesis by simp
qed

lemma signed_drop_bit_of_int:
  assumes "- 2147483648 \<le> t" "t < 2147483648"
  shows "signed_drop_bit DIG_SIZE (word_of_int t :: dbl) = word_of_int (t div 65536)"
proof -
  have "sint (signed_drop_bit DIG_SIZE (word_of_int t :: dbl)) = t div 65536"
    by (simp only: sint_signed_drop_bit_eq sint_word_of_int_u32 [OF assms]) (simp add: drop_bit_eq_div)
  then show ?thesis by (metis word_of_int_sint_u32)
qed

lemma mod_digit_step:
  "0 \<le> m \<Longrightarrow> (t + int DIG_BASE * x) mod (int DIG_BASE * m) = t mod int DIG_BASE + int DIG_BASE * ((x + t div int DIG_BASE) mod m)"
  for t x m :: int
  by (simp add: zmod_zmult2_eq)

lemma mpn_sub_loop_step:
  assumes "- 65536 \<le> t" "t < 65536"
    and "int r = (x + t div 65536) mod int DIG_BASE ^ n"
  shows "int (unat (dig_lo (word_of_int t)) + DIG_BASE * r) = (t + 65536 * x) mod int DIG_BASE ^ Suc n"
proof -
  have "int (unat (dig_lo (word_of_int t)) + DIG_BASE * r)
      = t mod int DIG_BASE + int DIG_BASE * ((x + t div int DIG_BASE) mod int DIG_BASE ^ n)"
    using assms(3) unat_dig_lo_of_int [of t] by simp
  also have "\<dots> = (t + int DIG_BASE * x) mod (int DIG_BASE * int DIG_BASE ^ n)"
    by (rule mod_digit_step [symmetric]) simp
  finally show ?thesis by simp
qed

lemma mpn_sub_loop_val:
  assumes "length ks \<le> length js" "b = 0 \<or> b = -1"
  shows "int (mpn_val (mpn_sub_loop (word_of_int b) js ks))
       = (int (mpn_val js) - int (mpn_val ks) + b) mod int DIG_BASE ^ length js"
  using assms
proof (induction js arbitrary: ks b)
  case (Cons j js)
  define k where "k = (case ks of [] \<Rightarrow> 0 | k # _ \<Rightarrow> k)"
  define t where "t = b + (int (unat j) - int (unat k))"
  have bounds: "- 65536 \<le> t" "t < 65536"
    using Cons.prems(2) unat_u16_less [of j] unat_u16_less [of k] unfolding t_def by linarith+
  then have b': "t div 65536 = 0 \<or> t div 65536 = - 1" by linarith
  have shift: "signed_drop_bit DIG_SIZE (word_of_int t :: dbl) = word_of_int (t div 65536)"
    using bounds by (intro signed_drop_bit_of_int) linarith+
  have sum: "word_of_int b + (ucast j - ucast k) = (word_of_int t :: dbl)"
    by (simp only: t_def ucast_16_32_of_int wi_hom_sub wi_hom_add)
  have "mpn_sub_loop (word_of_int b) (j # js) ks =
      dig_lo (word_of_int t) # mpn_sub_loop (word_of_int (t div 65536)) js (tl ks)"
    using sum shift by (cases ks) (simp_all add: k_def Let_def)
  moreover have "int (mpn_val (mpn_sub_loop (word_of_int (t div 65536)) js (tl ks)))
      = ((int (mpn_val js) - int (mpn_val (tl ks))) + t div 65536) mod int DIG_BASE ^ length js"
    using Cons.prems(1) b' by (intro Cons.IH) auto
  ultimately have "int (mpn_val (mpn_sub_loop (word_of_int b) (j # js) ks))
      = (t + 65536 * (int (mpn_val js) - int (mpn_val (tl ks)))) mod int DIG_BASE ^ Suc (length js)"
    using mpn_sub_loop_step [OF bounds] by simp
  also have "t + 65536 * (int (mpn_val js) - int (mpn_val (tl ks)))
      = int (mpn_val (j # js)) - int (mpn_val ks) + b"
    by (cases ks) (simp_all add: t_def k_def)
  finally show ?case by simp
qed simp

lemma mpn_sub_val:
  assumes "length k \<le> length j" "mpn_val k \<le> mpn_val j"
  shows "mpn_val (fst (mpn_sub j k)) = mpn_val j - mpn_val k"
proof -
  have "int (mpn_val (mpn_sub_loop 0 j k)) = (int (mpn_val j) - int (mpn_val k)) mod int DIG_BASE ^ length j"
    using mpn_sub_loop_val [OF assms(1), of 0] by simp
  also have "\<dots> = int (mpn_val j) - int (mpn_val k)"
  proof (rule mod_pos_pos_trivial)
    have "int (mpn_val j) < int (DIG_BASE ^ length j)" using mpn_val_less of_nat_less_iff by blast
    then show "int (mpn_val j) - int (mpn_val k) < int DIG_BASE ^ length j"
      by (simp only: of_nat_power)
  qed (use assms(2) in simp)
  finally show ?thesis using assms(2) by (simp add: mpn_sub_def Let_def of_nat_diff [symmetric] del: of_nat_diff)
qed

lemma mpn_sub_loop_length: "length (mpn_sub_loop b j k) = length j"
  by (induction b j k rule: mpn_sub_loop.induct) (simp_all add: Let_def)

lemma mpn_sub_length: "length (fst (mpn_sub j k)) = length j"
  by (simp add: mpn_sub_def Let_def mpn_sub_loop_length)

section \<open>Shifts\<close>

lemma shl_digit:
  assumes "p \<le> DIG_SIZE"
  shows "unat (dig_lo (drop_bit (DIG_SIZE - p) (push_bit DIG_SIZE (ucast (h :: dig)) OR ucast (j :: dig))))
       = (unat h * 2 ^ p + unat j div 2 ^ (DIG_SIZE - p)) mod DIG_BASE"
proof -
  let ?d = "push_bit DIG_SIZE (ucast h) OR ucast j :: dbl"
  have h: "unat h * DIG_BASE < 4294967296" using unat_u16_less [of h] by linarith
  have "?d = push_bit DIG_SIZE (ucast h) + ucast j"
    using h by (intro or_eq_plus_disjoint [where n = DIG_SIZE]) (simp_all add: word_nat)
  moreover have "unat h * DIG_BASE + unat j < 4294967296"
    using unat_u16_less [of h] unat_u16_less [of j] by linarith
  ultimately have d: "unat ?d = unat h * DIG_BASE + unat j"
    using h by (simp add: unat_add_u32 word_nat)
  have B: "DIG_BASE = 2 ^ p * 2 ^ (DIG_SIZE - p)"
    using assms by (simp flip: power_add)
  have "(unat h * DIG_BASE + unat j) div 2 ^ (DIG_SIZE - p)
      = (unat j + unat h * 2 ^ p * 2 ^ (DIG_SIZE - p)) div 2 ^ (DIG_SIZE - p)"
    using B by (simp add: mult.assoc add.commute)
  also have "\<dots> = unat h * 2 ^ p + unat j div 2 ^ (DIG_SIZE - p)"
    by (rule div_add_multiple) simp
  finally show ?thesis by (simp only: unat_dig_lo unat_drop_bit_u32 d)
qed

lemma shl_carry: "push_bit DIG_SIZE (push_bit DIG_SIZE (ucast (h :: dig)) OR ucast (j :: dig) :: dbl) = push_bit DIG_SIZE (ucast j)"
  by (rule bit_word_eqI) (auto simp: bit_simps)

lemma shl_high_part:
  assumes "p \<le> DIG_SIZE" "v < DIG_BASE ^ m"
  shows "(j * DIG_BASE ^ m + v) * 2 ^ p div DIG_BASE ^ Suc m = j div 2 ^ (DIG_SIZE - p)"
proof -
  have B: "DIG_BASE ^ Suc m = 2 ^ p * (DIG_BASE ^ m * 2 ^ (DIG_SIZE - p))"
    using assms(1) by (simp flip: power_add)
  have "(j * DIG_BASE ^ m + v) * 2 ^ p div DIG_BASE ^ Suc m
      = (j * DIG_BASE ^ m + v) div (DIG_BASE ^ m * 2 ^ (DIG_SIZE - p))"
    unfolding B by (simp add: mult.commute [of _ "2 ^ p"])
  also have "\<dots> = (j * DIG_BASE ^ m + v) div DIG_BASE ^ m div 2 ^ (DIG_SIZE - p)"
    by (rule div_mult2_eq)
  also have "(j * DIG_BASE ^ m + v) div DIG_BASE ^ m = j" using assms(2) by simp
  finally show ?thesis .
qed

lemma mpn_shl_loop_val:
  assumes "p \<le> DIG_SIZE"
  shows "mpn_val (mpn_shl_loop p (push_bit DIG_SIZE (ucast (h :: dig))) rs acc)
       = ((unat h * DIG_BASE ^ length rs + mpn_val (rev rs)) * 2 ^ p) mod DIG_BASE ^ Suc (length rs)
         + DIG_BASE ^ Suc (length rs) * mpn_val acc"
proof (induction rs arbitrary: h acc)
  case Nil
  then show ?case using shl_digit [OF assms, of h 0] by simp
next
  case (Cons j rs)
  define m where "m = length rs"
  define X where "X = (unat j * DIG_BASE ^ m + mpn_val (rev rs)) * 2 ^ p"
  have v: "mpn_val (rev rs) < DIG_BASE ^ m" using mpn_val_less [of "rev rs"] by (simp add: m_def)
  have X: "X div DIG_BASE ^ Suc m = unat j div 2 ^ (DIG_SIZE - p)"
    unfolding X_def by (rule shl_high_part [OF assms v])
  let ?D = "(unat h * 2 ^ p + X div DIG_BASE ^ Suc m) mod DIG_BASE"
  have "mpn_val (mpn_shl_loop p (push_bit DIG_SIZE (ucast h)) (j # rs) acc)
      = X mod DIG_BASE ^ Suc m + DIG_BASE ^ Suc m * (?D + DIG_BASE * mpn_val acc)"
    using shl_digit [OF assms, of h j] Cons.IH [of j] X
    by (simp add: Let_def shl_carry X_def m_def)
  also have "\<dots> = (X mod DIG_BASE ^ Suc m + DIG_BASE ^ Suc m * ?D) + DIG_BASE ^ Suc (Suc m) * mpn_val acc"
    by (simp add: algebra_simps)
  also have "X mod DIG_BASE ^ Suc m + DIG_BASE ^ Suc m * ?D
      = (X + DIG_BASE ^ Suc m * (unat h * 2 ^ p)) mod (DIG_BASE ^ Suc m * DIG_BASE)"
    by (rule mod_mult_step [symmetric]) simp
  also have "X + DIG_BASE ^ Suc m * (unat h * 2 ^ p)
      = (unat h * DIG_BASE ^ Suc m + mpn_val (rev (j # rs))) * 2 ^ p"
    by (simp add: X_def m_def algebra_simps)
  finally show ?case by (simp add: m_def mult.commute)
qed

lemma mpn_shl_loop_length: "length (mpn_shl_loop p d rs acc) = Suc (length rs) + length acc"
  by (induction p d rs acc rule: mpn_shl_loop.induct) (simp_all add: Let_def)

lemma shl_count:
  fixes n :: nat
  assumes "0 < n"
  shows "n = 16 * ((n + 15) div 16 - 1) + (if n mod 16 = 0 then 16 else n mod 16)"
proof -
  define q r where "q = n div 16" and "r = n mod 16"
  have n: "n = 16 * q + r" and r: "r < 16" by (simp_all add: q_def r_def)
  have "(n + 15) div 16 = q + (r + 15) div 16" unfolding n by simp
  moreover have "(r + 15) div 16 = (if r = 0 then 0 else 1)" using r by auto
  moreover have "r = 0 \<Longrightarrow> 0 < q" using assms n by simp
  ultimately show ?thesis using n r by (auto simp: r_def [symmetric])
qed

lemma mpn_shl_val:
  assumes "0 < n" "n + 15 < 2 ^ 32"
  shows "mpn_val (fst (mpn_shl j n)) = mpn_val j * 2 ^ n"
proof -
  define w p where "w = (n + 15) div 16" and "p = (if n mod 16 = 0 then 16 else n mod 16)"
  have p: "p \<le> 16" "n = 16 * (w - 1) + p"
    using shl_count [OF assms(1)] by (simp_all add: w_def p_def less_imp_le)
  have "mpn_val j * 2 ^ p < DIG_BASE ^ length j * 2 ^ 16"
    using mpn_val_less [of j] p(1) by (intro mult_less_le_imp_less power_increasing) auto
  then have lt: "mpn_val j * 2 ^ p < DIG_BASE * DIG_BASE ^ length j" by simp
  have "mpn_val (fst (mpn_shl j n))
      = DIG_BASE ^ (w - 1) * mpn_val (mpn_shl_loop p 0 (rev j) [])"
    using assms(2) by (simp add: mpn_shl_def Let_def w_def p_def add.commute)
  also have "mpn_val (mpn_shl_loop p 0 (rev j) []) = mpn_val j * 2 ^ p"
    using mpn_shl_loop_val [OF p(1), of 0 "rev j" "[]"] lt by simp
  also have "DIG_BASE ^ (w - 1) * (mpn_val j * 2 ^ p) = mpn_val j * 2 ^ n"
  proof -
    have "(65536 :: nat) ^ (w - 1) = 2 ^ (16 * (w - 1))" by (simp add: power_mult)
    then show ?thesis by (simp add: p(2) power_add)
  qed
  finally show ?thesis .
qed

lemma mpn_shl_length:
  assumes "0 < n" "n + 15 < 2 ^ 32"
  shows "length (fst (mpn_shl j n)) = length j + (n + 15) div 16"
  using assms by (simp add: mpn_shl_def Let_def mpn_shl_loop_length)

lemma shr_digit:
  assumes "p < DIG_SIZE"
  shows "unat (dig_lo (drop_bit p (ucast (j :: dig) OR push_bit DIG_SIZE (ucast (j1 :: dig)))))
       = (unat j + DIG_BASE * (unat j1 mod 2 ^ p)) div 2 ^ p"
proof -
  let ?d = "ucast j OR push_bit DIG_SIZE (ucast j1) :: dbl"
  have h: "unat j1 * DIG_BASE < 4294967296" using unat_u16_less [of j1] by linarith
  have "push_bit DIG_SIZE (ucast j1) OR ucast j = (push_bit DIG_SIZE (ucast j1) + ucast j :: dbl)"
    using h by (intro or_eq_plus_disjoint [where n = DIG_SIZE]) (simp_all add: word_nat)
  then have "?d = push_bit DIG_SIZE (ucast j1) + ucast j" by (simp add: or.commute)
  moreover have "unat j1 * DIG_BASE + unat j < 4294967296"
    using unat_u16_less [of j1] unat_u16_less [of j] by linarith
  ultimately have d: "unat ?d = unat j + DIG_BASE * unat j1"
    using h by (simp add: unat_add_u32 word_nat)
  define q r where "q = unat j1 div 2 ^ p" and "r = unat j1 mod 2 ^ p"
  have j1: "unat j1 = r + q * 2 ^ p" by (simp only: q_def r_def mod_div_mult_eq)
  have r: "r < 2 ^ p" by (simp add: r_def)
  have "(unat j + DIG_BASE * unat j1) div 2 ^ p = (unat j + DIG_BASE * r + DIG_BASE * q * 2 ^ p) div 2 ^ p"
    by (simp add: j1 algebra_simps)
  also have "\<dots> = DIG_BASE * q + (unat j + DIG_BASE * r) div 2 ^ p" by (rule div_add_multiple) simp
  finally have "(unat j + DIG_BASE * unat j1) div 2 ^ p mod DIG_BASE = (unat j + DIG_BASE * r) div 2 ^ p mod DIG_BASE"
    by simp
  also have "\<dots> = (unat j + DIG_BASE * r) div 2 ^ p"
  proof (rule mod_less)
    have "unat j + DIG_BASE * r < DIG_BASE * (r + 1)" using unat_u16_less [of j] by simp
    also have "\<dots> \<le> DIG_BASE * 2 ^ p" using r by (intro mult_le_mono2) simp
    finally show "(unat j + DIG_BASE * r) div 2 ^ p < DIG_BASE" by (simp add: less_mult_imp_div_less)
  qed
  finally show ?thesis by (simp only: unat_dig_lo unat_drop_bit_u32 d r_def)
qed

lemma mod_digit_power:
  assumes "p < DIG_SIZE"
  shows "(x + DIG_BASE * v) mod 2 ^ p = x mod 2 ^ p"
proof -
  have "DIG_BASE = 2 ^ p * 2 ^ (DIG_SIZE - p)" using assms by (simp flip: power_add)
  then have "x + DIG_BASE * v = x + 2 ^ p * (2 ^ (DIG_SIZE - p) * v)" by (metis mult.assoc)
  then show ?thesis by (simp only: mod_mult_self2)
qed

lemma mpn_shr_loop_val:
  assumes "p < DIG_SIZE"
  shows "mpn_val (mpn_shr_loop p js) = mpn_val js div 2 ^ p"
proof (induction js rule: induct_list012)
  case 1
  then show ?case by simp
next
  case (2 j)
  have "unat j div 2 ^ p < DIG_BASE" using unat_u16_less [of j] div_le_dividend le_less_trans by blast
  then show ?case by (simp only: mpn_shr_loop.simps mpn_val.simps unat_dig_lo unat_drop_bit_u32) simp
next
  case (3 j j1 js)
  define V where "V = mpn_val (j1 # js)"
  have V: "V mod 2 ^ p = unat j1 mod 2 ^ p" by (simp only: V_def mpn_val.simps mod_digit_power [OF assms])
  have "mpn_val (mpn_shr_loop p (j # j1 # js)) = (unat j + DIG_BASE * (V mod 2 ^ p)) div 2 ^ p + DIG_BASE * (V div 2 ^ p)"
    using "3.IH"(2) shr_digit [OF assms, of j j1] V
    by (simp only: mpn_shr_loop.simps mpn_val.simps(2) [of "dig_lo _"] V_def)
  also have "\<dots> = (unat j + DIG_BASE * (V mod 2 ^ p) + DIG_BASE * (V div 2 ^ p) * 2 ^ p) div 2 ^ p"
    by (subst div_add_multiple) simp_all
  also have "unat j + DIG_BASE * (V mod 2 ^ p) + DIG_BASE * (V div 2 ^ p) * 2 ^ p = unat j + DIG_BASE * (V mod 2 ^ p + V div 2 ^ p * 2 ^ p)"
    by (simp only: distrib_left mult.assoc add.assoc)
  also have "V mod 2 ^ p + V div 2 ^ p * 2 ^ p = V" by (rule mod_div_mult_eq)
  finally show ?case by (simp add: V_def)
qed

lemma mpn_shr_loop_length: "length (mpn_shr_loop p js) = length js"
  by (induction p js rule: mpn_shr_loop.induct) simp_all

lemma mpn_val_drop: "mpn_val (drop n ds) = mpn_val ds div DIG_BASE ^ n"
proof (cases "n \<le> length ds")
  case True
  have "mpn_val (take n ds) < DIG_BASE ^ n" using mpn_val_less [of "take n ds"] True by simp
  with mpn_val_split [of ds n] True show ?thesis by simp
next
  case False
  have "mpn_val ds < DIG_BASE ^ length ds" by (rule mpn_val_less)
  also have "\<dots> \<le> DIG_BASE ^ n" using False by (intro power_increasing) simp_all
  finally show ?thesis using False by simp
qed

lemma power_shr_count: "(2 :: nat) ^ n = DIG_BASE ^ (n div 16) * 2 ^ (n mod 16)"
proof -
  have "(2 :: nat) ^ (16 * (n div 16) + n mod 16) = (2 ^ 16) ^ (n div 16) * 2 ^ (n mod 16)"
    by (simp only: power_add power_mult)
  then show ?thesis by simp
qed

lemma mpn_shr_snd_le: "snd (mpn_shr j n) \<le> length (fst (mpn_shr j n))"
  by (simp add: mpn_shr_def Let_def)

lemma mpn_shr_length: "length (fst (mpn_shr j n)) \<le> length j"
  by (simp add: mpn_shr_def Let_def mpn_shr_loop_length)

lemma mpn_shr_val: "mpn_val (take (snd (mpn_shr j n)) (fst (mpn_shr j n))) = mpn_val j div 2 ^ n"
proof (cases "length j \<le> n div 16")
  case True
  then have "mpn_val (drop (n div 16) j) = 0" by simp
  then have "mpn_val j div 2 ^ n = 0"
    by (simp add: power_shr_count [of n] div_mult2_eq mpn_val_drop)
  then show ?thesis using True by (simp add: mpn_shr_def Let_def)
next
  case False
  define i where "i = mpn_shr_loop (n mod 16) (drop (n div 16) j)"
  have ne: "i \<noteq> []"
  proof
    assume "i = []"
    then have "length i = 0" by simp
    with False show False by (simp add: i_def mpn_shr_loop_length)
  qed
  have "mpn_val i = mpn_val j div 2 ^ n"
    by (simp add: i_def mpn_shr_loop_val mpn_val_drop power_shr_count [of n] div_mult2_eq)
  moreover have "mpn_val (butlast i) = mpn_val i" if "last i = 0"
  proof -
    have "i = butlast i @ [last i]" using ne by simp
    then have "mpn_val i = mpn_val (butlast i @ [last i])" by (rule arg_cong)
    with that show ?thesis by simp
  qed
  ultimately show ?thesis using False ne
    by (simp add: mpn_shr_def Let_def i_def [symmetric] butlast_conv_take)
qed

lemma mpn_shr_normalised:
  assumes "normalised j"
  shows "normalised (take (snd (mpn_shr j n)) (fst (mpn_shr j n)))"
proof (cases "length j \<le> n div 16")
  case True
  then show ?thesis by (simp add: mpn_shr_def Let_def)
next
  case False
  define k where "k = drop (n div 16) j"
  define i where "i = mpn_shr_loop (n mod 16) k"
  define r where "r = take (snd (mpn_shr j n)) (fst (mpn_shr j n))"
  have k: "k \<noteq> []" "normalised k" using False assms by (auto simp: k_def normalised_def)
  have len: "length i = length k" by (simp add: i_def mpn_shr_loop_length)
  have r: "r = (if last i = 0 then butlast i else i)"
    using False by (simp add: r_def mpn_shr_def Let_def i_def k_def butlast_conv_take)
  have val: "mpn_val r = mpn_val k div 2 ^ (n mod 16)"
    using mpn_shr_val [of j n]
    by (simp add: r_def k_def mpn_val_drop power_shr_count [of n] div_mult2_eq)
  have "normalised r" if "last i = 0" "2 \<le> length k"
  proof -
    have "DIG_BASE ^ (length k - 2) = DIG_BASE ^ (length k - 2) * DIG_BASE div DIG_BASE" by simp
    also have "DIG_BASE ^ (length k - 2) * DIG_BASE = DIG_BASE ^ (length k - 1)"
      using that(2) by (cases "length k"; cases "length k - 1") (simp_all add: mult.commute)
    also have "DIG_BASE ^ (length k - 1) div DIG_BASE \<le> mpn_val k div DIG_BASE"
      using k by (intro div_le_mono) (simp add: normalised_iff_val)
    also have "\<dots> \<le> mpn_val k div 2 ^ (n mod 16)"
    proof (rule div_le_mono2)
      have "(2 :: nat) ^ (n mod 16) \<le> 2 ^ 16" by (intro power_increasing) simp_all
      then show "2 ^ (n mod 16) \<le> DIG_BASE" by simp
    qed simp
    finally show ?thesis using that len r val by (simp add: normalised_iff_val diff_diff_eq numeral_2_eq_2)
  qed
  moreover have "normalised r" if "length k < 2" "last i = 0"
    using that len r by (simp add: butlast_conv_take normalised_def)
  moreover have "normalised r" if "last i \<noteq> 0"
    using that r by (simp add: normalised_def)
  ultimately show ?thesis unfolding r_def by (metis not_le)
qed

section \<open>Multiplication\<close>

lemma unat_mul_acc:
  assumes "unat (c :: dbl) \<le> 65535"
  shows "unat (c + (ucast (i :: dig) + ucast (j :: dig) * ucast (k :: dig))) = unat c + unat i + unat j * unat k"
    and "unat (c + ucast j * ucast k) = unat c + unat j * unat k"
    and "unat (dig_hi (c + (ucast i + ucast j * ucast k))) \<le> 65535"
    and "unat (dig_hi (c + ucast j * ucast k)) \<le> 65535"
proof -
  have b: "unat j * unat k \<le> 4294836225" by (rule u16_mult_le)
  have i: "unat i \<le> 65535" by simp
  have m: "unat (ucast j * ucast k :: dbl) = unat j * unat k" by (rule unat_mult_ucast_16)
  have s: "unat (ucast i + ucast j * ucast k :: dbl) = unat i + unat j * unat k"
    using m b i by (simp add: unat_add_u32 del: unat_u16_le)
  show 1: "unat (c + (ucast i + ucast j * ucast k)) = unat c + unat i + unat j * unat k"
    using s b i assms by (simp add: unat_add_u32 del: unat_u16_le)
  show 2: "unat (c + ucast j * ucast k) = unat c + unat j * unat k"
    using m b assms by (simp add: unat_add_u32)
  show "unat (dig_hi (c + (ucast i + ucast j * ucast k))) \<le> 65535"
    unfolding unat_dig_hi 1 using assms b i by linarith
  show "unat (dig_hi (c + ucast j * ucast k)) \<le> 65535"
    unfolding unat_dig_hi 2 using assms b by linarith
qed

lemma ucast_carry:
  assumes "unat (c :: dbl) \<le> 65535"
  shows "unat (ucast c :: dig) = unat c" "ucast c = (0 :: dig) \<longleftrightarrow> c = 0"
  using assms by (simp_all add: word_nat word_unat_eq_iff)

lemma mpn_mul_dig_add_dig_loop_val:
  "unat carry \<le> 65535 \<Longrightarrow>
   mpn_val (mpn_mul_dig_add_dig_loop carry is dmul) = unat carry + mpn_val is * unat dmul"
proof (induction carry "is" dmul rule: mpn_mul_dig_add_dig_loop.induct)
  case (1 carry dmul)
  then show ?case by (auto simp: ucast_carry)
next
  case (2 carry i "is" dmul)
  let ?c = "carry + ucast i * ucast dmul"
  have "mpn_val (mpn_mul_dig_add_dig_loop carry (i # is) dmul)
      = unat (dig_lo ?c) + DIG_BASE * unat (dig_hi ?c) + DIG_BASE * (mpn_val is * unat dmul)"
    using "2.IH" [OF refl] unat_mul_acc(4) [OF "2.prems", of i dmul] by (simp add: Let_def)
  also have "unat (dig_lo ?c) + DIG_BASE * unat (dig_hi ?c) = unat carry + unat i * unat dmul"
    by (simp only: dig_split unat_mul_acc(2) [OF "2.prems", of i dmul])
  finally show ?case by (simp add: algebra_simps)
qed

lemma mpn_mul_dig_add_dig_loop_shape:
  "unat carry \<le> 65535 \<Longrightarrow>
   length (mpn_mul_dig_add_dig_loop carry is dmul) = length is \<or>
   length (mpn_mul_dig_add_dig_loop carry is dmul) = Suc (length is) \<and>
   last (mpn_mul_dig_add_dig_loop carry is dmul) \<noteq> 0"
proof (induction carry "is" dmul rule: mpn_mul_dig_add_dig_loop.induct)
  case (1 carry dmul)
  then show ?case by (auto simp: ucast_carry)
next
  case (2 carry i "is" dmul)
  then show ?case using unat_mul_acc(4) [OF "2.prems", of i dmul] by (auto simp: Let_def)
qed

lemma mpn_mul_dig_add_dig_val:
  "mpn_val (mpn_mul_dig_add_dig i dmul dadd) = mpn_val i * unat dmul + unat dadd"
  by (simp add: mpn_mul_dig_add_dig_def mpn_mul_dig_add_dig_loop_val)

lemma mpn_mul_dig_add_dig_length: "length (mpn_mul_dig_add_dig i dmul dadd) \<le> length i + 1"
  using mpn_mul_dig_add_dig_loop_shape [of "ucast dadd" i dmul] by (auto simp: mpn_mul_dig_add_dig_def)

lemma mpn_mul_dig_add_dig_normalised:
  assumes "normalised i" "dmul \<noteq> 0"
  shows "normalised (mpn_mul_dig_add_dig i dmul dadd)"
proof (cases "length (mpn_mul_dig_add_dig i dmul dadd) = length i")
  case True
  have "mpn_val i * 1 \<le> mpn_val i * unat dmul"
    using assms(2) by (intro mult_le_mono2) (simp add: Suc_le_eq unat_gt_0)
  then have "mpn_val i \<le> mpn_val (mpn_mul_dig_add_dig i dmul dadd)"
    by (simp only: mpn_mul_dig_add_dig_val)
  with True assms(1) show ?thesis
    unfolding normalised_iff_val by (metis le_trans length_0_conv)
next
  case False
  with mpn_mul_dig_add_dig_loop_shape [of "ucast dadd" i dmul] show ?thesis
    by (auto simp: mpn_mul_dig_add_dig_def normalised_def)
qed

text \<open>A row of the multiplication, on a buffer whose digit after the row is zero.\<close>

lemma mpn_mul_row_Some:
  assumes "length lo = length js" "unat carry \<le> 65535"
  shows "\<exists>lo' (c :: dbl). mpn_mul_row carry (lo @ 0 # zs) js k
             = Some (lo' @ ucast c # zs, length js + (if c = 0 then 0 else 1)) \<and>
           length lo' = length js \<and> unat c \<le> 65535 \<and>
           mpn_val lo' + DIG_BASE ^ length js * unat c = unat carry + mpn_val lo + mpn_val js * unat k"
  using assms
proof (induction js arbitrary: lo carry)
  case Nil
  then show ?case by - (rule exI [of _ "[]"], rule exI [of _ carry], auto)
next
  case (Cons j js)
  from Cons.prems(1) obtain i "is" where lo: "lo = i # is" and len: "length is = length js"
    by (cases lo) auto
  let ?c = "carry + (ucast i + ucast j * ucast k)"
  from Cons.IH [OF len unat_mul_acc(3) [OF Cons.prems(2), of i j k]] obtain lo' and c :: dbl where
    row: "mpn_mul_row (dig_hi ?c) (is @ 0 # zs) js k
        = Some (lo' @ ucast c # zs, length js + (if c = 0 then 0 else 1))"
    and lo': "length lo' = length js" and c: "unat c \<le> 65535"
    and val: "mpn_val lo' + DIG_BASE ^ length js * unat c
        = unat (dig_hi ?c) + mpn_val is + mpn_val js * unat k"
    by blast
  have "mpn_val (dig_lo ?c # lo') + DIG_BASE ^ length (j # js) * unat c
      = unat (dig_lo ?c) + DIG_BASE * (mpn_val lo' + DIG_BASE ^ length js * unat c)"
    by (simp add: algebra_simps)
  also have "\<dots> = (unat (dig_lo ?c) + DIG_BASE * unat (dig_hi ?c)) + DIG_BASE * (mpn_val is + mpn_val js * unat k)"
    by (simp only: val distrib_left add.assoc)
  also have "unat (dig_lo ?c) + DIG_BASE * unat (dig_hi ?c) = unat ?c" by (rule dig_split)
  also have "unat ?c + DIG_BASE * (mpn_val is + mpn_val js * unat k)
      = unat carry + mpn_val lo + mpn_val (j # js) * unat k"
    using unat_mul_acc(1) [OF Cons.prems(2), of i j k] by (simp add: lo algebra_simps)
  finally show ?case using row lo' c
    by - (rule exI [of _ "dig_lo ?c # lo'"], rule exI [of _ c], simp add: lo Let_def)
qed

lemma mpn_mul_loop_Some:
  assumes "length lo = length j" "j \<noteq> []" "ks \<noteq> []" "length ks \<le> length zs" "set zs \<subseteq> {0}"
  shows "\<exists>r n. mpn_mul_loop (lo @ zs) j ks = Some (r, n) \<and>
     length r = length lo + length zs \<and> mpn_val r = mpn_val lo + mpn_val j * mpn_val ks \<and>
     n \<le> length r \<and> set (drop n r) \<subseteq> {0} \<and>
     (Suc n = length j + length ks \<or> n = length j + length ks \<and> r ! (n - 1) \<noteq> 0)"
  using assms
proof (induction "lo @ zs" j ks arbitrary: lo zs rule: mpn_mul_loop.induct)
  case (2 j k)
  then obtain zs' where zs: "zs = 0 # zs'" "set zs' \<subseteq> {0}" by (cases zs) auto
  from mpn_mul_row_Some [OF "2.prems"(1), of 0 zs' k] obtain lo' and c :: dbl where
    row: "mpn_mul_row 0 (lo @ zs) j k = Some (lo' @ ucast c # zs', length j + (if c = 0 then 0 else 1))"
    and lo': "length lo' = length j" and c: "unat c \<le> 65535"
    and val: "mpn_val lo' + DIG_BASE ^ length j * unat c = mpn_val lo + mpn_val j * unat k"
    by (auto simp: zs)
  have zs0: "zs' = replicate (length zs') 0" using zs(2) by (intro replicate_eqI) auto
  have "mpn_val zs' = 0" by (subst zs0) (rule mpn_val_replicate_0)
  then show ?case using row lo' val "2.prems"(1) zs ucast_carry [OF c]
    by (auto simp: nth_append)
next
  case (3 j k k1 ks)
  then obtain zs' where zs: "zs = 0 # zs'" "set zs' \<subseteq> {0}" by (cases zs) auto
  from mpn_mul_row_Some [OF "3.prems"(1), of 0 zs' k] obtain lo' and c :: dbl where
    row: "mpn_mul_row 0 (lo @ zs) j k = Some (lo' @ ucast c # zs', length j + (if c = 0 then 0 else 1))"
    and lo': "length lo' = length j" and c: "unat c \<le> 65535"
    and val: "mpn_val lo' + DIG_BASE ^ length j * unat c = mpn_val lo + mpn_val j * unat k"
    by (auto simp: zs)
  from lo' "3.prems"(2) obtain d ds where d: "lo' = d # ds" by (cases lo') auto
  let ?lo = "ds @ [ucast c]"
  have "\<exists>r n. mpn_mul_loop (?lo @ zs') j (k1 # ks) = Some (r, n) \<and>
     length r = length ?lo + length zs' \<and> mpn_val r = mpn_val ?lo + mpn_val j * mpn_val (k1 # ks) \<and>
     n \<le> length r \<and> set (drop n r) \<subseteq> {0} \<and>
     (Suc n = length j + length (k1 # ks) \<or> n = length j + length (k1 # ks) \<and> r ! (n - 1) \<noteq> 0)"
    by (rule "3.hyps" [OF row]) (use "3.prems" lo' d zs in auto)
  then obtain r n where loop: "mpn_mul_loop (?lo @ zs') j (k1 # ks) = Some (r, n)"
    and r: "length r = length ?lo + length zs'" "mpn_val r = mpn_val ?lo + mpn_val j * mpn_val (k1 # ks)"
      "n \<le> length r" "set (drop n r) \<subseteq> {0}"
      "Suc n = length j + length (k1 # ks) \<or> n = length j + length (k1 # ks) \<and> r ! (n - 1) \<noteq> 0"
    by blast
  have "mpn_val (d # r) = mpn_val lo + mpn_val j * mpn_val (k # k1 # ks)"
  proof -
    have "mpn_val (d # r) = (mpn_val lo' + DIG_BASE ^ length j * unat c) + DIG_BASE * (mpn_val j * mpn_val (k1 # ks))"
      using ucast_carry [OF c] by (simp add: r(2) d algebra_simps flip: lo')
    then show ?thesis by (simp only: val) (simp add: algebra_simps)
  qed
  moreover have "mpn_mul_loop (lo @ zs) j (k # k1 # ks) = Some (d # r, Suc n)"
    using row loop by (simp add: d)
  moreover have "(d # r) ! (Suc n - 1) = r ! (n - 1)" if "n = length j + length (k1 # ks)"
    using that by (cases n) auto
  ultimately show ?case using r "3.prems"(1) zs d lo' by fastforce
qed simp

text \<open>\<open>mpn_mul\<close> into a zeroed buffer with room for \<open>jlen + klen\<close> digits.\<close>

lemma mpn_mul_zeroed:
  assumes "j \<noteq> []" "k \<noteq> []" "length j + length k \<le> m"
  shows "\<exists>r n. mpn_mul (replicate m 0) j k = Some (r, n) \<and> length r = m \<and> n \<le> m \<and>
     mpn_val (take n r) = mpn_val j * mpn_val k \<and>
     (normalised j \<longrightarrow> normalised k \<longrightarrow> normalised (take n r))"
proof -
  let ?lo = "replicate (length j) (0 :: dig)" and ?zs = "replicate (m - length j) (0 :: dig)"
  have "\<exists>r n. mpn_mul_loop (?lo @ ?zs) j k = Some (r, n) \<and>
     length r = length ?lo + length ?zs \<and> mpn_val r = mpn_val ?lo + mpn_val j * mpn_val k \<and>
     n \<le> length r \<and> set (drop n r) \<subseteq> {0} \<and>
     (Suc n = length j + length k \<or> n = length j + length k \<and> r ! (n - 1) \<noteq> 0)"
    using assms by (intro mpn_mul_loop_Some) auto
  moreover have "?lo @ ?zs = replicate m 0" using assms(3) by (simp flip: replicate_add)
  ultimately obtain r n where loop: "mpn_mul (replicate m 0) j k = Some (r, n)"
    and len: "length r = m" "n \<le> m" and val: "mpn_val r = mpn_val j * mpn_val k"
    and zero: "set (drop n r) \<subseteq> {0}"
    and n: "Suc n = length j + length k \<or> n = length j + length k \<and> r ! (n - 1) \<noteq> 0"
    using assms(3) by (fastforce simp: mpn_mul_def)
  have "drop n r = replicate (length (drop n r)) 0" using zero by (intro replicate_eqI) auto
  then have "mpn_val (drop n r) = 0" by (metis mpn_val_replicate_0)
  then have take: "mpn_val (take n r) = mpn_val j * mpn_val k" using mpn_val_split [of r n] val by simp
  have "normalised (take n r)" if nj: "normalised j" and nk: "normalised k"
    using n
  proof
    assume Suc: "Suc n = length j + length k"
    have "DIG_BASE ^ (n - 1) = DIG_BASE ^ (length j - 1) * DIG_BASE ^ (length k - 1)"
      using Suc assms(1,2) by (cases j; cases k) (simp_all flip: power_add)
    also have "\<dots> \<le> mpn_val j * mpn_val k"
      using nj nk assms(1,2) by (intro mult_mono) (simp_all add: normalised_iff_val)
    finally show ?thesis using len take by (simp add: normalised_iff_val)
  next
    assume "n = length j + length k \<and> r ! (n - 1) \<noteq> 0"
    then show ?thesis using len assms(1) by (auto simp: normalised_def last_conv_nth)
  qed
  then show ?thesis using loop len take by blast
qed

end
