(* ===== verification/Mpn_Bitwise.thy ===== *)
theory Mpn_Bitwise
  imports Mpn
begin

text \<open>
  The bitwise operations of the digit-array layer (\<open>mpn_and_neg\<close>, \<open>mpn_or_neg\<close>,
  \<open>mpn_xor_neg\<close> of \<open>src/py/mpz.c\<close>), and their correctness: on signed operands they compute
  the conjunction, disjunction and exclusive or of the integers in infinite two's complement.
\<close>

section \<open>The operations\<close>

text \<open>
  The bitwise operations on signed operands, in the form compiled without
  \<open>MICROPY_OPT_MPZ_BITWISE\<close> (the default, which the esp32 port keeps). An operand with carry 1
  and mask \<open>DIG_MASK\<close> is read in two's complement. \<open>klen\<close> is decremented past zero, an
  unsigned wrap, once \<open>k\<close> is exhausted, and from then on its mask stands for its digits.
\<close>

definition mpn_mask :: "dbl \<Rightarrow> dig" where
  "mpn_mask carry = (if carry = 0 then 0 else ucast DIG_MASK)"

fun mpn_and_neg_loop ::
  "dig \<Rightarrow> dig \<Rightarrow> dig \<Rightarrow> dbl \<Rightarrow> dbl \<Rightarrow> dbl \<Rightarrow> dig list \<Rightarrow> dig list \<Rightarrow> dig list" where
  "mpn_and_neg_loop imask jmask kmask carryi carryj carryk [] ks =
     (if carryi \<noteq> 0 then [ucast carryi] else [])"
| "mpn_and_neg_loop imask jmask kmask carryi carryj carryk (j # js) ks =
     (let carryj = carryj + ucast (j XOR jmask);
          carryk = carryk + ucast (case ks of [] \<Rightarrow> kmask | k # _ \<Rightarrow> k XOR kmask);
          carryi = carryi + (((carryj AND carryk) XOR ucast imask) AND DIG_MASK)
      in dig_lo carryi #
         mpn_and_neg_loop imask jmask kmask (dig_hi carryi) (dig_hi carryj) (dig_hi carryk) js (tl ks))"

definition mpn_and_neg :: "dig list \<Rightarrow> dig list \<Rightarrow> dbl \<Rightarrow> dbl \<Rightarrow> dbl \<Rightarrow> dig list \<times> nat" where
  "mpn_and_neg j k carryi carryj carryk =
     (let i = mpn_and_neg_loop (mpn_mask carryi) (mpn_mask carryj) (mpn_mask carryk)
                carryi carryj carryk j k
      in (i, mpn_remove_trailing_zeros i))"

fun mpn_or_neg_loop ::
  "dig \<Rightarrow> dig \<Rightarrow> dig \<Rightarrow> dbl \<Rightarrow> dbl \<Rightarrow> dbl \<Rightarrow> dig list \<Rightarrow> dig list \<Rightarrow> dig list option" where
  \<comment> \<open>\<open>None\<close>: the final \<open>assert(carryi == 0)\<close> fails\<close>
  "mpn_or_neg_loop imask jmask kmask carryi carryj carryk [] ks =
     (if carryi = 0 then Some [] else None)"
| "mpn_or_neg_loop imask jmask kmask carryi carryj carryk (j # js) ks =
     (let carryj = carryj + ucast (j XOR jmask);
          carryk = carryk + ucast (case ks of [] \<Rightarrow> kmask | k # _ \<Rightarrow> k XOR kmask);
          carryi = carryi + (((carryj OR carryk) XOR ucast imask) AND DIG_MASK)
      in map_option ((#) (dig_lo carryi))
         (mpn_or_neg_loop imask jmask kmask (dig_hi carryi) (dig_hi carryj) (dig_hi carryk) js (tl ks)))"

definition mpn_or_neg :: "dig list \<Rightarrow> dig list \<Rightarrow> dbl \<Rightarrow> dbl \<Rightarrow> dbl \<Rightarrow> (dig list \<times> nat) option" where
  "mpn_or_neg j k carryi carryj carryk =
     map_option (\<lambda>i. (i, mpn_remove_trailing_zeros i))
       (mpn_or_neg_loop (mpn_mask carryi) (mpn_mask carryj) (mpn_mask carryk)
          carryi carryj carryk j k)"

fun mpn_xor_neg_loop :: "dbl \<Rightarrow> dbl \<Rightarrow> dbl \<Rightarrow> dig list \<Rightarrow> dig list \<Rightarrow> dig list" where
  "mpn_xor_neg_loop carryi carryj carryk [] ks = (if carryi \<noteq> 0 then [ucast carryi] else [])"
| "mpn_xor_neg_loop carryi carryj carryk (j # js) ks =
     (let carryj = carryj + (ucast j + DIG_MASK);
          carryk = carryk + (case ks of [] \<Rightarrow> DIG_MASK | k # _ \<Rightarrow> ucast k + DIG_MASK);
          carryi = carryi + ((carryj XOR carryk) AND DIG_MASK)
      in dig_lo carryi #
         mpn_xor_neg_loop (dig_hi carryi) (dig_hi carryj) (dig_hi carryk) js (tl ks))"

definition mpn_xor_neg :: "dig list \<Rightarrow> dig list \<Rightarrow> dbl \<Rightarrow> dbl \<Rightarrow> dbl \<Rightarrow> dig list \<times> nat" where
  "mpn_xor_neg j k carryi carryj carryk =
     (let i = mpn_xor_neg_loop carryi carryj carryk j k in (i, mpn_remove_trailing_zeros i))"

section \<open>Digit-wise operations on the numbers\<close>

lemma nat_split_bits:
  fixes a v :: nat
  assumes "a < 2 ^ n"
  shows "take_bit n (a + 2 ^ n * v) = a" "drop_bit n (a + 2 ^ n * v) = v"
  using assms by (simp_all add: take_bit_eq_mod drop_bit_eq_div)

lemma nat_and_split:
  fixes a b v w :: nat
  assumes "a < 2 ^ n" "b < 2 ^ n"
  shows "(a + 2 ^ n * v) AND (b + 2 ^ n * w) = (a AND b) + 2 ^ n * (v AND w)" (is "?x = _")
proof -
  have "?x = take_bit n ?x + 2 ^ n * drop_bit n ?x"
    by (simp only: take_bit_eq_mod drop_bit_eq_div mod_mult_div_eq)
  then show ?thesis using assms by (simp only: take_bit_and drop_bit_and nat_split_bits)
qed

lemma nat_or_split:
  fixes a b v w :: nat
  assumes "a < 2 ^ n" "b < 2 ^ n"
  shows "(a + 2 ^ n * v) OR (b + 2 ^ n * w) = (a OR b) + 2 ^ n * (v OR w)" (is "?x = _")
proof -
  have "?x = take_bit n ?x + 2 ^ n * drop_bit n ?x"
    by (simp only: take_bit_eq_mod drop_bit_eq_div mod_mult_div_eq)
  then show ?thesis using assms by (simp only: take_bit_or drop_bit_or nat_split_bits)
qed

lemma nat_xor_split:
  fixes a b v w :: nat
  assumes "a < 2 ^ n" "b < 2 ^ n"
  shows "(a + 2 ^ n * v) XOR (b + 2 ^ n * w) = (a XOR b) + 2 ^ n * (v XOR w)" (is "?x = _")
proof -
  have "?x = take_bit n ?x + 2 ^ n * drop_bit n ?x"
    by (simp only: take_bit_eq_mod drop_bit_eq_div mod_mult_div_eq)
  then show ?thesis using assms by (simp only: take_bit_xor drop_bit_xor nat_split_bits)
qed

lemma mpn_val_map2_and:
  "length xs = length ys \<Longrightarrow> mpn_val (map2 (AND) xs ys) = mpn_val xs AND mpn_val ys"
proof (induction xs ys rule: list_induct2)
  case (Cons x xs y ys)
  then show ?case using nat_and_split [of "unat x" 16 "unat y"] by (simp add: unsigned_and_eq)
qed simp

lemma mpn_val_map2_or:
  "length xs = length ys \<Longrightarrow> mpn_val (map2 (OR) xs ys) = mpn_val xs OR mpn_val ys"
proof (induction xs ys rule: list_induct2)
  case (Cons x xs y ys)
  then show ?case using nat_or_split [of "unat x" 16 "unat y"] by (simp add: unsigned_or_eq)
qed simp

lemma mpn_val_map2_xor:
  "length xs = length ys \<Longrightarrow> mpn_val (map2 (XOR) xs ys) = mpn_val xs XOR mpn_val ys"
proof (induction xs ys rule: list_induct2)
  case (Cons x xs y ys)
  then show ?case using nat_xor_split [of "unat x" 16 "unat y"] by (simp add: unsigned_xor_eq)
qed simp

section \<open>Two's complement digit streams\<close>

text \<open>What the loops feed through each carry: \<open>(d ^ mask) + carry\<close>, digit by digit.\<close>

fun tc_digits :: "dig \<Rightarrow> dbl \<Rightarrow> dig list \<Rightarrow> dig list" where
  "tc_digits m c [] = []"
| "tc_digits m c (d # ds) =
     dig_lo (c + ucast (d XOR m)) # tc_digits m (dig_hi (c + ucast (d XOR m))) ds"

fun tc_carry :: "dig \<Rightarrow> dbl \<Rightarrow> dig list \<Rightarrow> dbl" where
  "tc_carry m c [] = c"
| "tc_carry m c (d # ds) = tc_carry m (dig_hi (c + ucast (d XOR m))) ds"

lemma length_tc_digits [simp]: "length (tc_digits m c ds) = length ds"
  by (induction m c ds rule: tc_digits.induct) simp_all

lemma unat_tc_sum:
  assumes "unat (c :: dbl) \<le> 1"
  shows "unat (c + ucast (d :: dig)) = unat c + unat d" "unat (dig_hi (c + ucast d)) \<le> 1"
proof -
  show 1: "unat (c + ucast d) = unat c + unat d"
    using assms unat_u16_less [of d] by (simp add: unat_add_u32 del: unat_u16_less)
  show "unat (dig_hi (c + ucast d)) \<le> 1"
    unfolding unat_dig_hi 1 using assms unat_u16_less [of d] by linarith
qed

lemma tc_pos: "unat c \<le> 1 \<Longrightarrow>
    mpn_val (tc_digits 0 c ds) + DIG_BASE ^ length ds * unat (tc_carry 0 c ds) = mpn_val ds + unat c"
proof (induction ds arbitrary: c)
  case (Cons d ds)
  have "mpn_val (tc_digits 0 c (d # ds)) + DIG_BASE ^ length (d # ds) * unat (tc_carry 0 c (d # ds))
      = unat (dig_lo (c + ucast d)) + DIG_BASE * (mpn_val ds + unat (dig_hi (c + ucast d)))"
    using Cons.IH [OF unat_tc_sum(2) [OF Cons.prems, of d]] by (simp add: algebra_simps)
  also have "\<dots> = (unat (dig_lo (c + ucast d)) + DIG_BASE * unat (dig_hi (c + ucast d))) + DIG_BASE * mpn_val ds"
    by simp
  also have "unat (dig_lo (c + ucast d)) + DIG_BASE * unat (dig_hi (c + ucast d)) = unat c + unat d"
    by (simp only: dig_split unat_tc_sum(1) [OF Cons.prems])
  finally show ?case by simp
qed simp

lemma unat_xor_mask: "unat ((d :: dig) XOR 0xFFFF) = 65535 - unat d"
proof -
  have m: "(0xFFFF :: dig) = - 1" by simp
  have "d XOR 0xFFFF = - 1 - d" unfolding m by (simp add: not_eq_complement)
  moreover have "unat (- 1 - d) = unat (- 1 :: dig) - unat d" by (rule unat_sub) simp
  moreover have "unat (- 1 :: dig) = 65535" unfolding m [symmetric] by simp
  ultimately show ?thesis by metis
qed

lemma tc_neg: "unat c \<le> 1 \<Longrightarrow>
    mpn_val (tc_digits 0xFFFF c ds) + DIG_BASE ^ length ds * unat (tc_carry 0xFFFF c ds) + mpn_val ds + 1
      = DIG_BASE ^ length ds + unat c"
proof (induction ds arbitrary: c)
  case (Cons d ds)
  let ?c = "c + ucast (d XOR 0xFFFF)"
  have "mpn_val (tc_digits 0xFFFF c (d # ds)) + DIG_BASE ^ length (d # ds) * unat (tc_carry 0xFFFF c (d # ds))
         + mpn_val (d # ds) + 1
      = unat (dig_lo ?c) + unat d + 1 + DIG_BASE * (mpn_val (tc_digits 0xFFFF (dig_hi ?c) ds)
         + DIG_BASE ^ length ds * unat (tc_carry 0xFFFF (dig_hi ?c) ds) + mpn_val ds)"
    by (simp add: algebra_simps)
  also have "\<dots> + DIG_BASE = (unat (dig_lo ?c) + DIG_BASE * unat (dig_hi ?c)) + unat d + 1 + DIG_BASE ^ length (d # ds)"
    using Cons.IH [OF unat_tc_sum(2) [OF Cons.prems, of "d XOR 0xFFFF"]] by simp
  also have "unat (dig_lo ?c) + DIG_BASE * unat (dig_hi ?c) = unat c + (65535 - unat d)"
    by (simp only: dig_split unat_tc_sum(1) [OF Cons.prems] unat_xor_mask)
  finally show ?case using unat_u16_less [of d] by (simp del: unat_u16_less)
qed simp

text \<open>The stream \<open>d + (BASE - 1) + carry\<close> of the exclusive or: the operand, less one without carry.\<close>

fun dec_digits :: "dbl \<Rightarrow> dig list \<Rightarrow> dig list" where
  "dec_digits c [] = []"
| "dec_digits c (d # ds) =
     dig_lo (c + (ucast d + DIG_MASK)) # dec_digits (dig_hi (c + (ucast d + DIG_MASK))) ds"

lemma length_dec_digits [simp]: "length (dec_digits c ds) = length ds"
  by (induction c ds rule: dec_digits.induct) simp_all

lemma unat_dec_sum:
  assumes "unat (c :: dbl) \<le> 1"
  shows "unat (c + (ucast (d :: dig) + DIG_MASK)) = unat c + unat d + 65535"
    "unat (dig_hi (c + (ucast d + DIG_MASK))) \<le> 1"
proof -
  have 0: "unat (ucast d + DIG_MASK :: dbl) = unat d + 65535"
    using unat_u16_less [of d] by (simp add: unat_add_u32 del: unat_u16_less)
  show 1: "unat (c + (ucast d + DIG_MASK)) = unat c + unat d + 65535"
    using unat_add_u32 [of c "ucast d + DIG_MASK"] assms unat_u16_less [of d] 0 by linarith
  show "unat (dig_hi (c + (ucast d + DIG_MASK))) \<le> 1"
    unfolding unat_dig_hi 1 using assms unat_u16_less [of d] by linarith
qed

lemma dec_digits_val: "unat c \<le> 1 \<Longrightarrow>
    \<exists>q. mpn_val (dec_digits c ds) + DIG_BASE ^ length ds * q + 1 = DIG_BASE ^ length ds + mpn_val ds + unat c"
proof (induction ds arbitrary: c)
  case (Cons d ds)
  let ?c = "c + (ucast d + DIG_MASK)"
  obtain q where q: "mpn_val (dec_digits (dig_hi ?c) ds) + DIG_BASE ^ length ds * q + 1
      = DIG_BASE ^ length ds + mpn_val ds + unat (dig_hi ?c)"
    using Cons.IH [OF unat_dec_sum(2) [OF Cons.prems, of d]] by blast
  have "mpn_val (dec_digits c (d # ds)) + DIG_BASE ^ length (d # ds) * q + 1 + DIG_BASE
      = unat (dig_lo ?c) + 1 + DIG_BASE * (mpn_val (dec_digits (dig_hi ?c) ds) + DIG_BASE ^ length ds * q + 1)"
    by (simp add: algebra_simps)
  also have "\<dots> = (unat (dig_lo ?c) + DIG_BASE * unat (dig_hi ?c)) + 1 + DIG_BASE ^ length (d # ds) + DIG_BASE * mpn_val ds"
    unfolding q by simp
  also have "unat (dig_lo ?c) + DIG_BASE * unat (dig_hi ?c) = unat c + unat d + 65535"
    by (simp only: dig_split unat_dec_sum(1) [OF Cons.prems])
  finally show ?case by (intro exI [of _ q]) simp
qed (rule exI, simp)

section \<open>The loops on streams\<close>

abbreviation zero_pad :: "dig list \<Rightarrow> dig list \<Rightarrow> dig list" where
  "zero_pad js ks \<equiv> ks @ replicate (length js - length ks) 0"

abbreviation carry_digit :: "dbl \<Rightarrow> dig list" where
  "carry_digit c \<equiv> (if c \<noteq> 0 then [ucast c] else [])"

lemma and_step:
  "(((x AND y) XOR ucast m) AND DIG_MASK :: dbl) = ucast ((dig_lo x AND dig_lo y) XOR m)"
  by (rule bit_word_eqI) (auto simp: and_mask_take_bit_16 dig_lo_def bit_simps dest: bit_imp_le_length)

lemma or_step:
  "(((x OR y) XOR ucast m) AND DIG_MASK :: dbl) = ucast ((dig_lo x OR dig_lo y) XOR m)"
  by (rule bit_word_eqI) (auto simp: and_mask_take_bit_16 dig_lo_def bit_simps dest: bit_imp_le_length)

lemma xor_step: "((x XOR y) AND DIG_MASK :: dbl) = ucast ((dig_lo x XOR dig_lo y) XOR 0)"
  by (rule bit_word_eqI) (auto simp: and_mask_take_bit_16 dig_lo_def bit_simps dest: bit_imp_le_length)

lemma mpn_and_neg_loop_stream:
  "length ks \<le> length js \<Longrightarrow>
   mpn_and_neg_loop mi mj mk ci cj ck js ks =
     (let xs = map2 (AND) (tc_digits mj cj js) (tc_digits mk ck (zero_pad js ks))
      in tc_digits mi ci xs @ carry_digit (tc_carry mi ci xs))"
proof (induction mi mj mk ci cj ck js ks rule: mpn_and_neg_loop.induct)
  case (2 mi mj mk ci cj ck j js ks)
  then show ?case by (cases ks) (simp_all add: Let_def and_step)
qed simp

lemma mpn_or_neg_loop_stream:
  "length ks \<le> length js \<Longrightarrow>
   mpn_or_neg_loop mi mj mk ci cj ck js ks =
     (let xs = map2 (OR) (tc_digits mj cj js) (tc_digits mk ck (zero_pad js ks))
      in if tc_carry mi ci xs = 0 then Some (tc_digits mi ci xs) else None)"
proof (induction mi mj mk ci cj ck js ks rule: mpn_or_neg_loop.induct)
  case (2 mi mj mk ci cj ck j js ks)
  then show ?case by (cases ks) (simp_all add: Let_def or_step)
qed simp

lemma mpn_xor_neg_loop_stream:
  "length ks \<le> length js \<Longrightarrow>
   mpn_xor_neg_loop ci cj ck js ks =
     (let xs = map2 (XOR) (dec_digits cj js) (dec_digits ck (zero_pad js ks))
      in tc_digits 0 ci xs @ carry_digit (tc_carry 0 ci xs))"
proof (induction ci cj ck js ks rule: mpn_xor_neg_loop.induct)
  case (2 ci cj ck j js ks)
  then show ?case by (cases ks) (simp_all add: Let_def xor_step)
qed simp

section \<open>Signed operands\<close>

definition sval :: "bool \<Rightarrow> nat \<Rightarrow> int" where
  "sval neg v = (if neg then - int v else int v)"

lemma tc_id: "tc_digits 0 0 ds = ds" "tc_carry 0 0 ds = 0"
proof -
  have "tc_digits 0 0 ds = ds \<and> tc_carry 0 0 ds = 0"
  proof (induction ds)
    case (Cons d ds)
    have "dig_lo (ucast d) = d" "dig_hi (ucast d) = 0"
      by (rule bit_word_eqI, auto simp: dig_lo_def dig_hi_def and_mask_take_bit_16 bit_simps dest: bit_imp_le_length)+
    with Cons show ?case by simp
  qed simp
  then show "tc_digits 0 0 ds = ds" "tc_carry 0 0 ds = 0" by auto
qed

lemma tc_digits_val:
  assumes "ng \<longrightarrow> mpn_val ds \<noteq> 0"
  shows "int (mpn_val (tc_digits (mpn_mask (of_bool ng)) (of_bool ng) ds))
    = take_bit (16 * length ds) (sval ng (mpn_val ds))"
proof (cases ng)
  case True
  let ?t = "mpn_val (tc_digits 0xFFFF 1 ds)" and ?q = "unat (tc_carry 0xFFFF 1 ds)"
  have b: "(2 :: nat) ^ (16 * length ds) = DIG_BASE ^ length ds" by (simp add: power_mult)
  have eq: "?t + DIG_BASE ^ length ds * ?q + mpn_val ds = DIG_BASE ^ length ds"
    using tc_neg [of 1 ds] by simp
  with assms True have "?q = 0" by (cases ?q) auto
  then have "?t + mpn_val ds = DIG_BASE ^ length ds" using eq by simp
  then have "int ?t + int (mpn_val ds) = int (DIG_BASE ^ length ds)"
    by (simp only: of_nat_add [symmetric])
  then have "int ?t = - int (mpn_val ds) + int (DIG_BASE ^ length ds)" by linarith
  moreover have "?t < DIG_BASE ^ length ds" using eq \<open>?q = 0\<close> assms True by simp
  ultimately have "int ?t = (- int (mpn_val ds)) mod int (DIG_BASE ^ length ds)"
    by (metis mod_add_self2 mod_pos_pos_trivial of_nat_0_le_iff of_nat_less_iff)
  then show ?thesis using True
    by (simp add: mpn_mask_def sval_def take_bit_eq_mod power_mult)
next
  case False
  have "tc_digits 0 0 ds = ds" by (rule tc_id)
  moreover have "mpn_val ds < DIG_BASE ^ length ds" by (rule mpn_val_less)
  ultimately show ?thesis using False
    by (simp add: mpn_mask_def sval_def take_bit_eq_mod power_mult)
qed

lemma dec_digits_val_sval:
  assumes "ng \<longrightarrow> mpn_val ds \<noteq> 0"
  shows "mpn_val (dec_digits (of_bool (\<not> ng)) ds) = (if ng then mpn_val ds - 1 else mpn_val ds)"
proof -
  let ?t = "mpn_val (dec_digits (of_bool (\<not> ng)) ds)" and ?B = "DIG_BASE ^ length ds"
  have c: "unat (of_bool (\<not> ng) :: dbl) = of_bool (\<not> ng)" by simp
  obtain q where "?t + ?B * q + 1 = ?B + mpn_val ds + of_bool (\<not> ng)"
    using dec_digits_val [of "of_bool (\<not> ng)" ds] unfolding c by (cases ng) auto
  then have eq: "?t + ?B * q = ?B + (if ng then mpn_val ds - 1 else mpn_val ds)"
    using assms by (auto split: if_splits)
  have "?t < ?B" using mpn_val_less [of "dec_digits (of_bool (\<not> ng)) ds"] by simp
  moreover have "(if ng then mpn_val ds - 1 else mpn_val ds) < ?B"
    using mpn_val_less [of ds] by auto
  moreover have "(?t + ?B * q) mod ?B = (?B + (if ng then mpn_val ds - 1 else mpn_val ds)) mod ?B"
    by (simp only: eq)
  ultimately show ?thesis by (simp only: mod_mult_self2 mod_add_self1 mod_less)
qed

lemma and_int_nonneg_bounds:
  fixes a b :: int
  assumes "0 \<le> a" "a < 2 ^ n"
  shows "0 \<le> a AND b" "a AND b < 2 ^ n"
proof -
  show "0 \<le> a AND b" using assms by simp
  have "take_bit n (a AND b) = a AND b"
  proof (rule bit_eqI)
    fix i show "bit (take_bit n (a AND b)) i = bit (a AND b) i"
      using assms take_bit_int_eq_self [of a n] by (metis bit_and_iff bit_take_bit_iff)
  qed
  then show "a AND b < 2 ^ n" by (metis take_bit_int_less_exp)
qed

lemma neg_int_bits:
  fixes a :: int
  assumes "a < 0" "- (2 ^ n) \<le> a"
  shows "drop_bit n a = - 1"
proof -
  have "a div 2 ^ n < 0" using assms(1) by (simp add: pos_imp_zdiv_neg_iff)
  moreover have "- 1 \<le> a div 2 ^ n"
    using zdiv_mono1 [OF assms(2), of "2 ^ n"] by (simp add: zdiv_zminus1_eq_if)
  ultimately show ?thesis by (simp add: drop_bit_eq_div)
qed

lemma neg_int_and_bounds:
  fixes a b :: int
  assumes "a < 0" "- (2 ^ n) \<le> a" "b < 0" "- (2 ^ n) \<le> b"
  shows "a AND b < 0" "- (2 ^ n) \<le> a AND b"
proof -
  show "a AND b < 0" using assms by simp
  have "drop_bit n (a AND b) = - 1" using assms by (simp add: drop_bit_and neg_int_bits)
  then show "- (2 ^ n) \<le> a AND b"
    using mult_div_mod_eq [of "2 ^ n" "a AND b"] pos_mod_sign [of "2 ^ n" "a AND b"]
    unfolding drop_bit_eq_div by (simp del: mult_div_mod_eq pos_mod_sign)
qed

lemma or_int_ge:
  fixes a b :: int
  assumes "a < 0"
  shows "a \<le> a OR b" "a OR b < 0"
proof -
  have eq: "a OR b = NOT (NOT a AND NOT b)" by simp
  have n: "0 \<le> NOT a" using assms by simp
  have "NOT a AND NOT b \<le> NOT a" using n by (rule AND_upper1)
  then have "NOT (NOT a) \<le> NOT (NOT a AND NOT b)" by (simp only: not_int_def)
  then show "a \<le> a OR b" by (simp only: eq) simp
  show "a OR b < 0" using assms by simp
qed

lemma or_int_nonneg_bounds:
  fixes a b :: int
  assumes "0 \<le> a" "a < 2 ^ n" "0 \<le> b" "b < 2 ^ n"
  shows "0 \<le> a OR b" "a OR b < 2 ^ n"
proof -
  show "0 \<le> a OR b" using assms by simp
  have "take_bit n (a OR b) = a OR b"
    using assms by (simp add: take_bit_or take_bit_int_eq_self)
  then show "a OR b < 2 ^ n" by (metis take_bit_int_less_exp)
qed

lemma mpn_val_carry_digit:
  "unat c \<le> 1 \<Longrightarrow> mpn_val (ds @ carry_digit c) = mpn_val ds + DIG_BASE ^ length ds * unat c"
  by (simp add: unat_ucast_32_16)

lemma sval_bounds:
  assumes "v < DIG_BASE ^ n" "ng \<longrightarrow> v \<noteq> 0"
  shows "ng \<Longrightarrow> sval ng v < 0" "ng \<Longrightarrow> - (2 ^ (16 * n)) < sval ng v"
    "\<not> ng \<Longrightarrow> 0 \<le> sval ng v" "\<not> ng \<Longrightarrow> sval ng v < 2 ^ (16 * n)"
proof -
  have "int v < 2 ^ (16 * n)" using assms(1) by (simp add: power_mult)
  then show "ng \<Longrightarrow> sval ng v < 0" "ng \<Longrightarrow> - (2 ^ (16 * n)) < sval ng v"
    "\<not> ng \<Longrightarrow> 0 \<le> sval ng v" "\<not> ng \<Longrightarrow> sval ng v < 2 ^ (16 * n)"
    using assms(2) by (simp_all add: sval_def)
qed

lemma take_bit_neg:
  fixes a :: int
  assumes "a < 0" "- (2 ^ n) \<le> a"
  shows "take_bit n a = a + 2 ^ n"
proof -
  have "a mod 2 ^ n = (a + 2 ^ n) mod 2 ^ n" by simp
  also have "\<dots> = a + 2 ^ n" using assms by (intro mod_pos_pos_trivial) auto
  finally show ?thesis by (simp only: take_bit_eq_mod)
qed

lemma tc_final_neg:
  fixes xs :: "dig list"
  shows "mpn_val (tc_digits 0xFFFF 1 xs @ carry_digit (tc_carry 0xFFFF 1 xs)) + mpn_val xs = DIG_BASE ^ length xs"
    "0 < mpn_val xs \<Longrightarrow> tc_carry 0xFFFF 1 xs = 0"
proof -
  let ?c = "tc_carry 0xFFFF 1 xs"
  have eq: "mpn_val (tc_digits 0xFFFF 1 xs) + DIG_BASE ^ length xs * unat ?c + mpn_val xs = DIG_BASE ^ length xs"
    using tc_neg [of 1 xs] by simp
  then have "DIG_BASE ^ length xs * unat ?c \<le> DIG_BASE ^ length xs * 1" by linarith
  then have c: "unat ?c \<le> 1" by (simp only: mult_le_cancel1) simp
  show "mpn_val (tc_digits 0xFFFF 1 xs @ carry_digit ?c) + mpn_val xs = DIG_BASE ^ length xs"
    using eq mpn_val_carry_digit [OF c, of "tc_digits 0xFFFF 1 xs"] by simp
  show "?c = 0" if "0 < mpn_val xs"
  proof -
    have "DIG_BASE ^ length xs * unat ?c < DIG_BASE ^ length xs * 1" using eq that by linarith
    then have "unat ?c = 0" by (simp only: mult_less_cancel1) simp
    then show ?thesis by (simp add: unat_eq_zero)
  qed
qed

lemma tc_final_inc:
  "mpn_val (tc_digits 0 1 xs @ carry_digit (tc_carry 0 1 xs)) = mpn_val xs + 1"
proof -
  let ?c = "tc_carry 0 1 xs"
  have eq: "mpn_val (tc_digits 0 1 xs) + DIG_BASE ^ length xs * unat ?c = mpn_val xs + 1"
    using tc_pos [of 1 xs] by simp
  then have "DIG_BASE ^ length xs * unat ?c \<le> DIG_BASE ^ length xs * 1"
    using mpn_val_less [of xs] by linarith
  then have c: "unat ?c \<le> 1" by (simp only: mult_le_cancel1) simp
  show ?thesis using eq mpn_val_carry_digit [OF c, of "tc_digits 0 1 xs"] by simp
qed

lemma pad_bounds:
  assumes "length k \<le> length j"
  shows "mpn_val j < DIG_BASE ^ length j" "mpn_val k < DIG_BASE ^ length j"
  using mpn_val_less [of j] mpn_val_less [of "zero_pad j k"] assms by simp_all

lemma mpn_and_neg_loop_val:
  assumes "length k \<le> length j" "jn \<longrightarrow> mpn_val j \<noteq> 0" "kn \<longrightarrow> mpn_val k \<noteq> 0"
  shows "sval (jn \<and> kn) (mpn_val (mpn_and_neg_loop (mpn_mask (of_bool (jn \<and> kn))) (mpn_mask (of_bool jn))
      (mpn_mask (of_bool kn)) (of_bool (jn \<and> kn)) (of_bool jn) (of_bool kn) j k))
    = sval jn (mpn_val j) AND sval kn (mpn_val k)" (is "sval _ (mpn_val ?loop) = ?J AND ?K")
proof -
  let ?m = "\<lambda>b. mpn_mask (of_bool b)" and ?N = "16 * length j"
  define xs where "xs = map2 (AND) (tc_digits (?m jn) (of_bool jn) j) (tc_digits (?m kn) (of_bool kn) (zero_pad j k))"
  have len: "length xs = length j" using assms(1) by (simp add: xs_def)
  have X: "int (mpn_val xs) = take_bit ?N (?J AND ?K)"
    using tc_digits_val [of jn j] tc_digits_val [of kn "zero_pad j k"] assms
    by (simp add: xs_def mpn_val_map2_and of_nat_and_eq take_bit_and)
  note bJ = sval_bounds [OF pad_bounds(1) [OF assms(1)] assms(2)]
    and bK = sval_bounds [OF pad_bounds(2) [OF assms(1)] assms(3)]
  have loop: "?loop = tc_digits (?m (jn \<and> kn)) (of_bool (jn \<and> kn)) xs
      @ carry_digit (tc_carry (?m (jn \<and> kn)) (of_bool (jn \<and> kn)) xs)"
    using mpn_and_neg_loop_stream [OF assms(1)] by (simp add: xs_def Let_def)
  show ?thesis
  proof (cases "jn \<and> kn")
    case True
    have "?J AND ?K < 0" "- (2 ^ ?N) \<le> ?J AND ?K"
      using neg_int_and_bounds [of ?J ?N ?K] bJ bK True by auto
    then have x: "int (mpn_val xs) = (?J AND ?K) + 2 ^ ?N" unfolding X by (rule take_bit_neg)
    have m: "mpn_mask 1 = 0xFFFF" "(of_bool (jn \<and> kn) :: dbl) = 1"
      using True by (simp_all add: mpn_mask_def)
    have "mpn_val ?loop + mpn_val xs = DIG_BASE ^ length xs"
      unfolding loop unfolding m by (rule tc_final_neg(1))
    then have "int (mpn_val ?loop) + int (mpn_val xs) = 2 ^ ?N"
      unfolding of_nat_add [symmetric] by (simp add: len power_mult)
    then show ?thesis using True x by (simp add: sval_def)
  next
    case False
    have b: "0 \<le> ?J AND ?K" "?J AND ?K < 2 ^ ?N"
      using and_int_nonneg_bounds [of ?J ?N ?K] and_int_nonneg_bounds [of ?K ?N ?J] bJ bK False
      by (auto simp: and.commute)
    have m: "mpn_mask 0 = 0" "(of_bool (jn \<and> kn) :: dbl) = 0"
      using False by (auto simp add: mpn_mask_def)
    have "?loop = xs" unfolding loop unfolding m by (simp add: tc_id)
    moreover have "int (mpn_val xs) = ?J AND ?K" unfolding X using b by (rule take_bit_int_eq_self)
    moreover have "sval (jn \<and> kn) (mpn_val xs) = int (mpn_val xs)" using False by (auto simp: sval_def)
    ultimately show ?thesis by (simp only:)
  qed
qed

lemma mpn_or_neg_loop_val:
  assumes "length k \<le> length j" "jn \<longrightarrow> mpn_val j \<noteq> 0" "kn \<longrightarrow> mpn_val k \<noteq> 0"
  shows "\<exists>i. mpn_or_neg_loop (mpn_mask (of_bool (jn \<or> kn))) (mpn_mask (of_bool jn))
      (mpn_mask (of_bool kn)) (of_bool (jn \<or> kn)) (of_bool jn) (of_bool kn) j k = Some i
    \<and> length i = length j
    \<and> sval (jn \<or> kn) (mpn_val i) = sval jn (mpn_val j) OR sval kn (mpn_val k)"
    (is "\<exists>i. ?loop = Some i \<and> _ \<and> _ = ?J OR ?K")
proof -
  let ?m = "\<lambda>b. mpn_mask (of_bool b)" and ?N = "16 * length j"
  define xs where "xs = map2 (OR) (tc_digits (?m jn) (of_bool jn) j) (tc_digits (?m kn) (of_bool kn) (zero_pad j k))"
  have len: "length xs = length j" using assms(1) by (simp add: xs_def)
  have X: "int (mpn_val xs) = take_bit ?N (?J OR ?K)"
    using tc_digits_val [of jn j] tc_digits_val [of kn "zero_pad j k"] assms
    by (simp add: xs_def mpn_val_map2_or of_nat_or_eq take_bit_or)
  note bJ = sval_bounds [OF pad_bounds(1) [OF assms(1)] assms(2)]
    and bK = sval_bounds [OF pad_bounds(2) [OF assms(1)] assms(3)]
  have loop: "?loop = (if tc_carry (?m (jn \<or> kn)) (of_bool (jn \<or> kn)) xs = 0
      then Some (tc_digits (?m (jn \<or> kn)) (of_bool (jn \<or> kn)) xs) else None)"
    using mpn_or_neg_loop_stream [OF assms(1)] by (simp add: xs_def Let_def)
  show ?thesis
  proof (cases "jn \<or> kn")
    case True
    have b: "?J OR ?K < 0" "- (2 ^ ?N) < ?J OR ?K"
      using or_int_ge [of ?J ?K] or_int_ge [of ?K ?J] bJ bK True by (auto simp: or.commute)
    then have x: "int (mpn_val xs) = (?J OR ?K) + 2 ^ ?N" unfolding X by (intro take_bit_neg) auto
    with b have c: "tc_carry 0xFFFF 1 xs = 0" by (intro tc_final_neg(2)) linarith
    have "int (mpn_val (tc_digits 0xFFFF 1 xs)) + int (mpn_val xs) = 2 ^ ?N"
      using tc_final_neg(1) [of xs] c unfolding of_nat_add [symmetric] by (simp add: len power_mult)
    then show ?thesis using True x c loop len by (simp add: sval_def mpn_mask_def)
  next
    case False
    have b: "0 \<le> ?J OR ?K" "?J OR ?K < 2 ^ ?N"
      using or_int_nonneg_bounds [of ?J ?N ?K] bJ bK False by auto
    have "?loop = Some xs" using False loop by (simp add: mpn_mask_def tc_id)
    moreover have "int (mpn_val xs) = ?J OR ?K" unfolding X using b by (rule take_bit_int_eq_self)
    moreover have "sval (jn \<or> kn) (mpn_val xs) = int (mpn_val xs)" using False by (simp add: sval_def)
    ultimately show ?thesis using len by - (rule exI [of _ xs], simp only: simp_thms)
  qed
qed

lemma mpn_xor_neg_loop_val:
  assumes "length k \<le> length j" "jn \<longrightarrow> mpn_val j \<noteq> 0" "kn \<longrightarrow> mpn_val k \<noteq> 0"
  shows "sval (jn \<noteq> kn) (mpn_val (mpn_xor_neg_loop (of_bool (jn \<noteq> kn)) (of_bool (\<not> jn)) (of_bool (\<not> kn)) j k))
    = sval jn (mpn_val j) XOR sval kn (mpn_val k)" (is "sval _ (mpn_val ?loop) = ?J XOR ?K")
proof -
  define xs where "xs = map2 (XOR) (dec_digits (of_bool (\<not> jn)) j) (dec_digits (of_bool (\<not> kn)) (zero_pad j k))"
  let ?dec = "\<lambda>b v. if b then v - 1 else v :: nat"
  have X: "mpn_val xs = ?dec jn (mpn_val j) XOR ?dec kn (mpn_val k)"
    using dec_digits_val_sval [of jn j] dec_digits_val_sval [of kn "zero_pad j k"] assms
    by (simp add: xs_def mpn_val_map2_xor)
  have m: "int (v - 1) = NOT (- int v)" if "v \<noteq> 0" for v using that by (simp add: not_int_def)
  have loop: "?loop = tc_digits 0 (of_bool (jn \<noteq> kn)) xs @ carry_digit (tc_carry 0 (of_bool (jn \<noteq> kn)) xs)"
    using mpn_xor_neg_loop_stream [OF assms(1)] by (simp add: xs_def Let_def)
  have "int (mpn_val xs) = (if jn \<noteq> kn then NOT (?J XOR ?K) else ?J XOR ?K)"
    unfolding X of_nat_xor_eq using assms(2,3)
    by (cases jn; cases kn) (simp_all only: m sval_def if_True if_False simp_thms bit.xor_compl_left
        bit.xor_compl_right bit.double_compl)
  moreover have "mpn_val ?loop = mpn_val xs + of_bool (jn \<noteq> kn)"
    using loop tc_final_inc [of xs] by (cases "jn \<noteq> kn") (auto simp: tc_id)
  ultimately show ?thesis by (auto simp: sval_def not_int_def split: if_splits)
qed

section \<open>Correctness of the bitwise operations\<close>

lemma length_mpn_and_neg_loop:
  "length (mpn_and_neg_loop mi mj mk ci cj ck js ks) \<le> length js + 1"
  by (induction mi mj mk ci cj ck js ks rule: mpn_and_neg_loop.induct) (simp_all add: Let_def)

lemma length_mpn_and_neg_loop_0:
  "length ks \<le> length js \<Longrightarrow> length (mpn_and_neg_loop 0 mj mk 0 cj ck js ks) = length js"
  by (simp add: mpn_and_neg_loop_stream Let_def tc_id)

lemma length_mpn_xor_neg_loop: "length (mpn_xor_neg_loop ci cj ck js ks) \<le> length js + 1"
  by (induction ci cj ck js ks rule: mpn_xor_neg_loop.induct) (simp_all add: Let_def)

lemma length_mpn_xor_neg_loop_0:
  "length ks \<le> length js \<Longrightarrow> length (mpn_xor_neg_loop 0 cj ck js ks) = length js"
  by (simp add: mpn_xor_neg_loop_stream Let_def tc_id)

lemma mpn_and_neg_correct:
  assumes "length k \<le> length j" "jn \<longrightarrow> mpn_val j \<noteq> 0" "kn \<longrightarrow> mpn_val k \<noteq> 0"
    "mpn_and_neg j k (of_bool (jn \<and> kn)) (of_bool jn) (of_bool kn) = (i, n)"
  shows "sval (jn \<and> kn) (mpn_val (take n i)) = sval jn (mpn_val j) AND sval kn (mpn_val k)"
    "normalised (take n i)" "n \<le> length i" "length i \<le> length j + of_bool (jn \<and> kn)"
proof -
  have i: "i = mpn_and_neg_loop (mpn_mask (of_bool (jn \<and> kn))) (mpn_mask (of_bool jn))
      (mpn_mask (of_bool kn)) (of_bool (jn \<and> kn)) (of_bool jn) (of_bool kn) j k"
    and n: "n = mpn_remove_trailing_zeros i"
    using assms(4) by (auto simp only: mpn_and_neg_def Let_def prod.inject)
  note strip = mpn_strip_zeros [OF n]
  show "sval (jn \<and> kn) (mpn_val (take n i)) = sval jn (mpn_val j) AND sval kn (mpn_val k)"
    unfolding strip(1) unfolding i by (rule mpn_and_neg_loop_val [OF assms(1-3)])
  show "normalised (take n i)" "n \<le> length i" by (rule strip)+
  show "length i \<le> length j + of_bool (jn \<and> kn)"
    using length_mpn_and_neg_loop [of _ _ _ _ _ _ j k] length_mpn_and_neg_loop_0 [OF assms(1)] i
    by (cases "jn \<and> kn") (auto simp: mpn_mask_def)
qed

lemma mpn_or_neg_correct:
  assumes "length k \<le> length j" "jn \<longrightarrow> mpn_val j \<noteq> 0" "kn \<longrightarrow> mpn_val k \<noteq> 0"
  shows "\<exists>i n. mpn_or_neg j k (of_bool (jn \<or> kn)) (of_bool jn) (of_bool kn) = Some (i, n)
    \<and> sval (jn \<or> kn) (mpn_val (take n i)) = sval jn (mpn_val j) OR sval kn (mpn_val k)
    \<and> normalised (take n i) \<and> n \<le> length i \<and> length i = length j"
proof -
  obtain i where "mpn_or_neg_loop (mpn_mask (of_bool (jn \<or> kn))) (mpn_mask (of_bool jn))
      (mpn_mask (of_bool kn)) (of_bool (jn \<or> kn)) (of_bool jn) (of_bool kn) j k = Some i"
    "length i = length j" "sval (jn \<or> kn) (mpn_val i) = sval jn (mpn_val j) OR sval kn (mpn_val k)"
    using mpn_or_neg_loop_val [OF assms] by blast
  then show ?thesis using mpn_strip_zeros [OF refl, of i]
    by - (rule exI [of _ i], rule exI [of _ "mpn_remove_trailing_zeros i"], simp only: mpn_or_neg_def option.map simp_thms)
qed

lemma mpn_xor_neg_correct:
  assumes "length k \<le> length j" "jn \<longrightarrow> mpn_val j \<noteq> 0" "kn \<longrightarrow> mpn_val k \<noteq> 0"
    "mpn_xor_neg j k (of_bool (jn \<noteq> kn)) (of_bool (\<not> jn)) (of_bool (\<not> kn)) = (i, n)"
  shows "sval (jn \<noteq> kn) (mpn_val (take n i)) = sval jn (mpn_val j) XOR sval kn (mpn_val k)"
    "normalised (take n i)" "n \<le> length i" "length i \<le> length j + of_bool (jn \<noteq> kn)"
proof -
  have i: "i = mpn_xor_neg_loop (of_bool (jn \<noteq> kn)) (of_bool (\<not> jn)) (of_bool (\<not> kn)) j k"
    and n: "n = mpn_remove_trailing_zeros i"
    using assms(4) by (auto simp only: mpn_xor_neg_def Let_def prod.inject)
  note strip = mpn_strip_zeros [OF n]
  show "sval (jn \<noteq> kn) (mpn_val (take n i)) = sval jn (mpn_val j) XOR sval kn (mpn_val k)"
    unfolding strip(1) unfolding i by (rule mpn_xor_neg_loop_val [OF assms(1-3)])
  show "normalised (take n i)" "n \<le> length i" by (rule strip)+
  show "length i \<le> length j + of_bool (jn \<noteq> kn)"
    using length_mpn_xor_neg_loop [of _ _ _ j k] length_mpn_xor_neg_loop_0 [OF assms(1)] i
    by (cases "jn \<noteq> kn") auto
qed

end
