(* ===== verification/Mpn_Div.thy ===== *)
theory Mpn_Div
  imports Mpn
begin

text \<open>
  The division routine of the digit-array layer (\<open>mpn_div\<close> of \<open>src/py/mpz.c\<close>), in the form
  compiled when a digit is exactly half of a double digit, as on the esp32 port. The numerator
  buffer is overwritten with the remainder, the quotient digits are written into a second buffer.
  The routine is proved to compute quotient and remainder whenever no partial numerator starts
  with the leading digit of the normalised denominator, and always for denominators of at most
  two digits. The remaining case overflows the borrow accumulator.
\<close>

section \<open>The operation\<close>

text \<open>Count the leading zeros of the leading digit. Not returning (a zero digit) is \<open>None\<close>.\<close>

partial_function (option) mpn_div_count :: "dig \<Rightarrow> nat \<Rightarrow> nat option" where
  "mpn_div_count d norm_shift =
     (if d AND DIG_MSB = 0 then mpn_div_count (push_bit 1 d) (Suc norm_shift) else Some norm_shift)"

text \<open>Shift the numerator, digit by digit from the least significant one.\<close>

fun mpn_div_shl :: "nat \<Rightarrow> dig \<Rightarrow> dig list \<Rightarrow> dig list" where
  "mpn_div_shl norm_shift carry [] = []"
| "mpn_div_shl norm_shift carry (n # ns) =
     ucast ((push_bit norm_shift (ucast n) OR ucast carry :: dbl) AND DIG_MASK)
       # mpn_div_shl norm_shift (ucast (drop_bit (DIG_SIZE - norm_shift) (ucast n :: dbl))) ns"

text \<open>The leading digit of the denominator, normalised.\<close>

definition mpn_div_lead :: "nat \<Rightarrow> dig list \<Rightarrow> dbl" where
  "mpn_div_lead norm_shift den =
     (let lead = push_bit norm_shift (ucast (den ! (length den - 1)))
      in if length den \<ge> 2
         then lead OR drop_bit (DIG_SIZE - norm_shift) (ucast (den ! (length den - 2)))
         else lead)"

text \<open>Multiply \<open>quo\<close> by the denominator and subtract it from a segment of the numerator.\<close>

definition mpn_div_sub_digit :: "dig \<Rightarrow> dbl \<Rightarrow> dbl \<Rightarrow> dig \<times> dbl" where
  "mpn_div_sub_digit n x borrow =
     (if ucast n \<le> x \<or> ucast n - x \<le> borrow then
        let borrow = borrow + (x - ucast n)
        in (ucast (- borrow AND DIG_MASK),
            drop_bit DIG_SIZE borrow + (if borrow AND DIG_MASK = 0 then 0 else 1))
      else (ucast ((ucast n - x - borrow) AND DIG_MASK), 0))"

fun mpn_div_sub :: "nat \<Rightarrow> dbl \<Rightarrow> dbl \<Rightarrow> dbl \<Rightarrow> dig list \<Rightarrow> dig list \<Rightarrow> dig list \<times> dbl" where
  "mpn_div_sub norm_shift quo d_norm borrow (n # ns) (d # ds) =
     (let d_norm = push_bit norm_shift (ucast d) OR drop_bit DIG_SIZE d_norm;
          x = quo * (d_norm AND DIG_MASK);
          (n', borrow) = mpn_div_sub_digit n x borrow;
          (ns', borrow) = mpn_div_sub norm_shift quo d_norm borrow ns ds
      in (n' # ns', borrow))"
| "mpn_div_sub norm_shift quo d_norm borrow ns _ = (ns, borrow)"

text \<open>Add the denominator back to the segment.\<close>

fun mpn_div_add :: "nat \<Rightarrow> dbl \<Rightarrow> dbl \<Rightarrow> dig list \<Rightarrow> dig list \<Rightarrow> dig list \<times> dbl" where
  "mpn_div_add norm_shift d_norm carry (n # ns) (d # ds) =
     (let d_norm = push_bit norm_shift (ucast d) OR drop_bit DIG_SIZE d_norm;
          carry = carry + (ucast n + (d_norm AND DIG_MASK));
          (ns', carry') = mpn_div_add norm_shift d_norm (drop_bit DIG_SIZE carry) ns ds
      in (ucast (carry AND DIG_MASK) # ns', carry'))"
| "mpn_div_add norm_shift d_norm carry ns _ = (ns, carry)"

text \<open>The loop \<open>for (; borrow != 0; --quo)\<close>. Not returning is \<open>None\<close>.\<close>

partial_function (option) mpn_div_fix :: "nat \<Rightarrow> dig list \<Rightarrow> dbl \<Rightarrow> dbl \<Rightarrow> dig list \<Rightarrow> (dbl \<times> dig list) option" where
  "mpn_div_fix norm_shift den borrow quo seg =
     (if borrow \<noteq> 0 then
        (let (seg, carry) = mpn_div_add norm_shift 0 0 seg den
         in mpn_div_fix norm_shift den (borrow - carry) (quo - 1) seg)
      else Some (quo, seg))"

text \<open>
  The main loop. Its first number is \<open>*num_len - den_len\<close>, so that in the body \<open>num_dig\<close>
  points to digit \<open>den_len + m\<close> of the numerator and \<open>quo_dig\<close> to digit \<open>m\<close> of the quotient;
  a store past the quotient buffer is \<open>None\<close>.
\<close>

fun mpn_div_loop :: "nat \<Rightarrow> dbl \<Rightarrow> dig list \<Rightarrow> nat \<Rightarrow> dig list \<Rightarrow> dig list \<Rightarrow> (dig list \<times> dig list) option" where
  "mpn_div_loop norm_shift lead den 0 num quo_dig = Some (num, quo_dig)"
| "mpn_div_loop norm_shift lead den (Suc m) num quo_dig =
     (let den_len = length den;
          quo = (push_bit DIG_SIZE (ucast (num ! (den_len + m))) OR ucast (num ! (den_len + m - 1))) div lead;
          (seg, borrow) = mpn_div_sub norm_shift quo 0 0 (take den_len (drop m num)) den
      in case mpn_div_fix norm_shift den (borrow - ucast (num ! (den_len + m))) quo seg of
           None \<Rightarrow> None
         | Some (quo, seg) \<Rightarrow>
             if m < length quo_dig then
               mpn_div_loop norm_shift lead den m (take m num @ seg @ drop (m + den_len) num)
                 (quo_dig[m := ucast (quo AND DIG_MASK)])
             else None)"

text \<open>Unnormalise the remainder: from the most significant digit downwards.\<close>

fun mpn_div_shr :: "nat \<Rightarrow> dig \<Rightarrow> dig list \<Rightarrow> dig list \<Rightarrow> dig list" where
  "mpn_div_shr norm_shift carry [] acc = acc"
| "mpn_div_shr norm_shift carry (n # rs) acc =
     mpn_div_shr norm_shift (ucast (push_bit (DIG_SIZE - norm_shift) (ucast n :: dbl))) rs
       (ucast ((drop_bit norm_shift (ucast n) OR ucast carry :: dbl) AND DIG_MASK) # acc)"

text \<open>
  The whole routine, on the numerator buffer with its length, the denominator and the quotient
  buffer; it returns the two buffers and lengths. \<open>None\<close> is a store past a buffer or a loop
  that does not return.
\<close>

definition mpn_div :: "dig list \<Rightarrow> nat \<Rightarrow> dig list \<Rightarrow> dig list \<Rightarrow> (dig list \<times> nat \<times> dig list \<times> nat) option" where
  "mpn_div num num_len den quo_dig =
     (let cmp = mpn_cmp (take num_len num) den
      in if cmp = 0 then
           if quo_dig = [] then None else Some (num, 0, quo_dig[0 := 1], 1)
         else if cmp < 0 then Some (num, num_len, quo_dig, 0)
         else if length num \<le> num_len then None
         else case mpn_div_count (den ! (length den - 1)) 0 of
           None \<Rightarrow> None
         | Some norm_shift \<Rightarrow>
             (let num = mpn_div_shl norm_shift 0 (take num_len num @ [0]) @ drop (Suc num_len) num;
                  quo_len = Suc num_len - length den
              in case mpn_div_loop norm_shift (mpn_div_lead norm_shift den) den quo_len num quo_dig of
                   None \<Rightarrow> None
                 | Some (num, quo_dig) \<Rightarrow>
                     (let num = mpn_div_shr norm_shift 0 (rev (take (length den) num)) [] @ drop (length den) num
                      in Some (num, mpn_remove_trailing_zeros (take (length den) num),
                               quo_dig, mpn_remove_trailing_zeros (take quo_len quo_dig)))))"

declare mpn_div_count.simps [code] mpn_div_fix.simps [code]

section \<open>Shifting the operands\<close>

lemma and_msb_0: "(d :: dig) AND DIG_MSB = 0 \<longleftrightarrow> unat d < 32768"
proof -
  have "d AND DIG_MSB = 0 \<longleftrightarrow> \<not> bit d 15"
    using and_exp_eq_0_iff_not_bit [of d 15] by simp
  also have "bit d 15 \<longleftrightarrow> odd (unat d div 32768)"
  proof -
    have "bit d 15 = bit (unat d) 15" by (simp add: bit_unsigned_iff)
    then show ?thesis by (simp add: bit_iff_odd [of "unat d"])
  qed
  also have "\<not> odd (unat d div 32768) \<longleftrightarrow> unat d < 32768"
  proof -
    have "unat d div 32768 < 2" using unat_u16_less [of d] by linarith
    then have "unat d div 32768 = 0 \<or> unat d div 32768 = 1" by linarith
    then show ?thesis by (auto simp: div_eq_0_iff)
  qed
  finally show ?thesis .
qed

lemma mpn_div_count_Some:
  assumes "0 < unat d" "unat d < 65536"
  shows "\<exists>s. mpn_div_count d n = Some (n + s) \<and> s < 16 \<and> 32768 \<le> unat d * 2 ^ s \<and> unat d * 2 ^ s < 65536"
  using assms
proof (induction "65536 - unat d" arbitrary: d n rule: less_induct)
  case less
  have msb: "d AND DIG_MSB = 0 \<longleftrightarrow> unat d < 32768" by (rule and_msb_0)
  show ?case
  proof (cases "unat d < 32768")
    case True
    have p: "unat (push_bit 1 d) = 2 * unat d"
      using True by (simp only: unsigned_push_bit_eq) (simp add: take_bit_eq_mod push_bit_eq_mult)
    have "65536 - unat (push_bit 1 d) < 65536 - unat d" using p True less.prems by linarith
    then obtain s where "mpn_div_count (push_bit 1 d) (Suc n) = Some (Suc n + s)" "s < 16"
      "32768 \<le> unat (push_bit 1 d) * 2 ^ s" "unat (push_bit 1 d) * 2 ^ s < 65536"
      using less(1) [of "push_bit 1 d" "Suc n"] less.prems True unfolding p by auto
    moreover have "Suc s < 16"
    proof (rule ccontr)
      assume "\<not> Suc s < 16"
      then have "(2 :: nat) ^ 15 \<le> 2 ^ s" by (intro power_increasing) simp_all
      then have "2 * 2 ^ 15 \<le> unat (push_bit 1 d) * 2 ^ s"
        using p less.prems by (intro mult_mono) simp_all
      with \<open>unat (push_bit 1 d) * 2 ^ s < 65536\<close> show False by simp
    qed
    ultimately show ?thesis using True msb p
      by (intro exI [of _ "Suc s"]) (simp add: mpn_div_count.simps [of d])
  next
    case False
    then show ?thesis using less.prems msb
      by (intro exI [of _ 0]) (simp add: mpn_div_count.simps [of d])
  qed
qed

lemma unat_or_shifted:
  fixes a c :: dbl
  assumes "unat a * 2 ^ s < 4294967296" "unat c < 2 ^ s"
  shows "unat (push_bit s a OR c) = unat a * 2 ^ s + unat c"
proof -
  have 1: "unat (push_bit s a) = unat a * 2 ^ s" using assms(1) by (simp add: unat_push_bit_u32)
  have "push_bit s a OR c = push_bit s a + c"
    using assms(2) by (intro or_eq_plus_disjoint [of _ s]) (simp_all only: 1 mod_mult_self2_is_0)
  moreover have "unat a * 2 ^ s + unat c < 4294967296"
  proof (cases "s \<le> 32")
    case True
    have e: "(2 :: nat) ^ s * 2 ^ (32 - s) = 4294967296" using True by (simp add: power_add [symmetric])
    have "unat a * 2 ^ s < 2 ^ (32 - s) * 2 ^ s" using assms(1) e by (simp add: mult.commute)
    then have "Suc (unat a) \<le> 2 ^ (32 - s)" by simp
    then have "Suc (unat a) * 2 ^ s \<le> 2 ^ (32 - s) * 2 ^ s" by (rule mult_right_mono) simp
    then show ?thesis using assms(2) e by (simp add: mult.commute)
  next
    case False
    then have "(2 :: nat) ^ 32 \<le> 2 ^ s" by (intro power_increasing) simp_all
    then have "unat a = 0" using assms(1) by (cases "unat a") auto
    then show ?thesis by simp
  qed
  ultimately show ?thesis by (simp add: unat_add_u32 1)
qed

lemma shifted_digit:
  fixes d :: dig and c :: dbl
  assumes "s < 16" "unat c < 2 ^ s"
  shows "unat (push_bit s (ucast d) OR c) = unat d * 2 ^ s + unat c"
    "(unat d * 2 ^ s + unat c) div DIG_BASE = unat d div 2 ^ (16 - s)"
    "(unat d * 2 ^ s + unat c) div DIG_BASE < 2 ^ s"
proof -
  have s15: "(2 :: nat) ^ s \<le> 2 ^ 15" using assms(1) by (intro power_increasing) simp_all
  have "unat d * 2 ^ s \<le> 65535 * 2 ^ 15"
    using s15 by (intro mult_mono) simp_all
  then show "unat (push_bit s (ucast d) OR c) = unat d * 2 ^ s + unat c"
    using unat_or_shifted [of "ucast d" s c] assms(2) by simp
  have e: "DIG_BASE = 2 ^ s * 2 ^ (16 - s)" using assms(1) by (simp add: power_add [symmetric])
  have "(unat d * 2 ^ s + unat c) div 2 ^ s = unat d" using assms(2) by simp
  then show eq: "(unat d * 2 ^ s + unat c) div DIG_BASE = unat d div 2 ^ (16 - s)"
    by (simp only: e div_mult2_eq)
  have "unat d < 2 ^ s * 2 ^ (16 - s)" unfolding e [symmetric] by simp
  then show "(unat d * 2 ^ s + unat c) div DIG_BASE < 2 ^ s"
    unfolding eq by (simp add: less_mult_imp_div_less)
qed

lemma shifted_digits_step:
  fixes d V k s c :: nat
  shows "((d + DIG_BASE * V) * 2 ^ s + c) mod DIG_BASE ^ Suc k
    = (d * 2 ^ s + c) mod DIG_BASE + DIG_BASE * ((V * 2 ^ s + (d * 2 ^ s + c) div DIG_BASE) mod DIG_BASE ^ k)"
  using mod_mult_step [of DIG_BASE "d * 2 ^ s + c" "V * 2 ^ s" "DIG_BASE ^ k"] by (simp add: algebra_simps)

lemma mpn_div_shl_val:
  assumes "s < 16" "unat carry < 2 ^ s"
  shows "mpn_val (mpn_div_shl s carry ns) = (mpn_val ns * 2 ^ s + unat carry) mod DIG_BASE ^ length ns"
  using assms(2)
proof (induction ns arbitrary: carry)
  case (Cons n ns)
  note sd = shifted_digit [OF assms(1), of "ucast carry" n, simplified, OF Cons.prems]
  let ?c = "ucast (drop_bit (DIG_SIZE - s) (ucast n :: dbl)) :: dig"
  have "unat n div 2 ^ (16 - s) < DIG_BASE" using unat_u16_less [of n] by (meson div_le_dividend le_less_trans)
  then have c: "unat ?c = (unat n * 2 ^ s + unat carry) div DIG_BASE"
    by (simp only: unat_ucast_32_16 unat_drop_bit_u32 unat_ucast_16_32 sd(2)) simp
  have "unat (ucast ((push_bit s (ucast n) OR ucast carry :: dbl) AND DIG_MASK) :: dig)
      = (unat n * 2 ^ s + unat carry) mod DIG_BASE"
    by (simp only: unat_ucast_32_16 unat_and_mask_16 sd(1)) simp
  with Cons.IH [of ?c] sd(3) show ?case
    by (simp only: mpn_div_shl.simps mpn_val.simps c list.size shifted_digits_step add_0_right add_Suc_right)
qed simp

lemma mpn_div_shl_length [simp]: "length (mpn_div_shl s carry ns) = length ns"
  by (induction s carry ns rule: mpn_div_shl.induct) simp_all

text \<open>The digits of the normalised denominator, as the two inner loops produce them on the fly.\<close>

fun den_norm :: "nat \<Rightarrow> dbl \<Rightarrow> dig list \<Rightarrow> dig list" where
  "den_norm s d_norm [] = []"
| "den_norm s d_norm (d # ds) =
     (let d_norm = push_bit s (ucast d) OR drop_bit DIG_SIZE d_norm
      in dig_lo d_norm # den_norm s d_norm ds)"

lemma length_den_norm [simp]: "length (den_norm s d_norm ds) = length ds"
  by (induction s d_norm ds rule: den_norm.induct) (simp_all add: Let_def)

lemma den_norm_val:
  assumes "s < 16" "unat d_norm div DIG_BASE < 2 ^ s"
  shows "mpn_val (den_norm s d_norm ds) = (mpn_val ds * 2 ^ s + unat d_norm div DIG_BASE) mod DIG_BASE ^ length ds"
  using assms(2)
proof (induction ds arbitrary: d_norm)
  case (Cons d ds)
  let ?d = "push_bit s (ucast d) OR drop_bit DIG_SIZE d_norm"
  have u: "unat (drop_bit DIG_SIZE d_norm) = unat d_norm div DIG_BASE" by (simp only: unat_drop_bit_u32) simp
  note sd = shifted_digit [OF assms(1), of "drop_bit DIG_SIZE d_norm" d, unfolded u, OF Cons.prems]
  have "unat ?d div DIG_BASE < 2 ^ s" by (simp only: sd(1,3))
  from Cons.IH [OF this] show ?case
    by (simp only: den_norm.simps Let_def mpn_val.simps unat_dig_lo sd(1) list.size shifted_digits_step
        add_0_right add_Suc_right)
qed simp

section \<open>One step of the long division\<close>

lemma unat_add_diff_u32:
  fixes b x n :: dbl
  assumes "unat n \<le> unat b + unat x" "unat b + unat x < 4294967296 + unat n"
  shows "unat (b + (x - n)) = unat b + unat x - unat n"
proof -
  have "uint (b + (x - n)) = (uint b + (uint x - uint n)) mod 4294967296"
    by (simp add: uint_word_ariths mod_simps)
  also have "\<dots> = uint b + (uint x - uint n)"
  proof (rule mod_pos_pos_trivial)
    show "0 \<le> uint b + (uint x - uint n)" unfolding uint_nat using assms by linarith
    show "uint b + (uint x - uint n) < 4294967296" unfolding uint_nat using assms by linarith
  qed
  finally have "int (unat (b + (x - n))) = int (unat b) + (int (unat x) - int (unat n))"
    by (simp only: uint_nat)
  then show ?thesis using assms(1) by linarith
qed

lemma unat_minus_u32: "unat (- b :: dbl) = (if unat b = 0 then 0 else 4294967296 - unat b)"
proof (cases "unat b = 0")
  case False
  have "(unat b + unat (- b)) mod 4294967296 = 0" using unat_word_ariths(1) [of b "- b"] by simp
  then have "4294967296 dvd unat b + unat (- b)" by (simp only: dvd_eq_mod_eq_0)
  then obtain k where k: "unat b + unat (- b) = 4294967296 * k" by (elim dvdE)
  have "0 < 4294967296 * k" "4294967296 * k < 4294967296 * 2"
    using False unat_u32_less [of b] unat_u32_less [of "- b"] unfolding k [symmetric] by linarith+
  then have "k = 1" by simp
  with k False show ?thesis by simp
next
  case True
  then have "b = 0" by (simp add: unat_eq_zero)
  then show ?thesis by simp
qed

lemma ceil_digit:
  fixes b :: nat
  assumes "b < 4294967296"
  shows "(4294967296 - b) mod 65536 + b = 65536 * (b div 65536 + (if b mod 65536 = 0 then 0 else 1))"
proof -
  have b: "b = 65536 * (b div 65536) + b mod 65536" by simp
  define q r where "q = b div 65536" and "r = b mod 65536"
  have qr: "b = 65536 * q + r" "r < 65536" "q < 65536" using assms by (auto simp: q_def r_def)
  have "(4294967296 - b) mod 65536 + b = 65536 * (q + (if r = 0 then 0 else 1))"
  proof (cases "r = 0")
    case True
    have "4294967296 - b = 65536 * (65536 - q)" unfolding qr(1) using True by linarith
    then have "(4294967296 - b) mod 65536 = 0" by (simp only: mod_mult_self1_is_0)
    then show ?thesis using True qr by simp
  next
    case False
    have "4294967296 - b = (65536 - r) + 65536 * (65535 - q)" unfolding qr(1) using False qr by linarith
    then have "(4294967296 - b) mod 65536 = (65536 - r) mod 65536" by (simp only: mod_mult_self2)
    also have "\<dots> = 65536 - r" using False by simp
    finally have "(4294967296 - b) mod 65536 + b = 65536 - r + (65536 * q + r)" using qr(1) by simp
    then show ?thesis using False qr(2) by simp
  qed
  then show ?thesis by (simp only: q_def r_def)
qed

lemma mpn_div_sub_digit_val:
  assumes "unat borrow + unat x < 4294967296 + unat n" "mpn_div_sub_digit n x borrow = (n', borrow')"
  shows "unat n' + unat x + unat borrow = unat n + DIG_BASE * unat borrow'"
proof (cases "unat n \<le> unat x \<or> unat n - unat x \<le> unat borrow")
  case True
  let ?b = "borrow + (x - ucast n)"
  have b: "unat ?b = unat borrow + unat x - unat n"
    using True assms(1) by (intro unat_add_diff_u32 [of "ucast n", simplified]) auto
  have c: "ucast n \<le> x \<or> ucast n - x \<le> borrow"
    using True by (cases "unat n \<le> unat x") (auto simp: word_le_nat_alt unat_sub_u32)
  then have n': "n' = ucast (- ?b AND DIG_MASK)"
    and b': "borrow' = drop_bit DIG_SIZE ?b + (if ?b AND DIG_MASK = 0 then 0 else 1)"
    using assms(2) by (simp_all add: mpn_div_sub_digit_def Let_def)
  have n'': "unat n' = (4294967296 - unat ?b) mod 65536"
  proof -
    have "unat n' = unat (- ?b) mod 65536" unfolding n' unat_ucast_32_16 unat_and_mask_16 by simp
    then show ?thesis by (auto simp only: unat_minus_u32) simp_all
  qed
  have m: "?b AND DIG_MASK = 0 \<longleftrightarrow> unat ?b mod 65536 = 0"
    by (metis unat_and_mask_16 unat_eq_zero)
  have d: "unat (drop_bit DIG_SIZE ?b) = unat ?b div 65536" by (simp only: unat_drop_bit_u32) simp
  have "unat ?b div 65536 < 65536" using unat_u32_less [of ?b] by linarith
  then have b'': "unat borrow' = unat ?b div 65536 + (if unat ?b mod 65536 = 0 then 0 else 1)"
    unfolding b' m using d by (simp add: unat_add_u32)
  have "unat n' + unat ?b = 65536 * unat borrow'" unfolding n'' b'' by (rule ceil_digit) simp
  then show ?thesis using b True by linarith
next
  case False
  then have "\<not> (ucast n \<le> x \<or> ucast n - x \<le> borrow)"
    by (auto simp: word_le_nat_alt unat_sub_u32)
  then have n': "n' = ucast ((ucast n - x - borrow) AND DIG_MASK)" "borrow' = 0"
    using assms(2) by (auto simp add: mpn_div_sub_digit_def Let_def)
  have "unat (ucast n - x - borrow) = unat n - unat x - unat borrow"
    using False by (simp add: unat_sub_u32)
  then have "unat n' = (unat n - unat x - unat borrow) mod 65536 mod 65536"
    unfolding n'(1) unat_ucast_32_16 unat_and_mask_16 by simp
  also have "\<dots> = unat n - unat x - unat borrow"
    using unat_u16_less [of n] by (simp add: less_imp_diff_less del: unat_u16_less)
  finally show ?thesis using False n'(2) by auto
qed

lemma mpn_div_sub_val:
  assumes "length ns = length ds" "unat quo < DIG_BASE" "unat borrow < DIG_BASE"
    "mpn_div_sub s quo d_norm borrow ns ds = (ns', borrow')"
  shows "mpn_val ns' + unat quo * mpn_val (den_norm s d_norm ds) + unat borrow
      = mpn_val ns + DIG_BASE ^ length ns * unat borrow' \<and> length ns' = length ns \<and> unat borrow' < DIG_BASE"
  using assms
proof (induction ns ds arbitrary: d_norm borrow ns' borrow' rule: list_induct2)
  case (Cons n ns d ds)
  let ?d = "push_bit s (ucast d) OR drop_bit DIG_SIZE d_norm"
  let ?x = "quo * (?d AND DIG_MASK)"
  obtain n1 b1 where 1: "mpn_div_sub_digit n ?x borrow = (n1, b1)" by fastforce
  obtain ns1 b2 where 2: "mpn_div_sub s quo ?d b1 ns ds = (ns1, b2)" by fastforce
  have r: "ns' = n1 # ns1" "borrow' = b2" using Cons.prems 1 2 by (simp_all add: Let_def)
  have dlo: "unat (?d AND DIG_MASK) = unat (dig_lo ?d)" by (simp only: unat_dig_lo unat_and_mask_16)
  have le: "unat quo * unat (dig_lo ?d) \<le> 65535 * 65535"
    using Cons.prems(1) by (intro mult_mono) simp_all
  then have x: "unat ?x = unat quo * unat (dig_lo ?d)" 
    using unat_mult_u32 [of quo "?d AND DIG_MASK"] unfolding dlo by linarith
  have e: "unat n1 + unat ?x + unat borrow = unat n + DIG_BASE * unat b1"
    using mpn_div_sub_digit_val [OF _ 1] le Cons.prems(2) x by simp
  then have "DIG_BASE * unat b1 < DIG_BASE * DIG_BASE"
    using le x Cons.prems(2) unat_u16_less [of n1] by linarith
  then have b1: "unat b1 < DIG_BASE" by simp
  from Cons.IH [OF Cons.prems(1) b1 2] e show ?case
    by (simp add: r x Let_def algebra_simps)
qed simp

lemma mpn_div_add_val:
  assumes "length ns = length ds" "unat carry \<le> 1" "mpn_div_add s d_norm carry ns ds = (ns', carry')"
  shows "mpn_val ns' + DIG_BASE ^ length ns * unat carry' = mpn_val ns + mpn_val (den_norm s d_norm ds) + unat carry
    \<and> length ns' = length ns \<and> unat carry' \<le> 1"
  using assms
proof (induction ns ds arbitrary: d_norm carry ns' carry' rule: list_induct2)
  case (Cons n ns d ds)
  let ?d = "push_bit s (ucast d) OR drop_bit DIG_SIZE d_norm"
  let ?c = "carry + (ucast n + (?d AND DIG_MASK))"
  obtain ns1 c1 where 1: "mpn_div_add s ?d (drop_bit DIG_SIZE ?c) ns ds = (ns1, c1)" by fastforce
  have r: "ns' = dig_lo ?c # ns1" "carry' = c1" using Cons.prems 1 by (simp_all add: Let_def dig_lo_def)
  have dlo: "unat (?d AND DIG_MASK) = unat (dig_lo ?d)" by (simp only: unat_dig_lo unat_and_mask_16)
  have "unat (ucast n + (?d AND DIG_MASK)) = unat n + unat (dig_lo ?d)"
    using unat_add_u32 [of "ucast n" "?d AND DIG_MASK"] unat_u16_less [of n] unat_u16_less [of "dig_lo ?d"]
    unfolding dlo unat_ucast_16_32 by linarith
  then have c: "unat ?c = unat carry + (unat n + unat (dig_lo ?d))"
    using unat_add_u32 [of carry "ucast n + (?d AND DIG_MASK)"] Cons.prems(1)
      unat_u16_less [of n] unat_u16_less [of "dig_lo ?d"] by linarith
  have h: "unat (drop_bit DIG_SIZE ?c) = unat (dig_hi ?c)" by (simp only: dig_hi_def)
  have "unat (dig_hi ?c) \<le> 1" unfolding unat_dig_hi c
    using Cons.prems(1) unat_u16_less [of n] unat_u16_less [of "dig_lo ?d"] by linarith
  from Cons.IH [OF this [folded h] 1] dig_split [of ?c] c h show ?case
    by (simp add: r Let_def algebra_simps)
qed simp

text \<open>
  \<open>num\<close> is the value of the partial numerator. The loop that adds the denominator back always
  returns, with the quotient digit and the remainder.
\<close>

lemma mpn_div_fix_val:
  assumes "length seg = length den" "0 < D" "D = mpn_val (den_norm s 0 den)" "num div D \<le> unat quo"
    "num + unat borrow * DIG_BASE ^ length den = unat quo * D + mpn_val seg"
  shows "\<exists>quo' seg'. mpn_div_fix s den borrow quo seg = Some (quo', seg') \<and> length seg' = length den
    \<and> unat quo' = num div D \<and> mpn_val seg' = num mod D"
  using assms(1,4,5)
proof (induction "unat quo" arbitrary: quo borrow seg rule: less_induct)
  case less
  have seg: "mpn_val seg < DIG_BASE ^ length den" using mpn_val_less [of seg] less.prems(1) by simp
  show ?case
  proof (cases "borrow = 0")
    case True
    then have eq: "num = unat quo * D + mpn_val seg" using less.prems(3) by simp
    then have "unat quo \<le> num div D" using assms(2) by simp
    with less.prems(2) have q: "unat quo = num div D" by simp
    then have "mpn_val seg = num mod D" using eq div_mult_mod_eq [of num D] by simp
    moreover have "mpn_div_fix s den borrow quo seg = Some (quo, seg)"
      by (subst mpn_div_fix.simps) (simp add: True)
    ultimately show ?thesis using q less.prems(1) by simp
  next
    case False
    then have b: "1 \<le> unat borrow" by (metis One_nat_def Suc_leI neq0_conv unat_eq_zero)
    then have "1 * DIG_BASE ^ length den \<le> unat borrow * DIG_BASE ^ length den" by (rule mult_right_mono) simp
    then have "num < unat quo * D" using less.prems(3) seg by linarith
    then have q: "num div D < unat quo" using assms(2) by (simp add: less_mult_imp_div_less)
    then have q1: "unat (quo - 1) = unat quo - 1" by (subst unat_sub_u32) simp_all
    obtain seg1 carry where 1: "mpn_div_add s 0 0 seg den = (seg1, carry)" by fastforce
    have A: "mpn_val seg1 + DIG_BASE ^ length den * unat carry = mpn_val seg + D" "length seg1 = length den" "unat carry \<le> 1"
      using mpn_div_add_val [OF less.prems(1) _ 1] less.prems(1) assms(3) by simp_all
    have c: "unat (borrow - carry) = unat borrow - unat carry" using A(3) b by (subst unat_sub_u32) simp_all
    have "unat quo * D = (unat quo - 1) * D + D" using q by (cases "unat quo") simp_all
    then have "num + unat (borrow - carry) * DIG_BASE ^ length den = unat (quo - 1) * D + mpn_val seg1"
      using less.prems(3) A(1) mult_le_mono1 [OF order_trans [OF A(3) b], of "DIG_BASE ^ length den"]
      unfolding c q1 diff_mult_distrib [of "unat borrow"] by (simp add: mult.commute)
    moreover have "num div D \<le> unat (quo - 1)" "unat (quo - 1) < unat quo" using q q1 by linarith+
    ultimately have "\<exists>quo' seg'. mpn_div_fix s den (borrow - carry) (quo - 1) seg1 = Some (quo', seg')
        \<and> length seg' = length den \<and> unat quo' = num div D \<and> mpn_val seg' = num mod D"
      using less.hyps A(2) by blast
    then show ?thesis using False 1 by (simp add: mpn_div_fix.simps [of s den borrow])
  qed
qed

lemma mpn_div_sub_two:
  fixes T n0 n1 d0 d1 :: dig
  assumes den: "den_norm s 0 [e0, e1] = [d0, d1]" and lead: "32768 \<le> unat d1" "T = d1"
    and num: "unat n1 * DIG_BASE + unat n0 < unat d0 * DIG_BASE"
    and quo: "unat quo = (unat T * DIG_BASE + unat n1) div unat d1"
    and sub: "mpn_div_sub s quo 0 0 [n0, n1] [e0, e1] = (ns', b)"
  shows "mpn_val ns' + unat quo * mpn_val [d0, d1] = mpn_val [n0, n1] + DIG_BASE ^ 2 * unat b \<and> length ns' = 2"
proof -
  define Q where "Q = unat quo"
  have n1: "unat n1 < unat d0" using num by linarith
  have Q: "Q = DIG_BASE + unat n1 div unat d1" using quo lead by (simp add: Q_def)
  have "unat n1 div unat d1 < 2"
    using lead unat_u16_less [of n1] by (intro less_mult_imp_div_less) linarith
  then have k: "unat n1 div unat d1 = 0 \<or> unat n1 div unat d1 = 1" by linarith
  have Qcases: "Q = DIG_BASE \<or> Q = 65537 \<and> unat d1 \<le> unat n1"
  proof (cases "unat n1 < unat d1")
    case True
    then show ?thesis using Q by simp
  next
    case False
    then show ?thesis using Q k by linarith
  qed
  let ?e0 = "push_bit s (ucast e0) OR drop_bit DIG_SIZE (0 :: dbl)"
  let ?e1 = "push_bit s (ucast e1) OR drop_bit DIG_SIZE ?e0"
  have d: "unat (?e0 AND DIG_MASK) = unat d0" "unat (?e1 AND DIG_MASK) = unat d1"
    using den by (simp_all only: unat_and_mask_16 unat_dig_lo [symmetric] den_norm.simps Let_def list.inject)
  obtain m0 b0 where 0: "mpn_div_sub_digit n0 (quo * (?e0 AND DIG_MASK)) 0 = (m0, b0)" by fastforce
  obtain m1 b1 where 1: "mpn_div_sub_digit n1 (quo * (?e1 AND DIG_MASK)) b0 = (m1, b1)" by fastforce
  have r: "ns' = [m0, m1]" "b = b1" using sub 0 1 by (simp_all add: Let_def)
  have "Q * unat d0 \<le> 65537 * 65535" using Qcases by (intro mult_mono) auto
  then have x0: "unat (quo * (?e0 AND DIG_MASK)) = Q * unat d0"
    using unat_mult_u32 [of quo "?e0 AND DIG_MASK"] unfolding d Q_def by linarith
  have le: "Q * unat d1 \<le> unat d1 * DIG_BASE + unat n1" 
    unfolding Q_def quo lead(2) by (rule div_times_less_eq_dividend)
  have "unat d1 * DIG_BASE + unat n1 < 4294967296"
    using unat_u16_less [of d1] unat_u16_less [of n1] by linarith
  then have x1: "unat (quo * (?e1 AND DIG_MASK)) = Q * unat d1"
    using unat_mult_u32 [of quo "?e1 AND DIG_MASK"] le unfolding d Q_def by linarith
  have e0: "unat m0 + Q * unat d0 = unat n0 + DIG_BASE * unat b0"
    using mpn_div_sub_digit_val [OF _ 0] x0 \<open>Q * unat d0 \<le> 65537 * 65535\<close> by simp
  have "unat b0 + unat d1 * DIG_BASE < 4294967296"
    using Qcases
  proof (elim disjE conjE)
    assume 1: "Q = DIG_BASE"
    have "DIG_BASE * unat b0 < DIG_BASE * DIG_BASE"
      using e0 [unfolded 1] unat_u16_less [of m0] unat_u16_less [of d0] by linarith
    then show ?thesis using unat_u16_less [of d1] by linarith
  next
    assume 2: "Q = 65537" "unat d1 \<le> unat n1"
    have "DIG_BASE * unat b0 < DIG_BASE * 65537"
      using e0 [unfolded 2(1)] unat_u16_less [of m0] unat_u16_less [of d0] by linarith
    then have "unat b0 \<le> DIG_BASE" by linarith
    then show ?thesis using 2(2) n1 unat_u16_less [of d0] by linarith
  qed
  then have e1: "unat m1 + Q * unat d1 + unat b0 = unat n1 + DIG_BASE * unat b1"
    using mpn_div_sub_digit_val [OF _ 1] le unfolding x1 by linarith
  have "Q * (unat d0 + DIG_BASE * unat d1) = Q * unat d0 + DIG_BASE * (Q * unat d1)"
    by (simp only: distrib_left mult.left_commute)
  then show ?thesis using e0 e1 unfolding r Q_def [symmetric] by simp
qed

text \<open>A denominator as the main loop sees it: normalised to \<open>D\<close>, with its leading digit.\<close>

definition div_den :: "nat \<Rightarrow> dig list \<Rightarrow> dbl \<Rightarrow> nat \<Rightarrow> bool" where
  "div_den s den lead D \<longleftrightarrow> s < 16 \<and> den \<noteq> [] \<and> D = mpn_val den * 2 ^ s \<and> D < DIG_BASE ^ length den
     \<and> 32768 * DIG_BASE ^ (length den - 1) \<le> D \<and> unat lead = D div DIG_BASE ^ (length den - 1)"

lemma div_den_norm:
  assumes "div_den s den lead D"
  shows "mpn_val (den_norm s 0 den) = D" "0 < D" "32768 \<le> unat lead"
    "unat lead * DIG_BASE ^ (length den - 1) \<le> D" "DIG_BASE ^ length den = DIG_BASE * DIG_BASE ^ (length den - 1)"
proof -
  note d = assms [unfolded div_den_def]
  show "mpn_val (den_norm s 0 den) = D" using d den_norm_val [of s 0 den] by simp
  have "0 < 32768 * DIG_BASE ^ (length den - 1)" by simp
  then show "0 < D" using d by linarith
  have "32768 * DIG_BASE ^ (length den - 1) div DIG_BASE ^ (length den - 1) \<le> D div DIG_BASE ^ (length den - 1)"
    using d by (intro div_le_mono) simp
  then show "32768 \<le> unat lead" using d by simp
  show "unat lead * DIG_BASE ^ (length den - 1) \<le> D" using d by simp
  show "DIG_BASE ^ length den = DIG_BASE * DIG_BASE ^ (length den - 1)"
    using d by (cases "length den") simp_all
qed

lemma div_top_le:
  assumes "div_den s den lead D" "T * DIG_BASE ^ length den + v < D * DIG_BASE"
  shows "T \<le> unat lead"
proof -
  have "T * DIG_BASE ^ (length den - 1) * DIG_BASE < D * DIG_BASE"
    using assms(2) div_den_norm(5) [OF assms(1)] by (simp add: ac_simps)
  then have "T * DIG_BASE ^ (length den - 1) < D" by simp
  then show ?thesis using assms(1) by (simp add: div_den_def less_eq_div_iff_mult_less_eq)
qed

lemma unat_num_two: "unat (push_bit DIG_SIZE (ucast (T :: dig)) OR ucast (n :: dig) :: dbl) = unat T * DIG_BASE + unat n"
proof -
  have "unat T * 2 ^ 16 < 4294967296" using unat_u16_less [of T] by simp
  then show ?thesis using unat_or_shifted [of "ucast T" 16 "ucast n"] by simp
qed

lemma mpn_div_sub_exact:
  fixes T :: dig
  assumes den: "div_den s den lead D" and seg: "length seg = length den"
    and quo: "unat quo = (unat T * DIG_BASE + unat (seg ! (length den - 1))) div unat lead"
    and V: "unat T * DIG_BASE ^ length den + mpn_val seg < D * DIG_BASE"
    and tie: "unat T < unat lead \<or> length den \<le> 2"
    and sub: "mpn_div_sub s quo 0 0 seg den = (seg', b)"
  shows "mpn_val seg' + unat quo * D = mpn_val seg + DIG_BASE ^ length den * unat b \<and> length seg' = length den"
proof (cases "unat T < unat lead")
  case True
  then have "(unat T + 1) * DIG_BASE \<le> unat lead * DIG_BASE" by (intro mult_right_mono) simp_all
  then have "unat T * DIG_BASE + unat (seg ! (length den - 1)) < unat lead * DIG_BASE"
    using unat_u16_less [of "seg ! (length den - 1)"] unfolding distrib_right by linarith
  then have "unat quo < DIG_BASE" unfolding quo by (intro less_mult_imp_div_less) (simp only: mult.commute)
  from mpn_div_sub_val [OF seg this _ sub] show ?thesis using seg div_den_norm(1) [OF den] by simp
next
  case False
  note dn = div_den_norm [OF den]
  let ?P = "DIG_BASE ^ (length den - 1)"
  have T: "unat T = unat lead" using False div_top_le [OF den V] by simp
  show ?thesis
  proof (cases "length den = 1")
    case True
    then have "unat T * DIG_BASE < D * DIG_BASE" using V by simp
    then show ?thesis using T den True by (simp add: div_den_def)
  next
    case False
    have "length den \<noteq> 0" using den by (simp add: div_den_def)
    then have "length den = Suc (Suc 0)" using False tie T by linarith
    then obtain e0 e1 n0 n1 where l: "den = [e0, e1]" "seg = [n0, n1]"
      using seg by (auto simp: length_Suc_conv)
    obtain d0 d1 where d: "den_norm s 0 [e0, e1] = [d0, d1]" by (simp add: Let_def)
    have D: "D = unat d0 + DIG_BASE * unat d1" using dn(1) unfolding l d by simp
    then have "unat lead = unat d1" using den by (simp add: div_den_def l)
    then have T': "T = d1" using T by (simp only: word_unat_eq_iff)
    have "unat n1 * DIG_BASE + unat n0 < unat d0 * DIG_BASE" using V unfolding D T' l by simp
    then show ?thesis using mpn_div_sub_two [OF d _ T', of n1 n0 quo] quo sub dn(3) \<open>unat lead = unat d1\<close>
      unfolding l D by (simp add: T' numeral_2_eq_2)
  qed
qed

lemma mpn_div_step:
  fixes T :: dig
  assumes den: "div_den s den lead D" and seg: "length seg = length den"
    and quo: "unat quo = (unat T * DIG_BASE + unat (seg ! (length den - 1))) div unat lead"
    and V: "V = unat T * DIG_BASE ^ length den + mpn_val seg" "V < D * DIG_BASE"
    and tie: "unat T < unat lead \<or> length den \<le> 2"
    and sub: "mpn_div_sub s quo 0 0 seg den = (seg', b)"
  shows "\<exists>q seg''. mpn_div_fix s den (b - ucast T) quo seg' = Some (q, seg'') \<and> length seg'' = length den
    \<and> unat q = V div D \<and> mpn_val seg'' = V mod D"
proof -
  note dn = div_den_norm [OF den]
  let ?P = "DIG_BASE ^ (length den - 1)" and ?B = "DIG_BASE ^ length den"
  have ex: "mpn_val seg' + unat quo * D = mpn_val seg + ?B * unat b" "length seg' = length den"
    using mpn_div_sub_exact [OF den seg quo V(2) [unfolded V(1)] tie sub] by auto
  have "V div ?P = unat T * DIG_BASE + unat (seg ! (length den - 1))"
  proof -
    have "drop (length den - 1) seg = [seg ! (length den - 1)]"
      using seg den Cons_nth_drop_Suc [of "length den - 1" seg] by (simp add: div_den_def)
    then have "mpn_val seg div ?P = unat (seg ! (length den - 1))"
      unfolding mpn_val_drop [symmetric] by simp
    moreover have "V = mpn_val seg + (unat T * DIG_BASE) * ?P" using V(1) dn(5) by simp
    ultimately show ?thesis by (simp only: div_add_multiple) simp
  qed
  then have "V div (?P * unat lead) = unat quo" unfolding quo div_mult2_eq by simp
  moreover have "V div D \<le> V div (?P * unat lead)"
    using dn(3,4) by (intro div_le_mono2) (simp_all add: mult.commute)
  ultimately have q: "V div D \<le> unat quo" by simp
  have b: "unat T \<le> unat b"
  proof (rule ccontr)
    assume "\<not> unat T \<le> unat b"
    then have "(unat b + 1) * ?B \<le> unat T * ?B" by (intro mult_right_mono) simp_all
    then have "(unat quo + 1) * D \<le> V"
      using ex(1) V(1) den by (simp add: div_den_def distrib_right mult.commute)
    then have "unat quo + 1 \<le> V div D" using dn(2) by (simp add: less_eq_div_iff_mult_less_eq)
    with q show False by simp
  qed
  have "unat (b - ucast T) = unat b - unat T" using b by (subst unat_sub_u32) simp_all
  then have "V + unat (b - ucast T) * ?B = unat quo * D + mpn_val seg'"
    using ex(1) V(1) b mult_le_mono1 [OF b, of ?B] by (simp add: diff_mult_distrib mult.commute)
  with mpn_div_fix_val [OF ex(2) dn(2) dn(1) [symmetric] q] show ?thesis by blast
qed

section \<open>The main loop\<close>

text \<open>
  No partial numerator starts with the leading digit of the normalised denominator \<open>D\<close> of
  \<open>n\<close> digits, in the division of \<open>V\<close> that yields \<open>k\<close> quotient digits.
\<close>

definition div_tie_free :: "nat \<Rightarrow> nat \<Rightarrow> nat \<Rightarrow> nat \<Rightarrow> bool" where
  "div_tie_free V D n k \<longleftrightarrow>
     (\<forall>i \<in> set [0..<k]. (V mod (D * DIG_BASE ^ Suc i)) div DIG_BASE ^ (n + i) \<noteq> D div DIG_BASE ^ (n - 1))"

lemma div_tie_free_Suc:
  assumes "div_tie_free V D n (Suc m)"
  shows "div_tie_free (V mod (D * DIG_BASE ^ m)) D n m"
proof -
  have "V mod (D * DIG_BASE ^ m) mod (D * DIG_BASE ^ Suc i) = V mod (D * DIG_BASE ^ Suc i)" if "i < m" for i
    using that by (intro mod_mod_cancel mult_dvd_mono le_imp_power_dvd) simp_all
  then show ?thesis using assms by (auto simp: div_tie_free_def simp del: power_Suc)
qed

lemma long_division_step:
  fixes lo W D P V1 :: nat
  assumes "lo < P" "0 < D" "V1 = lo + P * (W mod D)"
  shows "V1 < D * P" "V1 = (lo + P * W) mod (D * P)"
    "(lo + P * W) mod D = V1 mod D" "(lo + P * W) div D = P * (W div D) + V1 div D"
proof -
  have "W mod D + 1 \<le> D" using assms(2) by (simp add: Suc_leI)
  then have "P * (W mod D + 1) \<le> P * D" by (rule mult_left_mono) simp
  then show lt: "V1 < D * P" using assms(1,3) by (simp add: algebra_simps)
  have "P * (W div D * D + W mod D) = P * (W mod D) + (W div D) * (D * P)"
    by (simp only: distrib_left ac_simps)
  then have V: "lo + P * W = V1 + (W div D) * (D * P)" using assms(3) by (simp only: div_mult_mod_eq add.assoc)
  show "V1 = (lo + P * W) mod (D * P)" unfolding V using lt by simp
  have V': "lo + P * W = V1 + (P * (W div D)) * D" unfolding V by simp
  show "(lo + P * W) mod D = V1 mod D" unfolding V' by simp
  show "(lo + P * W) div D = P * (W div D) + V1 div D" unfolding V' using assms(2) by simp
qed

lemma mpn_div_loop_val:
  assumes den: "div_den s den lead D"
    and "length den + k \<le> length num" "k \<le> length quo"
    and "V = mpn_val (take (length den + k) num)" "V < D * DIG_BASE ^ k"
    and "length den \<le> 2 \<or> div_tie_free V D (length den) k"
  shows "\<exists>num' quo'. mpn_div_loop s lead den k num quo = Some (num', quo')
    \<and> length num' = length num \<and> length quo' = length quo \<and> drop k quo' = drop k quo
    \<and> mpn_val (take (length den) num') = V mod D \<and> mpn_val (take k quo') = V div D"
  using assms(2-)
proof (induction k arbitrary: num quo V)
  case 0
  then show ?case by simp
next
  case (Suc m)
  let ?n = "length den" and ?P = "DIG_BASE ^ m"
  define lo seg T where "lo = take m num" and "seg = take ?n (drop m num)" and "T = num ! (?n + m)"
  define W where "W = unat T * DIG_BASE ^ ?n + mpn_val seg"
  have len: "length lo = m" "length seg = ?n" using Suc.prems(1) by (simp_all add: lo_def seg_def)
  have tk: "take (?n + Suc m) num = lo @ seg @ [T]"
    using Suc.prems(1) by (simp add: lo_def seg_def T_def take_Suc_conv_app_nth take_add add.commute)
  have V: "V = mpn_val lo + ?P * W"
    unfolding Suc.prems(3) tk by (simp add: len W_def algebra_simps)
  have lo: "mpn_val lo < ?P" using mpn_val_less [of lo] len by simp
  have "D * DIG_BASE ^ Suc m = ?P * (D * DIG_BASE)" by simp
  then have "?P * W < ?P * (D * DIG_BASE)" using V Suc.prems(4) by linarith
  then have W: "W < D * DIG_BASE" by simp
  have n1: "num ! (?n + m - 1) = seg ! (?n - 1)"
    using Suc.prems(1) den by (cases den) (simp_all add: seg_def div_den_def add.commute)
  have tie: "unat T < unat lead \<or> ?n \<le> 2"
  proof (rule disjCI)
    assume "\<not> ?n \<le> 2"
    then have "V mod (D * DIG_BASE ^ Suc m) div DIG_BASE ^ (?n + m) \<noteq> unat lead"
      using Suc.prems(5) den by (simp add: div_tie_free_def div_den_def del: power_Suc)
    moreover have "V div DIG_BASE ^ (?n + m) = unat T"
      using mpn_val_drop [of "?n + m" "lo @ seg @ [T]"] len unfolding Suc.prems(3) tk by simp
    ultimately have "unat T \<noteq> unat lead" using Suc.prems(4) by simp
    then show "unat T < unat lead" using div_top_le [OF den W [unfolded W_def]] by simp
  qed
  obtain q seg' b where q: "q = (push_bit DIG_SIZE (ucast T) OR ucast (num ! (?n + m - 1))) div lead"
    and sub: "mpn_div_sub s q 0 0 seg den = (seg', b)" by fastforce
  have uq: "unat q = (unat T * DIG_BASE + unat (seg ! (?n - 1))) div unat lead"
    unfolding q unat_div unat_num_two n1 ..
  obtain q' seg'' where fx: "mpn_div_fix s den (b - ucast T) q seg' = Some (q', seg'')" "length seg'' = ?n"
    "unat q' = W div D" "mpn_val seg'' = W mod D"
    using mpn_div_step [OF den len(2) uq W_def W tie sub] by blast
  define V1 where "V1 = mpn_val lo + ?P * (W mod D)"
  note st = long_division_step [OF lo div_den_norm(2) [OF den] V1_def, folded V]
  let ?num = "lo @ seg'' @ drop (m + ?n) num" and ?quo = "quo[m := ucast (q' AND DIG_MASK)]"
  have V1: "V1 = mpn_val (take (?n + m) ?num)" using len fx by (simp add: V1_def)
  have "length ?num = length num" using len fx(2) Suc.prems(1) by simp
  moreover have "?n \<le> 2 \<or> div_tie_free V1 D ?n m" using Suc.prems(5) div_tie_free_Suc unfolding st(2) by blast
  ultimately obtain num' quo' where r: "mpn_div_loop s lead den m ?num ?quo = Some (num', quo')"
    "length num' = length num" "length quo' = length quo" "drop m quo' = drop m ?quo"
    "mpn_val (take ?n num') = V1 mod D" "mpn_val (take m quo') = V1 div D"
    using Suc.IH [of ?num ?quo V1] Suc.prems(1,2) V1 st(1) by auto
  have loop: "mpn_div_loop s lead den (Suc m) num quo = Some (num', quo')"
    using Suc.prems(2) r(1)
    by (simp only: mpn_div_loop.simps Let_def lo_def [symmetric] seg_def [symmetric] T_def [symmetric]
        q [symmetric] sub fx(1) prod.case option.case) simp
  have dr: "drop (Suc m) quo' = drop (Suc m) quo"
    using arg_cong [OF r(4), of "drop 1"] by (simp add: drop_update_cancel)
  have qm: "quo' ! m = ucast (q' AND DIG_MASK)"
    using arg_cong [OF r(4), of "\<lambda>xs. xs ! 0"] Suc.prems(2) r(3) by simp
  have "unat q' < DIG_BASE" unfolding fx(3) using W by (intro less_mult_imp_div_less) (simp add: mult.commute)
  then have "unat (quo' ! m) = W div D"
    unfolding qm unat_ucast_32_16 unat_and_mask_16 using fx(3) by simp
  then have "mpn_val (take (Suc m) quo') = V div D"
    using Suc.prems(2) r(3,6) st(4) by (simp add: take_Suc_conv_app_nth)
  then show ?case using loop r(2,3,5) dr st(3) by simp
qed

section \<open>Unnormalising the remainder\<close>

lemma mpn_shr_loop_snoc:
  "mpn_shr_loop p (xs @ [n, h])
    = butlast (mpn_shr_loop p (xs @ [n])) @ [dig_lo (drop_bit p (ucast n OR push_bit DIG_SIZE (ucast h))), dig_lo (drop_bit p (ucast h))]"
proof (induction xs rule: induct_list012)
  case (3 x y zs)
  then show ?case by (cases "zs @ [n]") (auto simp: butlast_append)
qed simp_all

lemma unnormalise_digit:
  assumes "s < 16"
  shows "(ucast ((drop_bit s (ucast n) OR ucast (ucast (push_bit (DIG_SIZE - s) (ucast h :: dbl)) :: dig) :: dbl) AND DIG_MASK) :: dig)
    = dig_lo (drop_bit s (ucast n OR push_bit DIG_SIZE (ucast h)))"
  using assms
  by (intro bit_word_eqI) (auto simp: and_mask_take_bit_16 dig_lo_def bit_simps add.commute [of s] dest: bit_imp_le_length)

lemma mpn_div_shr_loop:
  assumes "s < 16"
  shows "mpn_div_shr s (ucast (push_bit (DIG_SIZE - s) (ucast h :: dbl))) rs acc
    = butlast (mpn_shr_loop s (rev rs @ [h])) @ acc"
proof (induction rs arbitrary: h acc)
  case Nil
  then show ?case by simp
next
  case (Cons n rs)
  then show ?case
    by (simp only: mpn_div_shr.simps unnormalise_digit [OF assms] rev.simps append_assoc append.simps
        mpn_shr_loop_snoc butlast_append) simp
qed

lemma mpn_div_shr_val:
  assumes "s < 16"
  shows "mpn_val (mpn_div_shr s 0 (rev ds) []) = mpn_val ds div 2 ^ s" "length (mpn_div_shr s 0 (rev ds) []) = length ds"
proof -
  have eq: "mpn_div_shr s 0 (rev ds) [] = butlast (mpn_shr_loop s (ds @ [0]))"
    using mpn_div_shr_loop [OF assms, of 0 "rev ds" "[]"] by simp
  show "length (mpn_div_shr s 0 (rev ds) []) = length ds" by (simp add: eq mpn_shr_loop_length)
  have "mpn_shr_loop s (ds @ [0]) = butlast (mpn_shr_loop s (ds @ [0])) @ [0]"
    by (cases ds rule: rev_cases) (simp_all add: mpn_shr_loop_snoc dig_lo_def butlast_append)
  then have "mpn_val (mpn_shr_loop s (ds @ [0])) = mpn_val (butlast (mpn_shr_loop s (ds @ [0])))"
    using mpn_val_append [of "butlast (mpn_shr_loop s (ds @ [0]))" "[0]"] by simp
  then show "mpn_val (mpn_div_shr s 0 (rev ds) []) = mpn_val ds div 2 ^ s"
    unfolding eq using mpn_shr_loop_val [of s "ds @ [0]"] assms by simp
qed

section \<open>Correctness of the division\<close>

definition mpn_div_tie_free :: "dig list \<Rightarrow> dig list \<Rightarrow> bool" where
  "mpn_div_tie_free num den =
     (case mpn_div_count (den ! (length den - 1)) 0 of
        None \<Rightarrow> True
      | Some s \<Rightarrow> div_tie_free (mpn_val num * 2 ^ s) (mpn_val den * 2 ^ s) (length den) (Suc (length num) - length den))"

lemma div_den_lead:
  assumes "den \<noteq> []" "s < 16"
    "32768 \<le> unat (den ! (length den - 1)) * 2 ^ s" "unat (den ! (length den - 1)) * 2 ^ s < 65536"
  shows "div_den s den (mpn_div_lead s den) (mpn_val den * 2 ^ s)"
proof -
  let ?top = "unat (den ! (length den - 1))" and ?P = "DIG_BASE ^ (length den - 1)"
  define lo where "lo = take (length den - 1) den"
  have den: "den = lo @ [den ! (length den - 1)]" "length lo = length den - 1"
    using assms(1) by (simp_all add: lo_def take_Suc_conv_app_nth [symmetric])
  have val: "mpn_val den = mpn_val lo + ?P * ?top" using arg_cong [OF den(1), of mpn_val] den(2) by simp
  have lo: "mpn_val lo < ?P" using mpn_val_less [of lo] den(2) by simp
  have B: "DIG_BASE ^ length den = ?P * DIG_BASE" using assms(1) by (cases den) simp_all
  have vs: "mpn_val den * 2 ^ s = mpn_val lo * 2 ^ s + (?top * 2 ^ s) * ?P"
    unfolding val by (simp add: algebra_simps)
  have tops: "unat (push_bit s (ucast (den ! (length den - 1))) :: dbl) = ?top * 2 ^ s"
    using assms(4) by (simp only: unat_push_bit_u32 unat_ucast_16_32) simp
  have lead: "unat (mpn_div_lead s den) = (mpn_val den * 2 ^ s) div ?P"
  proof (cases "2 \<le> length den")
    case True
    define e where "e = den ! (length den - 2)"
    have lo2: "lo = take (length den - 2) den @ [e]"
    proof -
      have "length den - 1 = Suc (length den - 2)" using True by linarith
      then show ?thesis using True by (simp add: lo_def e_def take_Suc_conv_app_nth)
    qed
    have P: "?P = DIG_BASE ^ Suc (length den - 2)" using True by (simp flip: power_Suc add: Suc_diff_Suc numeral_2_eq_2)
    have v: "mpn_val (take (length den - 2) den) < DIG_BASE ^ (length den - 2)"
      using mpn_val_less [of "take (length den - 2) den"] by simp
    have "mpn_val lo * 2 ^ s div ?P = unat e div 2 ^ (DIG_SIZE - s)"
      using shl_high_part [OF _ v, of s "unat e"] assms(2) unfolding P lo2 by (simp add: algebra_simps)
    moreover have "unat (mpn_div_lead s den) = ?top * 2 ^ s + unat e div 2 ^ (DIG_SIZE - s)"
    proof -
      have "unat e div 2 ^ (16 - s) < 2 ^ s" using shifted_digit(2,3) [OF assms(2), of 0 e] by simp
      then show ?thesis using unat_or_shifted [of "ucast (den ! (length den - 1))" s "drop_bit (DIG_SIZE - s) (ucast e)"]
          assms(4) True unfolding mpn_div_lead_def Let_def e_def
        by (simp only: unat_drop_bit_u32 unat_ucast_16_32 if_True)
    qed
    ultimately show ?thesis unfolding vs by (simp add: div_add_multiple)
  next
    case False
    moreover have "length den \<noteq> 0" using assms(1) by simp
    ultimately have "length den = 1" by linarith
    then show ?thesis using tops den by (simp add: mpn_div_lead_def Let_def val)
  qed
  have "32768 * ?P \<le> (?top * 2 ^ s) * ?P" using assms(3) by (rule mult_right_mono) simp
  then have "32768 * ?P \<le> mpn_val den * 2 ^ s" unfolding vs by linarith
  moreover have "mpn_val den * 2 ^ s < DIG_BASE ^ length den"
  proof -
    have e: "DIG_BASE = 2 ^ (16 - s) * 2 ^ s" using assms(2) by (simp add: power_add [symmetric])
    have "?top * 2 ^ s < 2 ^ (16 - s) * 2 ^ s" using assms(4) unfolding e [symmetric] .
    then have "?top + 1 \<le> 2 ^ (16 - s)" by simp
    then have "?P * ((?top + 1) * 2 ^ s) \<le> ?P * DIG_BASE" unfolding e by (intro mult_left_mono mult_right_mono) simp_all
    moreover have "mpn_val lo * 2 ^ s < ?P * 2 ^ s" using lo by simp
    moreover have "?P * ((?top + 1) * 2 ^ s) = ?P * 2 ^ s + (?top * 2 ^ s) * ?P"
      by (simp add: algebra_simps)
    ultimately show ?thesis unfolding vs B by linarith
  qed
  ultimately show ?thesis using assms lead by (simp add: div_den_def)
qed

lemma mpn_div_correct:
  assumes num: "normalised (take num_len num)" "num_len < length num"
    and den: "normalised den" "den \<noteq> []" and quo: "num_len < length quo"
    and tie: "length den \<le> 2 \<or> mpn_div_tie_free (take num_len num) den"
  shows "\<exists>num' n' quo' q'. mpn_div num num_len den quo = Some (num', n', quo', q')
    \<and> length num' = length num \<and> n' \<le> length num \<and> length quo' = length quo \<and> q' \<le> length quo
    \<and> mpn_val (take n' num') = mpn_val (take num_len num) mod mpn_val den \<and> normalised (take n' num')
    \<and> mpn_val (take q' quo') = mpn_val (take num_len num) div mpn_val den \<and> normalised (take q' quo')"
proof -
  let ?N = "mpn_val (take num_len num)" and ?M = "mpn_val den" and ?n = "length den"
  have M: "0 < ?M" using den mpn_val_ge [of den] by (auto simp: normalised_def intro: less_le_trans [rotated])
  have cmp: "mpn_cmp (take num_len num) den = sgn (int ?N - int ?M)" by (rule mpn_cmp_sgn [OF num(1) den(1)])
  consider "?N = ?M" | "?N < ?M" | "?M < ?N" by linarith
  then show ?thesis
  proof cases
    case 1
    have "quo \<noteq> []" using quo by auto
    then have "mpn_div num num_len den quo = Some (num, 0, quo[0 := 1], 1)" "take 1 (quo[0 := 1]) = [1]"
      using 1 cmp by (simp_all add: mpn_div_def take_Suc_conv_app_nth)
    then show ?thesis using 1 M quo by (simp add: normalised_def)
  next
    case 2
    then show ?thesis using num cmp by (simp add: mpn_div_def)
  next
    case 3
    let ?top = "den ! (?n - 1)"
    have "?top \<noteq> 0" using den by (simp add: normalised_def last_conv_nth)
    then obtain s where s: "mpn_div_count ?top 0 = Some s" "s < 16" "32768 \<le> unat ?top * 2 ^ s" "unat ?top * 2 ^ s < 65536"
      using mpn_div_count_Some [of ?top 0] by (auto simp: unat_gt_0)
    define D lead k where "D = ?M * 2 ^ s" and "lead = mpn_div_lead s den" and "k = Suc num_len - ?n"
    have dd: "div_den s den lead D" unfolding D_def lead_def by (rule div_den_lead [OF den(2) s(2-4)])
    have N: "?N < DIG_BASE ^ num_len" using mpn_val_less [of "take num_len num"] num(2) by simp
    have "DIG_BASE ^ (?n - 1) \<le> ?M" using den mpn_val_ge [of den] by (simp add: normalised_def)
    then have "DIG_BASE ^ (?n - 1) < DIG_BASE ^ num_len" using N 3 by linarith
    then have le: "?n \<le> num_len" by simp
    define num1 where "num1 = mpn_div_shl s 0 (take num_len num @ [0]) @ drop (Suc num_len) num"
    have nk: "?n + k = Suc num_len" using le by (simp add: k_def)
    have s15: "(2 :: nat) ^ s \<le> 2 ^ 15" using s(2) by (intro power_increasing) simp_all
    have "?N * 2 ^ s < DIG_BASE ^ num_len * 2 ^ 15" using N s15 by (intro mult_less_le_imp_less) simp_all
    then have Ns: "?N * 2 ^ s < 32768 * DIG_BASE ^ num_len" by simp
    have V: "?N * 2 ^ s = mpn_val (take (?n + k) num1)"
      using mpn_div_shl_val [OF s(2), of 0 "take num_len num @ [0]"] Ns num(2) by (simp add: num1_def nk)
    have "?n - 1 + k = num_len" using nk den(2) by (cases den) simp_all
    then have "32768 * DIG_BASE ^ num_len = (32768 * DIG_BASE ^ (?n - 1)) * DIG_BASE ^ k"
      by (simp add: power_add [symmetric])
    also have "\<dots> \<le> D * DIG_BASE ^ k" using dd by (intro mult_right_mono) (simp_all add: div_den_def)
    finally have lt: "?N * 2 ^ s < D * DIG_BASE ^ k" using Ns by linarith
    have tf: "?n \<le> 2 \<or> div_tie_free (?N * 2 ^ s) D ?n k"
      using tie s(1) num(2) by (simp add: mpn_div_tie_free_def D_def k_def)
    have len1: "?n + k \<le> length num1" "length num1 = length num" "k \<le> length quo"
      using num(2) quo nk by (auto simp: num1_def k_def)
    obtain num2 quo2 where r: "mpn_div_loop s lead den k num1 quo = Some (num2, quo2)" "length num2 = length num"
      "length quo2 = length quo" "mpn_val (take ?n num2) = (?N * 2 ^ s) mod D" "mpn_val (take k quo2) = (?N * 2 ^ s) div D"
      using mpn_div_loop_val [OF dd len1(1,3) V lt tf] len1(2) by auto
    define sh num3 where "sh = mpn_div_shr s 0 (rev (take ?n num2)) []" and "num3 = sh @ drop ?n num2"
    have sh: "length sh = ?n" "mpn_val sh = ?N mod ?M"
      using mpn_div_shr_val [OF s(2), of "take ?n num2"] r(2,4) le num(2)
      by (simp_all add: sh_def D_def mod_mult_mult2)
    have t3: "take ?n num3 = sh" using sh by (simp add: num3_def)
    note strip = mpn_strip_zeros [OF refl]
    have res: "mpn_div num num_len den quo = Some (num3, mpn_remove_trailing_zeros sh, quo2, mpn_remove_trailing_zeros (take k quo2))"
      using 3 cmp num(2) s(1) r(1) t3 by (simp add: mpn_div_def Let_def num1_def lead_def k_def num3_def sh_def)
    have tk: "take (mpn_remove_trailing_zeros sh) num3 = take (mpn_remove_trailing_zeros sh) sh"
      "take (mpn_remove_trailing_zeros (take k quo2)) quo2 = take (mpn_remove_trailing_zeros (take k quo2)) (take k quo2)"
      using strip(3) [of sh] strip(3) [of "take k quo2"] by (simp_all add: num3_def)
    show ?thesis unfolding res
      using r(2,3,5) sh strip [of sh] strip [of "take k quo2"] tk le num(2) M
      by (simp add: num3_def D_def div_mult_mult2)
  qed
qed

section \<open>The contract of the division\<close>

text \<open>C19: \<open>mpn_div\<close> leaves the remainder in the numerator buffer and the quotient in the quotient
  buffer, both normalised, and returns, for a denominator of at most two digits and for every
  operand on which no partial numerator starts with the leading digit of the denominator.\<close>

theorem mpn_div_quotient_remainder:
  assumes "normalised (take num_len num)" "num_len < length num" "normalised den" "den \<noteq> []" "num_len < length quo"
    and "length den \<le> 2 \<or> mpn_div_tie_free (take num_len num) den"
  shows "\<exists>num' n' quo' q'. mpn_div num num_len den quo = Some (num', n', quo', q')
    \<and> length num' = length num \<and> n' \<le> length num \<and> length quo' = length quo \<and> q' \<le> length quo
    \<and> mpn_val (take n' num') = mpn_val (take num_len num) mod mpn_val den \<and> normalised (take n' num')
    \<and> mpn_val (take q' quo') = mpn_val (take num_len num) div mpn_val den \<and> normalised (take q' quo')"
  using assms by (rule mpn_div_correct)

theorem mpn_div_quotient_remainder_witness:
  "\<exists>num' n' quo' q'. mpn_div [5, 0, 1, 0] 3 [3, 2] [9, 9, 9, 9] = Some (num', n', quo', q')
    \<and> mpn_val (take n' num') = 4294967301 mod 131075 \<and> mpn_val (take q' quo') = 32767"
  using mpn_div_quotient_remainder [of 3 "[5, 0, 1, 0]" "[3, 2]" "[9, 9, 9, 9]"]
  by (fastforce simp: normalised_def)

section \<open>Ties\<close>

text \<open>
  The run on the operands of the counterexample below, whose digits \<open>a\<close>, \<open>b\<close> and \<open>h\<close> are arbitrary. The
  leading digit of the denominator has its top bit set, so nothing is shifted.
\<close>

lemma unshifted_digit:
  fixes c d :: dig
  shows "(push_bit 0 (ucast d) OR drop_bit DIG_SIZE (ucast c) :: dbl) = ucast d" "(ucast d :: dbl) AND DIG_MASK = ucast d"
    "drop_bit DIG_SIZE (ucast c :: dbl) = 0"
proof -
  show "drop_bit DIG_SIZE (ucast c :: dbl) = 0" by (simp add: word_unat_eq_iff unat_drop_bit_u32)
  then show "(push_bit 0 (ucast d) OR drop_bit DIG_SIZE (ucast c) :: dbl) = ucast d" by simp
  show "(ucast d :: dbl) AND DIG_MASK = ucast d" by (simp add: word_unat_eq_iff unat_and_mask_16)
qed

lemma mpn_div_sub_unshifted:
  "mpn_div_sub 0 quo (ucast (c :: dig)) borrow (n # ns) (d # ds) =
     (let (n', borrow) = mpn_div_sub_digit n (quo * ucast d) borrow; (ns', borrow) = mpn_div_sub 0 quo (ucast d) borrow ns ds
      in (n' # ns', borrow))"
  by (simp only: mpn_div_sub.simps Let_def unshifted_digit(1,2))

lemma mpn_div_add_unshifted:
  "mpn_div_add 0 (ucast (c :: dig)) carry (n # ns) (d # ds) =
     (let carry = carry + (ucast n + ucast d); (ns', carry') = mpn_div_add 0 (ucast d) (drop_bit DIG_SIZE carry) ns ds
      in (ucast (carry AND DIG_MASK) # ns', carry'))"
  by (simp only: mpn_div_add.simps Let_def unshifted_digit(1,2))

lemma mod_neg_digit:
  fixes u k r :: nat
  assumes "(u + (65536 * k + r)) mod 4294967296 = 0" "0 < r" "r < 65536"
  shows "u mod 65536 = 65536 - r"
proof -
  define v where "v = u mod 65536"
  have "(u + (65536 * k + r)) mod 4294967296 mod 65536 = (u + (65536 * k + r)) mod 65536" by (rule mod_mod_cancel) simp
  also have "\<dots> = (v + r) mod 65536" unfolding v_def
    by (metis add.left_commute mod_add_left_eq mod_mult_self4)
  finally have z: "(v + r) mod 65536 = 0" using assms(1) by simp
  have "v < 65536" by (simp add: v_def)
  then have "v + r = 65536" using z assms(2,3) by (cases "v + r < 65536") (auto simp: mod_if [of "v + r"] split: if_splits)
  then show ?thesis by (simp add: v_def)
qed

lemma mpn_div_sub_digit_borrow:
  fixes n :: dig and x br :: dbl
  assumes n: "unat n \<le> unat x" and T: "(unat br + (unat x - unat n)) mod 4294967296 = 65536 * k + r" "0 < r" "r < 65536"
  shows "mpn_div_sub_digit n x br = (of_nat (65536 - r), of_nat (k + 1))"
proof -
  define t where "t = br + (x - ucast n)"
  have le: "ucast n \<le> x" using n by (simp add: word_le_nat_alt)
  have t: "unat t = 65536 * k + r" unfolding t_def T(1) [symmetric] using n by (simp add: unat_word_ariths(1) unat_sub_u32)
  have m: "unat (t AND DIG_MASK) = r" using t T(3) by (simp add: unat_and_mask_16)
  have d: "drop_bit DIG_SIZE t = of_nat k" using t T(3) unat_u32_less [of t] by (simp add: word_unat_eq_iff unat_drop_bit_u32 unat_of_nat)
  have "(unat (- t) + unat t) mod 4294967296 = 0" using unat_word_ariths(1) [of "- t" t] by simp
  then have "unat (- t) mod 65536 = 65536 - r" using t T(2,3) mod_neg_digit by simp
  then have "(ucast (- t AND DIG_MASK) :: dig) = of_nat (65536 - r)"
    using T(2) by (simp add: word_unat_eq_iff unat_ucast_32_16 unat_and_mask_16 unat_of_nat)
  moreover have "t AND DIG_MASK \<noteq> 0" using m T(2) by auto
  ultimately show ?thesis using le d by (simp add: mpn_div_sub_digit_def Let_def t_def [symmetric])
qed

lemma mpn_div_tie_sub:
  fixes a b h :: dig
  assumes "unat a < 65535" "unat b < 65535" "0 < unat h"
  shows "mpn_div_sub 0 1 0 0 [b, h, h] [0xFFFF, 0xFFFF, h] = ([b + 1, h, 0xFFFF], 1)"
    "mpn_div_sub 0 0x10001 0 0 [a, b, h] [0xFFFF, 0xFFFF, h] = ([a + 1, b + 1, 0xFFFF], ucast h + 1)"
proof -
  have h: "Suc (65535 - unat h) = 65536 - unat h" using unat_u16_le [of h] by linarith
  have b: "(4295032831 - unat b) mod 4294967296 = 65535 - unat b"
    using assms(2) by (subst mod_if) simp
  have x: "unat (0x10001 * ucast h :: dbl) = 65537 * unat h"
  proof -
    have "65537 * unat h < 4294967296" using unat_u16_le [of h] by linarith
    then show ?thesis using unat_mult_u32 [of "0x10001" "ucast h"] by simp
  qed
  have "Suc (65536 * unat h) < 4294967296" using unat_u16_le [of h] by linarith
  then have y: "Suc (65537 * unat h - unat h) mod 4294967296 = Suc (65536 * unat h)" by simp
  have 1: "mpn_div_sub_digit b (1 * ucast (0xFFFF :: dig)) 0 = (b + 1, 1)"
    "mpn_div_sub_digit h (1 * ucast (0xFFFF :: dig)) 1 = (h, 1)"
    "mpn_div_sub_digit h (1 * ucast h) 1 = (0xFFFF, 1)"
    using mpn_div_sub_digit_borrow [of b "0xFFFF" 0 0 "65535 - unat b"] mpn_div_sub_digit_borrow [of h "0xFFFF" 1 0 "65536 - unat h"]
      mpn_div_sub_digit_borrow [of h "ucast h" 1 0 1] assms h by (simp_all add: of_nat_diff)
  have 2: "mpn_div_sub_digit a (0x10001 * ucast (0xFFFF :: dig)) 0 = (a + 1, 0x10000)"
    "mpn_div_sub_digit b (0x10001 * ucast (0xFFFF :: dig)) 0x10000 = (b + 1, 1)"
    "mpn_div_sub_digit h (0x10001 * ucast h) 1 = (0xFFFF, ucast h + 1)"
    using mpn_div_sub_digit_borrow [of a "0xFFFFFFFF" 0 "65535" "65535 - unat a"]
      mpn_div_sub_digit_borrow [of b "0xFFFFFFFF" "0x10000" 0 "65535 - unat b"]
      mpn_div_sub_digit_borrow [of h "0x10001 * ucast h" 1 "unat h" 1] assms b y by (simp_all add: of_nat_diff x)
  have 0: "mpn_div_sub 0 q 0 0 (n # ns) (d # ds) = mpn_div_sub 0 q (ucast (0 :: dig)) 0 (n # ns) (d # ds)" for q n ns d ds by simp
  show "mpn_div_sub 0 1 0 0 [b, h, h] [0xFFFF, 0xFFFF, h] = ([b + 1, h, 0xFFFF], 1)"
    unfolding 0 mpn_div_sub_unshifted 1 Let_def split by simp
  show "mpn_div_sub 0 0x10001 0 0 [a, b, h] [0xFFFF, 0xFFFF, h] = ([a + 1, b + 1, 0xFFFF], ucast h + 1)"
    unfolding 0 mpn_div_sub_unshifted 2 Let_def split by simp
qed

lemma mpn_div_add_digit_carry:
  fixes n d w :: dig and carry :: dbl
  assumes "unat carry + (unat n + unat d) = 65536 + unat w"
  shows "ucast (carry + (ucast n + ucast d) AND DIG_MASK) = w" "drop_bit DIG_SIZE (carry + (ucast n + ucast d)) = 1"
proof -
  have "unat n + unat d < 4294967296" "65536 + unat w < 4294967296"
    using unat_u16_le [of n] unat_u16_le [of d] unat_u16_le [of w] by linarith+
  then have "unat (carry + (ucast n + ucast d)) = 65536 + unat w" using assms by (simp add: unat_add_u32)
  then show "ucast (carry + (ucast n + ucast d) AND DIG_MASK) = w" "drop_bit DIG_SIZE (carry + (ucast n + ucast d)) = 1"
    by (simp_all add: word_unat_eq_iff unat_ucast_32_16 unat_and_mask_16 unat_drop_bit_u32 div_add1_eq)
qed

lemma mpn_div_tie_add:
  fixes a b h :: dig
  assumes "unat a < 65535" "unat b < 65535"
  shows "mpn_div_add 0 0 0 [b + 1, h, 0xFFFF] [0xFFFF, 0xFFFF, h] = ([b, h, h], 1)"
    "mpn_div_add 0 0 0 [a + 1, b + 1, 0xFFFF] [0xFFFF, 0xFFFF, h] = ([a, b + 1, h], 1)"
proof -
  have s: "unat (a + 1) = unat a + 1" "unat (b + 1) = unat b + 1" using assms by (simp_all add: unat_word_ariths)
  have "unat (0 :: dbl) + (unat (b + 1) + unat (0xFFFF :: dig)) = 65536 + unat b"
    "unat (0 :: dbl) + (unat (a + 1) + unat (0xFFFF :: dig)) = 65536 + unat a"
    "unat (1 :: dbl) + (unat h + unat (0xFFFF :: dig)) = 65536 + unat h"
    "unat (1 :: dbl) + (unat (b + 1) + unat (0xFFFF :: dig)) = 65536 + unat (b + 1)"
    "unat (1 :: dbl) + (unat (0xFFFF :: dig) + unat h) = 65536 + unat h"
    using s by simp_all
  note c = this [THEN mpn_div_add_digit_carry(1)] this [THEN mpn_div_add_digit_carry(2)]
  have 0: "mpn_div_add 0 0 0 (n # ns) (d # ds) = mpn_div_add 0 (ucast (0 :: dig)) 0 (n # ns) (d # ds)" for n ns d ds by simp
  show "mpn_div_add 0 0 0 [b + 1, h, 0xFFFF] [0xFFFF, 0xFFFF, h] = ([b, h, h], 1)"
    "mpn_div_add 0 0 0 [a + 1, b + 1, 0xFFFF] [0xFFFF, 0xFFFF, h] = ([a, b + 1, h], 1)"
    unfolding 0 mpn_div_add_unshifted Let_def c by simp_all
qed

lemma mpn_div_tie_loop:
  fixes a b h :: dig
  assumes "unat a < 65535" "unat b < 65535" "0 < unat h"
  shows "mpn_div_loop 0 (ucast h) [0xFFFF, 0xFFFF, h] 2 [a, b, h, h, 0] [q0, q1, q2, q3] = Some ([a, b + 1, h, h, 0], [0, 0, q2, q3])"
proof -
  have q: "(push_bit DIG_SIZE (ucast (0 :: dig)) OR ucast h) div ucast h = (1 :: dbl)"
    "(push_bit DIG_SIZE (ucast h) OR ucast h) div ucast h = (0x10001 :: dbl)"
  proof -
    have "unat (push_bit DIG_SIZE (ucast h) OR ucast h :: dbl) = 65537 * unat h"
      using unat_or_shifted [of "ucast h" DIG_SIZE "ucast h"] unat_u16_le [of h] by simp
    then show "(push_bit DIG_SIZE (ucast (0 :: dig)) OR ucast h) div ucast h = (1 :: dbl)"
      "(push_bit DIG_SIZE (ucast h) OR ucast h) div ucast h = (0x10001 :: dbl)"
      using assms(3) by (simp_all add: word_unat_eq_iff unat_div)
  qed
  note s = mpn_div_tie_sub [OF assms] and ad = mpn_div_tie_add [OF assms(1,2), of h]
  have f: "mpn_div_fix 0 [0xFFFF, 0xFFFF, h] 1 1 [b + 1, h, 0xFFFF] = Some (0, [b, h, h])"
    "mpn_div_fix 0 [0xFFFF, 0xFFFF, h] 1 0x10001 [a + 1, b + 1, 0xFFFF] = Some (0x10000, [a, b + 1, h])"
    by (simp_all only: mpn_div_fix.simps [of _ _ 1] ad Let_def split) (simp_all add: mpn_div_fix.simps [of _ _ 0])
  show ?thesis unfolding numeral_2_eq_2 using q s f by (simp del: mpn_div_sub.simps add: Let_def)
qed

text \<open>C34: The division is wrong where a partial numerator starts with the leading digit of the
  denominator: the borrow of the trial subtraction exceeds 32 bits. For every leading digit \<open>h\<close> with
  its top bit set and all low digits \<open>a\<close> and \<open>b\<close> but the largest one, the division of \<open>h h b a\<close> (most significant digit
  first) by \<open>h 0xFFFF 0xFFFF\<close> returns the quotient \<open>0\<close>, where the quotient is at least \<open>65534\<close>, whatever
  the buffers held before.\<close>

theorem mpn_div_tie_wrong:
  fixes a b h :: dig
  assumes "0x8000 \<le> h" "a \<noteq> 0xFFFF" "b \<noteq> 0xFFFF"
  shows "\<exists>num' n' quo'. mpn_div [a, b, h, h, g] 4 [0xFFFF, 0xFFFF, h] [q0, q1, q2, q3] = Some (num', n', quo', 0)
    \<and> 65534 \<le> mpn_val [a, b, h, h] div mpn_val [0xFFFF, 0xFFFF, h]"
proof -
  have "unat a \<noteq> 65535" "unat b \<noteq> 65535" using assms(2,3) by (simp_all add: word_unat_eq_iff)
  then have ab: "unat a < 65535" "unat b < 65535" "32768 \<le> unat h"
    using unat_u16_le [of a] unat_u16_le [of b] assms(1) by (auto simp: word_le_nat_alt less_le simp del: unat_u16_le)
  have c: "mpn_div_count h 0 = Some 0" using ab(3) and_msb_0 [of h] by (simp add: mpn_div_count.simps [of h])
  have "65534 * mpn_val [0xFFFF, 0xFFFF, h] \<le> mpn_val [a, b, h, h]" using ab(3) by simp
  then have "65534 \<le> mpn_val [a, b, h, h] div mpn_val [0xFFFF, 0xFFFF, h]" by (subst less_eq_div_iff_mult_less_eq) simp_all
  moreover have "mpn_div_shl 0 0 [a, b, h, h, 0] = [a, b, h, h, 0]"
    by (simp add: unshifted_digit) (simp add: word_unat_eq_iff unat_ucast_32_16)
  moreover have "mpn_div_lead 0 [0xFFFF, 0xFFFF, h] = ucast h" using unshifted_digit(1) [of h "0xFFFF"] by (simp add: mpn_div_lead_def)
  ultimately show ?thesis using c mpn_div_tie_loop [OF ab(1,2), of h] ab(3)
    by (simp add: mpn_div_def mpn_cmp_def Let_def mpn_remove_trailing_zeros_def del: mpn_val.simps)
qed

theorem mpn_div_tie_wrong_witness:
  "\<exists>num' n' quo'. mpn_div [0, 0, 0x8000, 0x8000, 7] 4 [0xFFFF, 0xFFFF, 0x8000] [0, 0, 0, 0] = Some (num', n', quo', 0)
    \<and> 65534 \<le> mpn_val [0, 0, 0x8000, 0x8000] div mpn_val [0xFFFF, 0xFFFF, 0x8000]"
  by (rule mpn_div_tie_wrong) simp_all

end
