(* ===== verification/Mpz.thy ===== *)
theory Mpz
  imports Mpn_Bitwise Mpn_Div "HOL-Library.Monad_Syntax"
begin

text \<open>
  Arbitrary precision integers (\<open>mpz_t\<close> of \<open>src/py/mpz.c\<close> and \<open>src/py/mpz.h\<close>): objects with a
  sign, a digit buffer and a length, and the operations that compute in place. The objects live in
  a store indexed by references, so that the sharing of destination and operands that the code
  allows is part of the model. An operation returns \<open>None\<close> where an assertion of the code
  fails, a digit would be written past the buffer, or a loop does not return. The contents of
  freshly allocated memory are a parameter \<open>jk\<close>. Running out of memory, which raises an
  exception out of the allocator, is not modelled.
\<close>

section \<open>Objects and the store\<close>

text \<open>\<open>alloc\<close> is the length of the buffer, and a null \<open>dig\<close> is the empty buffer.\<close>

record mpz =
  z_neg :: bool
  z_fixed_dig :: bool
  z_len :: nat
  z_dig :: "dig list"

text \<open>A reference: an object of the caller, or a temporary object of the function named.\<close>

datatype mpz_ref = Obj nat | Pow_x | Pow_n | Pow3_quo | Divmod_one

type_synonym mpz_store = "mpz_ref \<Rightarrow> mpz"
type_synonym junk = "nat \<Rightarrow> dig"

abbreviation z_digits :: "mpz \<Rightarrow> dig list" where
  "z_digits z \<equiv> take (z_len z) (z_dig z)"

definition mpz_val :: "mpz \<Rightarrow> int" where
  "mpz_val z = sval (z_neg z) (mpn_val (z_digits z))"

text \<open>The invariant every operation keeps: the length is inside the buffer, no leading zero digit.\<close>

definition mpz_ok :: "mpz \<Rightarrow> bool" where
  "mpz_ok z \<longleftrightarrow> z_len z \<le> length (z_dig z) \<and> normalised (z_digits z)"

text \<open>The invariant that excludes the negative zero.\<close>

definition mpz_canonical :: "mpz \<Rightarrow> bool" where
  "mpz_canonical z \<longleftrightarrow> mpz_ok z \<and> (z_len z = 0 \<longrightarrow> \<not> z_neg z)"

definition mpz_init_zero :: mpz where
  "mpz_init_zero = \<lparr>z_neg = False, z_fixed_dig = False, z_len = 0, z_dig = []\<rparr>"

definition mpz_is_zero :: "mpz \<Rightarrow> bool" where
  "mpz_is_zero z = (z_len z = 0)"

definition mpz_is_neg :: "mpz \<Rightarrow> bool" where
  "mpz_is_neg z = (z_len z \<noteq> 0 \<and> z_neg z)"

section \<open>Memory\<close>

abbreviation (input) MIN_ALLOC :: nat where "MIN_ALLOC \<equiv> 2"

definition mpz_need_dig :: "junk \<Rightarrow> nat \<Rightarrow> mpz \<Rightarrow> mpz option" where
  "mpz_need_dig jk need z =
     (let need = (if need < MIN_ALLOC then MIN_ALLOC else need)
      in if length (z_dig z) < need then
           if z_fixed_dig z then None
           else Some (z\<lparr>z_dig := z_dig z @ map jk [length (z_dig z)..<need]\<rparr>)
         else Some z)"

text \<open>The stores of digits from the start of the buffer, with the length then set.\<close>

definition mpz_put :: "dig list \<Rightarrow> nat \<Rightarrow> mpz \<Rightarrow> mpz option" where
  "mpz_put ds n z =
     (if length ds \<le> length (z_dig z)
      then Some (z\<lparr>z_dig := ds @ drop (length ds) (z_dig z), z_len := n\<rparr>) else None)"

definition mpz_clone :: "mpz \<Rightarrow> mpz option" where
  "mpz_clone src = (if z_dig src = [] then None else Some (src\<lparr>z_fixed_dig := False\<rparr>))"

definition mpz_set :: "junk \<Rightarrow> mpz_ref \<Rightarrow> mpz_ref \<Rightarrow> mpz_store \<Rightarrow> mpz_store option" where
  "mpz_set jk dest src st = do {
     d \<leftarrow> mpz_need_dig jk (z_len (st src)) (st dest);
     let st = st(dest := d);
     d \<leftarrow> mpz_put (z_digits (st src)) (z_len (st src)) (st dest);
     Some (st(dest := d\<lparr>z_neg := z_neg (st src)\<rparr>))
   }"

section \<open>Machine integers\<close>

text \<open>
  The loop that splits an unsigned machine integer into digits. It is the same for the 32-bit and
  the 64-bit functions.
\<close>

function mpz_uint_digits :: "'a::len word \<Rightarrow> dig list" where
  "mpz_uint_digits uval =
     (if uval = 0 then [] else ucast (uval AND 0xFFFF) # mpz_uint_digits (drop_bit DIG_SIZE uval))"
  by pat_completeness auto
termination
proof (relation "measure unat")
  fix u :: "'a word"
  assume "u \<noteq> 0"
  then have "0 < unat u" by (simp add: unat_gt_0)
  then have "unat u div 2 ^ DIG_SIZE < unat u" by (intro div_less_dividend) simp_all
  then show "(drop_bit DIG_SIZE u, u) \<in> measure unat"
    by (simp only: in_measure unat_drop_bit_eq) (simp only: drop_bit_eq_div)
qed simp

declare mpz_uint_digits.simps [simp del]

definition mpz_set_from_int :: "junk \<Rightarrow> mp_uint_t \<Rightarrow> mpz \<Rightarrow> mpz option" where
  "mpz_set_from_int jk val z =
     (if val = 0 then Some (z\<lparr>z_len := 0\<rparr>)
      else do {
        z \<leftarrow> mpz_need_dig jk 2 z;
        let neg = (sint val < 0);
        let ds = mpz_uint_digits (if neg then - val else val);
        z \<leftarrow> mpz_put ds (length ds) z;
        Some (z\<lparr>z_neg := neg\<rparr>)
      })"

definition mpz_set_from_ll :: "junk \<Rightarrow> u64 \<Rightarrow> bool \<Rightarrow> mpz \<Rightarrow> mpz option" where
  "mpz_set_from_ll jk val is_signed z = do {
     z \<leftarrow> mpz_need_dig jk 4 z;
     let neg = (is_signed \<and> sint val < 0);
     let ds = mpz_uint_digits (if neg then - val else val);
     z \<leftarrow> mpz_put ds (length ds) z;
     Some (z\<lparr>z_neg := neg\<rparr>)
   }"

definition mpz_init_from_int :: "junk \<Rightarrow> mp_uint_t \<Rightarrow> mpz option" where
  "mpz_init_from_int jk val = mpz_set_from_int jk val mpz_init_zero"

definition mpz_init_fixed_from_int :: "junk \<Rightarrow> dig list \<Rightarrow> mp_uint_t \<Rightarrow> mpz option" where
  "mpz_init_fixed_from_int jk dig val =
     mpz_set_from_int jk val \<lparr>z_neg = False, z_fixed_dig = True, z_len = 0, z_dig = dig\<rparr>"

section \<open>Sign and shift operations\<close>

definition mpz_abs_inpl :: "junk \<Rightarrow> mpz_ref \<Rightarrow> mpz_ref \<Rightarrow> mpz_store \<Rightarrow> mpz_store option" where
  "mpz_abs_inpl jk dest z st = do {
     st \<leftarrow> (if dest \<noteq> z then mpz_set jk dest z st else Some st);
     Some (st(dest := (st dest)\<lparr>z_neg := False\<rparr>))
   }"

definition mpz_neg_inpl :: "junk \<Rightarrow> mpz_ref \<Rightarrow> mpz_ref \<Rightarrow> mpz_store \<Rightarrow> mpz_store option" where
  "mpz_neg_inpl jk dest z st = do {
     st \<leftarrow> (if dest \<noteq> z then mpz_set jk dest z st else Some st);
     Some (st(dest := (st dest)\<lparr>z_neg := \<not> z_neg (st dest)\<rparr>))
   }"

definition mpz_not_inpl :: "junk \<Rightarrow> mpz_ref \<Rightarrow> mpz_ref \<Rightarrow> mpz_store \<Rightarrow> mpz_store option" where
  "mpz_not_inpl jk dest z st = do {
     st \<leftarrow> (if dest \<noteq> z then mpz_set jk dest z st else Some st);
     if z_len (st dest) = 0 then do {
       d \<leftarrow> mpz_need_dig jk 1 (st dest);
       d \<leftarrow> mpz_put [1] 1 d;
       Some (st(dest := d\<lparr>z_neg := True\<rparr>))
     } else if z_neg (st dest) then do {
       let (ds, n) = mpn_sub (z_digits (st dest)) [1];
       d \<leftarrow> mpz_put ds n (st dest);
       Some (st(dest := d\<lparr>z_neg := False\<rparr>))
     } else do {
       d \<leftarrow> mpz_need_dig jk (z_len (st dest) + 1) (st dest);
       let ds = mpn_add (z_digits d) [1];
       d \<leftarrow> mpz_put ds (length ds) d;
       Some (st(dest := d\<lparr>z_neg := True\<rparr>))
     }
   }"

definition mpz_shl_inpl :: "junk \<Rightarrow> mpz_ref \<Rightarrow> mpz_ref \<Rightarrow> nat \<Rightarrow> mpz_store \<Rightarrow> mpz_store option" where
  "mpz_shl_inpl jk dest lhs rhs st =
     (if z_len (st lhs) = 0 \<or> rhs = 0 then mpz_set jk dest lhs st
      else do {
        d \<leftarrow> mpz_need_dig jk (z_len (st lhs) + (rhs + DIG_SIZE - 1) mod 2 ^ 32 div DIG_SIZE) (st dest);
        let st = st(dest := d);
        let (ds, n) = mpn_shl (z_digits (st lhs)) rhs;
        d \<leftarrow> mpz_put ds n (st dest);
        let st = st(dest := d);
        Some (st(dest := (st dest)\<lparr>z_neg := z_neg (st lhs)\<rparr>))
      })"

text \<open>
  The rounding of \<open>mpz_shr_inpl\<close> reads \<open>lhs\<close> after the digits of \<open>dest\<close> have been stored.
\<close>

definition mpz_shr_round :: "mpz \<Rightarrow> nat \<Rightarrow> bool" where
  "mpz_shr_round lhs rhs =
     (let n_whole = rhs div DIG_SIZE; n_part = rhs mod DIG_SIZE
      in (\<exists>d \<in> set (take n_whole (z_digits lhs)). d \<noteq> 0)
         \<or> (n_whole < z_len lhs \<and> z_dig lhs ! n_whole AND (push_bit n_part 1 - 1) \<noteq> 0))"

definition mpz_shr_inpl :: "junk \<Rightarrow> mpz_ref \<Rightarrow> mpz_ref \<Rightarrow> nat \<Rightarrow> mpz_store \<Rightarrow> mpz_store option" where
  "mpz_shr_inpl jk dest lhs rhs st =
     (if z_len (st lhs) = 0 \<or> rhs = 0 then mpz_set jk dest lhs st
      else do {
        d \<leftarrow> mpz_need_dig jk (z_len (st lhs)) (st dest);
        let st = st(dest := d);
        let (ds, n) = mpn_shr (z_digits (st lhs)) rhs;
        d \<leftarrow> mpz_put ds n (st dest);
        let st = st(dest := d);
        let st = st(dest := (st dest)\<lparr>z_neg := z_neg (st lhs)\<rparr>);
        if z_neg (st dest) \<and> mpz_shr_round (st lhs) rhs then
          if z_len (st dest) = 0 then do {
            d \<leftarrow> mpz_put [1] 1 (st dest);
            Some (st(dest := d))
          } else do {
            let ds = mpn_add (z_digits (st dest)) [1];
            d \<leftarrow> mpz_put ds (length ds) (st dest);
            Some (st(dest := d))
          }
        else Some st
      })"

section \<open>Addition, subtraction and bitwise operations\<close>

definition mpz_add_inpl :: "junk \<Rightarrow> mpz_ref \<Rightarrow> mpz_ref \<Rightarrow> mpz_ref \<Rightarrow> mpz_store \<Rightarrow> mpz_store option" where
  "mpz_add_inpl jk dest lhs rhs st =
     (let (lhs, rhs) = (if mpn_cmp (z_digits (st lhs)) (z_digits (st rhs)) < 0 then (rhs, lhs) else (lhs, rhs))
      in if z_neg (st lhs) = z_neg (st rhs) then do {
           d \<leftarrow> mpz_need_dig jk (z_len (st lhs) + 1) (st dest);
           let st = st(dest := d);
           let ds = mpn_add (z_digits (st lhs)) (z_digits (st rhs));
           d \<leftarrow> mpz_put ds (length ds) (st dest);
           let st = st(dest := d);
           Some (st(dest := (st dest)\<lparr>z_neg := z_neg (st lhs)\<rparr>))
         } else do {
           d \<leftarrow> mpz_need_dig jk (z_len (st lhs)) (st dest);
           let st = st(dest := d);
           let (ds, n) = mpn_sub (z_digits (st lhs)) (z_digits (st rhs));
           d \<leftarrow> mpz_put ds n (st dest);
           let st = st(dest := d);
           Some (st(dest := (st dest)\<lparr>z_neg := z_neg (st lhs)\<rparr>))
         })"

definition mpz_sub_inpl :: "junk \<Rightarrow> mpz_ref \<Rightarrow> mpz_ref \<Rightarrow> mpz_ref \<Rightarrow> mpz_store \<Rightarrow> mpz_store option" where
  "mpz_sub_inpl jk dest lhs rhs st =
     (let (neg, lhs, rhs) = (if mpn_cmp (z_digits (st lhs)) (z_digits (st rhs)) < 0
                             then (True, rhs, lhs) else (False, lhs, rhs))
      in do {
        st \<leftarrow> (if z_neg (st lhs) \<noteq> z_neg (st rhs) then do {
           d \<leftarrow> mpz_need_dig jk (z_len (st lhs) + 1) (st dest);
           let st = st(dest := d);
           let ds = mpn_add (z_digits (st lhs)) (z_digits (st rhs));
           d \<leftarrow> mpz_put ds (length ds) (st dest);
           Some (st(dest := d))
         } else do {
           d \<leftarrow> mpz_need_dig jk (z_len (st lhs)) (st dest);
           let st = st(dest := d);
           let (ds, n) = mpn_sub (z_digits (st lhs)) (z_digits (st rhs));
           d \<leftarrow> mpz_put ds n (st dest);
           Some (st(dest := d))
         });
        Some (st(dest := (st dest)\<lparr>z_neg := (if neg then \<not> z_neg (st lhs) else z_neg (st lhs))\<rparr>))
      })"

text \<open>The operand with the most digits first, as the three bitwise operations take them.\<close>

definition mpz_longest_first :: "mpz_ref \<Rightarrow> mpz_ref \<Rightarrow> mpz_store \<Rightarrow> mpz_ref \<times> mpz_ref" where
  "mpz_longest_first lhs rhs st = (if z_len (st lhs) < z_len (st rhs) then (rhs, lhs) else (lhs, rhs))"

definition mpz_and_inpl :: "junk \<Rightarrow> mpz_ref \<Rightarrow> mpz_ref \<Rightarrow> mpz_ref \<Rightarrow> mpz_store \<Rightarrow> mpz_store option" where
  "mpz_and_inpl jk dest lhs rhs st =
     (let (lhs, rhs) = mpz_longest_first lhs rhs st
      in do {
        d \<leftarrow> mpz_need_dig jk (z_len (st lhs) + of_bool (z_neg (st lhs) \<or> z_neg (st rhs))) (st dest);
        let st = st(dest := d);
        let (ds, n) = mpn_and_neg (z_digits (st lhs)) (z_digits (st rhs))
          (if z_neg (st lhs) = z_neg (st rhs) then of_bool (z_neg (st lhs)) else 0)
          (of_bool (z_neg (st lhs))) (of_bool (z_neg (st rhs)));
        d \<leftarrow> mpz_put ds n (st dest);
        let st = st(dest := d);
        Some (st(dest := (st dest)\<lparr>z_neg := z_neg (st lhs) \<and> z_neg (st rhs)\<rparr>))
      })"

definition mpz_or_inpl :: "junk \<Rightarrow> mpz_ref \<Rightarrow> mpz_ref \<Rightarrow> mpz_ref \<Rightarrow> mpz_store \<Rightarrow> mpz_store option" where
  "mpz_or_inpl jk dest lhs rhs st =
     (let (lhs, rhs) = mpz_longest_first lhs rhs st
      in do {
        d \<leftarrow> mpz_need_dig jk (z_len (st lhs) + of_bool (z_neg (st lhs) \<or> z_neg (st rhs))) (st dest);
        let st = st(dest := d);
        (ds, n) \<leftarrow> mpn_or_neg (z_digits (st lhs)) (z_digits (st rhs))
          (of_bool (z_neg (st lhs) \<or> z_neg (st rhs)))
          (of_bool (z_neg (st lhs))) (of_bool (z_neg (st rhs)));
        d \<leftarrow> mpz_put ds n (st dest);
        let st = st(dest := d);
        Some (st(dest := (st dest)\<lparr>z_neg := z_neg (st lhs) \<or> z_neg (st rhs)\<rparr>))
      })"

definition mpz_xor_inpl :: "junk \<Rightarrow> mpz_ref \<Rightarrow> mpz_ref \<Rightarrow> mpz_ref \<Rightarrow> mpz_store \<Rightarrow> mpz_store option" where
  "mpz_xor_inpl jk dest lhs rhs st =
     (let (lhs, rhs) = mpz_longest_first lhs rhs st
      in do {
        d \<leftarrow> mpz_need_dig jk (z_len (st lhs) + of_bool (z_neg (st lhs) \<or> z_neg (st rhs))) (st dest);
        let st = st(dest := d);
        let (ds, n) = mpn_xor_neg (z_digits (st lhs)) (z_digits (st rhs))
          (of_bool (z_neg (st lhs) \<noteq> z_neg (st rhs)))
          (of_bool (\<not> z_neg (st lhs))) (of_bool (\<not> z_neg (st rhs)));
        d \<leftarrow> mpz_put ds n (st dest);
        let st = st(dest := d);
        Some (st(dest := (st dest)\<lparr>z_neg := z_neg (st lhs) \<noteq> z_neg (st rhs)\<rparr>))
      })"

section \<open>Multiplication\<close>

definition mpz_mul_inpl :: "junk \<Rightarrow> mpz_ref \<Rightarrow> mpz_ref \<Rightarrow> mpz_ref \<Rightarrow> mpz_store \<Rightarrow> mpz_store option" where
  "mpz_mul_inpl jk dest lhs rhs st =
     (if z_len (st lhs) = 0 \<or> z_len (st rhs) = 0 then do {
        d \<leftarrow> mpz_set_from_int jk 0 (st dest);
        Some (st(dest := d))
      } else do {
        l \<leftarrow> (if lhs = dest then mpz_clone (st lhs) else Some (st lhs));
        r \<leftarrow> (if rhs = dest then (if lhs = dest then Some l else mpz_clone (st rhs)) else Some (st rhs));
        d \<leftarrow> mpz_need_dig jk (z_len l + z_len r) (st dest);
        (ds, n) \<leftarrow> mpn_mul (replicate (length (z_dig d)) 0) (z_digits l) (z_digits r);
        d \<leftarrow> mpz_put ds n d;
        Some (st(dest := d\<lparr>z_neg := z_neg l \<noteq> z_neg r\<rparr>))
      })"

text \<open>\<open>mpz_cmp\<close>\<close>

definition mpz_cmp :: "mpz \<Rightarrow> mpz \<Rightarrow> int" where
  "mpz_cmp z1 z2 =
     (if z_len z1 = 0 \<and> z_len z2 = 0 then 0
      else let cmp = of_bool (z_neg z2) - of_bool (z_neg z1)
           in if cmp \<noteq> 0 then cmp
              else let cmp = mpn_cmp (z_digits z1) (z_digits z2)
                   in if z_neg z1 then - cmp else cmp)"

section \<open>Correctness: memory\<close>

text \<open>
  What an operation that computes into \<open>dest\<close> promises: it returns, it changes no other
  object, the new object keeps the invariant and stands for \<open>v\<close>.
\<close>

definition mpz_result :: "mpz_store \<Rightarrow> mpz_ref \<Rightarrow> int \<Rightarrow> mpz_store option \<Rightarrow> bool" where
  "mpz_result st dest v r \<longleftrightarrow>
     (\<exists>d. r = Some (st(dest := d)) \<and> mpz_ok d \<and> mpz_val d = v \<and> \<not> z_fixed_dig d)"

text \<open>A destination the operation may grow.\<close>

definition mpz_growable :: "mpz \<Rightarrow> bool" where
  "mpz_growable z \<longleftrightarrow> mpz_ok z \<and> \<not> z_fixed_dig z"

lemma mpz_need_dig_Some:
  assumes "mpz_growable z"
  shows "\<exists>e. mpz_need_dig jk need z = Some (z\<lparr>z_dig := z_dig z @ e\<rparr>)
    \<and> need \<le> length (z_dig z) + length e \<and> 2 \<le> length (z_dig z) + length e"
proof (cases "length (z_dig z) < max need 2")
  case True
  then show ?thesis using assms
    by (intro exI [of _ "map jk [length (z_dig z)..<max need 2]"])
       (auto simp: mpz_need_dig_def Let_def mpz_growable_def max_def)
next
  case False
  then show ?thesis using assms
    by (intro exI [of _ "[]"]) (auto simp: mpz_need_dig_def Let_def max_def split: if_splits)
qed

definition mpz_grown :: "mpz_store \<Rightarrow> mpz_ref \<Rightarrow> nat \<Rightarrow> mpz \<Rightarrow> bool" where
  "mpz_grown st dest need d \<longleftrightarrow> need \<le> length (z_dig d) \<and> 2 \<le> length (z_dig d) \<and> \<not> z_fixed_dig d
     \<and> z_neg d = z_neg (st dest) \<and> z_len d = z_len (st dest) \<and> (\<forall>r. z_digits ((st(dest := d)) r) = z_digits (st r))"

lemma mpz_grow:
  assumes "mpz_growable (st dest)"
  shows "\<exists>d. mpz_need_dig jk need (st dest) = Some d \<and> mpz_grown st dest need d"
proof -
  obtain e where "mpz_need_dig jk need (st dest) = Some ((st dest)\<lparr>z_dig := z_dig (st dest) @ e\<rparr>)"
    "need \<le> length (z_dig (st dest)) + length e" "2 \<le> length (z_dig (st dest)) + length e"
    using mpz_need_dig_Some [OF assms] by blast
  then show ?thesis using assms by (simp add: mpz_growable_def mpz_ok_def mpz_grown_def)
qed

lemma mpz_grownD:
  assumes "mpz_grown st dest need d"
  shows "need \<le> length (z_dig d)" "2 \<le> length (z_dig d)" "\<not> z_fixed_dig d" "z_neg d = z_neg (st dest)"
    "z_digits ((st(dest := d)) r) = z_digits (st r)" "z_len ((st(dest := d)) r) = z_len (st r)"
    "z_neg ((st(dest := d)) r) = z_neg (st r)"
  using assms by (simp_all add: mpz_grown_def del: fun_upd_apply) (simp_all add: fun_upd_apply)

lemma z_neg_upd: "z_neg d = z_neg (st dest) \<Longrightarrow> z_neg ((st(dest := d)) r) = z_neg (st r)"
  by simp

lemma mpz_put_Some:
  "length ds \<le> length (z_dig z) \<Longrightarrow>
    mpz_put ds n z = Some (z\<lparr>z_dig := ds @ drop (length ds) (z_dig z), z_len := n\<rparr>)"
  by (simp add: mpz_put_def)

lemmas mpz_steps = z_neg_upd mpz_put_Some fun_upd_same Let_def

lemma mpz_resultI:
  "mpz_ok d \<Longrightarrow> mpz_val d = v \<Longrightarrow> \<not> z_fixed_dig d \<Longrightarrow> mpz_result st dest v (Some (st(dest := d)))"
  by (auto simp: mpz_result_def)

section \<open>Correctness: addition and subtraction\<close>

lemma mpn_cmp_digits:
  assumes "mpz_ok z1" "mpz_ok z2"
  shows "mpn_cmp (z_digits z1) (z_digits z2) = sgn (int (mpn_val (z_digits z1)) - int (mpn_val (z_digits z2)))"
  using assms by (intro mpn_cmp_sgn) (simp_all add: mpz_ok_def)

lemma mpn_val_length_mono:
  assumes "normalised k" "mpn_val k \<le> mpn_val j"
  shows "length k \<le> length j"
proof (rule ccontr)
  assume "\<not> length k \<le> length j"
  then have "k \<noteq> []" "DIG_BASE ^ length j \<le> DIG_BASE ^ (length k - 1)" by (auto intro: power_increasing)
  moreover have "DIG_BASE ^ (length k - 1) \<le> mpn_val k"
    using assms(1) \<open>k \<noteq> []\<close> by (intro mpn_val_ge) (simp_all add: normalised_def)
  ultimately show False using mpn_val_less [of j] assms(2) by linarith
qed

lemma mpn_add_result:
  assumes "normalised j" "normalised k" "mpn_val k \<le> mpn_val j"
  shows "mpn_val (mpn_add j k) = mpn_val j + mpn_val k" "normalised (mpn_add j k)"
    "length (mpn_add j k) \<le> length j + 1"
  using mpn_val_length_mono [OF assms(2,3)] assms(1) mpn_add_length [of k j]
  by (simp_all add: mpn_add_val mpn_add_normalised)

lemma mpn_sub_result:
  assumes "normalised k" "mpn_val k \<le> mpn_val j" "mpn_sub j k = (ds, n)"
  shows "mpn_val (take n ds) = mpn_val j - mpn_val k" "normalised (take n ds)"
    "length ds = length j" "n \<le> length ds"
proof -
  have n: "n = mpn_remove_trailing_zeros ds" "ds = fst (mpn_sub j k)"
    using assms(3) by (auto simp: mpn_sub_def Let_def)
  show "mpn_val (take n ds) = mpn_val j - mpn_val k" "normalised (take n ds)" "n \<le> length ds"
    using mpn_strip_zeros [OF n(1)] mpn_sub_val [OF mpn_val_length_mono [OF assms(1,2)] assms(2)] n(2) by simp_all
  show "length ds = length j" using mpn_sub_length [of j k] n(2) by simp
qed

lemma mpz_add_inpl_result:
  assumes "mpz_growable (st dest)" "mpz_ok (st lhs)" "mpz_ok (st rhs)"
  shows "mpz_result st dest (mpz_val (st lhs) + mpz_val (st rhs)) (mpz_add_inpl jk dest lhs rhs st)"
proof -
  define l r where "l = (if mpn_cmp (z_digits (st lhs)) (z_digits (st rhs)) < 0 then rhs else lhs)"
    and "r = (if mpn_cmp (z_digits (st lhs)) (z_digits (st rhs)) < 0 then lhs else rhs)"
  have le: "mpn_val (z_digits (st r)) \<le> mpn_val (z_digits (st l))"
    and sum: "mpz_val (st lhs) + mpz_val (st rhs) = mpz_val (st l) + mpz_val (st r)"
    and ok: "normalised (z_digits (st l))" "normalised (z_digits (st r))" "length (z_digits (st l)) = z_len (st l)"
    using assms(2,3) mpn_cmp_digits [OF assms(2,3)] by (auto simp: l_def r_def mpz_ok_def)
  have swap: "(if mpn_cmp (z_digits (st lhs)) (z_digits (st rhs)) < 0 then (rhs, lhs) else (lhs, rhs)) = (l, r)"
    by (simp add: l_def r_def)
  show ?thesis
  proof (cases "z_neg (st l) = z_neg (st r)")
    case True
    obtain d where d: "mpz_need_dig jk (Suc (z_len (st l))) (st dest) = Some d" "mpz_grown st dest (Suc (z_len (st l))) d"
      using mpz_grow [of st dest] assms(1) by blast
    note g = mpz_grownD [OF d(2)] and add = mpn_add_result [OF ok(1,2) le]
    have "length (mpn_add (z_digits (st l)) (z_digits (st r))) \<le> length (z_dig d)" using add(3) ok(3) g(1) by linarith
    then show ?thesis using True add g(3) unfolding mpz_add_inpl_def swap sum
      by (simp add: d(1) g(4,5) mpz_steps del: fun_upd_apply)
         (intro mpz_resultI, simp_all add: mpz_ok_def mpz_val_def sval_def)
  next
    case False
    obtain d where d: "mpz_need_dig jk (z_len (st l)) (st dest) = Some d" "mpz_grown st dest (z_len (st l)) d"
      using mpz_grow [of st dest] assms(1) by blast
    obtain ds n where sub: "mpn_sub (z_digits (st l)) (z_digits (st r)) = (ds, n)" by fastforce
    note g = mpz_grownD [OF d(2)] and res = mpn_sub_result [OF ok(2) le sub]
    show ?thesis using False res g(1,3) ok(3) le unfolding mpz_add_inpl_def swap sum
      by (simp add: d(1) g(4,5) sub mpz_steps del: fun_upd_apply)
         (intro mpz_resultI, simp_all add: mpz_ok_def mpz_val_def sval_def of_nat_diff)
  qed
qed

lemma mpz_sub_inpl_result:
  assumes "mpz_growable (st dest)" "mpz_ok (st lhs)" "mpz_ok (st rhs)"
  shows "mpz_result st dest (mpz_val (st lhs) - mpz_val (st rhs)) (mpz_sub_inpl jk dest lhs rhs st)"
proof -
  define neg where "neg = (mpn_cmp (z_digits (st lhs)) (z_digits (st rhs)) < 0)"
  define l r where "l = (if neg then rhs else lhs)" and "r = (if neg then lhs else rhs)"
  have le: "mpn_val (z_digits (st r)) \<le> mpn_val (z_digits (st l))"
    and diff: "mpz_val (st lhs) - mpz_val (st rhs) = (if neg then mpz_val (st r) - mpz_val (st l) else mpz_val (st l) - mpz_val (st r))"
    and ok: "normalised (z_digits (st l))" "normalised (z_digits (st r))" "length (z_digits (st l)) = z_len (st l)"
    using assms(2,3) mpn_cmp_digits [OF assms(2,3)] by (auto simp: neg_def l_def r_def mpz_ok_def)
  have swap: "(if mpn_cmp (z_digits (st lhs)) (z_digits (st rhs)) < 0 then (True, rhs, lhs) else (False, lhs, rhs)) = (neg, l, r)"
    by (simp add: neg_def l_def r_def)
  show ?thesis
  proof (cases "z_neg (st l) = z_neg (st r)")
    case False
    obtain d where d: "mpz_need_dig jk (Suc (z_len (st l))) (st dest) = Some d" "mpz_grown st dest (Suc (z_len (st l))) d"
      using mpz_grow [of st dest] assms(1) by blast
    note g = mpz_grownD [OF d(2)] and add = mpn_add_result [OF ok(1,2) le]
    have "length (mpn_add (z_digits (st l)) (z_digits (st r))) \<le> length (z_dig d)" using add(3) ok(3) g(1) by linarith
    then show ?thesis using False add g(3) unfolding mpz_sub_inpl_def swap diff
      by (simp add: d(1) g(4,5) mpz_steps del: fun_upd_apply)
         (intro conjI impI mpz_resultI, simp_all add: mpz_ok_def mpz_val_def sval_def)
  next
    case True
    obtain d where d: "mpz_need_dig jk (z_len (st l)) (st dest) = Some d" "mpz_grown st dest (z_len (st l)) d"
      using mpz_grow [of st dest] assms(1) by blast
    obtain ds n where sub: "mpn_sub (z_digits (st l)) (z_digits (st r)) = (ds, n)" by fastforce
    note g = mpz_grownD [OF d(2)] and res = mpn_sub_result [OF ok(2) le sub]
    show ?thesis using True res g(1,3) ok(3) le unfolding mpz_sub_inpl_def swap diff
      by (simp add: d(1) g(4,5) sub mpz_steps del: fun_upd_apply)
         (intro conjI impI mpz_resultI, simp_all add: mpz_ok_def mpz_val_def sval_def of_nat_diff)
  qed
qed

section \<open>Correctness: bitwise operations\<close>

lemma mpz_longest_first:
  assumes "mpz_longest_first lhs rhs st = (l, r)" "mpz_canonical (st lhs)" "mpz_canonical (st rhs)"
  shows "length (z_digits (st r)) \<le> length (z_digits (st l))" "length (z_digits (st l)) = z_len (st l)"
    "z_neg (st l) \<longrightarrow> mpn_val (z_digits (st l)) \<noteq> 0" "z_neg (st r) \<longrightarrow> mpn_val (z_digits (st r)) \<noteq> 0"
    "l = lhs \<and> r = rhs \<or> l = rhs \<and> r = lhs"
proof -
  have nz: "z_neg z \<longrightarrow> mpn_val (z_digits z) \<noteq> 0" if "mpz_canonical z" for z
    using that mpn_val_normalised_0 [of "z_digits z"] by (auto simp: mpz_canonical_def mpz_ok_def)
  show lr: "l = lhs \<and> r = rhs \<or> l = rhs \<and> r = lhs"
    using assms(1) by (auto simp: mpz_longest_first_def split: if_splits)
  then show "z_neg (st l) \<longrightarrow> mpn_val (z_digits (st l)) \<noteq> 0" "z_neg (st r) \<longrightarrow> mpn_val (z_digits (st r)) \<noteq> 0"
    using nz assms(2,3) by blast+
  show "length (z_digits (st r)) \<le> length (z_digits (st l))" "length (z_digits (st l)) = z_len (st l)"
    using assms by (auto simp: mpz_longest_first_def mpz_canonical_def mpz_ok_def split: if_splits)
qed

lemma mpz_and_inpl_result:
  assumes "mpz_growable (st dest)" "mpz_canonical (st lhs)" "mpz_canonical (st rhs)"
  shows "mpz_result st dest (mpz_val (st lhs) AND mpz_val (st rhs)) (mpz_and_inpl jk dest lhs rhs st)"
proof -
  obtain l r where lr: "mpz_longest_first lhs rhs st = (l, r)" by fastforce
  note lf = mpz_longest_first [OF lr assms(2,3)]
  let ?need = "z_len (st l) + of_bool (z_neg (st l) \<or> z_neg (st r))"
  obtain d where d: "mpz_need_dig jk ?need (st dest) = Some d" "mpz_grown st dest ?need d"
    using mpz_grow [of st dest] assms(1) by blast
  note g = mpz_grownD [OF d(2)]
  have c: "(if z_neg (st l) = z_neg (st r) then of_bool (z_neg (st l)) else 0) = (of_bool (z_neg (st l) \<and> z_neg (st r)) :: dbl)"
    by simp
  obtain ds n where op: "mpn_and_neg (z_digits (st l)) (z_digits (st r)) (of_bool (z_neg (st l) \<and> z_neg (st r)))
      (of_bool (z_neg (st l))) (of_bool (z_neg (st r))) = (ds, n)" by fastforce
  note res = mpn_and_neg_correct [OF lf(1,3,4) op]
  have fit: "length ds \<le> length (z_dig d)"
    using res(4) lf(2) g(1) by (cases "z_neg (st l)"; cases "z_neg (st r)") simp_all
  have v: "mpz_val (st lhs) AND mpz_val (st rhs) = mpz_val (st l) AND mpz_val (st r)"
    using lf(5) by (auto simp: and.commute)
  show ?thesis unfolding mpz_and_inpl_def lr v
    using res(1-3) fit g(3)
    by (simp only: prod.case d(1) g(5,7) op c mpz_steps bind.simps)
       (simp add: z_neg_upd g(4) del: fun_upd_apply, intro mpz_resultI, simp_all add: mpz_ok_def mpz_val_def)
qed

lemma mpz_or_inpl_result:
  assumes "mpz_growable (st dest)" "mpz_canonical (st lhs)" "mpz_canonical (st rhs)"
  shows "mpz_result st dest (mpz_val (st lhs) OR mpz_val (st rhs)) (mpz_or_inpl jk dest lhs rhs st)"
proof -
  obtain l r where lr: "mpz_longest_first lhs rhs st = (l, r)" by fastforce
  note lf = mpz_longest_first [OF lr assms(2,3)]
  let ?need = "z_len (st l) + of_bool (z_neg (st l) \<or> z_neg (st r))"
  obtain d where d: "mpz_need_dig jk ?need (st dest) = Some d" "mpz_grown st dest ?need d"
    using mpz_grow [of st dest] assms(1) by blast
  note g = mpz_grownD [OF d(2)]
  obtain ds n where op: "mpn_or_neg (z_digits (st l)) (z_digits (st r)) (of_bool (z_neg (st l) \<or> z_neg (st r)))
      (of_bool (z_neg (st l))) (of_bool (z_neg (st r))) = Some (ds, n)"
    and res: "sval (z_neg (st l) \<or> z_neg (st r)) (mpn_val (take n ds))
        = sval (z_neg (st l)) (mpn_val (z_digits (st l))) OR sval (z_neg (st r)) (mpn_val (z_digits (st r)))"
      "normalised (take n ds)" "n \<le> length ds" "length ds = length (z_digits (st l))"
    using mpn_or_neg_correct [OF lf(1,3,4)] by blast
  have fit: "length ds \<le> length (z_dig d)"
    using res(4) lf(2) g(1) by simp
  have v: "mpz_val (st lhs) OR mpz_val (st rhs) = mpz_val (st l) OR mpz_val (st r)"
    using lf(5) by (auto simp: or.commute)
  show ?thesis unfolding mpz_or_inpl_def lr v
    using res(1-3) fit g(3)
    by (simp only: prod.case d(1) g(5,7) op mpz_steps bind.simps)
       (simp add: z_neg_upd g(4) del: fun_upd_apply, intro mpz_resultI, simp_all add: mpz_ok_def mpz_val_def)
qed

lemma mpz_xor_inpl_result:
  assumes "mpz_growable (st dest)" "mpz_canonical (st lhs)" "mpz_canonical (st rhs)"
  shows "mpz_result st dest (mpz_val (st lhs) XOR mpz_val (st rhs)) (mpz_xor_inpl jk dest lhs rhs st)"
proof -
  obtain l r where lr: "mpz_longest_first lhs rhs st = (l, r)" by fastforce
  note lf = mpz_longest_first [OF lr assms(2,3)]
  let ?need = "z_len (st l) + of_bool (z_neg (st l) \<or> z_neg (st r))"
  obtain d where d: "mpz_need_dig jk ?need (st dest) = Some d" "mpz_grown st dest ?need d"
    using mpz_grow [of st dest] assms(1) by blast
  note g = mpz_grownD [OF d(2)]
  obtain ds n where op: "mpn_xor_neg (z_digits (st l)) (z_digits (st r)) (of_bool (z_neg (st l) \<noteq> z_neg (st r)))
      (of_bool (\<not> z_neg (st l))) (of_bool (\<not> z_neg (st r))) = (ds, n)" by fastforce
  note res = mpn_xor_neg_correct [OF lf(1,3,4) op]
  have fit: "length ds \<le> length (z_dig d)"
    using res(4) lf(2) g(1) by (cases "z_neg (st l)"; cases "z_neg (st r)") simp_all
  have v: "mpz_val (st lhs) XOR mpz_val (st rhs) = mpz_val (st l) XOR mpz_val (st r)"
    using lf(5) by (auto simp: xor.commute)
  show ?thesis unfolding mpz_xor_inpl_def lr v
    using res(1-3) fit g(3)
    by (simp only: prod.case d(1) g(5,7) op mpz_steps bind.simps)
       (simp add: z_neg_upd g(4) del: fun_upd_apply, intro mpz_resultI, simp_all add: mpz_ok_def mpz_val_def)
qed

section \<open>Correctness: copies, signs and shifts\<close>

lemma mpz_set_Some:
  assumes "mpz_growable (st dest)" "mpz_ok (st src)"
  shows "\<exists>d. mpz_set jk dest src st = Some (st(dest := d)) \<and> z_digits d = z_digits (st src) \<and> z_len d = z_len (st src)
    \<and> z_neg d = z_neg (st src) \<and> \<not> z_fixed_dig d \<and> mpz_ok d \<and> length (z_dig (st dest)) \<le> length (z_dig d)"
proof -
  obtain e where e: "mpz_need_dig jk (z_len (st src)) (st dest) = Some ((st dest)\<lparr>z_dig := z_dig (st dest) @ e\<rparr>)"
    "z_len (st src) \<le> length (z_dig (st dest)) + length e"
    using mpz_need_dig_Some [OF assms(1)] by blast
  let ?d = "(st dest)\<lparr>z_dig := z_dig (st dest) @ e\<rparr>"
  have eq: "z_digits ((st(dest := ?d)) src) = z_digits (st src)" "z_len ((st(dest := ?d)) src) = z_len (st src)"
    "z_neg ((st(dest := ?d)) src) = z_neg (st src)"
    using assms by (auto simp: mpz_growable_def mpz_ok_def)
  have len: "length (z_digits (st src)) = z_len (st src)" "normalised (z_digits (st src))"
    using assms(2) by (simp_all add: mpz_ok_def)
  have put: "mpz_put (z_digits (st src)) (z_len (st src)) ?d
      = Some (?d\<lparr>z_dig := z_digits (st src) @ drop (length (z_digits (st src))) (z_dig ?d), z_len := z_len (st src)\<rparr>)"
    using e(2) len(1) by (intro mpz_put_Some) simp
  show ?thesis unfolding mpz_set_def
    by (simp only: e(1) bind.simps Let_def eq(1), simp only: eq(2,3) fun_upd_same put bind.simps fun_upd_upd,
        rule exI, rule conjI, rule refl)
       (use assms len e(2) in \<open>auto simp: mpz_ok_def mpz_growable_def\<close>)
qed

lemma mpz_set_result:
  assumes "mpz_growable (st dest)" "mpz_ok (st src)"
  shows "mpz_result st dest (mpz_val (st src)) (mpz_set jk dest src st)"
  using mpz_set_Some [of st dest src jk, OF assms] by (auto simp: mpz_result_def mpz_val_def)

lemma mpz_copy_unless_same:
  assumes "mpz_growable (st dest)" "mpz_ok (st z)"
  shows "\<exists>d. (if dest \<noteq> z then mpz_set jk dest z st else Some st) = Some (st(dest := d))
    \<and> mpz_ok d \<and> mpz_val d = mpz_val (st z) \<and> \<not> z_fixed_dig d \<and> mpz_growable d"
proof (cases "dest = z")
  case True
  then show ?thesis using assms by (intro exI [of _ "st z"]) (auto simp: mpz_growable_def)
next
  case False
  then show ?thesis using mpz_set_result [of st dest z jk, OF assms] by (auto simp: mpz_result_def mpz_growable_def)
qed

lemma mpz_neg_inpl_result:
  assumes "mpz_growable (st dest)" "mpz_ok (st z)"
  shows "mpz_result st dest (- mpz_val (st z)) (mpz_neg_inpl jk dest z st)"
proof -
  obtain d where d: "(if dest \<noteq> z then mpz_set jk dest z st else Some st) = Some (st(dest := d))"
    "mpz_ok d" "mpz_val d = mpz_val (st z)" "\<not> z_fixed_dig d"
    using mpz_copy_unless_same [of st dest z jk, OF assms] by blast
  show ?thesis unfolding mpz_neg_inpl_def d(1) using d(2-)
    by simp (intro mpz_resultI, simp_all add: mpz_ok_def mpz_val_def sval_def split: if_splits)
qed

lemma mpz_abs_inpl_result:
  assumes "mpz_growable (st dest)" "mpz_ok (st z)"
  shows "mpz_result st dest \<bar>mpz_val (st z)\<bar> (mpz_abs_inpl jk dest z st)"
proof -
  obtain d where d: "(if dest \<noteq> z then mpz_set jk dest z st else Some st) = Some (st(dest := d))"
    "mpz_ok d" "mpz_val d = mpz_val (st z)" "\<not> z_fixed_dig d"
    using mpz_copy_unless_same [of st dest z jk, OF assms] by blast
  show ?thesis unfolding mpz_abs_inpl_def d(1) using d(2-)
    by simp (intro mpz_resultI, simp_all add: mpz_ok_def mpz_val_def sval_def split: if_splits)
qed

lemma normalised_one [simp]: "normalised [1]" by (simp add: normalised_def)

lemma mpn_val_pos:
  assumes "normalised ds" "ds \<noteq> []"
  shows "0 < mpn_val ds"
  using mpn_val_normalised_0 [OF assms(1)] assms(2) by blast

lemma mpz_not_inpl_result:
  assumes "mpz_growable (st dest)" "mpz_ok (st z)"
  shows "mpz_result st dest (NOT (mpz_val (st z))) (mpz_not_inpl jk dest z st)"
proof -
  obtain c where c: "(if dest \<noteq> z then mpz_set jk dest z st else Some st) = Some (st(dest := c))"
    "mpz_ok c" "mpz_val c = mpz_val (st z)" "\<not> z_fixed_dig c" "mpz_growable c"
    using mpz_copy_unless_same [of st dest z jk, OF assms] by blast
  have ok: "normalised (z_digits c)" "length (z_digits c) = z_len c" using c(2) by (simp_all add: mpz_ok_def)
  show ?thesis
  proof (cases "z_len c = 0")
    case True
    obtain e where "mpz_need_dig jk 1 c = Some (c\<lparr>z_dig := z_dig c @ e\<rparr>)" "2 \<le> length (z_dig c) + length e"
      using mpz_need_dig_Some [OF c(5)] by blast
    then show ?thesis unfolding mpz_not_inpl_def c(1) c(3) [symmetric] using True c(4)
      by (simp add: mpz_put_Some) (intro mpz_resultI, simp_all add: mpz_ok_def mpz_val_def sval_def)
  next
    case nz: False
    then have "z_digits c \<noteq> []" using ok(2) by auto
    then have pos: "0 < mpn_val (z_digits c)" by (rule mpn_val_pos [OF ok(1)])
    then have le: "mpn_val [1] \<le> mpn_val (z_digits c)" by simp
    show ?thesis
    proof (cases "z_neg c")
      case True
      obtain ds n where sub: "mpn_sub (z_digits c) [1] = (ds, n)" by fastforce
      note res = mpn_sub_result [OF normalised_one le sub]
      show ?thesis unfolding mpz_not_inpl_def c(1) c(3) [symmetric] using nz True c(2,4) res pos
        by (simp add: mpz_put_Some sub mpz_ok_def)
           (intro mpz_resultI, simp_all add: mpz_ok_def mpz_val_def sval_def of_nat_diff not_int_def)
    next
      case False
      obtain e where e: "mpz_need_dig jk (Suc (z_len c)) c = Some (c\<lparr>z_dig := z_dig c @ e\<rparr>)"
        "Suc (z_len c) \<le> length (z_dig c) + length e"
        using mpz_need_dig_Some [OF c(5)] by blast
      note add = mpn_add_result [OF ok(1) normalised_one le]
      have "length (mpn_add (z_digits c) [1]) \<le> length (z_dig c @ e)" using add(3) ok(2) e(2) by simp
      then show ?thesis unfolding mpz_not_inpl_def c(1) c(3) [symmetric] using nz False c(2,4) add
        by (simp add: e(1) mpz_put_Some mpz_ok_def Let_def)
           (intro mpz_resultI, simp_all add: mpz_ok_def mpz_val_def sval_def not_int_def)
    qed
  qed
qed

lemma sval_mult: "sval ng v * int w = sval ng (v * w)"
  by (simp add: sval_def)

lemma mpz_shl_inpl_result:
  assumes "mpz_growable (st dest)" "mpz_ok (st lhs)" "rhs + 15 < 2 ^ 32"
  shows "mpz_result st dest (mpz_val (st lhs) * 2 ^ rhs) (mpz_shl_inpl jk dest lhs rhs st)"
proof (cases "z_len (st lhs) = 0 \<or> rhs = 0")
  case True
  then show ?thesis using mpz_set_result [of st dest lhs jk, OF assms(1,2)]
    by (auto simp: mpz_shl_inpl_def mpz_val_def sval_def)
next
  case False
  let ?need = "z_len (st lhs) + (rhs + 15) mod 2 ^ 32 div 16"
  obtain d where d: "mpz_need_dig jk ?need (st dest) = Some d" "mpz_grown st dest ?need d"
    using mpz_grow [of st dest] assms(1) by blast
  note g = mpz_grownD [OF d(2)]
  obtain ds n where op: "mpn_shl (z_digits (st lhs)) rhs = (ds, n)" by fastforce
  have len: "length (z_digits (st lhs)) = z_len (st lhs)" using assms(2) by (simp add: mpz_ok_def)
  have res: "mpn_val ds = mpn_val (z_digits (st lhs)) * 2 ^ rhs" "length ds \<le> length (z_dig d)"
    using mpn_shl_val [of rhs "z_digits (st lhs)"] mpn_shl_length [of rhs "z_digits (st lhs)"] False assms(3) op g(1) len by simp_all
  have n: "n = mpn_remove_trailing_zeros ds" using op by (auto simp: mpn_shl_def Let_def)
  note st = mpn_strip_zeros [OF n]
  have v: "mpz_val (st lhs) * 2 ^ rhs = sval (z_neg (st lhs)) (mpn_val ds)"
    using sval_mult [of "z_neg (st lhs)" "mpn_val (z_digits (st lhs))" "2 ^ rhs"] res(1) by (simp add: mpz_val_def)
  have arith: "rhs + DIG_SIZE - 1 = rhs + 15" by simp
  show ?thesis using False res(2) st g(3) unfolding mpz_shl_inpl_def v
    by (simp only: if_False arith d(1) g(5) op bind.simps Let_def prod.case)
       (simp add: g(4) mpz_steps del: fun_upd_apply, intro mpz_resultI, simp_all add: mpz_ok_def mpz_val_def)
qed

lemma mpn_val_0_iff: "mpn_val ds = 0 \<longleftrightarrow> (\<forall>d \<in> set ds. d = 0)"
  by (induction ds) (auto simp: unat_eq_zero)

lemma unat_and_low: "unat ((d :: dig) AND (push_bit p 1 - 1)) = unat d mod 2 ^ p"
proof -
  have "push_bit p 1 - 1 = (mask p :: dig)" by (simp add: mask_eq_exp_minus_1 push_bit_of_1)
  then have "d AND (push_bit p 1 - 1) = take_bit p d" by (simp only: take_bit_eq_mask)
  then show ?thesis by (simp only: unsigned_take_bit_eq) (simp only: take_bit_eq_mod)
qed

lemma mpz_shr_round_iff:
  assumes "mpz_ok z"
  shows "mpz_shr_round z rhs \<longleftrightarrow> mpn_val (z_digits z) mod 2 ^ rhs \<noteq> 0"
proof -
  define w p ds where "w = rhs div 16" and "p = rhs mod 16" and "ds = z_digits z"
  have len: "length ds = z_len z" using assms by (simp add: ds_def mpz_ok_def)
  have p: "p < 16" "(2 :: nat) ^ rhs = DIG_BASE ^ w * 2 ^ p" 
    using power_shr_count [of rhs] by (simp_all add: p_def w_def)
  have lo: "mpn_val (take w ds) < DIG_BASE ^ w"
  proof -
    have "DIG_BASE ^ length (take w ds) \<le> DIG_BASE ^ w" by (intro power_increasing) simp_all
    then show ?thesis using mpn_val_less [of "take w ds"] by linarith
  qed
  have split: "mpn_val ds = mpn_val (take w ds) + DIG_BASE ^ w * mpn_val (drop w ds)"
    using mpn_val_split [of ds w] by (cases "w \<le> length ds") (simp_all add: min_def)
  have "mpn_val ds mod 2 ^ rhs = mpn_val (take w ds) + DIG_BASE ^ w * (mpn_val (drop w ds) mod 2 ^ p)"
    unfolding split p(2) using lo mod_mult_step [of "DIG_BASE ^ w" "mpn_val (take w ds)" "mpn_val (drop w ds)" "2 ^ p"] by simp
  moreover have "mpn_val (drop w ds) mod 2 ^ p = (if w < length ds then unat (ds ! w) mod 2 ^ p else 0)"
    using mod_digit_power [OF p(1)] by (simp add: Cons_nth_drop_Suc [symmetric])
  ultimately have "mpn_val ds mod 2 ^ rhs \<noteq> 0 \<longleftrightarrow>
      (\<exists>d \<in> set (take w ds). d \<noteq> 0) \<or> (w < length ds \<and> unat (ds ! w) mod 2 ^ p \<noteq> 0)"
    by (auto simp: mpn_val_0_iff)
  also have "\<dots> \<longleftrightarrow> mpz_shr_round z rhs"
  proof -
    have "ds ! w = z_dig z ! w" if "w < length ds" using that by (simp add: ds_def)
    then have "w < length ds \<and> unat (ds ! w) mod 2 ^ p \<noteq> 0 \<longleftrightarrow> w < z_len z \<and> z_dig z ! w AND (push_bit p 1 - 1) \<noteq> 0"
      unfolding unat_and_low [symmetric] unat_eq_zero using len by auto
    then show ?thesis unfolding mpz_shr_round_def Let_def by (simp only: w_def p_def ds_def)
  qed
  finally show ?thesis by (simp add: ds_def)
qed

lemma mpn_val_length_less:
  assumes "normalised ds" "mpn_val ds < DIG_BASE ^ n"
  shows "length ds \<le> n"
proof (cases "ds = []")
  case False
  then have "DIG_BASE ^ (length ds - 1) \<le> mpn_val ds" using assms(1) by (intro mpn_val_ge) (simp_all add: normalised_def)
  then have "DIG_BASE ^ (length ds - 1) < DIG_BASE ^ n" using assms(2) by linarith
  then show ?thesis by simp
qed simp

lemma neg_div_power: "- int v div 2 ^ n = - int (v div 2 ^ n + of_bool (v mod 2 ^ n \<noteq> 0))"
proof -
  have "int v mod 2 ^ n = int (v mod 2 ^ n)" "int v div 2 ^ n = int (v div 2 ^ n)"
    by (simp_all add: zmod_int zdiv_int)
  then show ?thesis by (cases "v mod 2 ^ n = 0") (simp_all add: zdiv_zminus1_eq_if)
qed

lemma bind_Some_map: "m \<bind> (\<lambda>x. Some (f x)) = map_option f m"
  by (cases m) simp_all

lemma mpz_shr_inpl_result:
  assumes "mpz_growable (st dest)" "mpz_ok (st lhs)" "dest \<noteq> lhs"
  shows "mpz_result st dest (mpz_val (st lhs) div 2 ^ rhs) (mpz_shr_inpl jk dest lhs rhs st)"
proof (cases "z_len (st lhs) = 0 \<or> rhs = 0")
  case True
  then show ?thesis using mpz_set_result [of st dest lhs jk, OF assms(1,2)]
    by (auto simp: mpz_shr_inpl_def mpz_val_def sval_def)
next
  case False
  obtain d where d: "mpz_need_dig jk (z_len (st lhs)) (st dest) = Some d" "mpz_grown st dest (z_len (st lhs)) d"
    using mpz_grow [of st dest] assms(1) by blast
  note g = mpz_grownD [OF d(2)]
  obtain ds n where op: "mpn_shr (z_digits (st lhs)) rhs = (ds, n)" by fastforce
  have ok: "length (z_digits (st lhs)) = z_len (st lhs)" "normalised (z_digits (st lhs))" using assms(2) by (simp_all add: mpz_ok_def)
  let ?V = "mpn_val (z_digits (st lhs))"
  have res: "mpn_val (take n ds) = ?V div 2 ^ rhs" "normalised (take n ds)" "length ds \<le> z_len (st lhs)" "n \<le> length ds"
    using mpn_shr_val [of "z_digits (st lhs)" rhs] mpn_shr_normalised [OF ok(2), of rhs]
      mpn_shr_length [of "z_digits (st lhs)" rhs] mpn_shr_snd_le [of "z_digits (st lhs)" rhs] op ok(1) by simp_all
  have fit: "length ds \<le> length (z_dig d)" using res(3) g(1) by linarith
  define c where "c = d\<lparr>z_dig := ds @ drop (length ds) (z_dig d), z_len := n, z_neg := z_neg (st lhs)\<rparr>"
  have c: "z_digits c = take n ds" "length (z_dig c) = length (z_dig d)" "\<not> z_fixed_dig c" "z_neg c = z_neg (st lhs)" "z_len c = n"
    using res(4) g(3) fit by (simp_all add: c_def)
  have shr: "mpz_shr_inpl jk dest lhs rhs st =
      (if z_neg c \<and> mpz_shr_round (st lhs) rhs then
         if n = 0 then map_option (\<lambda>d. st(dest := d)) (mpz_put [1] 1 c)
         else map_option (\<lambda>d. st(dest := d)) (mpz_put (mpn_add (take n ds) [1]) (length (mpn_add (take n ds) [1])) c)
       else Some (st(dest := c)))"
    using False fit res(4) assms(3) unfolding mpz_shr_inpl_def
    by (simp only: if_False d(1) g(5) op bind.simps Let_def prod.case)
       (auto simp: mpz_put_Some [of ds] c_def bind_Some_map)
  show ?thesis
  proof (cases "z_neg (st lhs) \<and> mpz_shr_round (st lhs) rhs")
    case True
    define ds' where "ds' = (if n = 0 then [1] else mpn_add (take n ds) [1])"
    have ds': "mpn_val ds' = ?V div 2 ^ rhs + 1 \<and> normalised ds'"
    proof (cases "n = 0")
      case True
      then show ?thesis using res(1) by (simp add: ds'_def)
    next
      case False
      then have "0 < mpn_val (take n ds)" using res(2,4) by (intro mpn_val_pos) auto
      then show ?thesis using mpn_add_result [OF res(2) normalised_one] False res(1) by (simp add: ds'_def)
    qed
    have "?V div 2 ^ rhs \<le> ?V div 2 ^ 1" using False by (intro div_le_mono2 power_increasing) simp_all
    moreover have "?V < DIG_BASE ^ z_len (st lhs)" using mpn_val_less [of "z_digits (st lhs)"] ok(1) by simp
    moreover have "DIG_BASE ^ 1 \<le> DIG_BASE ^ z_len (st lhs)" using False by (intro power_increasing) simp_all
    ultimately have "mpn_val ds' < DIG_BASE ^ z_len (st lhs)" using ds' by simp
    then have "length ds' \<le> z_len (st lhs)" using ds' by (intro mpn_val_length_less) simp_all
    then have "mpz_put ds' (length ds') c = Some (c\<lparr>z_dig := ds' @ drop (length ds') (z_dig c), z_len := length ds'\<rparr>)"
      using g(1) c(2) by (intro mpz_put_Some) simp
    moreover have "mpz_shr_inpl jk dest lhs rhs st = map_option (\<lambda>d. st(dest := d)) (mpz_put ds' (length ds') c)"
      unfolding shr using True c(4) by (simp add: ds'_def)
    moreover have "mpz_val (st lhs) div 2 ^ rhs = - int (mpn_val ds')"
      using True mpz_shr_round_iff [OF assms(2), of rhs] neg_div_power [of ?V rhs] ds'
      by (simp add: mpz_val_def sval_def)
    ultimately show ?thesis using True c ds'
      by (simp, intro mpz_resultI, simp_all add: mpz_ok_def mpz_val_def sval_def)
  next
    case False
    then have "mpz_val (st lhs) div 2 ^ rhs = mpz_val c"
      using mpz_shr_round_iff [OF assms(2), of rhs] neg_div_power [of ?V rhs] res(1) c
      by (auto simp: mpz_val_def sval_def zdiv_int)
    moreover have "mpz_shr_inpl jk dest lhs rhs st = Some (st(dest := c))" unfolding shr using False c(4) by auto
    ultimately show ?thesis using c res(2-4) fit
      by (simp only:, intro mpz_resultI) (simp_all add: mpz_ok_def)
  qed
qed

section \<open>Correctness: multiplication, comparison and machine integers\<close>

lemma mpz_mul_inpl_result:
  assumes "mpz_growable (st dest)" "mpz_ok (st lhs)" "mpz_ok (st rhs)"
  shows "mpz_result st dest (mpz_val (st lhs) * mpz_val (st rhs)) (mpz_mul_inpl jk dest lhs rhs st)"
proof (cases "z_len (st lhs) = 0 \<or> z_len (st rhs) = 0")
  case True
  then have v: "mpz_val (st lhs) * mpz_val (st rhs) = 0" by (auto simp: mpz_val_def sval_def)
  show ?thesis using True assms(1) unfolding mpz_mul_inpl_def v
    by (simp add: mpz_set_from_int_def, intro mpz_resultI)
       (simp_all add: mpz_ok_def mpz_val_def sval_def mpz_growable_def)
next
  case False
  have len: "length (z_digits (st x)) = z_len (st x)" "normalised (z_digits (st x))" if "x = lhs \<or> x = rhs" for x
    using that assms(2,3) by (auto simp: mpz_ok_def)
  have ne: "z_digits (st lhs) \<noteq> []" "z_digits (st rhs) \<noteq> []" "z_dig (st lhs) \<noteq> []" "z_dig (st rhs) \<noteq> []"
    using False assms(2,3) by (auto simp: mpz_ok_def)
  let ?need = "z_len (st lhs) + z_len (st rhs)"
  obtain d where d: "mpz_need_dig jk ?need (st dest) = Some d" "mpz_grown st dest ?need d"
    using mpz_grow [of st dest] assms(1) by blast
  note g = mpz_grownD [OF d(2)]
  obtain ds n where op: "mpn_mul (replicate (length (z_dig d)) 0) (z_digits (st lhs)) (z_digits (st rhs)) = Some (ds, n)"
    "length ds = length (z_dig d)" "n \<le> length (z_dig d)" "mpn_val (take n ds) = mpn_val (z_digits (st lhs)) * mpn_val (z_digits (st rhs))"
    "normalised (take n ds)"
    using mpn_mul_zeroed [OF ne(1,2), of "length (z_dig d)"] g(1) len by auto
  have v: "mpz_val (st lhs) * mpz_val (st rhs) = sval (z_neg (st lhs) \<noteq> z_neg (st rhs)) (mpn_val (take n ds))"
    by (simp add: mpz_val_def sval_def op(4))
  have "mpz_mul_inpl jk dest lhs rhs st
      = Some (st(dest := d\<lparr>z_dig := ds, z_len := n, z_neg := (z_neg (st lhs) \<noteq> z_neg (st rhs))\<rparr>))"
    using False ne(3,4) d(1) op(1,2) by (auto simp: mpz_mul_inpl_def mpz_clone_def mpz_put_Some)
  then show ?thesis unfolding v using op(2,3,5) g(3)
    by (simp only:, intro mpz_resultI) (simp_all add: mpz_ok_def mpz_val_def)
qed

lemma mpz_cmp_sgn:
  assumes "mpz_ok z1" "mpz_ok z2"
  shows "mpz_cmp z1 z2 = sgn (mpz_val z1 - mpz_val z2)"
proof -
  have pos: "z_len z = 0 \<or> 0 < mpn_val (z_digits z)" if "mpz_ok z" for z
    using that mpn_val_normalised_0 [of "z_digits z"] by (auto simp: mpz_ok_def)
  show ?thesis
    using pos [OF assms(1)] pos [OF assms(2)] mpn_cmp_digits [OF assms]
    by (auto simp: mpz_cmp_def mpz_val_def sval_def Let_def sgn_if)
qed

lemma mpz_uint_digits_val:
  fixes u :: "'a::len word"
  assumes "16 \<le> LENGTH('a)"
  shows "mpn_val (mpz_uint_digits u) = unat u" "normalised (mpz_uint_digits u)"
proof -
  have "mpn_val (mpz_uint_digits u) = unat u \<and> normalised (mpz_uint_digits u)"
  proof (induction u rule: mpz_uint_digits.induct)
    case (1 u)
    show ?case
    proof (cases "u = 0")
      case True
      then show ?thesis by (simp add: mpz_uint_digits.simps)
    next
      case False
      let ?lo = "ucast (u AND 0xFFFF) :: dig" and ?rest = "mpz_uint_digits (drop_bit DIG_SIZE u)"
      have m: "u AND 0xFFFF = take_bit 16 u" by (simp add: take_bit_eq_mask mask_eq_exp_minus_1)
      have lo: "unat ?lo = unat u mod DIG_BASE"
        unfolding m by (simp only: unsigned_ucast_eq unsigned_take_bit_eq) (simp add: take_bit_eq_mod)
      have hi: "unat (drop_bit DIG_SIZE u) = unat u div DIG_BASE"
        by (simp only: unat_drop_bit_eq) (simp add: drop_bit_eq_div)
      have IH: "mpn_val ?rest = unat u div DIG_BASE" "normalised ?rest" using 1 [OF False] hi by auto
      have eq: "mpz_uint_digits u = ?lo # ?rest" using False by (subst mpz_uint_digits.simps) simp
      have val: "mpn_val (?lo # ?rest) = unat u" using lo IH(1) by simp
      have "normalised (?lo # ?rest)"
      proof (cases "?rest = []")
        case True
        then have "unat ?lo = unat u" using val by simp
        then have "?lo \<noteq> 0" using False by (metis unat_0 unat_eq_zero)
        then show ?thesis using True by (simp add: normalised_def)
      qed (use IH(2) in \<open>simp add: normalised_def\<close>)
      then show ?thesis using eq val by metis
    qed
  qed
  then show "mpn_val (mpz_uint_digits u) = unat u" "normalised (mpz_uint_digits u)" by auto
qed

lemma mpz_uint_digits_length:
  fixes u :: "'a::len word"
  assumes "LENGTH('a) = 16 * n" "0 < n"
  shows "length (mpz_uint_digits u) \<le> n"
proof (rule mpn_val_length_less)
  have "unat u < 2 ^ LENGTH('a)" by (rule unsigned_less)
  then show "mpn_val (mpz_uint_digits u) < DIG_BASE ^ n"
    using assms by (simp add: mpz_uint_digits_val power_mult)
qed (use assms in \<open>simp add: mpz_uint_digits_val\<close>)

lemma mpz_set_from_int_val:
  assumes "mpz_growable z"
  shows "\<exists>z'. mpz_set_from_int jk val z = Some z' \<and> mpz_growable z' \<and> mpz_val z' = sint val"
proof (cases "val = 0")
  case True
  then show ?thesis using assms
    by (simp add: mpz_set_from_int_def mpz_growable_def mpz_ok_def mpz_val_def sval_def)
next
  case False
  define u where "u = (if sint val < 0 then - val else val)"
  have u: "sval (sint val < 0) (unat u) = sint val"
    using unat_of_sint [of val] by (simp add: u_def sval_def)
  obtain e where e: "mpz_need_dig jk 2 z = Some (z\<lparr>z_dig := z_dig z @ e\<rparr>)" "2 \<le> length (z_dig z) + length e"
    using mpz_need_dig_Some [OF assms] by blast
  have ds: "mpn_val (mpz_uint_digits u) = unat u" "normalised (mpz_uint_digits u)" "length (mpz_uint_digits u) \<le> 2"
    by (simp_all add: mpz_uint_digits_val mpz_uint_digits_length [of 2])
  then show ?thesis using False e assms u
    by (simp add: mpz_set_from_int_def Let_def u_def [symmetric] mpz_put_Some mpz_growable_def mpz_ok_def mpz_val_def)
qed

lemma mpz_set_from_ll_val:
  assumes "mpz_growable z"
  shows "\<exists>z'. mpz_set_from_ll jk val is_signed z = Some z' \<and> mpz_growable z'
    \<and> mpz_val z' = (if is_signed then sint val else uint val)"
proof -
  define u where "u = (if is_signed \<and> sint val < 0 then - val else val)"
  have u: "sval (is_signed \<and> sint val < 0) (unat u) = (if is_signed then sint val else uint val)"
    using unat_of_sint [of val] by (auto simp: u_def sval_def)
  obtain e where e: "mpz_need_dig jk 4 z = Some (z\<lparr>z_dig := z_dig z @ e\<rparr>)" "4 \<le> length (z_dig z) + length e"
    using mpz_need_dig_Some [OF assms] by blast
  have ds: "mpn_val (mpz_uint_digits u) = unat u" "normalised (mpz_uint_digits u)" "length (mpz_uint_digits u) \<le> 4"
    by (simp_all add: mpz_uint_digits_val mpz_uint_digits_length [of 4])
  then show ?thesis using e assms u
    by (simp add: mpz_set_from_ll_def Let_def u_def [symmetric] mpz_put_Some mpz_growable_def mpz_ok_def mpz_val_def)
qed

section \<open>The contract of a binary operation\<close>

text \<open>
  What the callers of the in-place operations rely on: for any sharing of destination and operands,
  the operation returns, the destination stands for the integer operation, every other object is
  untouched. \<open>P\<close> is what the operation asks of its operands.
\<close>

locale mpz_binary_op =
  fixes impl :: "junk \<Rightarrow> mpz_ref \<Rightarrow> mpz_ref \<Rightarrow> mpz_ref \<Rightarrow> mpz_store \<Rightarrow> mpz_store option"
    and P :: "mpz \<Rightarrow> bool"
    and f :: "int \<Rightarrow> int \<Rightarrow> int"
  assumes operand_ok: "P z \<Longrightarrow> mpz_ok z"
    and computes: "mpz_growable (st dest) \<Longrightarrow> P (st lhs) \<Longrightarrow> P (st rhs) \<Longrightarrow>
      mpz_result st dest (f (mpz_val (st lhs)) (mpz_val (st rhs))) (impl jk dest lhs rhs st)"
begin

lemma in_place:
  assumes "mpz_growable (st dest)" "P (st lhs)" "P (st rhs)"
  shows "\<exists>d. impl jk dest lhs rhs st = Some (st(dest := d)) \<and> mpz_growable d
    \<and> mpz_val d = f (mpz_val (st lhs)) (mpz_val (st rhs))"
  using computes [of st dest lhs rhs jk, OF assms] by (auto simp: mpz_result_def mpz_growable_def)

lemma in_place_self:
  assumes "mpz_growable (st z)" "P (st z)"
  shows "\<exists>d. impl jk z z z st = Some (st(z := d)) \<and> mpz_growable d \<and> mpz_val d = f (mpz_val (st z)) (mpz_val (st z))"
  using in_place [of st z z z jk] assms by blast

text \<open>Two operations in a row on one destination, as in \<open>dest = (a op b) op c\<close>.\<close>

lemma in_place_twice:
  assumes "mpz_growable (st dest)" "P (st a)" "P (st b)" "P (st c)" "c \<noteq> dest"
    and "\<And>d. mpz_growable d \<Longrightarrow> P d"
  shows "\<exists>d. (impl jk dest a b st \<bind> impl jk dest dest c) = Some (st(dest := d)) \<and> mpz_growable d
    \<and> mpz_val d = f (f (mpz_val (st a)) (mpz_val (st b))) (mpz_val (st c))"
proof -
  obtain d where d: "impl jk dest a b st = Some (st(dest := d))" "mpz_growable d"
    "mpz_val d = f (mpz_val (st a)) (mpz_val (st b))"
    using in_place [of st dest a b jk] assms(1-3) by blast
  obtain e where "impl jk dest dest c (st(dest := d)) = Some ((st(dest := d))(dest := e))" "mpz_growable e"
    "mpz_val e = f (mpz_val ((st(dest := d)) dest)) (mpz_val ((st(dest := d)) c))"
    using in_place [of "st(dest := d)" dest dest c jk] assms(4-6) d(2) by auto
  then show ?thesis using d assms(5) by (intro exI [of _ e]) simp
qed

end

lemma growable_ok: "mpz_growable d \<Longrightarrow> mpz_ok d"
  by (simp add: mpz_growable_def)

lemma canonical_ok: "mpz_canonical d \<Longrightarrow> mpz_ok d"
  by (simp add: mpz_canonical_def)

interpretation mpz_add: mpz_binary_op mpz_add_inpl mpz_ok "(+)"
  by unfold_locales (assumption, rule mpz_add_inpl_result)

interpretation mpz_sub: mpz_binary_op mpz_sub_inpl mpz_ok "(-)"
  by unfold_locales (assumption, rule mpz_sub_inpl_result)

interpretation mpz_mul: mpz_binary_op mpz_mul_inpl mpz_ok "(*)"
  by unfold_locales (assumption, rule mpz_mul_inpl_result)

interpretation mpz_and: mpz_binary_op mpz_and_inpl mpz_canonical "(AND)"
  by unfold_locales (erule canonical_ok, rule mpz_and_inpl_result)

interpretation mpz_or: mpz_binary_op mpz_or_inpl mpz_canonical "(OR)"
  by unfold_locales (erule canonical_ok, rule mpz_or_inpl_result)

interpretation mpz_xor: mpz_binary_op mpz_xor_inpl mpz_canonical "(XOR)"
  by unfold_locales (erule canonical_ok, rule mpz_xor_inpl_result)

section \<open>The contracts of the operations\<close>

text \<open>An object that holds given digits, and a store with two operands, for concrete instances.\<close>

definition mpz_obj :: "bool \<Rightarrow> dig list \<Rightarrow> mpz" where
  "mpz_obj neg ds = \<lparr>z_neg = neg, z_fixed_dig = False, z_len = length ds, z_dig = ds\<rparr>"

definition mpz_operands :: "mpz \<Rightarrow> mpz \<Rightarrow> mpz_store" where
  "mpz_operands x y = (\<lambda>_. mpz_init_zero)(Obj 1 := x, Obj 2 := y)"

lemma mpz_obj_simps:
  "mpz_val (mpz_obj neg ds) = sval neg (mpn_val ds)" "mpz_ok (mpz_obj neg ds) = normalised ds"
  "mpz_canonical (mpz_obj neg ds) = (normalised ds \<and> (ds = [] \<longrightarrow> \<not> neg))" "mpz_growable (mpz_obj neg ds) = normalised ds"
  "z_len (mpz_obj neg ds) = length ds" "z_neg (mpz_obj neg ds) = neg"
  "mpz_ok mpz_init_zero" "mpz_growable mpz_init_zero" "\<not> z_neg mpz_init_zero" "mpz_val mpz_init_zero = 0"
  by (auto simp: mpz_obj_def mpz_init_zero_def mpz_val_def mpz_ok_def mpz_canonical_def mpz_growable_def sval_def)

lemma mpz_operands_simps:
  "mpz_operands x y (Obj (Suc 0)) = x" "mpz_operands x y (Obj 2) = y"
  "r \<noteq> Obj (Suc 0) \<Longrightarrow> r \<noteq> Obj 2 \<Longrightarrow> mpz_operands x y r = mpz_init_zero"
  by (simp_all add: mpz_operands_def)

lemmas mpz_instance = mpz_obj_simps mpz_operands_simps normalised_def sval_def

text \<open>\<open>mpz_add_inpl\<close> stores the exact sum in its destination, for every sharing of the destination
  and the operands; nothing else in the store changes, no assertion fails, no digit is written out of the buffer.\<close>

theorem mpz_add_inpl_correct:
  assumes "mpz_growable (st dest)" "mpz_ok (st lhs)" "mpz_ok (st rhs)"
  shows "\<exists>d. mpz_add_inpl jk dest lhs rhs st = Some (st(dest := d)) \<and> mpz_growable d
    \<and> mpz_val d = mpz_val (st lhs) + mpz_val (st rhs)"
  using assms by (rule mpz_add.in_place)

theorem mpz_add_inpl_witness:
  "\<exists>d. mpz_add_inpl (\<lambda>_. 7) (Obj 1) (Obj 1) (Obj 2) (mpz_operands (mpz_obj False [65535]) (mpz_obj False [1])) =
      Some ((mpz_operands (mpz_obj False [65535]) (mpz_obj False [1]))(Obj 1 := d)) \<and> mpz_growable d \<and> mpz_val d = 65536"
  using mpz_add_inpl_correct [of "mpz_operands (mpz_obj False [65535]) (mpz_obj False [1])" "Obj 1" "Obj 1" "Obj 2" "\<lambda>_. 7"]
  by (simp add: mpz_instance)

text \<open>\<open>mpz_sub_inpl\<close> stores the exact difference, for every sharing of destination and operands.\<close>

theorem mpz_sub_inpl_correct:
  assumes "mpz_growable (st dest)" "mpz_ok (st lhs)" "mpz_ok (st rhs)"
  shows "\<exists>d. mpz_sub_inpl jk dest lhs rhs st = Some (st(dest := d)) \<and> mpz_growable d
    \<and> mpz_val d = mpz_val (st lhs) - mpz_val (st rhs)"
  using assms by (rule mpz_sub.in_place)

theorem mpz_sub_inpl_witness:
  "\<exists>d. mpz_sub_inpl (\<lambda>_. 7) (Obj 2) (Obj 1) (Obj 2) (mpz_operands (mpz_obj False [1]) (mpz_obj False [0, 1])) =
      Some ((mpz_operands (mpz_obj False [1]) (mpz_obj False [0, 1]))(Obj 2 := d)) \<and> mpz_growable d \<and> mpz_val d = - 65535"
  using mpz_sub_inpl_correct [of "mpz_operands (mpz_obj False [1]) (mpz_obj False [0, 1])" "Obj 2" "Obj 1" "Obj 2" "\<lambda>_. 7"]
  by (simp add: mpz_instance)

text \<open>\<open>mpz_mul_inpl\<close> stores the exact product, also when the destination is one of the operands or
  both, where the code multiplies a temporary copy.\<close>

theorem mpz_mul_inpl_correct:
  assumes "mpz_growable (st dest)" "mpz_ok (st lhs)" "mpz_ok (st rhs)"
  shows "\<exists>d. mpz_mul_inpl jk dest lhs rhs st = Some (st(dest := d)) \<and> mpz_growable d
    \<and> mpz_val d = mpz_val (st lhs) * mpz_val (st rhs)"
  using assms by (rule mpz_mul.in_place)

theorem mpz_mul_inpl_witness:
  "\<exists>d. mpz_mul_inpl (\<lambda>_. 7) (Obj 1) (Obj 1) (Obj 1) (mpz_operands (mpz_obj True [0, 1]) (mpz_obj False [1])) =
      Some ((mpz_operands (mpz_obj True [0, 1]) (mpz_obj False [1]))(Obj 1 := d)) \<and> mpz_growable d \<and> mpz_val d = 65536 * 65536"
  using mpz_mul_inpl_correct [of "mpz_operands (mpz_obj True [0, 1]) (mpz_obj False [1])" "Obj 1" "Obj 1" "Obj 1" "\<lambda>_. 7"]
  by (simp add: mpz_instance)

text \<open>The bitwise operations compute on sign and magnitude what the two's complement operations
  compute on unbounded integers, for operands that are not the negative zero.\<close>

theorem mpz_bitwise_inpl_correct:
  assumes "mpz_growable (st dest)" "mpz_canonical (st lhs)" "mpz_canonical (st rhs)"
  shows "(\<exists>d. mpz_and_inpl jk dest lhs rhs st = Some (st(dest := d)) \<and> mpz_growable d
      \<and> mpz_val d = mpz_val (st lhs) AND mpz_val (st rhs))
    \<and> (\<exists>d. mpz_or_inpl jk dest lhs rhs st = Some (st(dest := d)) \<and> mpz_growable d
      \<and> mpz_val d = mpz_val (st lhs) OR mpz_val (st rhs))
    \<and> (\<exists>d. mpz_xor_inpl jk dest lhs rhs st = Some (st(dest := d)) \<and> mpz_growable d
      \<and> mpz_val d = mpz_val (st lhs) XOR mpz_val (st rhs))"
  using mpz_and.in_place [OF assms] mpz_or.in_place [OF assms] mpz_xor.in_place [OF assms] by blast

theorem mpz_bitwise_inpl_witness:
  "\<exists>d. mpz_and_inpl (\<lambda>_. 7) (Obj 0) (Obj 1) (Obj 2) (mpz_operands (mpz_obj True [0, 1]) (mpz_obj False [65535, 3])) =
      Some ((mpz_operands (mpz_obj True [0, 1]) (mpz_obj False [65535, 3]))(Obj 0 := d)) \<and> mpz_growable d \<and> mpz_val d = 196608"
  using conjunct1 [OF mpz_bitwise_inpl_correct [of "mpz_operands (mpz_obj True [0, 1]) (mpz_obj False [65535, 3])" "Obj 0" "Obj 1" "Obj 2" "\<lambda>_. 7"]]
  by (simp add: mpz_instance)

text \<open>\<open>mpz_shl_inpl\<close> multiplies by a power of two, and \<open>mpz_shr_inpl\<close>, into another object,
  divides by it rounding towards minus infinity.\<close>

theorem mpz_shift_inpl_correct:
  assumes "mpz_growable (st dest)" "mpz_ok (st lhs)"
  shows "(n + 15 < 2 ^ 32 \<longrightarrow> (\<exists>d. mpz_shl_inpl jk dest lhs n st = Some (st(dest := d)) \<and> mpz_growable d
      \<and> mpz_val d = mpz_val (st lhs) * 2 ^ n))
    \<and> (dest \<noteq> lhs \<longrightarrow> (\<exists>d. mpz_shr_inpl jk dest lhs n st = Some (st(dest := d)) \<and> mpz_growable d
      \<and> mpz_val d = mpz_val (st lhs) div 2 ^ n))"
  using mpz_shl_inpl_result [of st dest lhs n jk] mpz_shr_inpl_result [of st dest lhs n jk] assms
  by (auto simp: mpz_result_def mpz_growable_def)

theorem mpz_shift_inpl_witness:
  "\<exists>d. mpz_shr_inpl (\<lambda>_. 7) (Obj 0) (Obj 1) 17 (mpz_operands (mpz_obj True [1, 6]) (mpz_obj False [])) =
      Some ((mpz_operands (mpz_obj True [1, 6]) (mpz_obj False []))(Obj 0 := d)) \<and> mpz_growable d \<and> mpz_val d = - 4"
  using mpz_shift_inpl_correct [of "mpz_operands (mpz_obj True [1, 6]) (mpz_obj False [])" "Obj 0" "Obj 1" 17 "\<lambda>_. 7"]
  by (simp add: mpz_instance)

text \<open>Negation, absolute value and bitwise complement, into the operand itself or another object.\<close>

theorem mpz_sign_inpl_correct:
  assumes "mpz_growable (st dest)" "mpz_ok (st z)"
  shows "(\<exists>d. mpz_neg_inpl jk dest z st = Some (st(dest := d)) \<and> mpz_growable d \<and> mpz_val d = - mpz_val (st z))
    \<and> (\<exists>d. mpz_abs_inpl jk dest z st = Some (st(dest := d)) \<and> mpz_growable d \<and> mpz_val d = \<bar>mpz_val (st z)\<bar>)
    \<and> (\<exists>d. mpz_not_inpl jk dest z st = Some (st(dest := d)) \<and> mpz_growable d \<and> mpz_val d = NOT (mpz_val (st z)))"
  using mpz_neg_inpl_result [of st dest z jk, OF assms] mpz_abs_inpl_result [of st dest z jk, OF assms]
    mpz_not_inpl_result [of st dest z jk, OF assms]
  by (auto simp: mpz_result_def mpz_growable_def)

theorem mpz_sign_inpl_witness:
  "\<exists>d. mpz_not_inpl (\<lambda>_. 7) (Obj 1) (Obj 1) (mpz_operands (mpz_obj False [65535]) (mpz_obj False [])) =
      Some ((mpz_operands (mpz_obj False [65535]) (mpz_obj False []))(Obj 1 := d)) \<and> mpz_growable d \<and> mpz_val d = - 65536"
  using mpz_sign_inpl_correct [of "mpz_operands (mpz_obj False [65535]) (mpz_obj False [])" "Obj 1" "Obj 1" "\<lambda>_. 7"]
  by (simp add: mpz_instance)

text \<open>\<open>mpz_cmp\<close> decides the order of the values, negative zeros included.\<close>

theorem mpz_cmp_correct:
  assumes "mpz_ok z1" "mpz_ok z2"
  shows "mpz_cmp z1 z2 = sgn (mpz_val z1 - mpz_val z2)"
  using assms by (rule mpz_cmp_sgn)

theorem mpz_cmp_witness:
  "mpz_cmp (mpz_obj True [0, 1]) (mpz_obj True [65535]) = - 1"
  using mpz_cmp_correct [of "mpz_obj True [0, 1]" "mpz_obj True [65535]"] by (simp add: mpz_instance)

lemmas mpz_run = mpz_operands_def mpz_obj_def mpz_init_zero_def mpz_need_dig_def mpz_put_def mpz_val_def sval_def
  dig_lo_def dig_hi_def

text \<open>A shift to the right in place does not round as it does into another object: shifting
  \<open>-2\<close> by one bit gives \<open>-2\<close> in place and \<open>-1\<close> otherwise, since the rounding looks for ones in the digits
  that the shift has overwritten.\<close>

theorem mpz_shr_inpl_shared:
  "map_option (\<lambda>st. mpz_val (st (Obj 1))) (mpz_shr_inpl (\<lambda>_. 0) (Obj 1) (Obj 1) 1 (mpz_operands (mpz_obj True [2]) (mpz_obj False []))) = Some (- 2)
   \<and> map_option (\<lambda>st. mpz_val (st (Obj 0))) (mpz_shr_inpl (\<lambda>_. 0) (Obj 0) (Obj 1) 1 (mpz_operands (mpz_obj True [2]) (mpz_obj False []))) = Some (- 1)"
  by (simp add: mpz_run mpz_shr_inpl_def mpz_shr_round_def mpn_shr_def mpn_add_def)

text \<open>The sum of a value and its negation is the negative zero, which the bitwise operations
  do not take for zero: its conjunction with \<open>-1\<close> is \<open>-1\<close> times a power of the digit base, not zero.\<close>

theorem mpz_negative_zero:
  "map_option (\<lambda>st. (z_neg (st (Obj 0)), z_len (st (Obj 0))))
     (mpz_add_inpl (\<lambda>_. 0) (Obj 0) (Obj 1) (Obj 2) (mpz_operands (mpz_obj True [5]) (mpz_obj False [5]))) = Some (True, 0)
   \<and> map_option (\<lambda>st. mpz_val (st (Obj 0)))
     (mpz_and_inpl (\<lambda>_. 0) (Obj 0) (Obj 1) (Obj 2) (mpz_operands (mpz_obj True []) (mpz_obj True [1]))) \<noteq> Some 0"
  by (simp add: mpz_run mpz_add_inpl_def mpz_and_inpl_def mpz_longest_first_def mpn_sub_def mpn_and_neg_def mpn_cmp_def mpn_remove_trailing_zeros_def mpn_mask_def)

end
