(* ===== verification/Mpz_Div.thy ===== *)
theory Mpz_Div
  imports Mpz
begin

text \<open>
  Division with floor semantics and exponentiation on arbitrary precision integers
  (\<open>mpz_divmod_inpl\<close>, \<open>mpz_pow_inpl\<close>, \<open>mpz_pow3_inpl\<close> of \<open>src/py/mpz.c\<close>). They are clients
  of the in-place operations of theory Mpz; their temporary objects are references of their own in
  the store.
\<close>

section \<open>The operations\<close>

text \<open>
  \<open>assert(!mpz_is_zero(rhs))\<close> and an empty denominator after the destination has been cleared
  (the destination of the quotient is then the denominator itself) are \<open>None\<close>. One object as
  both destinations, whose two buffers would then overlap, is outside the model and also \<open>None\<close>.
\<close>

definition mpz_divmod_signs :: "junk \<Rightarrow> mpz_ref \<Rightarrow> mpz_ref \<Rightarrow> mpz_ref \<Rightarrow> mpz_ref \<Rightarrow> mpz_store \<Rightarrow> mpz_store option" where
  \<comment> \<open>check signs and do Python style modulo\<close>
  "mpz_divmod_signs jk dest_quo dest_rem lhs rhs st =
     (if z_neg (st lhs) \<noteq> z_neg (st rhs) then do {
        let st = st(dest_quo := (st dest_quo)\<lparr>z_neg := True\<rparr>);
        if \<not> mpz_is_zero (st dest_rem) then do {
          one \<leftarrow> mpz_init_from_int jk (- 1);
          let st = st(Divmod_one := one);
          st \<leftarrow> mpz_add_inpl jk dest_quo dest_quo Divmod_one st;
          mpz_add_inpl jk dest_rem dest_rem rhs st
        } else Some st
      } else Some st)"

definition mpz_divmod_inpl :: "junk \<Rightarrow> mpz_ref \<Rightarrow> mpz_ref \<Rightarrow> mpz_ref \<Rightarrow> mpz_ref \<Rightarrow> mpz_store \<Rightarrow> mpz_store option" where
  "mpz_divmod_inpl jk dest_quo dest_rem lhs rhs st =
     (if mpz_is_zero (st rhs) then None
      else do {
        q \<leftarrow> mpz_need_dig jk (z_len (st lhs) + 1) (st dest_quo);
        let st = st(dest_quo := q);
        q \<leftarrow> mpz_put (replicate (z_len (st lhs) + 1) 0) 0 (st dest_quo);
        let st = st(dest_quo := q);
        r \<leftarrow> mpz_need_dig jk (z_len (st lhs) + 1) (st dest_rem);
        let st = st(dest_rem := r);
        st \<leftarrow> mpz_set jk dest_rem lhs st;
        if z_len (st rhs) = 0 \<or> dest_quo = dest_rem then None
        else do {
          (num, num_len, quo, quo_len) \<leftarrow>
             mpn_div (z_dig (st dest_rem)) (z_len (st dest_rem)) (z_digits (st rhs)) (z_dig (st dest_quo));
          let st = st(dest_rem := (st dest_rem)\<lparr>z_dig := num, z_len := num_len\<rparr>,
                      dest_quo := (st dest_quo)\<lparr>z_dig := quo, z_len := quo_len\<rparr>);
          mpz_divmod_signs jk dest_quo dest_rem lhs rhs st
        }
      })"

text \<open>The loops of the two exponentiations. Not returning is \<open>None\<close>.\<close>

partial_function (option) mpz_pow_loop :: "junk \<Rightarrow> mpz_ref \<Rightarrow> mpz_store \<Rightarrow> mpz_store option" where
  "mpz_pow_loop jk dest st =
     (if z_len (st Pow_n) > 0 then
        Option.bind (if z_dig (st Pow_n) ! 0 AND 1 \<noteq> 0 then mpz_mul_inpl jk dest dest Pow_x st else Some st)
        (\<lambda>st. let (ds, n) = mpn_shr (z_digits (st Pow_n)) 1
              in Option.bind (mpz_put ds n (st Pow_n))
        (\<lambda>z. let st = st(Pow_n := z)
             in if z_len (st Pow_n) = 0 then Some st
                else Option.bind (mpz_mul_inpl jk Pow_x Pow_x Pow_x st) (mpz_pow_loop jk dest)))
      else Some st)"

definition mpz_pow_inpl :: "junk \<Rightarrow> mpz_ref \<Rightarrow> mpz_ref \<Rightarrow> mpz_ref \<Rightarrow> mpz_store \<Rightarrow> mpz_store option" where
  "mpz_pow_inpl jk dest lhs rhs st =
     (if z_len (st lhs) = 0 \<or> z_neg (st rhs) then do {
        d \<leftarrow> mpz_set_from_int jk 0 (st dest);
        Some (st(dest := d))
      } else if z_len (st rhs) = 0 then do {
        d \<leftarrow> mpz_set_from_int jk 1 (st dest);
        Some (st(dest := d))
      } else do {
        x \<leftarrow> mpz_clone (st lhs);
        n \<leftarrow> mpz_clone (st rhs);
        d \<leftarrow> mpz_set_from_int jk 1 (st dest);
        mpz_pow_loop jk dest (st(Pow_x := x, Pow_n := n, dest := d))
      })"

partial_function (option) mpz_pow3_loop :: "junk \<Rightarrow> mpz_ref \<Rightarrow> mpz_ref \<Rightarrow> mpz_store \<Rightarrow> mpz_store option" where
  "mpz_pow3_loop jk dest md st =
     (if z_len (st Pow_n) > 0 then
        Option.bind (if z_dig (st Pow_n) ! 0 AND 1 \<noteq> 0
                     then Option.bind (mpz_mul_inpl jk dest dest Pow_x st) (mpz_divmod_inpl jk Pow3_quo dest dest md)
                     else Some st)
        (\<lambda>st. let (ds, n) = mpn_shr (z_digits (st Pow_n)) 1
              in Option.bind (mpz_put ds n (st Pow_n))
        (\<lambda>z. let st = st(Pow_n := z)
             in if z_len (st Pow_n) = 0 then Some st
                else Option.bind (mpz_mul_inpl jk Pow_x Pow_x Pow_x st)
                     (\<lambda>st. Option.bind (mpz_divmod_inpl jk Pow3_quo Pow_x Pow_x md st) (mpz_pow3_loop jk dest md))))
      else Some st)"

definition mpz_pow3_inpl :: "junk \<Rightarrow> mpz_ref \<Rightarrow> mpz_ref \<Rightarrow> mpz_ref \<Rightarrow> mpz_ref \<Rightarrow> mpz_store \<Rightarrow> mpz_store option" where
  "mpz_pow3_inpl jk dest lhs rhs md st =
     (if z_len (st lhs) = 0 \<or> z_neg (st rhs) \<or> (z_len (st md) = 1 \<and> z_dig (st md) ! 0 = 1) then do {
        d \<leftarrow> mpz_set_from_int jk 0 (st dest);
        Some (st(dest := d))
      } else do {
        d \<leftarrow> mpz_set_from_int jk 1 (st dest);
        let st = st(dest := d);
        if z_len (st rhs) = 0 then Some st
        else do {
          x \<leftarrow> mpz_clone (st lhs);
          n \<leftarrow> mpz_clone (st rhs);
          mpz_pow3_loop jk dest md (st(Pow_x := x, Pow_n := n, Pow3_quo := mpz_init_zero))
        }
      })"

declare mpz_pow_loop.simps [code] mpz_pow3_loop.simps [code]

section \<open>Correctness of the division\<close>

text \<open>The floor quotient and remainder from those of the magnitudes, as the code adjusts them.\<close>

lemma floor_div_mod:
  fixes a b :: nat
  assumes "0 < b"
  shows "ln = rn \<Longrightarrow> sval ln a div sval rn b = int (a div b)"
    "ln = rn \<Longrightarrow> sval ln a mod sval rn b = sval ln (a mod b)"
    "ln \<noteq> rn \<Longrightarrow> a mod b = 0 \<Longrightarrow> sval ln a div sval rn b = - int (a div b)"
    "ln \<noteq> rn \<Longrightarrow> a mod b = 0 \<Longrightarrow> sval ln a mod sval rn b = 0"
    "ln \<noteq> rn \<Longrightarrow> a mod b \<noteq> 0 \<Longrightarrow> sval ln a div sval rn b = - int (a div b) - 1"
    "ln \<noteq> rn \<Longrightarrow> a mod b \<noteq> 0 \<Longrightarrow> sval ln a mod sval rn b = sval ln (a mod b) + sval rn b"
proof -
  have nz: "int a mod int b = int (a mod b)" "int a div int b = int (a div b)" by (simp_all add: zmod_int zdiv_int)
  show "ln = rn \<Longrightarrow> sval ln a div sval rn b = int (a div b)"
    "ln = rn \<Longrightarrow> sval ln a mod sval rn b = sval ln (a mod b)"
    "ln \<noteq> rn \<Longrightarrow> a mod b = 0 \<Longrightarrow> sval ln a div sval rn b = - int (a div b)"
    "ln \<noteq> rn \<Longrightarrow> a mod b = 0 \<Longrightarrow> sval ln a mod sval rn b = 0"
    "ln \<noteq> rn \<Longrightarrow> a mod b \<noteq> 0 \<Longrightarrow> sval ln a div sval rn b = - int (a div b) - 1"
    "ln \<noteq> rn \<Longrightarrow> a mod b \<noteq> 0 \<Longrightarrow> sval ln a mod sval rn b = sval ln (a mod b) + sval rn b"
    using assms nz mod_less_divisor [OF assms, of a]
    by (auto simp: sval_def zdiv_zminus1_eq_if zdiv_zminus2_eq_if zmod_zminus1_eq_if zmod_zminus2_eq_if)
qed

definition mpz_divmod_done :: "mpz_store \<Rightarrow> mpz_ref \<Rightarrow> mpz_ref \<Rightarrow> int \<Rightarrow> int \<Rightarrow> mpz_store option \<Rightarrow> bool" where
  "mpz_divmod_done st dest_quo dest_rem q r res \<longleftrightarrow>
     (\<exists>st'. res = Some st' \<and> mpz_growable (st' dest_quo) \<and> mpz_growable (st' dest_rem)
       \<and> mpz_val (st' dest_quo) = q \<and> mpz_val (st' dest_rem) = r
       \<and> (\<forall>x. x \<noteq> dest_quo \<longrightarrow> x \<noteq> dest_rem \<longrightarrow> x \<noteq> Divmod_one \<longrightarrow> st' x = st x))"

lemma mpz_init_minus_one:
  "\<exists>one. mpz_init_from_int jk (- 1) = Some one \<and> mpz_growable one \<and> mpz_val one = - 1"
proof -
  have "mpz_growable mpz_init_zero" by (simp add: mpz_growable_def mpz_ok_def mpz_init_zero_def)
  from mpz_set_from_int_val [OF this, of jk "- 1"] show ?thesis by (simp add: mpz_init_from_int_def)
qed

text \<open>The objects of a call: which of them may be one and the same.\<close>

definition divmod_args :: "mpz_ref \<Rightarrow> mpz_ref \<Rightarrow> mpz_ref \<Rightarrow> mpz_ref \<Rightarrow> bool" where
  "divmod_args dest_quo dest_rem lhs rhs \<longleftrightarrow>
     dest_quo \<noteq> dest_rem \<and> dest_quo \<noteq> lhs \<and> dest_quo \<noteq> rhs \<and> dest_rem \<noteq> rhs
     \<and> Divmod_one \<notin> {dest_quo, dest_rem, lhs, rhs}"

text \<open>
  Rounding towards minus infinity: one less in the quotient, the denominator added to the remainder.
\<close>

lemma mpz_divmod_adjust:
  assumes "mpz_growable (st dest_quo)" "mpz_growable (st dest_rem)" "mpz_ok (st rhs)"
    and "z_neg (st dest_quo)"
    and "dest_quo \<noteq> dest_rem" "dest_quo \<noteq> rhs" "dest_rem \<noteq> rhs" "Divmod_one \<notin> {dest_quo, dest_rem, rhs}"
  shows "mpz_divmod_done st dest_quo dest_rem (mpz_val (st dest_quo) - 1) (mpz_val (st dest_rem) + mpz_val (st rhs))
    (do {
       one \<leftarrow> mpz_init_from_int jk (- 1);
       let st = st(Divmod_one := one);
       st \<leftarrow> mpz_add_inpl jk dest_quo dest_quo Divmod_one st;
       mpz_add_inpl jk dest_rem dest_rem rhs st
     })"
proof -
  obtain one where one: "mpz_init_from_int jk (- 1) = Some one" "mpz_growable one" "mpz_val one = - 1"
    using mpz_init_minus_one by blast
  let ?s1 = "st(Divmod_one := one)"
  obtain q where q: "mpz_add_inpl jk dest_quo dest_quo Divmod_one ?s1 = Some (?s1(dest_quo := q))" "mpz_growable q"
    "mpz_val q = mpz_val (?s1 dest_quo) + mpz_val (?s1 Divmod_one)"
    using mpz_add.in_place [of ?s1 dest_quo dest_quo Divmod_one jk] assms one(2) by (auto simp: growable_ok)
  let ?s2 = "?s1(dest_quo := q)"
  obtain r where r: "mpz_add_inpl jk dest_rem dest_rem rhs ?s2 = Some (?s2(dest_rem := r))" "mpz_growable r"
    "mpz_val r = mpz_val (?s2 dest_rem) + mpz_val (?s2 rhs)"
    using mpz_add.in_place [of ?s2 dest_rem dest_rem rhs jk] assms by (auto simp: growable_ok)
  show ?thesis unfolding mpz_divmod_done_def using one q r assms by (auto simp: Let_def)
qed

text \<open>
  The sign of the quotient is only set when the signs of the operands differ: with equal signs a
  destination that was negative stays negative.
\<close>

definition divmod_stale_sign :: "bool \<Rightarrow> bool \<Rightarrow> bool \<Rightarrow> int \<Rightarrow> int" where
  "divmod_stale_sign qn ln rn q = (if qn \<and> ln = rn then - q else q)"

text \<open>
  The sign adjustment, on the quotient and the remainder of the magnitudes \<open>a\<close> and \<open>b\<close>, the
  remainder with the sign of \<open>lhs\<close>.
\<close>

lemma mpz_divmod_signs_result:
  assumes args: "divmod_args dest_quo dest_rem lhs rhs"
    and grow: "mpz_growable (st dest_quo)" "mpz_growable (st dest_rem)" "mpz_ok (st rhs)"
    and rem: "z_neg (st dest_rem) = z_neg (st lhs)" "mpn_val (z_digits (st dest_rem)) = a mod b"
    and quo: "mpn_val (z_digits (st dest_quo)) = a div b"
    and b: "b = mpn_val (z_digits (st rhs))" "0 < b"
  shows "mpz_divmod_done st dest_quo dest_rem
    (divmod_stale_sign (z_neg (st dest_quo)) (z_neg (st lhs)) (z_neg (st rhs)) (sval (z_neg (st lhs)) a div mpz_val (st rhs)))
    (sval (z_neg (st lhs)) a mod mpz_val (st rhs)) (mpz_divmod_signs jk dest_quo dest_rem lhs rhs st)"
proof (cases "z_neg (st lhs) = z_neg (st rhs)")
  case True
  then show ?thesis
    using floor_div_mod(1,2) [OF b(2), of "z_neg (st lhs)" "z_neg (st rhs)" a] grow rem quo b(1)
    by (simp add: mpz_divmod_signs_def mpz_divmod_done_def mpz_val_def sval_def divmod_stale_sign_def)
next
  case False
  have nes: "dest_quo \<noteq> dest_rem" "dest_rem \<noteq> dest_quo" "rhs \<noteq> dest_quo" "rhs \<noteq> dest_rem"
    "Divmod_one \<notin> {dest_quo, dest_rem, rhs}" using args by (auto simp: divmod_args_def)
  have r0: "z_len (st dest_rem) = 0 \<longleftrightarrow> a mod b = 0"
    using grow(2) rem(2) mpn_val_normalised_0 [of "z_digits (st dest_rem)"] by (auto simp: mpz_growable_def mpz_ok_def)
  note fl = floor_div_mod(3-6) [OF b(2) False, of a]
  have stale: "divmod_stale_sign qn (z_neg (st lhs)) (z_neg (st rhs)) v = v" for qn v
    using False by (simp add: divmod_stale_sign_def)
  have rhs: "mpz_val (st rhs) = sval (z_neg (st rhs)) b" by (simp add: mpz_val_def b(1))
  have rv: "mpz_val (st dest_rem) = sval (z_neg (st lhs)) (a mod b)" by (simp add: mpz_val_def rem)
  define q where "q = (st dest_quo)\<lparr>z_neg := True\<rparr>"
  have q: "mpz_growable q" "z_neg q" "mpz_val q = - int (a div b)"
    using grow(1) quo by (simp_all add: q_def mpz_growable_def mpz_ok_def mpz_val_def sval_def)
  show ?thesis
  proof (cases "a mod b = 0")
    case True
    then have "mpz_divmod_signs jk dest_quo dest_rem lhs rhs st = Some (st(dest_quo := q))"
      using False r0 nes by (simp add: mpz_divmod_signs_def mpz_is_zero_def q_def)
    then show ?thesis using fl(1,2) True q(1,3) rv grow(2) nes unfolding stale by (simp add: mpz_divmod_done_def rhs sval_def)
  next
    case nz: False
    then have "mpz_divmod_signs jk dest_quo dest_rem lhs rhs st = (do {
        one \<leftarrow> mpz_init_from_int jk (- 1);
        let st = st(dest_quo := q, Divmod_one := one);
        st \<leftarrow> mpz_add_inpl jk dest_quo dest_quo Divmod_one st;
        mpz_add_inpl jk dest_rem dest_rem rhs st
      })" using False r0 nes by (simp add: mpz_divmod_signs_def mpz_is_zero_def q_def)
    then show ?thesis unfolding stale
      using mpz_divmod_adjust [of "st(dest_quo := q)" dest_quo dest_rem rhs jk] q grow(2,3) nes fl(3,4) nz rv
      by (simp add: mpz_divmod_done_def rhs)
  qed
qed

text \<open>The part before the sign adjustment.\<close>

lemma mpz_divmod_magnitudes:
  assumes args: "divmod_args dest_quo dest_rem lhs rhs"
    and grow: "mpz_growable (st dest_quo)" "mpz_growable (st dest_rem)"
    and ok: "mpz_ok (st lhs)" "mpz_ok (st rhs)" "z_len (st rhs) \<noteq> 0"
    and tie: "z_len (st rhs) \<le> 2 \<or> mpn_div_tie_free (z_digits (st lhs)) (z_digits (st rhs))"
  shows "\<exists>q r. mpz_growable q \<and> mpz_growable r \<and> z_neg q = z_neg (st dest_quo) \<and> z_neg r = z_neg (st lhs)
    \<and> mpn_val (z_digits q) = mpn_val (z_digits (st lhs)) div mpn_val (z_digits (st rhs))
    \<and> mpn_val (z_digits r) = mpn_val (z_digits (st lhs)) mod mpn_val (z_digits (st rhs))
    \<and> mpz_divmod_inpl jk dest_quo dest_rem lhs rhs st
        = mpz_divmod_signs jk dest_quo dest_rem lhs rhs (st(dest_quo := q, dest_rem := r))"
proof -
  let ?need = "z_len (st lhs) + 1" and ?z = "replicate (z_len (st lhs) + 1) 0"
  note ne = args [unfolded divmod_args_def]
  have nes: "dest_quo \<noteq> dest_rem" "dest_rem \<noteq> dest_quo" "lhs \<noteq> dest_quo" "rhs \<noteq> dest_quo" "rhs \<noteq> dest_rem"
    using ne by auto
  obtain e where q1: "mpz_need_dig jk ?need (st dest_quo) = Some ((st dest_quo)\<lparr>z_dig := z_dig (st dest_quo) @ e\<rparr>)"
    "?need \<le> length (z_dig (st dest_quo)) + length e"
    using mpz_need_dig_Some [OF grow(1)] by blast
  define q2 where "q2 = (st dest_quo)\<lparr>z_dig := ?z @ drop ?need (z_dig (st dest_quo) @ e), z_len := 0\<rparr>"
  have put: "mpz_put ?z 0 ((st dest_quo)\<lparr>z_dig := z_dig (st dest_quo) @ e\<rparr>) = Some q2"
    using q1(2) by (simp add: mpz_put_def q2_def)
  obtain e' where r1: "mpz_need_dig jk ?need (st dest_rem) = Some ((st dest_rem)\<lparr>z_dig := z_dig (st dest_rem) @ e'\<rparr>)"
    "?need \<le> length (z_dig (st dest_rem)) + length e'"
    using mpz_need_dig_Some [OF grow(2)] by blast
  define r2 where "r2 = (st dest_rem)\<lparr>z_dig := z_dig (st dest_rem) @ e'\<rparr>"
  let ?s2 = "st(dest_quo := q2, dest_rem := r2)"
  have g2: "mpz_growable (?s2 dest_rem)" "mpz_ok (?s2 lhs)"
    using grow(2) ok(1) ne by (auto simp: r2_def mpz_growable_def mpz_ok_def)
  have d2: "z_digits (?s2 lhs) = z_digits (st lhs)" "z_len (?s2 lhs) = z_len (st lhs)" "z_neg (?s2 lhs) = z_neg (st lhs)"
    using ne ok(1) by (auto simp: r2_def mpz_ok_def)
  obtain r3 where r3: "mpz_set jk dest_rem lhs ?s2 = Some (?s2(dest_rem := r3))" "z_digits r3 = z_digits (st lhs)"
    "z_len r3 = z_len (st lhs)" "z_neg r3 = z_neg (st lhs)" "\<not> z_fixed_dig r3" "mpz_ok r3" "?need \<le> length (z_dig r3)"
    using mpz_set_Some [of ?s2 dest_rem lhs jk, OF g2] r1(2) d2 ne by (auto simp: r2_def)
  have rhs: "normalised (z_digits (st rhs))" "z_digits (st rhs) \<noteq> []" "length (z_digits (st rhs)) = z_len (st rhs)"
    using ok by (auto simp: mpz_ok_def)
  have l2: "?need \<le> length (z_dig q2)" using q1(2) by (simp add: q2_def)
  obtain num n quo m where div: "mpn_div (z_dig r3) (z_len r3) (z_digits (st rhs)) (z_dig q2) = Some (num, n, quo, m)"
    "n \<le> length num" "m \<le> length quo" "normalised (take n num)" "normalised (take m quo)"
    "mpn_val (take n num) = mpn_val (z_digits (st lhs)) mod mpn_val (z_digits (st rhs))"
    "mpn_val (take m quo) = mpn_val (z_digits (st lhs)) div mpn_val (z_digits (st rhs))"
    using mpn_div_correct [of "z_len r3" "z_dig r3" "z_digits (st rhs)" "z_dig q2"] r3 rhs l2 tie
    by (auto simp: mpz_ok_def)
  define q r where "q = q2\<lparr>z_dig := quo, z_len := m\<rparr>" and "r = r3\<lparr>z_dig := num, z_len := n\<rparr>"
  have "mpz_growable q" "mpz_growable r" "z_neg q = z_neg (st dest_quo)" "z_neg r = z_neg (st lhs)"
    using div r3 grow(1) by (auto simp: q_def r_def q2_def mpz_growable_def mpz_ok_def)
  moreover have "mpn_val (z_digits q) = mpn_val (z_digits (st lhs)) div mpn_val (z_digits (st rhs))"
    "mpn_val (z_digits r) = mpn_val (z_digits (st lhs)) mod mpn_val (z_digits (st rhs))"
    using div by (simp_all add: q_def r_def)
  moreover have "\<not> mpz_is_zero (st rhs)" using ok(3) by (simp add: mpz_is_zero_def)
  then have "mpz_divmod_inpl jk dest_quo dest_rem lhs rhs st
        = mpz_divmod_signs jk dest_quo dest_rem lhs rhs (st(dest_quo := q, dest_rem := r))"
    using nes ok(3) q1(1) put r1(1) r3(1) div(1) fun_upd_twist [of dest_rem dest_quo st]
    by (simp add: mpz_divmod_inpl_def r2_def [symmetric] q_def r_def Let_def)
  ultimately show ?thesis by blast
qed

lemma mpz_divmod_inpl_result:
  assumes args: "divmod_args dest_quo dest_rem lhs rhs"
    and grow: "mpz_growable (st dest_quo)" "mpz_growable (st dest_rem)"
    and ok: "mpz_ok (st lhs)" "mpz_ok (st rhs)" "z_len (st rhs) \<noteq> 0"
    and tie: "z_len (st rhs) \<le> 2 \<or> mpn_div_tie_free (z_digits (st lhs)) (z_digits (st rhs))"
  shows "mpz_divmod_done st dest_quo dest_rem
    (divmod_stale_sign (z_neg (st dest_quo)) (z_neg (st lhs)) (z_neg (st rhs)) (mpz_val (st lhs) div mpz_val (st rhs)))
    (mpz_val (st lhs) mod mpz_val (st rhs)) (mpz_divmod_inpl jk dest_quo dest_rem lhs rhs st)"
proof -
  obtain q r where qr: "mpz_growable q" "mpz_growable r" "z_neg q = z_neg (st dest_quo)" "z_neg r = z_neg (st lhs)"
    "mpn_val (z_digits q) = mpn_val (z_digits (st lhs)) div mpn_val (z_digits (st rhs))"
    "mpn_val (z_digits r) = mpn_val (z_digits (st lhs)) mod mpn_val (z_digits (st rhs))"
    and eq: "mpz_divmod_inpl jk dest_quo dest_rem lhs rhs st
        = mpz_divmod_signs jk dest_quo dest_rem lhs rhs (st(dest_quo := q, dest_rem := r))"
    using mpz_divmod_magnitudes [of dest_quo dest_rem lhs rhs st jk, OF args grow(1,2) ok tie] by blast
  let ?s = "st(dest_quo := q, dest_rem := r)"
  have nes: "dest_quo \<noteq> dest_rem" "dest_rem \<noteq> dest_quo" "lhs \<noteq> dest_quo" "rhs \<noteq> dest_quo" "rhs \<noteq> dest_rem"
    using args by (auto simp: divmod_args_def)
  have b: "0 < mpn_val (z_digits (st rhs))" using ok by (intro mpn_val_pos) (auto simp: mpz_ok_def)
  have sg: "z_neg (?s dest_quo) = z_neg (st dest_quo)" "z_neg (?s lhs) = z_neg (st lhs)" "?s rhs = st rhs" using nes qr(3,4) by auto
  have "mpz_divmod_done ?s dest_quo dest_rem
      (divmod_stale_sign (z_neg (?s dest_quo)) (z_neg (?s lhs)) (z_neg (?s rhs)) (sval (z_neg (?s lhs)) (mpn_val (z_digits (st lhs))) div mpz_val (?s rhs)))
      (sval (z_neg (?s lhs)) (mpn_val (z_digits (st lhs))) mod mpz_val (?s rhs))
      (mpz_divmod_signs jk dest_quo dest_rem lhs rhs ?s)"
    using qr ok(2) nes sg b
    by (intro mpz_divmod_signs_result [OF args, where b = "mpn_val (z_digits (st rhs))"]) auto
  then show ?thesis unfolding eq sg mpz_val_def [of "st lhs", symmetric] by (simp add: mpz_divmod_done_def)
qed

section \<open>Correctness of the exponentiation\<close>

lemma odd_digits:
  assumes "mpz_ok z" "0 < z_len z"
  shows "z_dig z ! 0 AND 1 \<noteq> 0 \<longleftrightarrow> odd (mpn_val (z_digits z))"
proof -
  obtain d ds where d: "z_digits z = d # ds" using assms by (cases "z_digits z") (auto simp: mpz_ok_def)
  then have "z_dig z ! 0 = d" using assms by (cases "z_dig z"; cases "z_len z") auto
  moreover have "d AND 1 \<noteq> 0 \<longleftrightarrow> odd (unat d)" 
    using bit_unsigned_iff [of d 0, where ?'a = nat] by (simp add: and_one_eq bit_0 odd_iff_mod_2_eq_one)
  ultimately show ?thesis by (simp add: d)
qed

lemma mpz_halve:
  assumes "mpz_growable z"
  shows "\<exists>z'. mpz_put (fst (mpn_shr (z_digits z) 1)) (snd (mpn_shr (z_digits z) 1)) z = Some z' \<and> mpz_growable z'
    \<and> mpn_val (z_digits z') = mpn_val (z_digits z) div 2"
proof -
  let ?ds = "fst (mpn_shr (z_digits z) 1)" and ?n = "snd (mpn_shr (z_digits z) 1)"
  have "length ?ds \<le> length (z_dig z)" using mpn_shr_length [of "z_digits z" 1] by (simp add: min_le_iff_disj)
  then show ?thesis
    using mpn_shr_val [of "z_digits z" 1] mpn_shr_normalised [of "z_digits z" 1] mpn_shr_snd_le [of "z_digits z" 1] assms
    by (simp add: mpz_put_Some mpz_growable_def mpz_ok_def)
qed

lemma mpz_pow_loop_result:
  assumes "dest \<notin> {Pow_x, Pow_n}" "mpz_growable (st dest)" "mpz_growable (st Pow_x)" "mpz_growable (st Pow_n)"
  shows "\<exists>st'. mpz_pow_loop jk dest st = Some st' \<and> mpz_growable (st' dest)
    \<and> mpz_val (st' dest) = mpz_val (st dest) * mpz_val (st Pow_x) ^ mpn_val (z_digits (st Pow_n))
    \<and> (\<forall>r. r \<notin> {dest, Pow_x, Pow_n} \<longrightarrow> st' r = st r)"
  using assms
proof (induction "mpn_val (z_digits (st Pow_n))" arbitrary: st rule: less_induct)
  case less
  let ?N = "mpn_val (z_digits (st Pow_n))"
  have ok: "mpz_ok (st Pow_n)" using less.prems(4) by (rule growable_ok)
  show ?case
  proof (cases "z_len (st Pow_n) = 0")
    case True
    then show ?thesis using less.prems by (simp add: mpz_pow_loop.simps [of jk dest st])
  next
    case False
    have pos: "0 < ?N" using False ok by (intro mpn_val_pos) (auto simp: mpz_ok_def)
    define m where "m = (if z_dig (st Pow_n) ! 0 AND 1 \<noteq> 0 then mpz_mul_inpl jk dest dest Pow_x st else Some st)"
    have "\<exists>d. m = Some (st(dest := d)) \<and> mpz_growable d
        \<and> mpz_val d = mpz_val (st dest) * mpz_val (st Pow_x) ^ (?N mod 2)"
    proof (cases "odd ?N")
      case True
      then have "m = mpz_mul_inpl jk dest dest Pow_x st" "?N mod 2 = 1"
        using odd_digits [OF ok] False by (auto simp: m_def odd_iff_mod_2_eq_one)
      then show ?thesis using mpz_mul.in_place [of st dest dest Pow_x jk] less.prems by (simp add: growable_ok)
    next
      case even: False
      then have "m = Some st" "?N mod 2 = 0" using odd_digits [OF ok] False by (auto simp: m_def)
      then show ?thesis using less.prems(2) by (intro exI [of _ "st dest"]) simp
    qed
    then obtain d where d: "m = Some (st(dest := d))" "mpz_growable d"
      "mpz_val d = mpz_val (st dest) * mpz_val (st Pow_x) ^ (?N mod 2)" by blast
    obtain z where z: "mpz_put (fst (mpn_shr (z_digits (st Pow_n)) 1)) (snd (mpn_shr (z_digits (st Pow_n)) 1)) (st Pow_n) = Some z"
      "mpz_growable z" "mpn_val (z_digits z) = ?N div 2"
      using mpz_halve [OF less.prems(4)] by blast
    let ?s = "st(dest := d, Pow_n := z)"
    have step: "mpz_pow_loop jk dest st = (if z_len z = 0 then Some ?s
        else Option.bind (mpz_mul_inpl jk Pow_x Pow_x Pow_x ?s) (mpz_pow_loop jk dest))"
      using False d(1) z(1) less.prems(1) not_sym [of dest Pow_n]
      by (subst mpz_pow_loop.simps) (simp add: m_def [symmetric] Let_def case_prod_beta)
    have N: "?N = ?N mod 2 + 2 * (?N div 2)" by simp
    show ?thesis
    proof (cases "z_len z = 0")
      case True
      then have "?N div 2 = 0" using z(3) by simp
      then have "?N mod 2 = ?N" using N by simp
      then show ?thesis using step True d less.prems(1) by simp
    next
      case nz: False
      obtain x where x: "mpz_mul_inpl jk Pow_x Pow_x Pow_x ?s = Some (?s(Pow_x := x))" "mpz_growable x"
        "mpz_val x = mpz_val (?s Pow_x) * mpz_val (?s Pow_x)"
        using mpz_mul.in_place [of ?s Pow_x Pow_x Pow_x jk] less.prems by (auto simp: growable_ok)
      let ?t = "?s(Pow_x := x)"
      have "?N div 2 < ?N" using pos by simp
      then obtain st' where st': "mpz_pow_loop jk dest ?t = Some st'" "mpz_growable (st' dest)"
        "mpz_val (st' dest) = mpz_val (?t dest) * mpz_val (?t Pow_x) ^ (?N div 2)"
        "\<forall>r. r \<notin> {dest, Pow_x, Pow_n} \<longrightarrow> st' r = ?t r"
        using less.hyps [of ?t] less.prems x(2) d(2) z(2,3) by auto
      have v: "mpz_val (st' dest) = mpz_val (st dest) * mpz_val (st Pow_x) ^ (?N mod 2) * (mpz_val (st Pow_x) * mpz_val (st Pow_x)) ^ (?N div 2)"
        using st'(3) d(3) x(3) less.prems(1) by auto
      have "X ^ (i + 2 * j) = X ^ i * (X * X) ^ j" for X :: int and i j
        by (simp add: power_add power_mult power2_eq_square)
      from this [of "mpz_val (st Pow_x)" "?N mod 2" "?N div 2", folded N] v
      have "mpz_val (st' dest) = mpz_val (st dest) * mpz_val (st Pow_x) ^ ?N" by (simp only: mult.assoc)
      then show ?thesis using step nz x(1) st' by auto
    qed
  qed
qed

lemma mpz_pow_inpl_result:
  assumes "dest \<notin> {Pow_x, Pow_n}" "lhs \<notin> {Pow_x, Pow_n}" "rhs \<notin> {Pow_x, Pow_n}"
    and "mpz_growable (st dest)" "mpz_ok (st lhs)" "mpz_canonical (st rhs)"
    and "mpz_val (st lhs) \<noteq> 0 \<or> mpz_val (st rhs) \<noteq> 0"
  shows "\<exists>st'. mpz_pow_inpl jk dest lhs rhs st = Some st' \<and> mpz_growable (st' dest)
    \<and> mpz_val (st' dest) = (if mpz_val (st rhs) < 0 then 0 else mpz_val (st lhs) ^ nat (mpz_val (st rhs)))
    \<and> (\<forall>r. r \<notin> {dest, Pow_x, Pow_n} \<longrightarrow> st' r = st r)"
proof -
  have zero: "z_len z = 0 \<longleftrightarrow> mpz_val z = 0" if "mpz_ok z" for z
    using that mpn_val_normalised_0 [of "z_digits z"] by (auto simp: mpz_ok_def mpz_val_def sval_def)
  have cleared: "mpz_growable (z\<lparr>z_len := 0\<rparr>)" "mpz_val (z\<lparr>z_len := 0\<rparr>) = 0" if "mpz_growable z" for z
    using that by (simp_all add: mpz_growable_def mpz_ok_def mpz_val_def sval_def)
  have rhs: "mpz_ok (st rhs)" "z_neg (st rhs) \<longleftrightarrow> mpz_val (st rhs) < 0"
    using assms(6) mpn_val_normalised_0 [of "z_digits (st rhs)"]
    by (auto simp: mpz_canonical_def mpz_ok_def mpz_val_def sval_def)
  consider (neg) "z_neg (st rhs)" | (l0) "z_len (st lhs) = 0" "\<not> z_neg (st rhs)" | (r0) "z_len (st lhs) \<noteq> 0" "\<not> z_neg (st rhs)" "z_len (st rhs) = 0"
    | (pos) "z_len (st lhs) \<noteq> 0" "\<not> z_neg (st rhs)" "z_len (st rhs) \<noteq> 0" by blast
  then show ?thesis
  proof cases
    case neg
    then have "mpz_pow_inpl jk dest lhs rhs st = Some (st(dest := (st dest)\<lparr>z_len := 0\<rparr>))"
      by (simp add: mpz_pow_inpl_def mpz_set_from_int_def)
    then show ?thesis using cleared [OF assms(4)] neg rhs(2) by simp
  next
    case l0
    then have "mpz_val (st lhs) = 0" "0 < mpz_val (st rhs)" using zero [OF assms(5)] assms(7) rhs(2) by auto
    moreover have "mpz_pow_inpl jk dest lhs rhs st = Some (st(dest := (st dest)\<lparr>z_len := 0\<rparr>))"
      using l0 by (simp add: mpz_pow_inpl_def mpz_set_from_int_def)
    ultimately show ?thesis using cleared [OF assms(4)] by simp
  next
    case r0
    obtain d where "mpz_set_from_int jk 1 (st dest) = Some d" "mpz_growable d" "mpz_val d = 1"
      using mpz_set_from_int_val [OF assms(4), of jk 1] by auto
    then show ?thesis using r0 zero [OF rhs(1)] by (simp add: mpz_pow_inpl_def)
  next
    case pos
    obtain d where d: "mpz_set_from_int jk 1 (st dest) = Some d" "mpz_growable d" "mpz_val d = 1"
      using mpz_set_from_int_val [OF assms(4), of jk 1] by auto
    let ?x = "(st lhs)\<lparr>z_fixed_dig := False\<rparr>" and ?n = "(st rhs)\<lparr>z_fixed_dig := False\<rparr>"
    let ?s = "st(Pow_x := ?x, Pow_n := ?n, dest := d)"
    have "mpz_clone (st lhs) = Some ?x" "mpz_clone (st rhs) = Some ?n"
      using pos assms(5) rhs(1) by (auto simp: mpz_clone_def mpz_ok_def)
    then have eq: "mpz_pow_inpl jk dest lhs rhs st = mpz_pow_loop jk dest ?s"
      using pos d(1) by (simp add: mpz_pow_inpl_def)
    have s: "?s dest = d" "?s Pow_x = ?x" "?s Pow_n = ?n" using assms(1) by auto
    have g: "mpz_growable ?x" "mpz_growable ?n" using assms(5) rhs(1) by (simp_all add: mpz_growable_def mpz_ok_def)
    have v: "mpz_val ?x = mpz_val (st lhs)" "mpn_val (z_digits ?n) = nat (mpz_val (st rhs))"
      using pos(2) by (simp_all add: mpz_val_def sval_def)
    have nn: "\<not> mpz_val (st rhs) < 0" using pos(2) rhs(2) by simp
    have pre: "mpz_growable (?s dest)" "mpz_growable (?s Pow_x)" "mpz_growable (?s Pow_n)" unfolding s by (fact d(2) g)+
    obtain st' where st': "mpz_pow_loop jk dest ?s = Some st'" "mpz_growable (st' dest)"
      "mpz_val (st' dest) = mpz_val d * mpz_val ?x ^ mpn_val (z_digits ?n)"
      "\<forall>r. r \<notin> {dest, Pow_x, Pow_n} \<longrightarrow> st' r = ?s r"
      using mpz_pow_loop_result [of dest ?s jk, OF assms(1) pre] unfolding s by (elim exE conjE)
    from st'(4) have "\<forall>r. r \<notin> {dest, Pow_x, Pow_n} \<longrightarrow> st' r = st r" by simp
    moreover have "mpz_val (st' dest) = mpz_val (st lhs) ^ nat (mpz_val (st rhs))" by (simp only: st'(3) d(3) v mult_1)
    ultimately show ?thesis using st'(1,2) nn unfolding eq by simp
  qed
qed

section \<open>The contracts of division and power\<close>

text \<open>C6: \<open>mpz_divmod_inpl\<close> stores the quotient rounded towards minus infinity and the remainder with the
  sign of the divisor, and changes no other object. (The comment of the function promises a
  remainder between zero and the divisor, which holds for positive divisors only.) Where the signs of the operands agree the code
  leaves the sign of the quotient object as it was, so the quotient comes out negated if that object
  was negative before. Divisors of three digits and more are subject to the limitation of the
  digit-level division.\<close>

theorem mpz_divmod_inpl_correct:
  assumes "divmod_args dest_quo dest_rem lhs rhs" "mpz_growable (st dest_quo)" "mpz_growable (st dest_rem)"
    and "mpz_ok (st lhs)" "mpz_ok (st rhs)" "mpz_val (st rhs) \<noteq> 0"
    and "z_len (st rhs) \<le> 2 \<or> mpn_div_tie_free (z_digits (st lhs)) (z_digits (st rhs))"
  shows "\<exists>st'. mpz_divmod_inpl jk dest_quo dest_rem lhs rhs st = Some st'
    \<and> mpz_growable (st' dest_quo) \<and> mpz_growable (st' dest_rem)
    \<and> mpz_val (st' dest_quo) =
        (if z_neg (st dest_quo) \<and> z_neg (st lhs) = z_neg (st rhs) then - (mpz_val (st lhs) div mpz_val (st rhs))
         else mpz_val (st lhs) div mpz_val (st rhs))
    \<and> mpz_val (st' dest_rem) = mpz_val (st lhs) mod mpz_val (st rhs)
    \<and> (\<forall>x. x \<noteq> dest_quo \<longrightarrow> x \<noteq> dest_rem \<longrightarrow> x \<noteq> Divmod_one \<longrightarrow> st' x = st x)"
proof -
  have "z_len (st rhs) \<noteq> 0" using assms(6) by (cases "z_len (st rhs) = 0") (simp_all add: mpz_val_def sval_def split: if_splits)
  from mpz_divmod_inpl_result [OF assms(1-5) this assms(7), of jk] show ?thesis
    by (simp add: mpz_divmod_done_def divmod_stale_sign_def)
qed

theorem mpz_divmod_inpl_witness:
  "\<exists>st'. mpz_divmod_inpl (\<lambda>_. 7) (Obj 0) (Obj 3) (Obj 1) (Obj 2) (mpz_operands (mpz_obj True [0, 0, 1]) (mpz_obj False [3, 2])) = Some st'
    \<and> mpz_val (st' (Obj 0)) = - 32768 \<and> mpz_val (st' (Obj 3)) = 98304"
  using mpz_divmod_inpl_correct [of "Obj 0" "Obj 3" "Obj 1" "Obj 2" "mpz_operands (mpz_obj True [0, 0, 1]) (mpz_obj False [3, 2])" "\<lambda>_. 7"]
  by (simp add: divmod_args_def mpz_instance) blast

text \<open>C28: \<open>mpz_pow_inpl\<close> returns the power, and zero for a negative exponent, by square and multiply on
  copies of the operands; the loop ends. The case \<open>0 ** 0\<close> is excluded: it stores zero.\<close>

theorem mpz_pow_inpl_correct:
  assumes "dest \<notin> {Pow_x, Pow_n}" "lhs \<notin> {Pow_x, Pow_n}" "rhs \<notin> {Pow_x, Pow_n}"
    and "mpz_growable (st dest)" "mpz_ok (st lhs)" "mpz_canonical (st rhs)"
    and "mpz_val (st lhs) \<noteq> 0 \<or> mpz_val (st rhs) \<noteq> 0"
  shows "\<exists>st'. mpz_pow_inpl jk dest lhs rhs st = Some st' \<and> mpz_growable (st' dest)
    \<and> mpz_val (st' dest) = (if mpz_val (st rhs) < 0 then 0 else mpz_val (st lhs) ^ nat (mpz_val (st rhs)))
    \<and> (\<forall>r. r \<notin> {dest, Pow_x, Pow_n} \<longrightarrow> st' r = st r)"
  using assms by (rule mpz_pow_inpl_result)

theorem mpz_pow_inpl_witness:
  "\<exists>st'. mpz_pow_inpl (\<lambda>_. 7) (Obj 1) (Obj 1) (Obj 2) (mpz_operands (mpz_obj True [300]) (mpz_obj False [3])) = Some st'
    \<and> mpz_val (st' (Obj 1)) = - 27000000"
  using mpz_pow_inpl_correct [of "Obj 1" "Obj 1" "Obj 2" "mpz_operands (mpz_obj True [300]) (mpz_obj False [3])" "\<lambda>_. 7"]
  by (simp add: mpz_instance) blast

text \<open>Zero to the power zero is stored as zero, where the language defines one.\<close>

theorem mpz_pow_inpl_zero_zero:
  assumes "mpz_val (st lhs) = 0" "mpz_ok (st lhs)" "mpz_val (st rhs) = 0" "mpz_canonical (st rhs)"
  shows "map_option (\<lambda>st'. mpz_val (st' dest)) (mpz_pow_inpl jk dest lhs rhs st) = Some 0"
proof -
  have "z_len (st lhs) = 0" using assms(1,2) mpn_val_normalised_0 [of "z_digits (st lhs)"]
    by (auto simp: mpz_ok_def mpz_val_def sval_def split: if_splits)
  then show ?thesis by (simp add: mpz_pow_inpl_def mpz_set_from_int_def mpz_val_def sval_def)
qed

theorem mpz_pow_inpl_zero_zero_witness:
  "map_option (\<lambda>st'. mpz_val (st' (Obj 0))) (mpz_pow_inpl (\<lambda>_. 7) (Obj 0) (Obj 1) (Obj 2) (mpz_operands (mpz_obj False []) (mpz_obj False []))) = Some 0"
  by (rule mpz_pow_inpl_zero_zero) (simp_all add: mpz_instance)

end
