(* ===== verification/Mpz_Conv.thy ===== *)
theory Mpz_Conv
  imports Mpz
begin

text \<open>
  Conversions of arbitrary precision integers (\<open>src/py/mpz.c\<close>): from and to machine integers,
  byte strings, text and single precision floats. Characters are bytes.
\<close>

section \<open>Machine integers\<close>

definition mpz_hash :: "mpz \<Rightarrow> mp_uint_t" where
  "mpz_hash z =
     (let val = fold (\<lambda>d val. push_bit DIG_SIZE val OR ucast d) (rev (z_digits z)) 0
      in if z_neg z then - val else val)"

text \<open>The loop of the two checked conversions. \<open>None\<close> is \<open>return false\<close>.\<close>

fun mpz_checked_loop :: "mp_uint_t \<Rightarrow> mp_uint_t \<Rightarrow> dig list \<Rightarrow> mp_uint_t option" where
  "mpz_checked_loop limit val [] = Some val"
| "mpz_checked_loop limit val (d # ds) =
     (if val > limit then None else mpz_checked_loop limit (push_bit DIG_SIZE val OR ucast d) ds)"

abbreviation WORD_MSBIT_HIGH :: mp_uint_t where "WORD_MSBIT_HIGH \<equiv> 0x80000000"

definition mpz_as_int_checked :: "mpz \<Rightarrow> mp_uint_t option" where
  "mpz_as_int_checked i =
     map_option (\<lambda>val. if z_neg i then - val else val)
       (mpz_checked_loop (drop_bit DIG_SIZE (NOT WORD_MSBIT_HIGH)) 0 (rev (z_digits i)))"

definition mpz_as_uint_checked :: "mpz \<Rightarrow> mp_uint_t option" where
  "mpz_as_uint_checked i =
     (if z_neg i then None
      else mpz_checked_loop (drop_bit (DIG_SIZE - 1) (NOT WORD_MSBIT_HIGH)) 0 (rev (z_digits i)))"

section \<open>Byte strings\<close>

text \<open>The inner loop fills one digit, the outer one the digits.\<close>

fun mpz_bytes_dig :: "dig \<Rightarrow> nat \<Rightarrow> u8 list \<Rightarrow> dig \<times> u8 list" where
  "mpz_bytes_dig d num_bits [] = (d, [])"
| "mpz_bytes_dig d num_bits (b # buf) =
     (if num_bits < DIG_SIZE
      then mpz_bytes_dig (d OR ucast (push_bit num_bits (ucast b :: dbl))) (num_bits + 8) buf
      else (d, b # buf))"

lemma mpz_bytes_dig_length: "length (snd (mpz_bytes_dig d num_bits buf)) \<le> length buf"
  by (induction d num_bits buf rule: mpz_bytes_dig.induct) auto

function mpz_bytes_digits :: "u8 list \<Rightarrow> dig list" where
  "mpz_bytes_digits buf =
     (if buf = [] then []
      else let (d, buf) = mpz_bytes_dig 0 0 buf in ucast (ucast d AND DIG_MASK :: dbl) # mpz_bytes_digits buf)"
  by pat_completeness auto
termination
proof (relation "measure length")
  fix buf :: "u8 list" and x d buf'
  assume "buf \<noteq> []" "x = mpz_bytes_dig 0 0 buf" "(d, buf') = x"
  then show "(buf', buf) \<in> measure length"
    using mpz_bytes_dig_length [of "ucast (push_bit 0 (ucast (hd buf) :: dbl))" 8 "tl buf"]
    by (cases buf) (auto, metis le_imp_less_Suc snd_conv)
qed simp

declare mpz_bytes_digits.simps [simp del]

definition mpz_set_from_bytes :: "junk \<Rightarrow> bool \<Rightarrow> u8 list \<Rightarrow> mpz \<Rightarrow> mpz option" where
  "mpz_set_from_bytes jk big_endian buf z = do {
     z \<leftarrow> mpz_need_dig jk ((length buf * 8 + DIG_SIZE - 1) div DIG_SIZE) z;
     let ds = mpz_bytes_digits (if big_endian then rev buf else buf);
     z \<leftarrow> mpz_put ds (mpn_remove_trailing_zeros ds) z;
     Some (z\<lparr>z_neg := False\<rparr>)
   }"

text \<open>
  The bytes that \<open>mpz_as_bytes\<close> stores, in the order of the stores. \<open>room\<close> is how many bytes
  of the buffer are left; a store without room is \<open>None\<close>.
\<close>

function mpz_as_bytes_loop :: "bool \<Rightarrow> nat \<Rightarrow> nat \<Rightarrow> dbl \<Rightarrow> dbl \<Rightarrow> dig list \<Rightarrow> u8 list option" where
  "mpz_as_bytes_loop neg room bits d carry zdig =
     (if bits \<ge> 8 then
        (let val = (ucast d :: dig);
             val = (if neg then ucast ((NOT (ucast val) AND 0xff) + carry) else val);
             carry = (if neg then drop_bit 8 (ucast val) else carry)
         in if room = 0 then None
            else if room = 1 then Some [ucast val]
            else map_option ((#) (ucast val)) (mpz_as_bytes_loop neg (room - 1) (bits - 8) (drop_bit 8 d) carry zdig))
      else case zdig of
             [] \<Rightarrow> Some []
           | z # zs \<Rightarrow> mpz_as_bytes_loop neg room (bits + DIG_SIZE) (push_bit DIG_SIZE d OR ucast z) carry zs)"
  by pat_completeness auto
termination
  by (relation "measure (\<lambda>(neg, room, bits, d, carry, zdig). 3 * length zdig + bits div 8)")
     (auto simp: div_eq_dividend_iff elim: order.strict_trans2 [rotated])

declare mpz_as_bytes_loop.simps [simp del]

definition mpz_as_bytes :: "mpz \<Rightarrow> bool \<Rightarrow> u8 list \<Rightarrow> u8 list option" where
  "mpz_as_bytes z big_endian buf =
     map_option (\<lambda>bs. if big_endian then take (length buf - length bs) buf @ rev bs
                      else bs @ drop (length bs) buf)
       (mpz_as_bytes_loop (z_neg z) (length buf) 0 0 1 (z_digits z))"

section \<open>Text\<close>

text \<open>The value of a character as a digit, up to \<open>z\<close>; \<open>None\<close> breaks the loop.\<close>

definition mpz_char_digit :: "u8 \<Rightarrow> mp_uint_t option" where
  "mpz_char_digit c =
     (let v = ucast c :: mp_uint_t
      in if 48 \<le> v \<and> v \<le> 57 then Some (v - 48)
         else if 65 \<le> v \<and> v \<le> 90 then Some (v - (65 - 10))
         else if 97 \<le> v \<and> v \<le> 122 then Some (v - (97 - 10))
         else None)"

fun mpz_str_digits :: "mp_uint_t \<Rightarrow> dig list \<Rightarrow> u8 list \<Rightarrow> dig list \<times> u8 list" where
  "mpz_str_digits base ds [] = (ds, [])"
| "mpz_str_digits base ds (c # cs) =
     (case mpz_char_digit c of
        None \<Rightarrow> (ds, c # cs)
      | Some v \<Rightarrow> if v \<ge> base then (ds, c # cs)
                  else mpz_str_digits base (mpn_mul_dig_add_dig ds (ucast base) (ucast v)) cs)"

text \<open>\<open>mpz_set_from_str\<close> also returns the number of characters processed.\<close>

definition mpz_set_from_str :: "junk \<Rightarrow> u8 list \<Rightarrow> bool \<Rightarrow> mp_uint_t \<Rightarrow> mpz \<Rightarrow> (mpz \<times> nat) option" where
  "mpz_set_from_str jk str neg base z =
     (if base > 36 then None
      else do {
        z \<leftarrow> mpz_need_dig jk (length str * 8 div DIG_SIZE + 1) z;
        let (ds, rest) = mpz_str_digits base [] str;
        z \<leftarrow> mpz_put ds (length ds) z;
        Some (z\<lparr>z_neg := neg\<rparr>, length str - length rest)
      })"

text \<open>One division of the digits by the base, from the most significant digit down.\<close>

fun mpz_str_div :: "mp_uint_t \<Rightarrow> dbl \<Rightarrow> dig list \<Rightarrow> dig list \<times> dbl" where
  "mpz_str_div base a [] = ([], a)"
| "mpz_str_div base a (d # ds) =
     (let a = push_bit DIG_SIZE a OR ucast d;
          (ds, r) = mpz_str_div base (a mod base) ds
      in (ucast (a div base) # ds, r))"

definition mpz_str_char :: "u8 \<Rightarrow> dbl \<Rightarrow> u8" where
  "mpz_str_char base_char a =
     (let a = a + 48 in ucast (if a > 57 then a + (ucast base_char - 57 - 1) else a))"

text \<open>
  The loop over the digits of the result: \<open>dig\<close> holds the remaining number, the most significant
  digit first, \<open>s\<close> the characters stored so far and \<open>n\<close> is \<open>s - last_comma\<close>. Not returning is
  \<open>None\<close>.
\<close>

partial_function (option) mpz_str_loop :: "mp_uint_t \<Rightarrow> u8 \<Rightarrow> u8 \<Rightarrow> dig list \<Rightarrow> u8 list \<Rightarrow> nat \<Rightarrow> u8 list option" where
  "mpz_str_loop base base_char comma dig s n =
     (let (dig, a) = mpz_str_div base 0 dig;
          s = s @ [mpz_str_char base_char a];
          done = (\<forall>d \<in> set dig. d = 0);
          (s, n) = (if comma \<noteq> 0 \<and> n + 1 = 3 then (s @ [comma], 0) else (s, n + 1))
      in if done then Some s else mpz_str_loop base base_char comma dig s n)"

definition mpz_as_str_inpl :: "mpz \<Rightarrow> mp_uint_t \<Rightarrow> u8 list \<Rightarrow> u8 \<Rightarrow> u8 \<Rightarrow> u8 list option" where
  "mpz_as_str_inpl i base prefix base_char comma =
     (if \<not> (2 \<le> base \<and> base \<le> 32) then None
      else if z_len i = 0 then Some (prefix @ [48])
      else map_option (\<lambda>s. rev (s @ rev prefix @ (if z_neg i then [45] else [])))
             (mpz_str_loop base base_char comma (rev (z_digits i)) [] 0))"

declare mpz_str_loop.simps [code]

section \<open>Floats\<close>

text \<open>
  \<open>mpz_set_from_float\<close> on the fields of a single precision float: sign, biased exponent and
  fraction (\<open>MP_FLOAT_EXP_BITS\<close> 8, \<open>MP_FLOAT_FRAC_BITS\<close> 23).
\<close>

fun mpz_float_digits :: "nat \<Rightarrow> mp_uint_t \<Rightarrow> dig list" where
  "mpz_float_digits 0 frc = []"
| "mpz_float_digits (Suc n) frc = ucast (frc AND DIG_MASK) # mpz_float_digits n (drop_bit DIG_SIZE frc)"

definition mpz_set_from_float :: "junk \<Rightarrow> bool \<Rightarrow> nat \<Rightarrow> mp_uint_t \<Rightarrow> mpz \<Rightarrow> mpz option" where
  "mpz_set_from_float jk sign exp frc z =
     (let z = z\<lparr>z_neg := sign\<rparr>
      in if exp = 0 then mpz_set_from_int jk 0 z
         else if exp = 255 then mpz_set_from_int jk 0 z
         else if exp < 127 then mpz_set_from_int jk 0 z
         else if exp = 127 then mpz_set_from_int jk 1 z
         else let adj_exp = exp - 127;
                  dig_cnt = (adj_exp + 1 + (DIG_SIZE - 1)) div DIG_SIZE;
                  rem = adj_exp mod DIG_SIZE;
                  frc = frc OR push_bit 23 1;
                  (shft, dig_ind, frc) =
                    (if adj_exp < 23 then (0, 0, drop_bit (23 - adj_exp) frc)
                     else ((rem + 2 ^ 32 - 23) mod DIG_SIZE, (adj_exp - 23) div DIG_SIZE, frc));
                  zeros = replicate dig_ind 0;
                  ds = (if shft \<noteq> 0
                        then ucast (push_bit shft frc AND DIG_MASK)
                               # mpz_float_digits (dig_cnt - dig_ind - 1) (drop_bit (DIG_SIZE - shft) frc)
                        else mpz_float_digits (dig_cnt - dig_ind) frc)
              in do {
                z \<leftarrow> mpz_need_dig jk dig_cnt z;
                mpz_put (zeros @ ds) dig_cnt z
              })"

section \<open>Correctness: machine integers\<close>

lemma word_shift_or_digit:
  fixes v :: mp_uint_t and d :: dig
  shows "push_bit DIG_SIZE v OR ucast d = of_nat (unat v * DIG_BASE + unat d)"
proof -
  have "push_bit DIG_SIZE v OR ucast d = push_bit DIG_SIZE v + ucast d"
    by (rule disjunctive_add [symmetric]) (auto simp: bit_simps dest: bit_imp_le_length)
  also have "\<dots> = of_nat (unat v * DIG_BASE + unat d)"
    by (simp add: push_bit_eq_mult)
  finally show ?thesis .
qed

lemma mpz_fold_digits:
  "fold (\<lambda>d val. push_bit DIG_SIZE val OR ucast d) (rev ds) (val :: mp_uint_t) = of_nat (unat val * DIG_BASE ^ length ds + mpn_val ds)"
proof (induction ds)
  case (Cons d ds)
  let ?v = "fold (\<lambda>d val. push_bit DIG_SIZE val OR ucast d) (rev ds) val"
  have "?v * of_nat DIG_BASE = of_nat ((unat val * DIG_BASE ^ length ds + mpn_val ds) * DIG_BASE)"
    unfolding Cons.IH by (simp only: of_nat_mult)
  then show ?case by (simp add: word_shift_or_digit algebra_simps)
qed simp

lemma mpz_hash_val: "mpz_hash z = word_of_int (mpz_val z)"
  using mpz_fold_digits [of "z_digits z" 0] by (simp add: mpz_hash_def mpz_val_def sval_def Let_def)

lemma mpz_checked_loop_val:
  assumes "limit < 65536" "unat val < (unat limit + 1) * DIG_BASE"
  shows "mpz_checked_loop limit val xs =
    (if unat val * DIG_BASE ^ length xs + mpn_val (rev xs) < (unat limit + 1) * DIG_BASE
     then Some (of_nat (unat val * DIG_BASE ^ length xs + mpn_val (rev xs))) else None)"
  using assms(2)
proof (induction xs arbitrary: val)
  case (Cons d xs)
  let ?L = "(unat limit + 1) * DIG_BASE"
  have lim: "unat limit < DIG_BASE" using assms(1) by (simp add: word_less_nat_alt)
  show ?case
  proof (cases "val > limit")
    case True
    then have "unat limit + 1 \<le> unat val" by (simp add: word_less_nat_alt)
    moreover have "DIG_BASE ^ 1 \<le> DIG_BASE ^ Suc (length xs)" by (intro power_increasing) simp_all
    ultimately have "?L \<le> unat val * DIG_BASE ^ Suc (length xs)" by (intro mult_mono) simp_all
    then show ?thesis using True by simp
  next
    case False
    then have le: "unat val \<le> unat limit" by (simp add: word_le_nat_alt not_less)
    let ?v = "push_bit DIG_SIZE val OR ucast d"
    have "unat val * DIG_BASE + unat d < (unat val + 1) * DIG_BASE" by (simp add: add.commute)
    also have "\<dots> \<le> ?L" using le by (intro mult_right_mono) simp_all
    finally have lt: "unat val * DIG_BASE + unat d < ?L" .
    also have "?L \<le> DIG_BASE * DIG_BASE" using lim by (intro mult_right_mono) simp_all
    finally have v: "unat ?v = unat val * DIG_BASE + unat d"
      unfolding word_shift_or_digit by (simp only: unsigned_of_nat) (simp add: take_bit_nat_eq_self)
    have "unat ?v * DIG_BASE ^ length xs + mpn_val (rev xs)
        = unat val * DIG_BASE ^ length (d # xs) + mpn_val (rev (d # xs))"
      unfolding v by (simp add: algebra_simps)
    then show ?thesis using Cons.IH [of ?v] False lt by (simp only: mpz_checked_loop.simps if_False v)
  qed
qed simp

lemma mpz_as_int_checked_val:
  "mpz_as_int_checked z =
     (if \<bar>mpz_val z\<bar> < 2 ^ 31 then Some (word_of_int (mpz_val z)) else None)"
proof -
  have l: "drop_bit DIG_SIZE (NOT WORD_MSBIT_HIGH) = 0x7FFF" by simp
  have "mpz_checked_loop 0x7FFF 0 (rev (z_digits z)) =
      (if mpn_val (z_digits z) < 2147483648 then Some (of_nat (mpn_val (z_digits z))) else None)"
    using mpz_checked_loop_val [of "0x7FFF" 0 "rev (z_digits z)"] by simp
  then show ?thesis unfolding mpz_as_int_checked_def l by (auto simp: mpz_val_def sval_def)
qed

lemma mpz_as_uint_checked_val:
  "mpz_as_uint_checked z =
     (if \<not> z_neg z \<and> mpz_val z < 2 ^ 32 then Some (word_of_int (mpz_val z)) else None)"
proof -
  have l: "drop_bit (DIG_SIZE - 1) (NOT WORD_MSBIT_HIGH) = 0xFFFF" by simp
  have "mpz_checked_loop 0xFFFF 0 (rev (z_digits z)) =
      (if mpn_val (z_digits z) < 4294967296 then Some (of_nat (mpn_val (z_digits z))) else None)"
    using mpz_checked_loop_val [of "0xFFFF" 0 "rev (z_digits z)"] by simp
  then show ?thesis unfolding mpz_as_uint_checked_def l by (auto simp: mpz_val_def sval_def)
qed

section \<open>Correctness: byte strings\<close>

text \<open>The number a little-endian byte string stands for.\<close>

fun bytes_val :: "u8 list \<Rightarrow> nat" where
  "bytes_val [] = 0"
| "bytes_val (b # bs) = unat b + 256 * bytes_val bs"

lemma bytes_val_less: "bytes_val bs < 256 ^ length bs"
proof (induction bs)
  case (Cons b bs)
  have "unat b + 256 * bytes_val bs < 256 * (bytes_val bs + 1)" using unat_u8_less [of b] by simp
  also have "\<dots> \<le> 256 * 256 ^ length bs" using Cons.IH by (intro mult_left_mono) simp_all
  finally show ?case by simp
qed simp

lemma bytes_val_append [simp]: "bytes_val (xs @ ys) = bytes_val xs + 256 ^ length xs * bytes_val ys"
  by (induction xs) (simp_all add: algebra_simps)

lemma bytes_val_replicate_0 [simp]: "bytes_val (replicate n 0) = 0"
  by (induction n) simp_all

lemma ucast_u8_32_16: "(ucast (ucast (b :: u8) :: dbl) :: dig) = ucast b"
  by (rule bit_word_eqI) (auto simp: bit_simps dest: bit_imp_le_length)

lemma dig_mask_id: "(ucast (ucast (d :: dig) AND DIG_MASK :: dbl) :: dig) = d"
  by (rule bit_word_eqI) (auto simp: and_mask_take_bit_16 bit_simps dest: bit_imp_le_length)

lemma mpz_bytes_digits_eq:
  "mpz_bytes_digits [] = []"
  "mpz_bytes_digits [b] = [ucast b]"
  "mpz_bytes_digits (b0 # b1 # bs) = (ucast b0 OR ucast (push_bit 8 (ucast b1 :: dbl))) # mpz_bytes_digits bs"
proof -
  show nil: "mpz_bytes_digits [] = []" by (simp add: mpz_bytes_digits.simps)
  show "mpz_bytes_digits [b] = [ucast b]"
    by (subst mpz_bytes_digits.simps) (simp add: dig_mask_id ucast_u8_32_16 nil)
  have "mpz_bytes_dig 0 0 (b0 # b1 # bs) = (ucast b0 OR ucast (push_bit 8 (ucast b1 :: dbl)), bs)"
    by (cases bs) (simp_all add: ucast_u8_32_16)
  then show "mpz_bytes_digits (b0 # b1 # bs) = (ucast b0 OR ucast (push_bit 8 (ucast b1 :: dbl))) # mpz_bytes_digits bs"
    by (subst mpz_bytes_digits.simps) (simp only: list.distinct if_False Let_def prod.case dig_mask_id)
qed

lemma unat_ucast_u8: "unat (ucast (b :: u8) :: dig) = unat b"
  by transfer (simp add: take_bit_eq_mod)

lemma unat_byte_pair:
  fixes b0 b1 :: u8
  shows "unat (ucast b0 OR ucast (push_bit 8 (ucast b1 :: dbl)) :: dig) = unat b0 + 256 * unat b1"
proof -
  let ?h = "ucast (push_bit 8 (ucast b1 :: dbl)) :: dig"
  have "unat (ucast (b1 :: u8) :: dbl) = unat b1" by transfer (simp add: take_bit_eq_mod)
  moreover have p: "(2 :: nat) ^ 8 = 256" by simp
  moreover have "unat b1 * 256 mod 4294967296 mod 65536 = unat b1 * 256"
  proof -
    have "unat b1 * 256 < 65536" "unat b1 * 256 < 4294967296" using unat_u8_less [of b1] by linarith+
    then show ?thesis by (simp only: mod_less)
  qed
  ultimately have h: "unat ?h = unat b1 * 256"
    by (simp only: unat_ucast_32_16 unat_push_bit_u32)
  have "?h OR ucast b0 = ?h + ucast b0"
    using unat_u8_less [of b0] by (intro or_eq_plus_disjoint [of _ 8]) (simp_all only: h unat_ucast_u8, simp_all)
  moreover have "unat (?h + ucast b0) = unat b1 * 256 + unat b0"
    using unat_word_ariths(1) [of ?h "ucast b0"] h unat_u8_less [of b0] unat_u8_less [of b1] by (simp add: unat_ucast_u8)
  ultimately show ?thesis by (simp add: or.commute)
qed

lemma mpz_bytes_digits_val:
  "mpn_val (mpz_bytes_digits bs) = bytes_val bs \<and> length (mpz_bytes_digits bs) = (length bs + 1) div 2"
  by (induction bs rule: induct_list012) (simp_all add: mpz_bytes_digits_eq unat_ucast_u8 unat_byte_pair)

lemma mpz_set_from_bytes_val:
  assumes "mpz_growable z"
  shows "\<exists>z'. mpz_set_from_bytes jk big_endian buf z = Some z' \<and> mpz_growable z' \<and> mpz_canonical z'
    \<and> mpz_val z' = int (bytes_val (if big_endian then rev buf else buf))"
proof -
  define bs where "bs = (if big_endian then rev buf else buf)"
  have len: "length bs = length buf" by (simp add: bs_def)
  obtain e where e: "mpz_need_dig jk ((length buf * 8 + DIG_SIZE - 1) div DIG_SIZE) z = Some (z\<lparr>z_dig := z_dig z @ e\<rparr>)"
    "(length buf * 8 + DIG_SIZE - 1) div DIG_SIZE \<le> length (z_dig z) + length e"
    using mpz_need_dig_Some [OF assms] by blast
  have "(length buf + 1) div 2 = (length buf * 8 + DIG_SIZE - 1) div DIG_SIZE" by simp
  then have "length (mpz_bytes_digits bs) \<le> length (z_dig z) + length e"
    using e(2) mpz_bytes_digits_val [of bs] len by simp
  then show ?thesis
    using e(1) assms mpz_bytes_digits_val [of bs] mpn_strip_zeros [OF refl, of "mpz_bytes_digits bs"]
    by (simp add: mpz_set_from_bytes_def bs_def [symmetric] mpz_put_Some mpz_growable_def mpz_canonical_def mpz_ok_def
        mpz_val_def sval_def Let_def)
qed

text \<open>The loop of \<open>mpz_as_bytes\<close>, byte by byte.\<close>

fun emit :: "bool \<Rightarrow> nat \<Rightarrow> dbl \<Rightarrow> u8 list \<Rightarrow> u8 list option" where
  "emit neg room c [] = Some []"
| "emit neg room c (b # bs) =
     (let v = (if neg then (NOT (ucast b) AND 0xff) + c else ucast b :: dbl);
          c = (if neg then drop_bit 8 v else c)
      in if room = 0 then None
         else if room = 1 then Some [ucast v]
         else map_option ((#) (ucast v)) (emit neg (room - 1) c bs))"

fun digits_bytes :: "dig list \<Rightarrow> u8 list" where
  "digits_bytes [] = []"
| "digits_bytes (d # ds) = ucast d # ucast (drop_bit 8 d) # digits_bytes ds"

lemma length_digits_bytes [simp]: "length (digits_bytes ds) = 2 * length ds"
  by (induction ds) simp_all

lemma digits_bytes_val [simp]: "bytes_val (digits_bytes ds) = mpn_val ds"
proof (induction ds)
  case (Cons d ds)
  have "unat (ucast d :: u8) = unat d mod 256" by (simp add: unsigned_ucast_eq take_bit_eq_mod)
  moreover have "unat (ucast (drop_bit 8 d) :: u8) = unat d div 256"
  proof -
    have "unat (ucast (drop_bit 8 d) :: u8) = (unat d div 256) mod 256"
      by (simp only: unsigned_ucast_eq unat_drop_bit_eq) (simp add: take_bit_eq_mod drop_bit_eq_div)
    moreover have "unat d div 256 < 256" using unat_u16_less [of d] by linarith
    ultimately show ?thesis by simp
  qed
  ultimately show ?case using Cons.IH by simp
qed simp

lemma neg_byte: "NOT (ucast (b :: u8) :: dbl) AND 0xff = ucast (NOT b)"
proof -
  have m: "(0xff :: dbl) = mask 8" by (simp add: mask_eq_exp_minus_1)
  show ?thesis unfolding m by (rule bit_word_eqI) (auto simp: bit_simps dest: bit_imp_le_length)
qed

lemma unat_not_byte: "unat (NOT (b :: u8)) = 255 - unat b"
proof -
  have "NOT b = - 1 - b" by (simp add: not_eq_complement)
  moreover have "unat (- 1 - b) = unat (- 1 :: u8) - unat b" by (rule unat_sub) simp
  moreover have "unat (- 1 :: u8) = 255" by (simp add: unsigned_minus_1_eq_mask mask_eq_exp_minus_1)
  ultimately show ?thesis by metis
qed

text \<open>One step of the emission: \<open>v\<close> is the byte with the carry, \<open>c'\<close> the next carry.\<close>

lemma emit_arith:
  assumes "v = 255 - b + c" "b < 256" "v mod 256 + 256 * c' = v"
  shows "- int (b + 256 * V) - 1 + int c = int (v mod 256) + 256 * (- int V - 1 + int c')"
proof -
  have "int v = 255 - int b + int c" using assms(1,2) by (simp add: of_nat_diff)
  moreover have "int (v mod 256) = int v - 256 * int c'" using arg_cong [OF assms(3), of int] by simp
  ultimately show ?thesis by simp
qed

lemma emit_step:
  fixes b :: u8 and c :: dbl
  assumes "unat c \<le> 1"
    and v: "v = (if neg then (NOT (ucast b) AND 0xff) + c else ucast b :: dbl)"
    and c': "c' = (if neg then drop_bit 8 v else c)"
  shows "unat v \<le> 256" "unat c' \<le> 1" "unat (ucast v :: u8) = unat v mod 256"
    "(if neg then - int (unat b + 256 * V) - 1 + int (unat c) else int (unat b + 256 * V))
      = int (unat v mod 256) + 256 * (if neg then - int V - 1 + int (unat c') else int V)"
proof -
  have ub: "unat (ucast x :: dbl) = unat x" for x :: u8 by transfer (simp add: take_bit_eq_mod)
  have n: "unat (NOT b) + unat c < 4294967296" using unat_u8_less [of "NOT b"] assms(1) by linarith
  have uv: "unat v = (if neg then 255 - unat b + unat c else unat b)"
    using n by (simp add: v neg_byte unat_add_u32 ub unat_not_byte)
  have d: "unat (drop_bit 8 v) = unat v div 256" by (simp only: unat_drop_bit_u32) simp
  have le: "unat v \<le> 256" using uv assms(1) unat_u8_less [of b] by (cases neg) (simp_all del: unat_u8_less)
  show "unat v \<le> 256" by (rule le)
  show "unat c' \<le> 1" using assms(1) div_le_mono [OF le, of 256] by (simp add: c' d)
  show "unat (ucast v :: u8) = unat v mod 256" by (simp add: unsigned_ucast_eq take_bit_eq_mod)
  show "(if neg then - int (unat b + 256 * V) - 1 + int (unat c) else int (unat b + 256 * V))
      = int (unat v mod 256) + 256 * (if neg then - int V - 1 + int (unat c') else int V)"
  proof (cases neg)
    case True
    have "unat v mod 256 + 256 * unat c' = unat v" using True by (simp add: c' d)
    then show ?thesis using emit_arith [of "unat v" "unat b" "unat c" "unat c'" V] True uv unat_u8_less [of b]
      by (simp only: if_True)
  next
    case False
    then show ?thesis using uv by simp
  qed
qed

lemma emit_val:
  assumes "0 < room" "unat c \<le> 1"
  shows "\<exists>out. emit neg room c bs = Some out \<and> length out = min room (length bs)
    \<and> int (bytes_val out) = (if neg then - int (bytes_val bs) - 1 + int (unat c) else int (bytes_val bs)) mod 256 ^ length out"
  using assms
proof (induction bs arbitrary: room c)
  case Nil
  then show ?case by simp
next
  case (Cons b bs)
  define v where "v = (if neg then (NOT (ucast b) AND 0xff) + c else ucast b :: dbl)"
  define c' where "c' = (if neg then drop_bit 8 v else c)"
  note st = emit_step [OF Cons.prems(2) v_def c'_def]
  let ?X = "if neg then - int (bytes_val bs) - 1 + int (unat c') else int (bytes_val bs)"
  have X: "(if neg then - int (bytes_val (b # bs)) - 1 + int (unat c) else int (bytes_val (b # bs)))
      = int (unat v mod 256) + 256 * ?X"
    using st(4) [of "bytes_val bs"] by (simp only: bytes_val.simps)
  have emit: "emit neg room c (b # bs) = (if room = 1 then Some [ucast v]
      else map_option ((#) (ucast v)) (emit neg (room - 1) c' bs))"
    using Cons.prems(1) by (simp add: v_def [symmetric] c'_def [symmetric] Let_def)
  show ?case
  proof (cases "room = 1")
    case True
    then show ?thesis unfolding emit X using st(3) by simp
  next
    case False
    obtain out where out: "emit neg (room - 1) c' bs = Some out" "length out = min (room - 1) (length bs)"
      "int (bytes_val out) = ?X mod 256 ^ length out"
      using Cons.IH [of "room - 1" c'] st(2) Cons.prems(1) False by auto
    have "(int (unat v mod 256) + 256 * ?X) mod (256 * 256 ^ length out) = int (unat v mod 256) + 256 * (?X mod 256 ^ length out)"
      by (simp add: zmod_zmult2_eq)
    then show ?thesis unfolding emit X using out st(3) False Cons.prems(1) by (auto simp: min_def)
  qed
qed

lemma low_byte_not: "NOT (ucast (ucast (d :: dbl) :: dig) :: dbl) AND 0xff = NOT (ucast (ucast d :: u8)) AND 0xff"
proof -
  have m: "(0xff :: dbl) = mask 8" by (simp add: mask_eq_exp_minus_1)
  show ?thesis unfolding m by (rule bit_word_eqI) (auto simp: bit_simps)
qed

lemma low_byte: "(ucast (ucast (d :: dbl) :: dig) :: u8) = ucast (ucast (ucast d :: u8) :: dbl)" "(ucast (ucast (d :: dbl) :: dig) :: u8) = ucast d"
  by (rule bit_word_eqI, auto simp: bit_simps)+

lemma ucast_dig_id:
  assumes "unat (v :: dbl) < 65536"
  shows "(ucast (ucast v :: dig) :: dbl) = v"
  using assms by (simp only: word_unat_eq_iff unat_ucast_16_32 unat_ucast_32_16 mod_less)

lemma mpz_as_bytes_loop_byte:
  assumes "8 \<le> bits" "unat c \<le> 1"
  shows "mpz_as_bytes_loop neg room bits d c ds =
    (let v = (if neg then (NOT (ucast (ucast d :: u8)) AND 0xff) + c else ucast (ucast d :: u8) :: dbl);
         c = (if neg then drop_bit 8 v else c)
     in if room = 0 then None
        else if room = 1 then Some [ucast v]
        else map_option ((#) (ucast v)) (mpz_as_bytes_loop neg (room - 1) (bits - 8) (drop_bit 8 d) c ds))"
proof (cases neg)
  case True
  define v where "v = (NOT (ucast (ucast d :: u8)) AND 0xff) + c"
  have "unat v \<le> 256" using emit_step(1) [OF assms(2), of v True "ucast d" "drop_bit 8 v"] by (simp add: v_def)
  then have "(ucast (ucast v :: dig) :: dbl) = v" by (intro ucast_dig_id) simp
  then show ?thesis using True assms(1)
    by (subst mpz_as_bytes_loop.simps) (simp add: Let_def low_byte_not v_def [symmetric] low_byte(2))
next
  case False
  then show ?thesis using assms(1)
    by (subst mpz_as_bytes_loop.simps) (simp add: Let_def low_byte(1) [symmetric])
qed

lemma mpz_as_bytes_loop_emit:
  assumes "unat c \<le> 1"
  shows "mpz_as_bytes_loop neg room 0 0 c ds = emit neg room c (digits_bytes ds)"
  using assms
proof (induction ds arbitrary: room c)
  case Nil
  then show ?case by (simp add: mpz_as_bytes_loop.simps)
next
  case (Cons z zs)
  have b: "(ucast (ucast z :: dbl) :: u8) = ucast z" "(ucast (drop_bit 8 (ucast z :: dbl)) :: u8) = ucast (drop_bit 8 z)"
    by (rule bit_word_eqI, auto simp: bit_simps dest: bit_imp_le_length)+
  have z: "drop_bit 8 (drop_bit 8 (ucast z :: dbl)) = 0"
    by (rule bit_word_eqI) (auto simp: bit_simps dest: bit_imp_le_length)
  define v c' where "v = (if neg then (NOT (ucast (ucast z :: u8)) AND 0xff) + c else ucast (ucast z :: u8) :: dbl)"
    and "c' = (if neg then drop_bit 8 v else c)"
  define w c'' where "w = (if neg then (NOT (ucast (ucast (drop_bit 8 z) :: u8)) AND 0xff) + c' else ucast (ucast (drop_bit 8 z) :: u8) :: dbl)"
    and "c'' = (if neg then drop_bit 8 w else c')"
  have le: "unat c' \<le> 1" using emit_step(2) [OF Cons.prems v_def c'_def] .
  have le': "unat c'' \<le> 1" using emit_step(2) [OF le w_def c''_def] .
  have hi: "mpz_as_bytes_loop neg r 8 (drop_bit 8 (ucast z)) c' zs = emit neg r c' (ucast (drop_bit 8 z) # digits_bytes zs)" for r
    using Cons.IH [OF le', of "r - 1"]
    by (simp only: mpz_as_bytes_loop_byte [OF order_refl le] b z diff_self_eq_0 emit.simps w_def [symmetric] c''_def [symmetric] Let_def)
  have "mpz_as_bytes_loop neg room 0 0 c (z # zs) = mpz_as_bytes_loop neg room 16 (ucast z) c zs"
    by (subst mpz_as_bytes_loop.simps) simp
  also have "\<dots> = (if room = 0 then None else if room = 1 then Some [ucast v]
      else map_option ((#) (ucast v)) (emit neg (room - 1) c' (ucast (drop_bit 8 z) # digits_bytes zs)))"
  proof -
    have n: "8 \<le> (16 :: nat)" "16 - 8 = (8 :: nat)" by simp_all
    show ?thesis
      by (simp only: mpz_as_bytes_loop_byte [OF n(1) Cons.prems] n(2) b hi v_def [symmetric] c'_def [symmetric] Let_def)
  qed
  also have "\<dots> = emit neg room c (digits_bytes (z # zs))"
    by (simp only: digits_bytes.simps emit.simps(2) [of neg room c "ucast z"] v_def [symmetric] c'_def [symmetric] Let_def)
  finally show ?case .
qed

text \<open>
  With room for at least one byte, the bytes stored are the least significant ones of the number in
  two's complement, as many as the buffer or the digits have.
\<close>

lemma mpz_as_bytes_val:
  assumes "buf \<noteq> []"
  shows "\<exists>out. mpz_as_bytes z False buf = Some (out @ drop (length out) buf) \<and> length out = min (length buf) (2 * length (z_digits z))
    \<and> mpz_as_bytes z True buf = Some (take (length buf - length out) buf @ rev out)
    \<and> int (bytes_val out) = mpz_val z mod 256 ^ length out"
proof -
  obtain out where "emit (z_neg z) (length buf) 1 (digits_bytes (z_digits z)) = Some out"
    "length out = min (length buf) (2 * length (z_digits z))"
    "int (bytes_val out) = mpz_val z mod 256 ^ length out"
    using emit_val [of "length buf" 1 "z_neg z" "digits_bytes (z_digits z)"] assms
    by (auto simp: mpz_val_def sval_def split: if_splits)
  then show ?thesis
    using mpz_as_bytes_loop_emit [of 1 "z_neg z" "length buf" "z_digits z"]
    by (intro exI [of _ out]) (simp add: mpz_as_bytes_def)
qed

section \<open>Correctness: reading text\<close>

text \<open>
  The number a text stands for in a base: Horner's rule over its longest prefix of digits. The
  second component is what is left.
\<close>

fun parse_nat :: "nat \<Rightarrow> nat \<Rightarrow> u8 list \<Rightarrow> nat \<times> u8 list" where
  "parse_nat base acc [] = (acc, [])"
| "parse_nat base acc (c # cs) =
     (case mpz_char_digit c of
        None \<Rightarrow> (acc, c # cs)
      | Some v \<Rightarrow> if base \<le> unat v then (acc, c # cs) else parse_nat base (acc * base + unat v) cs)"

lemma parse_nat_bound:
  assumes "parse_nat base acc cs = (n, rest)"
  shows "\<exists>k. k + length rest = length cs \<and> n < (acc + 1) * base ^ k"
  using assms
proof (induction base acc cs rule: parse_nat.induct)
  case (2 base acc c cs)
  show ?case
  proof (cases "\<exists>v. mpz_char_digit c = Some v \<and> unat v < base")
    case True
    then obtain v where v: "mpz_char_digit c = Some v" "unat v < base" by blast
    then obtain k where k: "k + length rest = length cs" "n < (acc * base + unat v + 1) * base ^ k"
      using "2.IH" [OF v(1)] "2.prems" by auto
    have "(acc * base + unat v + 1) * base ^ k \<le> ((acc + 1) * base) * base ^ k"
      using v(2) by (intro mult_right_mono) simp_all
    moreover have "((acc + 1) * base) * base ^ k = (acc + 1) * base ^ Suc k" by (simp only: power_Suc mult.assoc)
    ultimately have "n < (acc + 1) * base ^ Suc k" using k(2) by linarith
    then show ?thesis using k(1) by (intro exI [of _ "Suc k"]) simp
  next
    case False
    then have "n = acc" "rest = c # cs" using "2.prems" by (auto split: option.splits if_splits)
    then show ?thesis by (intro exI [of _ 0]) simp
  qed
qed simp

lemma mpz_str_digits_val:
  assumes "base \<le> 36" "normalised ds" "mpz_str_digits base ds cs = (ds', rest)"
  shows "parse_nat (unat base) (mpn_val ds) cs = (mpn_val ds', rest) \<and> normalised ds'"
  using assms(2,3)
proof (induction cs arbitrary: ds)
  case (Cons c cs)
  have b36: "unat base \<le> 36" using assms(1) by (simp add: word_le_nat_alt)
  show ?case
  proof (cases "mpz_char_digit c")
    case (Some v)
    show ?thesis
    proof (cases "base \<le> v")
      case True
      then show ?thesis using Some Cons.prems by (auto simp: word_le_nat_alt)
    next
      case False
      then have lt: "unat v < unat base" by (simp add: word_le_nat_alt not_le)
      have u: "unat (ucast base :: dig) = unat base" "unat (ucast v :: dig) = unat v"
        using b36 lt by (simp_all add: unat_ucast_32_16)
      then have "(ucast base :: dig) \<noteq> 0" using lt by (metis not_less_zero unat_0)
      then have "normalised (mpn_mul_dig_add_dig ds (ucast base) (ucast v))"
        by (intro mpn_mul_dig_add_dig_normalised Cons.prems(1))
      from Cons.IH [OF this] show ?thesis using Some False lt Cons.prems(2)
        by (simp add: mpn_mul_dig_add_dig_val u)
    qed
  qed (use Cons.prems in auto)
qed simp

lemma mpz_set_from_str_val:
  assumes "mpz_growable z" "base \<le> 36" "parse_nat (unat base) 0 str = (n, rest)"
  shows "\<exists>z'. mpz_set_from_str jk str neg base z = Some (z', length str - length rest)
    \<and> mpz_growable z' \<and> mpz_val z' = sval neg n"
proof -
  obtain ds r where ds: "mpz_str_digits base [] str = (ds, r)" by fastforce
  have v: "mpn_val ds = n" "r = rest" "normalised ds"
    using mpz_str_digits_val [OF assms(2) _ ds] assms(3) by auto
  obtain k where k: "k + length rest = length str" "n < unat base ^ k"
    using parse_nat_bound [OF assms(3)] by auto
  let ?need = "length str * 8 div DIG_SIZE + 1"
  have "unat base ^ k \<le> 64 ^ k" using assms(2) by (intro power_mono) (simp_all add: word_le_nat_alt)
  also have "\<dots> \<le> 64 ^ length str" using k(1) by (intro power_increasing) simp_all
  also have "\<dots> = 2 ^ (6 * length str)" by (simp add: power_mult)
  also have "\<dots> \<le> 2 ^ (16 * ?need)" by (intro power_increasing) simp_all
  also have "\<dots> = DIG_BASE ^ ?need" by (simp only: power_mult) simp
  finally have "length ds \<le> ?need" using k(2) v by (intro mpn_val_length_less) linarith+
  moreover obtain e where "mpz_need_dig jk ?need z = Some (z\<lparr>z_dig := z_dig z @ e\<rparr>)" "?need \<le> length (z_dig z) + length e"
    using mpz_need_dig_Some [OF assms(1)] by blast
  ultimately show ?thesis using assms(1,2) ds v
    by (simp add: mpz_set_from_str_def not_less mpz_put_Some mpz_growable_def mpz_ok_def mpz_val_def)
qed

section \<open>Correctness: writing text\<close>

lemma mpz_str_div_val:
  assumes "0 < unat base" "unat base \<le> 32" "unat a < unat base" "mpz_str_div base a xs = (qs, r)"
  shows "length qs = length xs \<and> mpn_val (rev qs) = (unat a * DIG_BASE ^ length xs + mpn_val (rev xs)) div unat base
    \<and> unat r = (unat a * DIG_BASE ^ length xs + mpn_val (rev xs)) mod unat base"
  using assms(3,4)
proof (induction xs arbitrary: a qs)
  case Nil
  then show ?case by simp
next
  case (Cons d xs)
  let ?a = "push_bit DIG_SIZE a OR ucast d" and ?P = "DIG_BASE ^ length xs"
  obtain qs' where q: "mpz_str_div base (?a mod base) xs = (qs', r)" "qs = ucast (?a div base) # qs'"
    using Cons.prems(2) by (auto simp: Let_def split: prod.splits)
  have lt: "unat a * DIG_BASE + unat d < unat base * DIG_BASE"
  proof -
    have "unat a * DIG_BASE + unat d < (unat a + 1) * DIG_BASE" by (simp add: add.commute)
    also have "\<dots> \<le> unat base * DIG_BASE" using Cons.prems(1) by (intro mult_right_mono) simp_all
    finally show ?thesis .
  qed
  then have ua: "unat ?a = unat a * DIG_BASE + unat d"
    using assms(2) unfolding word_shift_or_digit by (simp only: unsigned_of_nat) (simp add: take_bit_nat_eq_self)
  define A where "A = unat a * DIG_BASE + unat d"
  have "A div unat base < DIG_BASE" using lt by (simp add: A_def less_mult_imp_div_less mult.commute)
  then have uq: "unat (ucast (?a div base) :: dig) = A div unat base"
    by (simp add: unat_ucast_32_16 unat_div ua A_def)
  have um: "unat (?a mod base) = A mod unat base" by (simp only: unat_mod ua A_def)
  have IH: "length qs' = length xs" "mpn_val (rev qs') = ((A mod unat base) * ?P + mpn_val (rev xs)) div unat base"
    "unat r = ((A mod unat base) * ?P + mpn_val (rev xs)) mod unat base"
    using Cons.IH [of "?a mod base" qs'] q(1) assms(1) unfolding um by (simp_all add: um)
  have tot: "unat a * DIG_BASE ^ length (d # xs) + mpn_val (rev (d # xs)) = A * ?P + mpn_val (rev xs)"
    by (simp add: A_def algebra_simps)
  have "A * ?P = (A mod unat base) * ?P + (A div unat base * ?P) * unat base"
  proof -
    have "(A div unat base * unat base + A mod unat base) * ?P = (A mod unat base) * ?P + (A div unat base * ?P) * unat base"
      by (simp only: distrib_right ac_simps)
    then show ?thesis by (simp only: div_mult_mod_eq)
  qed
  then have AP: "A * ?P + mpn_val (rev xs) = ((A mod unat base) * ?P + mpn_val (rev xs)) + (A div unat base * ?P) * unat base" by simp
  show ?case unfolding tot AP using IH q(2) uq assms(1) by simp
qed

text \<open>The characters of a number, the least significant digit first.\<close>

function str_rev :: "nat \<Rightarrow> u8 \<Rightarrow> nat \<Rightarrow> u8 list" where
  "str_rev base base_char n =
     (if base < 2 then [] else
      mpz_str_char base_char (of_nat (n mod base)) # (if n div base = 0 then [] else str_rev base base_char (n div base)))"
  by pat_completeness auto
termination
proof (relation "measure (\<lambda>(base, base_char, n). n)")
  fix base n :: nat and base_char :: u8
  assume "\<not> base < 2" "n div base \<noteq> 0"
  moreover from this have "0 < n" by (cases n) simp_all
  ultimately show "((base, base_char, n div base), base, base_char, n) \<in> measure (\<lambda>(base, base_char, n). n)"
    by simp
qed simp

declare str_rev.simps [simp del]

lemma mpz_str_loop_result:
  assumes "2 \<le> base" "base \<le> 32"
  shows "mpz_str_loop base base_char 0 dig s n = Some (s @ str_rev (unat base) base_char (mpn_val (rev dig)))"
proof (induction "mpn_val (rev dig)" arbitrary: dig s n rule: less_induct)
  case less
  have b: "2 \<le> unat base" "unat base \<le> 32" using assms by (simp_all add: word_le_nat_alt)
  obtain qs a where q: "mpz_str_div base 0 dig = (qs, a)" by fastforce
  have v: "mpn_val (rev qs) = mpn_val (rev dig) div unat base" "unat a = mpn_val (rev dig) mod unat base"
    using mpz_str_div_val [of base 0 dig qs a] q b by auto
  then have a: "of_nat (mpn_val (rev dig) mod unat base) = a" using word_of_nat_eq_iff by (simp flip: v(2))
  have dn: "(\<forall>d \<in> set qs. d = 0) \<longleftrightarrow> mpn_val (rev dig) div unat base = 0"
    using v(1) mpn_val_0_iff [of "rev qs"] by simp
  let ?c = "mpz_str_char base_char a" and ?N = "mpn_val (rev dig)"
  have step: "mpz_str_loop base base_char 0 dig s n =
      (if ?N div unat base = 0 then Some (s @ [?c]) else mpz_str_loop base base_char 0 qs (s @ [?c]) (n + 1))"
    by (subst mpz_str_loop.simps) (simp add: q dn)
  have chars: "str_rev (unat base) base_char ?N = ?c # (if ?N div unat base = 0 then [] else str_rev (unat base) base_char (?N div unat base))"
    using b by (subst str_rev.simps) (simp add: a)
  show ?case
  proof (cases "?N div unat base = 0")
    case True
    then show ?thesis by (simp add: step chars)
  next
    case False
    then have "?N div unat base < ?N" using b(1) by (intro div_less_dividend) (auto intro: Nat.gr0I)
    with less [of qs "s @ [?c]" "n + 1"] show ?thesis using False by (simp add: step chars v(1))
  qed
qed

lemma mpz_as_str_inpl_val:
  assumes "2 \<le> base" "base \<le> 32" "mpz_ok z"
  shows "mpz_as_str_inpl z base [] base_char 0 =
    Some ((if mpz_val z < 0 then [45] else []) @ rev (str_rev (unat base) base_char (nat \<bar>mpz_val z\<bar>)))"
proof (cases "z_len z = 0")
  case True
  have "2 \<le> unat base" using assms(1) by (simp add: word_le_nat_alt)
  then have "str_rev (unat base) base_char 0 = [48]" by (simp add: str_rev.simps mpz_str_char_def)
  then show ?thesis using True assms(1,2) by (simp add: mpz_as_str_inpl_def mpz_val_def sval_def)
next
  case False
  then have "0 < mpn_val (z_digits z)" using assms(3) by (intro mpn_val_pos) (auto simp: mpz_ok_def)
  then have "mpz_val z < 0 \<longleftrightarrow> z_neg z" "nat \<bar>mpz_val z\<bar> = mpn_val (z_digits z)" by (simp_all add: mpz_val_def sval_def)
  then show ?thesis using False assms(1,2) mpz_str_loop_result [of base base_char "rev (z_digits z)" "[]" 0]
    by (simp add: mpz_as_str_inpl_def)
qed

lemma parse_nat_append: "parse_nat base acc xs = (n, []) \<Longrightarrow> parse_nat base acc (xs @ ys) = parse_nat base n ys"
  by (induction base acc xs rule: parse_nat.induct) (auto split: option.splits if_splits)

lemma char_digit_lower: "\<forall>d \<in> set [0..<32]. mpz_char_digit (mpz_str_char 97 (of_nat d)) = Some (of_nat d)"
  by code_simp

lemma char_digit_upper: "\<forall>d \<in> set [0..<32]. mpz_char_digit (mpz_str_char 65 (of_nat d)) = Some (of_nat d)"
  by code_simp

lemma parse_str_rev:
  assumes "2 \<le> base" "base \<le> 32" "base_char = 97 \<or> base_char = 65"
  shows "parse_nat base 0 (rev (str_rev base base_char n)) = (n, [])"
proof (induction n rule: less_induct)
  case (less n)
  let ?d = "n mod base"
  have d: "?d < base" using assms(1) by simp
  then have d: "?d < 32" "?d < base" using assms(2) by linarith+
  then have "mpz_char_digit (mpz_str_char base_char (of_nat ?d)) = Some (of_nat ?d)"
    using assms(3) bspec [OF char_digit_lower, of ?d] bspec [OF char_digit_upper, of ?d] by auto
  moreover have "unat (of_nat ?d :: mp_uint_t) = ?d" using d(1) by (simp only: unsigned_of_nat) (simp add: take_bit_nat_eq_self)
  ultimately have last: "parse_nat base acc [mpz_str_char base_char (of_nat ?d)] = (acc * base + ?d, [])" for acc
    using d(2) by simp
  show ?case
  proof (cases "n div base = 0")
    case True
    then have "n < base" using assms(1) by (simp add: div_eq_0_iff)
    then show ?thesis using True last [of 0] assms(1) by (subst str_rev.simps) simp
  next
    case False
    then have "n div base < n" using assms(1) by (intro div_less_dividend) (auto intro: Nat.gr0I)
    from parse_nat_append [OF less [OF this]] show ?thesis using False last [of "n div base"] assms(1)
      by (subst str_rev.simps) simp
  qed
qed

section \<open>Correctness: floats\<close>

lemma mpz_float_digits_val:
  "length (mpz_float_digits n frc) = n \<and> mpn_val (mpz_float_digits n frc) = unat frc mod DIG_BASE ^ n"
proof (induction n frc rule: mpz_float_digits.induct)
  case (2 n frc)
  have lo: "unat (ucast (frc AND DIG_MASK) :: dig) = unat frc mod DIG_BASE"
    by (simp only: unat_ucast_32_16 unat_and_mask_16 mod_mod_trivial)
  have hi: "unat (drop_bit DIG_SIZE frc) = unat frc div DIG_BASE" by (simp only: unat_drop_bit_u32) simp
  have "unat frc mod DIG_BASE ^ Suc n = unat frc mod DIG_BASE + DIG_BASE * (unat frc div DIG_BASE mod DIG_BASE ^ n)"
    by (simp add: mod_mult2_eq)
  then show ?case using 2 lo hi by simp
qed simp

lemma float_mantissa: "unat frc < 2 ^ 23 \<Longrightarrow> unat (frc OR push_bit 23 1 :: mp_uint_t) = unat frc + 2 ^ 23"
  using or_eq_plus_disjoint [of "push_bit 23 1" 23 frc] unat_add_u32 [of "push_bit 23 1" frc]
  by (simp add: or.commute [of frc])

lemma float_shifted_digits:
  fixes frc :: mp_uint_t
  assumes "0 < s" "s < 16" "unat frc < 2 ^ 24" "unat frc * 2 ^ s < DIG_BASE ^ Suc n"
  shows "mpn_val (ucast (push_bit s frc AND DIG_MASK) # mpz_float_digits n (drop_bit (DIG_SIZE - s) frc))
    = unat frc * 2 ^ s"
proof -
  let ?m = "unat frc"
  have "(4294967296 :: nat) = DIG_BASE * DIG_BASE" by simp
  then have lo: "unat (ucast (push_bit s frc AND DIG_MASK) :: dig) = ?m * 2 ^ s mod DIG_BASE"
    by (simp only: unat_ucast_32_16 unat_and_mask_16 mod_mod_trivial unat_push_bit_u32 mod_mult2_eq mod_mult_self2 mod_mult_self4)
  have base: "DIG_BASE = 2 ^ (16 - s) * 2 ^ s" using assms(2) by (simp flip: power_add)
  have hi: "unat (drop_bit (DIG_SIZE - s) frc) = ?m * 2 ^ s div DIG_BASE"
    unfolding unat_drop_bit_u32 base by (subst div_mult_mult2) simp_all
  have "?m * 2 ^ s div DIG_BASE < DIG_BASE ^ n" using assms(4) by (intro less_mult_imp_div_less) (simp add: mult.commute)
  then have "mpn_val (mpz_float_digits n (drop_bit (DIG_SIZE - s) frc)) = ?m * 2 ^ s div DIG_BASE"
    using mpz_float_digits_val [of n "drop_bit (DIG_SIZE - s) frc"] by (simp only: hi mod_less)
  then show ?thesis using lo by (simp only: mpn_val.simps) (simp only: mod_mult_div_eq)
qed

text \<open>The integer part of a finite single-precision value of magnitude at least two.\<close>

definition float_trunc :: "nat \<Rightarrow> nat \<Rightarrow> nat" where
  "float_trunc exp frc =
     (let m = frc + 2 ^ 23 in if exp < 150 then m div 2 ^ (150 - exp) else m * 2 ^ (exp - 150))"

lemma float_trunc_less: "f < 2 ^ 23 \<Longrightarrow> 127 < exp \<Longrightarrow> float_trunc exp f < 2 ^ (exp - 126)"
proof -
  assume f: "f < 2 ^ 23" and e: "127 < exp"
  show ?thesis
  proof (cases "exp < 150")
    case True
    then have "(2 :: nat) ^ (exp - 126) * 2 ^ (150 - exp) = 2 ^ 24" using e by (simp flip: power_add)
    then have "f + 2 ^ 23 < 2 ^ (exp - 126) * 2 ^ (150 - exp)" using f by simp
    then show ?thesis using True by (simp add: float_trunc_def Let_def less_mult_imp_div_less del: One_nat_def)
  next
    case False
    then have "(2 :: nat) ^ (exp - 126) = 2 ^ 24 * 2 ^ (exp - 150)" by (simp only: power_add [symmetric]) simp
    then show ?thesis using False f by (simp add: float_trunc_def Let_def)
  qed
qed

lemma float_trunc_ge: "127 < exp \<Longrightarrow> 2 ^ (exp - 127) \<le> float_trunc exp f"
proof -
  assume e: "127 < exp"
  show ?thesis
  proof (cases "exp < 150")
    case True
    then have "(2 :: nat) ^ (exp - 127) * 2 ^ (150 - exp) = 2 ^ 23" using e by (simp flip: power_add)
    then have "(2 :: nat) ^ (exp - 127) * 2 ^ (150 - exp) \<le> f + 2 ^ 23" by simp
    then show ?thesis using True by (simp add: float_trunc_def Let_def less_eq_div_iff_mult_less_eq del: One_nat_def)
  next
    case False
    then have "(2 :: nat) ^ (exp - 127) = 2 ^ 23 * 2 ^ (exp - 150)" by (simp only: power_add [symmetric]) simp
    then show ?thesis using False by (simp add: float_trunc_def Let_def)
  qed
qed

lemma power_digits_le: "a \<le> 16 * n \<Longrightarrow> (2 :: nat) ^ a \<le> DIG_BASE ^ n"
  using power_increasing [of a "16 * n" "2 :: nat"] by (simp add: power_mult)

lemma mpz_set_from_float_val:
  assumes "mpz_growable z" "127 < exp" "exp < 255" "unat frc < 2 ^ 23"
  shows "\<exists>z'. mpz_set_from_float jk sign exp frc z = Some z' \<and> mpz_ok z'
    \<and> mpz_val z' = sval sign (float_trunc exp (unat frc))"
proof -
  define e where "e = exp - 127"
  define m where "m = (frc OR push_bit 23 1 :: mp_uint_t)"
  define cnt where "cnt = (e + 1 + 15) div 16"
  define zs where "zs = (if e < 23 then 0 else (e - 23) div 16)"
  define s where "s = (if e < 23 then 0 else (e - 23) mod 16)"
  define frc' where "frc' = (if e < 23 then drop_bit (23 - e) m else m)"
  define ds where "ds = (if s \<noteq> 0 then ucast (push_bit s frc' AND DIG_MASK) # mpz_float_digits (cnt - zs - 1) (drop_bit (DIG_SIZE - s) frc')
    else mpz_float_digits (cnt - zs) frc')"
  have m: "unat m = unat frc + 2 ^ 23" unfolding m_def by (rule float_mantissa [OF assms(4)])
  have cnt: "e + 1 \<le> 16 * cnt" "16 * cnt \<le> e + 16" unfolding cnt_def by presburger+
  have len: "length ds = cnt - zs" "zs < cnt"
    using mpz_float_digits_val cnt by (auto simp: ds_def zs_def)
  have val: "DIG_BASE ^ zs * mpn_val ds = float_trunc exp (unat frc)"
  proof (cases "e < 23")
    case True
    then have trunc: "float_trunc exp (unat frc) = unat frc'"
      by (simp only: float_trunc_def Let_def frc'_def unat_drop_bit_u32 m if_True) (use assms(2) in \<open>simp add: e_def\<close>)
    moreover have "unat frc' < DIG_BASE ^ cnt"
    proof -
      have "exp - 126 = e + 1" using assms(2) by (simp add: e_def)
      then show ?thesis using float_trunc_less [OF assms(4,2)] power_digits_le [OF cnt(1)] trunc by simp
    qed
    ultimately show ?thesis using True mpz_float_digits_val [of cnt frc'] by (simp add: ds_def zs_def s_def)
  next
    case False
    have e: "e - 23 = 16 * zs + s" "s < 16" using False by (simp_all add: zs_def s_def)
    have m24: "unat m < 2 ^ 24" using m assms(4) by simp
    have "unat m * 2 ^ s < 2 ^ (24 + s)" using m24 by (simp add: power_add)
    also have "\<dots> \<le> DIG_BASE ^ (cnt - zs)" using e cnt(1) False by (intro power_digits_le) linarith
    finally have small: "unat m * 2 ^ s < DIG_BASE ^ (cnt - zs)" .
    have "mpn_val ds = unat m * 2 ^ s"
      using False small len(2) float_shifted_digits [of s m "cnt - zs - 1"] mpz_float_digits_val [of "cnt - zs" m] e(2) m24
      by (auto simp add: ds_def frc'_def Suc_diff_Suc simp del: mpn_val.simps)
    moreover have "(2 :: nat) ^ (exp - 150) = DIG_BASE ^ zs * 2 ^ s"
      using False e(1) by (simp add: e_def power_add power_mult)
    moreover have "\<not> exp < 150" using False by (simp add: e_def)
    ultimately show ?thesis by (simp add: float_trunc_def Let_def m)
  qed
  have "DIG_BASE ^ (cnt - 1) \<le> float_trunc exp (unat frc)"
  proof -
    have "DIG_BASE ^ (cnt - 1) = (2 :: nat) ^ (16 * (cnt - 1))" by (simp add: power_mult)
    also have "\<dots> \<le> 2 ^ (exp - 127)" using cnt(2) by (intro power_increasing) (simp_all add: e_def)
    finally show ?thesis using float_trunc_ge [OF assms(2)] le_trans by blast
  qed
  then have norm: "normalised (replicate zs 0 @ ds)" using val len by (simp add: normalised_iff_val)
  obtain x where x: "mpz_need_dig jk cnt (z\<lparr>z_neg := sign\<rparr>) = Some (z\<lparr>z_neg := sign\<rparr>\<lparr>z_dig := z_dig z @ x\<rparr>)"
      "cnt \<le> length (z_dig z) + length x"
    using mpz_need_dig_Some [of "z\<lparr>z_neg := sign\<rparr>" jk cnt] assms(1) by (auto simp: mpz_growable_def mpz_ok_def)
  have rem: "(e mod 16 + 2 ^ 32 - 23) mod 16 = (e - 23) mod 16" if "\<not> e < 23"
  proof -
    have "(e mod 16 + 4294967273) mod 16 = (e + 4294967273) mod 16" by (rule mod_add_left_eq)
    also have "e + 4294967273 = (e - 23) + 16 * 268435456" using that by simp
    finally show ?thesis by (simp only: mod_mult_self2) (simp add: add.commute)
  qed
  have "mpz_set_from_float jk sign exp frc z = mpz_put (replicate zs 0 @ ds) cnt (z\<lparr>z_neg := sign, z_dig := z_dig z @ x\<rparr>)"
    using assms(2,3) x(1) rem
    by (simp add: mpz_set_from_float_def Let_def ds_def zs_def s_def frc'_def m_def cnt_def flip: e_def)
  then show ?thesis using len x(2) norm val
    by (simp add: mpz_put_Some mpz_ok_def mpz_val_def)
qed

section \<open>The contracts of the conversions\<close>

text \<open>C29: printing and parsing: the text of a number in a base from 2 to 32, in lower or upper case
  digits, reads back as the same number, the sign apart, which the caller of the parser consumes;
  all characters are consumed.\<close>

theorem mpz_str_round_trip:
  assumes "2 \<le> base" "base \<le> 32" "mpz_ok z" "base_char = 97 \<or> base_char = 65" "mpz_growable w"
  shows "\<exists>digits w'. mpz_as_str_inpl z base [] base_char 0 = Some ((if mpz_val z < 0 then [45] else []) @ digits)
    \<and> mpz_set_from_str jk digits (mpz_val z < 0) base w = Some (w', length digits)
    \<and> mpz_growable w' \<and> mpz_val w' = mpz_val z"
proof -
  define digits where "digits = rev (str_rev (unat base) base_char (nat \<bar>mpz_val z\<bar>))"
  have base: "2 \<le> unat base" "unat base \<le> 32" "base \<le> 36"
    using assms(1,2) by (simp_all add: word_le_nat_alt)
  have "parse_nat (unat base) 0 digits = (nat \<bar>mpz_val z\<bar>, [])"
    unfolding digits_def by (rule parse_str_rev [OF base(1,2) assms(4)])
  from mpz_set_from_str_val [OF assms(5) base(3) this, of jk "mpz_val z < 0"]
  obtain w' where "mpz_set_from_str jk digits (mpz_val z < 0) base w = Some (w', length digits)"
    "mpz_growable w'" "mpz_val w' = sval (mpz_val z < 0) (nat \<bar>mpz_val z\<bar>)" by auto
  then show ?thesis using mpz_as_str_inpl_val [OF assms(1-3), of base_char]
    by (intro exI [of _ digits] exI [of _ w']) (auto simp: digits_def sval_def)
qed

theorem mpz_str_round_trip_witness:
  "\<exists>digits w'. mpz_as_str_inpl (mpz_obj True [0xCDEF, 0xAB]) 16 [] 97 0 = Some (45 # digits)
    \<and> mpz_set_from_str (\<lambda>_. 7) digits True 16 mpz_init_zero = Some (w', length digits)
    \<and> mpz_growable w' \<and> mpz_val w' = - 0xABCDEF"
  using mpz_str_round_trip [of 16 "mpz_obj True [0xCDEF, 0xAB]" 97 mpz_init_zero "\<lambda>_. 7"]
  by (simp add: mpz_instance)

text \<open>A machine integer goes into an object and comes back unchanged, whatever the object held
  before, except that the least integer, whose magnitude needs 32 bits, is reported as an overflow.\<close>

theorem mpz_int_round_trip:
  assumes "mpz_growable z"
  shows "\<exists>z'. mpz_set_from_int jk val z = Some z' \<and> mpz_growable z' \<and> mpz_val z' = sint val
    \<and> mpz_as_int_checked z' = (if val = 0x80000000 then None else Some val)"
proof -
  obtain z' where z': "mpz_set_from_int jk val z = Some z'" "mpz_growable z'" "mpz_val z' = sint val"
    using mpz_set_from_int_val [OF assms] by blast
  have "- (2 ^ 31) \<le> sint val" "sint val < 2 ^ 31" using sint_ge [of val] sint_less [of val] by simp_all
  then have "\<bar>sint val\<bar> < 2 ^ 31 \<longleftrightarrow> sint val \<noteq> - (2 ^ 31)" by auto
  also have "\<dots> \<longleftrightarrow> sint val \<noteq> sint (0x80000000 :: u32)" by simp
  also have "\<dots> \<longleftrightarrow> val \<noteq> 0x80000000" by (metis word_of_int_sint_u32)
  finally show ?thesis using z' by (simp add: mpz_as_int_checked_val word_of_int_sint_u32)
qed

theorem mpz_int_round_trip_witness:
  "\<exists>z'. mpz_set_from_int (\<lambda>_. 7) (- 70000) (mpz_obj False [1, 2, 3]) = Some z' \<and> mpz_growable z' \<and> mpz_val z' = - 70000
    \<and> mpz_as_int_checked z' = Some (- 70000)"
  using mpz_int_round_trip [of "mpz_obj False [1, 2, 3]" "\<lambda>_. 7" "- 70000"] by (simp add: mpz_instance)

text \<open>\<open>mpz_hash\<close> depends on the value only, so that equal integers have equal hashes, also an integer
  held in an object and the same integer as a machine integer.\<close>

theorem mpz_hash_by_value:
  "mpz_hash z = word_of_int (mpz_val z)"
  by (rule mpz_hash_val)

text \<open>An unsigned number written to a byte buffer of sufficient size, zeroed, reads back, in both
  byte orders.\<close>

theorem mpz_bytes_round_trip:
  assumes "0 < n" "0 \<le> mpz_val z" "mpz_val z < 256 ^ n" "mpz_growable w"
  shows "\<exists>bs w'. mpz_as_bytes z big_endian (replicate n 0) = Some bs \<and> length bs = n
    \<and> mpz_set_from_bytes jk big_endian bs w = Some w' \<and> mpz_growable w' \<and> mpz_val w' = mpz_val z"
proof -
  obtain out where out: "mpz_as_bytes z False (replicate n 0) = Some (out @ drop (length out) (replicate n 0))"
    "length out = min n (2 * length (z_digits z))"
    "mpz_as_bytes z True (replicate n 0) = Some (take (n - length out) (replicate n 0) @ rev out)"
    "int (bytes_val out) = mpz_val z mod 256 ^ length out"
    using mpz_as_bytes_val [of "replicate n 0" z] assms(1) by auto
  have "mpz_val z < 256 ^ length out"
  proof (cases "n \<le> 2 * length (z_digits z)")
    case True
    then show ?thesis using assms(3) out(2) by simp
  next
    case False
    have "mpz_val z \<le> int (mpn_val (z_digits z))" by (simp add: mpz_val_def sval_def)
    also have "\<dots> < int (65536 ^ length (z_digits z))" using mpn_val_less [of "z_digits z"] by (simp only: of_nat_less_iff)
    also have "\<dots> = 256 ^ (2 * length (z_digits z))" by (simp add: power_mult)
    also have "2 * length (z_digits z) = length out" using False out(2) by simp
    finally show ?thesis .
  qed
  then have val: "int (bytes_val out) = mpz_val z" using out(4) assms(2) by simp
  define bs where "bs = (if big_endian then take (n - length out) (replicate n 0) @ rev out else out @ drop (length out) (replicate n 0))"
  have pad: "bytes_val (out @ replicate k 0) = bytes_val out" for k
    by (induction out; induction k) simp_all
  have len: "length out \<le> n" using out(2) by simp
  then have "int (bytes_val (if big_endian then rev bs else bs)) = mpz_val z" "length bs = n"
    using val pad by (auto simp: bs_def)
  moreover obtain w' where "mpz_set_from_bytes jk big_endian bs w = Some w'" "mpz_growable w'"
    "mpz_val w' = int (bytes_val (if big_endian then rev bs else bs))"
    using mpz_set_from_bytes_val [OF assms(4)] by blast
  ultimately show ?thesis using out(1,3) by (intro exI [of _ bs] exI [of _ w']) (simp add: bs_def)
qed

theorem mpz_bytes_round_trip_witness:
  "\<exists>bs w'. mpz_as_bytes (mpz_obj False [0x1234, 0x56]) True (replicate 4 0) = Some bs \<and> length bs = 4
    \<and> mpz_set_from_bytes (\<lambda>_. 7) True bs mpz_init_zero = Some w' \<and> mpz_growable w' \<and> mpz_val w' = 0x561234"
  using mpz_bytes_round_trip [of 4 "mpz_obj False [0x1234, 0x56]" mpz_init_zero True "\<lambda>_. 7"] by (simp add: mpz_instance)

text \<open>\<open>mpz_set_from_float\<close> stores a finite single-precision number of magnitude at least two truncated
  towards zero, exactly, from its sign, exponent and fraction fields.\<close>

theorem mpz_set_from_float_correct:
  assumes "mpz_growable z" "127 < exp" "exp < 255" "unat frc < 2 ^ 23"
  shows "\<exists>z'. mpz_set_from_float jk sign exp frc z = Some z' \<and> mpz_ok z'
    \<and> mpz_val z' = sval sign (if exp < 150 then (unat frc + 2 ^ 23) div 2 ^ (150 - exp) else (unat frc + 2 ^ 23) * 2 ^ (exp - 150))"
  using mpz_set_from_float_val [OF assms, of jk sign] unfolding float_trunc_def Let_def .

theorem mpz_set_from_float_witness:
  "\<exists>z'. mpz_set_from_float (\<lambda>_. 7) True 160 1 mpz_init_zero = Some z' \<and> mpz_ok z' \<and> mpz_val z' = - 8589935616"
  using mpz_set_from_float_correct [of mpz_init_zero 160 1 "\<lambda>_. 7" True] by (simp add: mpz_instance)

text \<open>With a thousands separator the text of a number whose count of digits is a multiple of three
  starts with a separator: 123 prints as \<open>,123\<close>.\<close>

theorem mpz_as_str_leading_comma:
  "mpz_as_str_inpl (mpz_obj False [123]) 10 [] 97 44 = Some [44, 49, 50, 51]"
  by (simp add: mpz_as_str_inpl_def mpz_obj_def mpz_str_loop.simps mpz_str_char_def)

text \<open>A byte conversion into an empty buffer stores out of bounds.\<close>

theorem mpz_as_bytes_empty_buffer:
  assumes "z_digits z \<noteq> []"
  shows "mpz_as_bytes z big_endian [] = None"
  using assms by (cases "z_digits z") (simp_all add: mpz_as_bytes_def mpz_as_bytes_loop.simps)

theorem mpz_as_bytes_empty_buffer_witness:
  "mpz_as_bytes (mpz_obj False [5]) True [] = None"
  by (rule mpz_as_bytes_empty_buffer) (simp add: mpz_obj_def)

end
