(* ===== verification/Mp_Hash.thy ===== *)
theory Mp_Hash
  imports Mp_Prelude "HOL-Library.Monad_Syntax" "HOL-Library.Multiset"
begin

text \<open>
  The open-addressing table that the dictionaries and the sets of \<open>src/py/map.c\<close> share: slots that
  are empty, deleted or filled, linear probing with wrap-around, and the schedule of table sizes.
  The locale \<open>hash_keys\<close> states what the table relies on in the objects used as keys; the
  lemmas in it show that probing finds a key if and only if it is in the table, and that
  filling and clearing a slot keep the table's invariant.
\<close>

section \<open>Objects as keys\<close>

text \<open>
  The operations of the object system that the tables call: the tests \<open>mp_obj_is_qstr\<close> and
  \<open>mp_obj_is_type(o, &mp_type_str)\<close>, \<open>mp_obj_equal\<close>, and the hash value.
\<close>

record 'o obj_ops =
  o_is_qstr :: "'o \<Rightarrow> bool"
  o_is_str :: "'o \<Rightarrow> bool"
  o_equal :: "'o \<Rightarrow> 'o \<Rightarrow> bool"
  o_hash :: "'o \<Rightarrow> mp_uint_t"

locale hash_keys =
  fixes ops :: "'o obj_ops" and valid :: "'o \<Rightarrow> bool"
  assumes equal_refl: "valid x \<Longrightarrow> o_equal ops x x"
    and equal_sym: "valid x \<Longrightarrow> valid y \<Longrightarrow> o_equal ops x y \<Longrightarrow> o_equal ops y x"
    and equal_trans: "valid x \<Longrightarrow> valid y \<Longrightarrow> valid z \<Longrightarrow> o_equal ops x y \<Longrightarrow> o_equal ops y z \<Longrightarrow> o_equal ops x z"
    and equal_hash: "valid x \<Longrightarrow> valid y \<Longrightarrow> o_equal ops x y \<Longrightarrow> o_hash ops x = o_hash ops y"
    and qstr_identity: "valid x \<Longrightarrow> valid y \<Longrightarrow> o_is_qstr ops x \<Longrightarrow> o_is_qstr ops y \<Longrightarrow> o_equal ops x y \<Longrightarrow> x = y"
    and qstr_equal_str: "valid x \<Longrightarrow> valid y \<Longrightarrow> o_is_qstr ops x \<Longrightarrow> o_equal ops x y \<Longrightarrow> o_is_qstr ops y \<or> o_is_str ops y"

section \<open>The table\<close>

text \<open>A slot holds \<open>MP_OBJ_NULL\<close>, \<open>MP_OBJ_SENTINEL\<close> (a deleted entry) or a key.\<close>

datatype 'o slot = Null | Sentinel | Key 'o

text \<open>The schedule of sizes, and the size a table gets.\<close>

definition hash_allocation_sizes :: "nat list" where
  "hash_allocation_sizes =
     [0, 2, 4, 6, 8, 10, 12, 17, 23, 29, 37, 47, 59, 73, 97, 127, 167, 223, 293, 389, 521, 691, 919, 1223, 1627, 2161,
      3229, 4831, 7243, 10861, 16273, 24407, 36607, 54907]"

definition get_hash_alloc_greater_or_equal_to :: "nat \<Rightarrow> nat" where
  "get_hash_alloc_greater_or_equal_to x =
     (case dropWhile (\<lambda>s. s < x) hash_allocation_sizes of
        s # _ \<Rightarrow> s
      | [] \<Rightarrow> (x + x div 2) OR 1)"

text \<open>
  One round of the search loop: the positions from the start position once around the table. The
  search remembers the first deleted slot. \<open>Found\<close> is the slot of the key, \<open>Free\<close> the slot where
  the key would go when an empty slot ended the search, \<open>Wrapped\<close> the remembered slot when the
  search got back to the start.
\<close>

datatype probe_result = Found nat | Free nat | Wrapped "nat option"

definition probe_order :: "nat \<Rightarrow> nat \<Rightarrow> nat list" where
  "probe_order start alloc = map (\<lambda>i. (start + i) mod alloc) [0..<alloc]"

fun probe :: "('o \<Rightarrow> bool) \<Rightarrow> 'o slot list \<Rightarrow> nat option \<Rightarrow> nat list \<Rightarrow> probe_result" where
  "probe hit keys avail [] = Wrapped avail"
| "probe hit keys avail (pos # ps) =
     (case keys ! pos of
        Null \<Rightarrow> Free (case avail of None \<Rightarrow> pos | Some a \<Rightarrow> a)
      | Sentinel \<Rightarrow> probe hit keys (case avail of None \<Rightarrow> Some pos | Some a \<Rightarrow> Some a) ps
      | Key k \<Rightarrow> if hit k then Found pos else probe hit keys avail ps)"

text \<open>The value a slot takes when its entry is deleted: empty if the next slot is empty.\<close>

definition clear_slot :: "'o slot list \<Rightarrow> nat \<Rightarrow> 'o slot" where
  "clear_slot keys pos = (if keys ! ((pos + 1) mod length keys) = Null then Null else Sentinel)"

text \<open>Iteration over a list where a step may fail or not return.\<close>

fun fold_opt :: "('a \<Rightarrow> 's \<Rightarrow> 's option) \<Rightarrow> 'a list \<Rightarrow> 's \<Rightarrow> 's option" where
  "fold_opt f [] s = Some s"
| "fold_opt f (x # xs) s = Option.bind (f x s) (fold_opt f xs)"

lemma fold_opt_append: "fold_opt f (xs @ ys) s = Option.bind (fold_opt f xs s) (fold_opt f ys)"
  by (induction f xs s rule: fold_opt.induct) (auto split: bind_splits)

lemma fold_opt_mono [partial_function_mono]:
  assumes "\<And>x s. mono_option (\<lambda>g. F g x s)"
  shows "mono_option (\<lambda>g. fold_opt (F g) xs s)"
proof (induction xs arbitrary: s)
  case Nil
  then show ?case by (simp add: option.const_mono)
next
  case (Cons x xs)
  then show ?case using assms by (simp add: bind_mono)
qed

section \<open>Sizes\<close>

lemma get_hash_alloc_ge: "x \<le> get_hash_alloc_greater_or_equal_to x"
proof (cases "dropWhile (\<lambda>s. s < x) hash_allocation_sizes")
  case Nil
  have "x + x div 2 \<le> (x + x div 2) OR 1" unfolding or_one_eq by simp
  then show ?thesis unfolding get_hash_alloc_greater_or_equal_to_def Nil by simp
next
  case (Cons s ss)
  then have "\<not> s < x" using hd_dropWhile [of "\<lambda>s. s < x" hash_allocation_sizes] by simp
  then show ?thesis using Cons by (simp add: get_hash_alloc_greater_or_equal_to_def)
qed

section \<open>Probing\<close>

lemma probe_order_simps [simp]:
  "length (probe_order s n) = n" "i < n \<Longrightarrow> probe_order s n ! i = (s + i) mod n"
  by (simp_all add: probe_order_def)

lemma probe_order_distinct: "distinct (probe_order s n)"
proof -
  have "inj_on (\<lambda>i. (s + i) mod n) {0..<n}"
  proof (rule inj_onI)
    fix i j assume ij: "i \<in> {0..<n}" "j \<in> {0..<n}" "(s + i) mod n = (s + j) mod n"
    have "(int s + int i) mod int n = (int s + int j) mod int n" using arg_cong [OF ij(3), of int] by (simp add: zmod_int)
    from mod_diff_cong [OF this refl [of "int s mod int n"]] show "i = j" using ij(1,2) by simp
  qed
  then show ?thesis by (simp add: probe_order_def distinct_map)
qed

lemma probe_order_set: "set (probe_order s n) = {0..<n}"
proof (rule card_subset_eq)
  show "finite {0..<n}" by simp
  show "set (probe_order s n) \<subseteq> {0..<n}" by (auto simp: probe_order_def)
  show "card (set (probe_order s n)) = card {0..<n}"
    using distinct_card [OF probe_order_distinct, of s n] by simp
qed

text \<open>After a position that is not the last one comes the next slot of the table.\<close>

lemma probe_order_next:
  assumes "probe_order s n = as @ i' # bs" "i \<in> set as"
  shows "(i + 1) mod n \<in> set as \<or> (i + 1) mod n = i'"
proof -
  obtain j where j: "j < length as" "i = as ! j" using assms(2) by (auto simp: in_set_conv_nth)
  have n: "length as < n" using arg_cong [OF assms(1), of length] by simp
  have "i = probe_order s n ! j" "(as @ [i']) ! Suc j = probe_order s n ! Suc j"
    using j by (simp_all add: assms(1) nth_append)
  then have "(as @ [i']) ! Suc j = (i + 1) mod n" using j(1) n by (simp add: mod_Suc_eq)
  then show ?thesis using j(1) nth_mem [of "Suc j" "as @ [i']"] by auto
qed

definition passable :: "('o \<Rightarrow> bool) \<Rightarrow> 'o slot \<Rightarrow> bool" where
  "passable hit s = (case s of Null \<Rightarrow> False | Sentinel \<Rightarrow> True | Key k \<Rightarrow> \<not> hit k)"

lemma passable_simps [simp]: "\<not> passable hit Null" "passable hit Sentinel" "passable hit (Key k) = (\<not> hit k)"
  by (simp_all add: passable_def)

lemma probe_Found:
  assumes "probe hit keys avail ps = Found pos"
  shows "\<exists>as bs k. ps = as @ pos # bs \<and> keys ! pos = Key k \<and> hit k \<and> (\<forall>a \<in> set as. passable hit (keys ! a))"
  using assms
proof (induction hit keys avail ps rule: probe.induct)
  case (2 hit keys avail p ps)
  show ?case
  proof (cases "\<exists>k. keys ! p = Key k \<and> hit k")
    case True
    then show ?thesis using 2 by (intro exI [of _ "[]"] exI [of _ ps]) (auto split: slot.splits if_splits)
  next
    case False
    then obtain as bs k where "ps = as @ pos # bs" "keys ! pos = Key k" "hit k" "\<forall>a \<in> set as. passable hit (keys ! a)"
      using 2 by (auto split: slot.splits if_splits)
    moreover have "passable hit (keys ! p)" using False 2(3) by (auto split: slot.splits if_splits)
    ultimately show ?thesis by (intro exI [of _ "p # as"] exI [of _ bs] exI [of _ k]) auto
  qed
qed simp

lemma probe_Free:
  assumes "probe hit keys avail ps = Free pos"
  shows "\<exists>as p bs. ps = as @ p # bs \<and> keys ! p = Null \<and> (\<forall>a \<in> set as. passable hit (keys ! a))
    \<and> (case avail of Some a \<Rightarrow> pos = a | None \<Rightarrow> pos = p \<or> pos \<in> set as \<and> keys ! pos = Sentinel)"
  using assms
proof (induction hit keys avail ps rule: probe.induct)
  case (2 hit keys avail p ps)
  show ?case
  proof (cases "keys ! p = Null")
    case True
    then show ?thesis using 2(3) by (intro exI [of _ "[]"] exI [of _ p] exI [of _ ps]) (auto split: option.splits)
  next
    case False
    then obtain as q bs where "ps = as @ q # bs" "keys ! q = Null" "\<forall>a \<in> set as. passable hit (keys ! a)"
        "case avail of Some a \<Rightarrow> pos = a
         | None \<Rightarrow> if keys ! p = Sentinel then pos = p else pos = q \<or> pos \<in> set as \<and> keys ! pos = Sentinel"
      using 2(1,2,3) by (cases "keys ! p"; cases avail) (auto split: if_splits)
    moreover have "passable hit (keys ! p)" using False 2(3) by (auto split: slot.splits if_splits)
    ultimately show ?thesis by (intro exI [of _ "p # as"] exI [of _ q] exI [of _ bs]) (auto split: option.splits if_splits)
  qed
qed simp

lemma probe_Wrapped:
  assumes "probe hit keys avail ps = Wrapped a"
  shows "(\<forall>p \<in> set ps. passable hit (keys ! p)) \<and> (a = None \<longrightarrow> avail = None \<and> (\<forall>p \<in> set ps. keys ! p \<noteq> Sentinel))
    \<and> (\<forall>pos. a = Some pos \<longrightarrow> avail = Some pos \<or> pos \<in> set ps \<and> keys ! pos = Sentinel)"
  using assms
  by (induction hit keys avail ps rule: probe.induct) (auto split: slot.splits if_splits option.splits)

section \<open>The invariant of the table\<close>

text \<open>
  Every key is valid and its slot is reached by the search for it: no slot before it in the order
  of the search is empty. No two slots hold equal keys.
\<close>

definition hash_start :: "'o obj_ops \<Rightarrow> 'o \<Rightarrow> nat \<Rightarrow> nat" where
  "hash_start ops k n = unat (o_hash ops k) mod n"

definition search_order :: "'o obj_ops \<Rightarrow> 'o slot list \<Rightarrow> 'o \<Rightarrow> nat list" where
  "search_order ops keys k = probe_order (hash_start ops k (length keys)) (length keys)"

definition reached :: "'o obj_ops \<Rightarrow> 'o slot list \<Rightarrow> nat \<Rightarrow> 'o \<Rightarrow> bool" where
  "reached ops keys i k \<longleftrightarrow> (\<exists>as bs. search_order ops keys k = as @ i # bs \<and> (\<forall>a \<in> set as. keys ! a \<noteq> Null))"

definition table_inv :: "'o obj_ops \<Rightarrow> ('o \<Rightarrow> bool) \<Rightarrow> 'o slot list \<Rightarrow> bool" where
  "table_inv ops valid keys \<longleftrightarrow>
     (\<forall>i < length keys. \<forall>k. keys ! i = Key k \<longrightarrow> valid k \<and> reached ops keys i k)
     \<and> (\<forall>i < length keys. \<forall>j < length keys. \<forall>k l. keys ! i = Key k \<longrightarrow> keys ! j = Key l \<longrightarrow> o_equal ops k l \<longrightarrow> i = j)"

text \<open>The slot that holds a key equal to \<open>x\<close>.\<close>

definition holds :: "'o obj_ops \<Rightarrow> 'o slot list \<Rightarrow> 'o \<Rightarrow> nat \<Rightarrow> bool" where
  "holds ops keys x i \<longleftrightarrow> i < length keys \<and> (\<exists>k. keys ! i = Key k \<and> o_equal ops k x)"

text \<open>A slot where a key that is not in the table may go.\<close>

definition open_slot :: "'o obj_ops \<Rightarrow> 'o slot list \<Rightarrow> 'o \<Rightarrow> nat \<Rightarrow> bool" where
  "open_slot ops keys x pos \<longleftrightarrow> pos < length keys \<and> (\<nexists>k. keys ! pos = Key k) \<and> reached ops keys pos x \<and> (\<nexists>i. holds ops keys x i)"

lemma table_invD:
  assumes "table_inv ops valid keys" "i < length keys" "keys ! i = Key k"
  shows "valid k" "reached ops keys i k"
    "j < length keys \<Longrightarrow> keys ! j = Key l \<Longrightarrow> o_equal ops k l \<Longrightarrow> i = j"
  using assms unfolding table_inv_def by blast+

lemma search_order_props:
  "distinct (search_order ops keys k)" "set (search_order ops keys k) = {0..<length keys}"
  by (simp_all add: search_order_def probe_order_distinct probe_order_set)

lemma search_order_update [simp]: "search_order ops (keys[i := s]) k = search_order ops keys k"
  by (simp add: search_order_def)

lemma table_inv_empty: "table_inv ops valid (replicate n Null)"
  by (simp add: table_inv_def)

lemma reached_update:
  assumes "reached ops keys i k" "s \<noteq> Null"
  shows "reached ops (keys[j := s]) i k"
proof -
  have "(keys[j := s]) ! a \<noteq> Null" if "keys ! a \<noteq> Null" for a
    using that assms(2) by (cases "j < length keys"; cases "a = j") (simp_all add: nth_list_update list_update_beyond)
  then show ?thesis using assms(1) by (auto simp: reached_def)
qed

lemma filled_reached:
  assumes "search_order ops keys x = as @ p # bs" "\<forall>a \<in> set as. passable hit (keys ! a)"
    and "pos = p \<or> pos \<in> set as"
  shows "reached ops keys pos x" "pos < length keys"
proof -
  from assms(2) have nn: "\<forall>a \<in> set as. keys ! a \<noteq> Null" by (auto simp: passable_def)
  show "pos < length keys" using assms(1,3) search_order_props(2) [of ops keys x] by auto
  show "reached ops keys pos x"
  proof (cases "pos = p")
    case True
    then show ?thesis using assms(1) nn by (auto simp: reached_def)
  next
    case False
    then obtain cs ds where "as = cs @ pos # ds" using assms(3) by (auto simp: in_set_conv_decomp)
    then show ?thesis using assms(1) nn unfolding reached_def by (intro exI [of _ cs] exI [of _ "ds @ p # bs"]) simp
  qed
qed

context hash_keys
begin

lemma holds_reached:
  assumes "table_inv ops valid keys" "valid x" "holds ops keys x i"
  shows "\<exists>as bs. search_order ops keys x = as @ i # bs \<and> (\<forall>a \<in> set as. keys ! a \<noteq> Null)"
proof -
  obtain k where k: "i < length keys" "keys ! i = Key k" "o_equal ops k x" using assms(3) by (auto simp: holds_def)
  then have "valid k" "reached ops keys i k" using assms(1) by (auto simp: table_inv_def)
  then show ?thesis using equal_hash [OF _ assms(2) k(3)] by (simp add: reached_def search_order_def hash_start_def)
qed

lemma holds_unique:
  assumes "table_inv ops valid keys" "valid x" "holds ops keys x i" "holds ops keys x j"
  shows "i = j"
proof -
  obtain k l where k: "i < length keys" "keys ! i = Key k" "o_equal ops k x" and l: "j < length keys" "keys ! j = Key l" "o_equal ops l x"
    using assms(3,4) by (auto simp: holds_def)
  then have v: "valid k" "valid l" using assms(1) by (auto simp: table_inv_def)
  have "o_equal ops k l" using equal_trans [OF v(1) assms(2) v(2) k(3)] equal_sym [OF v(2) assms(2) l(3)] by blast
  then show ?thesis using assms(1) k(1,2) l(1,2) by (auto simp: table_inv_def)
qed

text \<open>
  A search for \<open>x\<close> whose test agrees with equality on the keys of the table finds the slot that holds
  \<open>x\<close>, or an open slot, or that there is no open slot.
\<close>

lemma probe_correct:
  assumes inv: "table_inv ops valid keys" and x: "valid x"
    and hit: "\<And>i k. i < length keys \<Longrightarrow> keys ! i = Key k \<Longrightarrow> hit k \<longleftrightarrow> o_equal ops k x"
  shows "case probe hit keys None (search_order ops keys x) of
      Found pos \<Rightarrow> holds ops keys x pos
    | Free pos \<Rightarrow> open_slot ops keys x pos
    | Wrapped (Some pos) \<Rightarrow> open_slot ops keys x pos
    | Wrapped None \<Rightarrow> (\<nexists>i. holds ops keys x i) \<and> (\<forall>i < length keys. \<exists>k. keys ! i = Key k)"
proof -
  let ?o = "search_order ops keys x"
  note o = search_order_props [of ops keys x]
  have hit_iff: "holds ops keys x i \<longleftrightarrow> i < length keys \<and> (\<exists>k. keys ! i = Key k \<and> hit k)" for i
    using hit by (auto simp: holds_def)
  show ?thesis
  proof (cases "probe hit keys None ?o")
    case (Found pos)
    from probe_Found [OF this] have "pos \<in> set ?o" "\<exists>k. keys ! pos = Key k \<and> hit k" by auto
    then show ?thesis using Found o(2) hit_iff by simp
  next
    case (Free pos)
    from probe_Free [OF this] obtain as p bs where p: "?o = as @ p # bs" "keys ! p = Null" "\<forall>a \<in> set as. passable hit (keys ! a)"
      "pos = p \<or> pos \<in> set as \<and> keys ! pos = Sentinel" by auto
    have "\<not> holds ops keys x i" for i
    proof
      assume h: "holds ops keys x i"
      obtain cs ds where c: "?o = cs @ i # ds" "\<forall>a \<in> set cs. keys ! a \<noteq> Null" using holds_reached [OF inv x h] by blast
      from h p(2,3) have "i \<noteq> p" "i \<notin> set as" using hit_iff by auto
      moreover have "i \<in> set ?o" using c(1) by simp
      ultimately obtain es fs where "bs = es @ i # fs" using p(1) by (auto simp: in_set_conv_decomp)
      then have "cs @ i # ds = (as @ p # es) @ i # fs" using c(1) p(1) by simp
      then have "cs = as @ p # es" using o(1) c(1) by (subst (asm) append_Cons_eq_iff) auto
      then show False using c(2) p(2) by simp
    qed
    then show ?thesis using Free p(2,4) filled_reached [OF p(1,3), of pos] by (auto simp: open_slot_def)
  next
    case (Wrapped a)
    note w = probe_Wrapped [OF this]
    have pass: "passable hit (keys ! i)" if "i < length keys" for i using bspec [OF conjunct1 [OF w], of i] o(2) that by simp
    have no: "\<not> holds ops keys x i" for i
    proof
      assume "holds ops keys x i"
      then obtain k where "i < length keys" "keys ! i = Key k" "hit k" unfolding hit_iff by blast
      with pass [of i] show False by simp
    qed
    show ?thesis
    proof (cases a)
      case None
      have "\<exists>k. keys ! i = Key k" if "i < length keys" for i
        using that w None o(2) pass [OF that] by (cases "keys ! i") auto
      then show ?thesis using Wrapped None no by simp
    next
      case (Some pos)
      then have pos: "pos \<in> set ?o" "keys ! pos = Sentinel" using w by auto
      then obtain as bs where "?o = as @ pos # bs" by (meson split_list)
      then have "reached ops keys pos x" "pos < length keys" using filled_reached [of ops keys x as pos bs hit pos] w by auto
      then show ?thesis using Wrapped Some pos(2) no by (simp add: open_slot_def)
    qed
  qed
qed

lemma fill_inv:
  assumes inv: "table_inv ops valid keys" and x: "valid x" and pos: "open_slot ops keys x pos"
  shows "table_inv ops valid (keys[pos := Key x])"
proof -
  have p: "pos < length keys" "reached ops keys pos x" using pos by (auto simp: open_slot_def)
  have no: "\<not> o_equal ops k x" "\<not> o_equal ops x k" if "i < length keys" "keys ! i = Key k" for i k
  proof -
    have "valid k" using that inv by (auto simp: table_inv_def)
    moreover show "\<not> o_equal ops k x" using that pos by (auto simp: open_slot_def holds_def)
    ultimately show "\<not> o_equal ops x k" using equal_sym x by blast
  qed
  show ?thesis unfolding table_inv_def length_list_update
  proof (intro conjI allI impI)
    fix i k assume "i < length keys" "keys[pos := Key x] ! i = Key k"
    then show "valid k" "reached ops (keys[pos := Key x]) i k"
      using inv x p by (auto simp: table_inv_def nth_list_update intro: reached_update split: if_splits)
  next
    fix i j k l assume "i < length keys" "j < length keys" "keys[pos := Key x] ! i = Key k" "keys[pos := Key x] ! j = Key l" "o_equal ops k l"
    then show "i = j" using table_invD(3) [OF inv, of i k j l] no [of i k] no [of j l] by (cases "i = pos"; cases "j = pos") auto
  qed
qed

lemma clear_inv:
  assumes inv: "table_inv ops valid keys" and pos: "pos < length keys"
  shows "table_inv ops valid (keys[pos := clear_slot keys pos])"
proof -
  let ?ks = "keys[pos := clear_slot keys pos]"
  have old: "keys ! i = Key k \<and> i \<noteq> pos" if "i < length keys" "?ks ! i = Key k" for i k
    using that pos by (auto simp: nth_list_update clear_slot_def split: if_splits)
  have "reached ops ?ks i k" if i: "i < length keys" "keys ! i = Key k" for i k
  proof (cases "clear_slot keys pos = Null")
    case False
    then show ?thesis using inv i by (auto simp: table_inv_def intro: reached_update)
  next
    case True
    then have next_null: "keys ! ((pos + 1) mod length keys) = Null" by (auto simp: clear_slot_def split: if_splits)
    obtain as bs where as: "search_order ops keys k = as @ i # bs" "\<forall>a \<in> set as. keys ! a \<noteq> Null"
      using table_invD(2) [OF inv i] unfolding reached_def by blast
    have "pos \<notin> set as"
      using probe_order_next [OF as(1) [unfolded search_order_def], of pos] next_null as(2) i(2) by auto
    then have "?ks ! a \<noteq> Null" if "a \<in> set as" for a
      using as(2) that nth_list_update_neq [of pos a keys] by (cases "a = pos") auto
    then show ?thesis using as(1) unfolding reached_def by (simp only: search_order_update) blast
  qed
  note new_reached = this
  show ?thesis unfolding table_inv_def length_list_update
  proof (intro conjI allI impI)
    fix i k assume i: "i < length keys" "?ks ! i = Key k"
    from old [OF i] have k: "keys ! i = Key k" by (rule conjunct1)
    show "valid k" by (rule table_invD(1) [OF inv i(1) k])
    show "reached ops ?ks i k" by (rule new_reached [OF i(1) k])
  next
    fix i j k l assume i: "i < length keys" "j < length keys" "?ks ! i = Key k" "?ks ! j = Key l" "o_equal ops k l"
    from old [OF i(1,3)] old [OF i(2,4)] have "keys ! i = Key k" "keys ! j = Key l" by simp_all
    then show "i = j" using table_invD(3) [OF inv i(1) _ i(2) _ i(5)] by simp
  qed
qed

end

end
