(* ===== verification/Mp_Map.thy ===== *)
theory Mp_Map
  imports Mp_Hash
begin

text \<open>
  The maps of \<open>src/py/map.c\<close>: hash tables that rehash when they are full, and ordered arrays. A
  pointer to an element that the code returns is the index of the element, and storing through it
  is an update at that index. The result \<open>None\<close> of an operation is a failed assertion or not
  returning. The lemmas show that every lookup returns, that it finds a key if and only if the map
  has an entry for it, and what an insertion or a removal does to the multiset of entries.
  The table sizes are unbounded here; the memory of the machine bounds them in the code.
\<close>

section \<open>Maps\<close>

record 'o mp_map_elem =
  e_key :: "'o slot"
  e_value :: "'o option" \<comment> \<open>\<open>None\<close> is \<open>MP_OBJ_NULL\<close>\<close>

text \<open>\<open>alloc\<close> is the length of the table, and the null table is the empty one.\<close>

record 'o mp_map =
  m_all_keys_are_qstrs :: bool
  m_is_fixed :: bool
  m_is_ordered :: bool
  m_used :: nat
  m_table :: "'o mp_map_elem list"

datatype mp_map_lookup_kind = Lookup | Add_if_not_found | Remove_if_found | Add_if_not_found_or_remove_if_found

definition mp_map_slot_is_filled :: "'o mp_map \<Rightarrow> nat \<Rightarrow> bool" where
  "mp_map_slot_is_filled m pos = (e_key (m_table m ! pos) \<noteq> Null \<and> e_key (m_table m ! pos) \<noteq> Sentinel)"

definition empty_elem :: "'o mp_map_elem" where
  "empty_elem = \<lparr>e_key = Null, e_value = None\<rparr>"

definition mp_map_init :: "nat \<Rightarrow> 'o mp_map" where
  "mp_map_init n =
     \<lparr>m_all_keys_are_qstrs = True, m_is_fixed = False, m_is_ordered = False, m_used = 0,
      m_table = (if n = 0 then [] else replicate n empty_elem)\<rparr>"

definition mp_map_init_fixed_table :: "'o mp_map_elem list \<Rightarrow> 'o mp_map" where
  "mp_map_init_fixed_table table =
     \<lparr>m_all_keys_are_qstrs = True, m_is_fixed = True, m_is_ordered = True, m_used = length table, m_table = table\<rparr>"

definition mp_map_deinit :: "'o mp_map \<Rightarrow> 'o mp_map" where
  "mp_map_deinit m = m\<lparr>m_used := 0, m_table := []\<rparr>"

definition mp_map_clear :: "'o mp_map \<Rightarrow> 'o mp_map" where
  "mp_map_clear m = m\<lparr>m_table := [], m_used := 0, m_all_keys_are_qstrs := True, m_is_fixed := False\<rparr>"

section \<open>Lookup\<close>

definition set_value :: "nat \<Rightarrow> 'o option \<Rightarrow> 'o mp_map \<Rightarrow> 'o mp_map" where
  "set_value pos v m = m\<lparr>m_table := (m_table m)[pos := (m_table m ! pos)\<lparr>e_value := v\<rparr>]\<rparr>"

text \<open>
  \<open>mp_map_rehash\<close>, where \<open>lookup_add\<close> is \<open>mp_map_lookup\<close> with \<open>MP_MAP_LOOKUP_ADD_IF_NOT_FOUND\<close>.
\<close>

definition mp_map_rehash ::
  "('o mp_map \<Rightarrow> 'o \<Rightarrow> ('o mp_map \<times> nat option) option) \<Rightarrow> 'o mp_map \<Rightarrow> 'o mp_map option" where
  "mp_map_rehash lookup_add m =
     fold_opt
       (\<lambda>e m. case e_key e of
          Key k \<Rightarrow> Option.bind (lookup_add m k)
            (\<lambda>(m, slot). case slot of None \<Rightarrow> None | Some pos \<Rightarrow> Some (set_value pos (e_value e) m))
        | _ \<Rightarrow> Some m)
       (m_table m)
       (m\<lparr>m_used := 0, m_all_keys_are_qstrs := True,
          m_table := replicate (get_hash_alloc_greater_or_equal_to (length (m_table m) + 1)) empty_elem\<rparr>)"

lemma mp_map_rehash_mono [partial_function_mono]:
  assumes "\<And>m k. mono_option (\<lambda>g. L g m k)"
  shows "mono_option (\<lambda>g. mp_map_rehash (L g) m)"
  unfolding mp_map_rehash_def
proof (rule fold_opt_mono)
  fix e :: "'a mp_map_elem" and m
  show "mono_option (\<lambda>g. case e_key e of
      Key k \<Rightarrow> Option.bind (L g m k) (\<lambda>(m, slot). case slot of None \<Rightarrow> None | Some pos \<Rightarrow> Some (set_value pos (e_value e) m))
    | _ \<Rightarrow> Some m)"
    using assms by (cases "e_key e") (auto intro: bind_mono option.const_mono)
qed

text \<open>
  The search of an ordered array, and its three endings. The search compares the key of every slot
  with the index; to compare more than the pointers of a slot without a key reads the sentinel or the
  null pointer as an object, which ends the program.
\<close>

definition mp_map_lookup_ordered ::
  "'o obj_ops \<Rightarrow> bool \<Rightarrow> 'o mp_map \<Rightarrow> 'o \<Rightarrow> mp_map_lookup_kind \<Rightarrow> ('o mp_map \<times> nat option) option" where
  "mp_map_lookup_ordered ops compare_only_ptrs m index kind =
     (case find (\<lambda>i. case e_key (m_table m ! i) of
                       Key k \<Rightarrow> k = index \<or> (\<not> compare_only_ptrs \<and> o_equal ops k index)
                     | _ \<Rightarrow> \<not> compare_only_ptrs) [0..<m_used m] of
        Some i \<Rightarrow>
          if \<not> mp_map_slot_is_filled m i then None
          else if kind = Remove_if_found then
            (let used = m_used m - 1;
                 value = e_value (m_table m ! i);
                 table = take i (m_table m) @ take (used - i) (drop (i + 1) (m_table m)) @ drop used (m_table m)
             in Some (m\<lparr>m_used := used, m_table := table[used := \<lparr>e_key = Null, e_value = value\<rparr>]\<rparr>, Some used))
          else Some (m, Some i)
      | None \<Rightarrow>
          if kind \<noteq> Add_if_not_found then Some (m, None)
          else
            (let table = (if m_used m = length (m_table m) then m_table m @ replicate 4 empty_elem else m_table m);
                 pos = m_used m
             in Some (m\<lparr>m_used := m_used m + 1, m_table := table[pos := (table ! pos)\<lparr>e_key := Key index\<rparr>],
                        m_all_keys_are_qstrs := m_all_keys_are_qstrs m \<and> o_is_qstr ops index\<rparr>, Some pos)))"

text \<open>The new entry in a slot of the hash table, and the removal of one.\<close>

definition mp_map_add_at :: "'o obj_ops \<Rightarrow> 'o mp_map \<Rightarrow> nat \<Rightarrow> 'o \<Rightarrow> 'o mp_map" where
  "mp_map_add_at ops m pos index =
     m\<lparr>m_used := m_used m + 1, m_table := (m_table m)[pos := \<lparr>e_key = Key index, e_value = None\<rparr>],
       m_all_keys_are_qstrs := m_all_keys_are_qstrs m \<and> o_is_qstr ops index\<rparr>"

definition mp_map_remove_at :: "'o mp_map \<Rightarrow> nat \<Rightarrow> 'o mp_map" where
  "mp_map_remove_at m pos =
     m\<lparr>m_used := m_used m - 1,
       m_table := (m_table m)[pos := (m_table m ! pos)\<lparr>e_key := clear_slot (map e_key (m_table m)) pos\<rparr>]\<rparr>"

text \<open>
  \<open>mp_map_lookup\<close>. The argument \<open>resume\<close> is \<open>None\<close> at the entry of the function, and holds
  \<open>compare_only_ptrs\<close> and the hash when the search loop starts or restarts.
\<close>

partial_function (option) mp_map_lookup_at ::
  "'o obj_ops \<Rightarrow> (bool \<times> mp_uint_t) option \<Rightarrow> 'o mp_map \<Rightarrow> 'o \<Rightarrow> mp_map_lookup_kind \<Rightarrow> ('o mp_map \<times> nat option) option" where
  "mp_map_lookup_at ops resume m index kind =
     (case resume of
        None \<Rightarrow>
          if m_is_fixed m \<and> kind \<noteq> Lookup then None
          else
            (let compare_only_ptrs =
                   m_all_keys_are_qstrs m \<and> (o_is_qstr ops index \<or> \<not> o_is_str ops index)
             in if compare_only_ptrs \<and> \<not> o_is_qstr ops index \<and> kind \<noteq> Add_if_not_found then Some (m, None)
                else if m_is_ordered m then mp_map_lookup_ordered ops compare_only_ptrs m index kind
                else if m_table m = [] then
                  if kind = Add_if_not_found then
                    Option.bind (mp_map_rehash (\<lambda>m k. mp_map_lookup_at ops None m k Add_if_not_found) m)
                      (\<lambda>m. mp_map_lookup_at ops (Some (compare_only_ptrs, o_hash ops index)) m index kind)
                  else Some (m, None)
                else mp_map_lookup_at ops (Some (compare_only_ptrs, o_hash ops index)) m index kind)
      | Some (compare_only_ptrs, hash) \<Rightarrow>
          (let alloc = length (m_table m)
           in case probe (\<lambda>k. k = index \<or> (\<not> compare_only_ptrs \<and> o_equal ops k index))
                     (map e_key (m_table m)) None (probe_order (unat hash mod alloc) alloc) of
                Found pos \<Rightarrow> Some (if kind = Remove_if_found then mp_map_remove_at m pos else m, Some pos)
              | Free pos \<Rightarrow>
                  Some (if kind = Add_if_not_found then (mp_map_add_at ops m pos index, Some pos) else (m, None))
              | Wrapped (Some pos) \<Rightarrow>
                  Some (if kind = Add_if_not_found then (mp_map_add_at ops m pos index, Some pos) else (m, None))
              | Wrapped None \<Rightarrow>
                  if kind = Add_if_not_found then
                    Option.bind (mp_map_rehash (\<lambda>m k. mp_map_lookup_at ops None m k Add_if_not_found) m)
                      (\<lambda>m. mp_map_lookup_at ops (Some (compare_only_ptrs, hash)) m index kind)
                  else Some (m, None)))"

declare mp_map_lookup_at.simps [code]

definition mp_map_lookup ::
  "'o obj_ops \<Rightarrow> 'o mp_map \<Rightarrow> 'o \<Rightarrow> mp_map_lookup_kind \<Rightarrow> ('o mp_map \<times> nat option) option" where
  "mp_map_lookup ops m index kind = mp_map_lookup_at ops None m index kind"

section \<open>The entries of a map\<close>

definition item :: "'o mp_map_elem \<Rightarrow> ('o \<times> 'o option) option" where
  "item e = (case e_key e of Key k \<Rightarrow> Some (k, e_value e) | _ \<Rightarrow> None)"

definition map_items :: "'o mp_map \<Rightarrow> ('o \<times> 'o option) list" where
  "map_items m = List.map_filter item (if m_is_ordered m then take (m_used m) (m_table m) else m_table m)"

abbreviation map_keys :: "'o mp_map \<Rightarrow> 'o slot list" where
  "map_keys m \<equiv> map e_key (m_table m)"

definition hash_map_inv :: "'o obj_ops \<Rightarrow> ('o \<Rightarrow> bool) \<Rightarrow> 'o mp_map \<Rightarrow> bool" where
  "hash_map_inv ops valid m \<longleftrightarrow> \<not> m_is_fixed m \<and> \<not> m_is_ordered m \<and> table_inv ops valid (map_keys m)
     \<and> m_used m = length (map_items m)
     \<and> (m_all_keys_are_qstrs m \<longrightarrow> fst ` set (map_items m) \<subseteq> Collect (o_is_qstr ops))"

definition opt_mset :: "'a option \<Rightarrow> 'a multiset" where
  "opt_mset a = (case a of None \<Rightarrow> {#} | Some x \<Rightarrow> {#x#})"

lemma opt_mset_simps [simp]: "opt_mset None = {#}" "opt_mset (Some x) = {#x#}"
  by (simp_all add: opt_mset_def)

lemma map_filter_simps' [simp]:
  "List.map_filter f [] = []" "List.map_filter f (xs @ ys) = List.map_filter f xs @ List.map_filter f ys"
  by (simp_all add: List.map_filter_def)

lemma mset_map_filter_update:
  assumes "i < length xs"
  shows "mset (List.map_filter f (xs[i := y])) + opt_mset (f (xs ! i)) = mset (List.map_filter f xs) + opt_mset (f y)"
proof -
  have "List.map_filter f xs = List.map_filter f (take i xs @ xs ! i # drop (Suc i) xs)"
    using id_take_nth_drop [OF assms] by simp
  then show ?thesis using assms by (cases "f y"; cases "f (xs ! i)") (simp_all add: upd_conv_take_nth_drop)
qed

lemma item_Key [simp]: "e_key e = Key k \<Longrightarrow> item e = Some (k, e_value e)"
  and item_None: "\<nexists>k. e_key e = Key k \<Longrightarrow> item e = None"
  by (cases "e_key e"; simp add: item_def)+

lemma item_iff: "item e = Some (k, v) \<longleftrightarrow> e_key e = Key k \<and> e_value e = v"
  by (cases "e_key e") (simp_all add: item_def)

lemma map_filter_set: "set (List.map_filter f xs) = {y. \<exists>x \<in> set xs. f x = Some y}"
  by (induction xs) (auto simp: List.map_filter_def)

lemma hash_items_set:
  assumes "\<not> m_is_ordered m"
  shows "set (map_items m) = {(k, v). \<exists>i < length (m_table m). e_key (m_table m ! i) = Key k \<and> e_value (m_table m ! i) = v}"
  using assms by (auto simp: map_items_def map_filter_set item_iff in_set_conv_nth intro: bexI [OF _ nth_mem])

section \<open>The hash table\<close>

lemma filled_count:
  assumes "\<forall>e \<in> set xs. \<exists>k. e_key e = Key k"
  shows "length (List.map_filter item xs) = length xs"
  using assms by (induction xs) (auto simp: List.map_filter_def)

lemma map_filter_length: "length (List.map_filter f xs) \<le> length xs"
  by (simp add: List.map_filter_def le_trans [OF length_filter_le])

lemma filled_count_less:
  assumes "e \<in> set xs" "\<nexists>k. e_key e = Key k"
  shows "length (List.map_filter item xs) < length xs"
proof -
  note le = map_filter_length [of item]
  obtain ys zs where xs: "xs = ys @ e # zs" using split_list [OF assms(1)] by blast
  then have "length (List.map_filter item xs) = length (List.map_filter item ys) + length (List.map_filter item zs)"
    using item_None [OF assms(2)] by simp
  then show ?thesis using le [of ys] le [of zs] xs by simp
qed

text \<open>What an insertion of the key \<open>x\<close> gives.\<close>

definition add_result :: "'o obj_ops \<Rightarrow> ('o \<Rightarrow> bool) \<Rightarrow> 'o mp_map \<Rightarrow> 'o \<Rightarrow> ('o mp_map \<times> nat option) option \<Rightarrow> bool" where
  "add_result ops valid m x res \<longleftrightarrow>
     (\<exists>m' i. res = Some (m', Some i) \<and> hash_map_inv ops valid m' \<and> holds ops (map_keys m') x i
       \<and> (if \<exists>j. holds ops (map_keys m) x j then m' = m
          else m_table m' ! i = \<lparr>e_key = Key x, e_value = None\<rparr> \<and> mset (map_items m') = add_mset (x, None) (mset (map_items m))))"

context hash_keys
begin

lemma add_at:
  assumes inv: "hash_map_inv ops valid m" and x: "valid x" and pos: "open_slot ops (map_keys m) x pos"
  shows "add_result ops valid m x (Some (mp_map_add_at ops m pos x, Some pos))"
proof -
  let ?m = "mp_map_add_at ops m pos x"
  have p: "pos < length (m_table m)" "\<nexists>k. e_key (m_table m ! pos) = Key k" "\<nexists>i. holds ops (map_keys m) x i"
    using pos by (auto simp: open_slot_def)
  have o: "\<not> m_is_ordered m" "m_used m = length (map_items m)" using inv by (auto simp: hash_map_inv_def)
  have keys: "map_keys ?m = (map_keys m)[pos := Key x]" by (simp add: mp_map_add_at_def map_update)
  have items: "mset (map_items ?m) = add_mset (x, None) (mset (map_items m))"
    using mset_map_filter_update [OF p(1), of item "\<lparr>e_key = Key x, e_value = None\<rparr>"] o(1) item_None [OF p(2)]
    by (simp add: map_items_def mp_map_add_at_def)
  have "set (map_items ?m) = insert (x, None) (set (map_items m))" using arg_cong [OF items, of set_mset] by simp
  moreover have "length (map_items ?m) = Suc (length (map_items m))" using arg_cong [OF items, of size] by simp
  moreover have "m_used ?m = Suc (m_used m)" "m_all_keys_are_qstrs ?m = (m_all_keys_are_qstrs m \<and> o_is_qstr ops x)"
    "m_is_fixed ?m = m_is_fixed m" "m_is_ordered ?m = m_is_ordered m" by (simp_all add: mp_map_add_at_def)
  ultimately have "hash_map_inv ops valid ?m"
    using inv fill_inv [OF _ x pos] unfolding hash_map_inv_def keys by simp
  moreover have "holds ops (map_keys ?m) x pos" unfolding keys using p(1) equal_refl [OF x] by (simp add: holds_def)
  ultimately show ?thesis using items p(1,3) by (auto simp: add_result_def mp_map_add_at_def)
qed

lemma remove_at:
  assumes inv: "hash_map_inv ops valid m" and x: "valid x" and pos: "holds ops (map_keys m) x pos"
  shows "hash_map_inv ops valid (mp_map_remove_at m pos)"
    "\<exists>k. e_key (m_table m ! pos) = Key k \<and> o_equal ops k x
      \<and> mset (map_items m) = add_mset (k, e_value (m_table m ! pos)) (mset (map_items (mp_map_remove_at m pos)))"
    "\<not> holds ops (map_keys (mp_map_remove_at m pos)) x i"
    "e_value (m_table (mp_map_remove_at m pos) ! pos) = e_value (m_table m ! pos)"
proof -
  let ?m = "mp_map_remove_at m pos"
  obtain k where k: "pos < length (m_table m)" "e_key (m_table m ! pos) = Key k" "o_equal ops k x"
    using pos by (auto simp: holds_def)
  have o: "\<not> m_is_ordered m" "m_used m = length (map_items m)" using inv by (auto simp: hash_map_inv_def)
  have keys: "map_keys ?m = (map_keys m)[pos := clear_slot (map_keys m) pos]" by (simp add: mp_map_remove_at_def map_update)
  have nk: "\<nexists>l. clear_slot (map_keys m) pos = Key l" by (simp add: clear_slot_def)
  have items: "mset (map_items m) = add_mset (k, e_value (m_table m ! pos)) (mset (map_items ?m))"
    using mset_map_filter_update [OF k(1), of item "(m_table m ! pos)\<lparr>e_key := clear_slot (map_keys m) pos\<rparr>"] o(1) k(2)
      item_None [of "(m_table m ! pos)\<lparr>e_key := clear_slot (map_keys m) pos\<rparr>"] nk
    by (simp add: map_items_def mp_map_remove_at_def)
  have "set (map_items m) = insert (k, e_value (m_table m ! pos)) (set (map_items ?m))" using arg_cong [OF items, of set_mset] by simp
  moreover have "length (map_items m) = Suc (length (map_items ?m))" using arg_cong [OF items, of size] by simp
  moreover have "m_used ?m = m_used m - 1" "m_all_keys_are_qstrs ?m = m_all_keys_are_qstrs m"
    "m_is_fixed ?m = m_is_fixed m" "m_is_ordered ?m = m_is_ordered m" by (simp_all add: mp_map_remove_at_def)
  ultimately show "hash_map_inv ops valid ?m"
    using inv clear_inv [of "map_keys m" pos] k(1) o(2) unfolding hash_map_inv_def keys by simp
  show "\<exists>k. e_key (m_table m ! pos) = Key k \<and> o_equal ops k x
      \<and> mset (map_items m) = add_mset (k, e_value (m_table m ! pos)) (mset (map_items ?m))" using k items by blast
  show "e_value (m_table ?m ! pos) = e_value (m_table m ! pos)" using k(1) by (simp add: mp_map_remove_at_def)
  show "\<not> holds ops (map_keys ?m) x i"
  proof
    assume h: "holds ops (map_keys ?m) x i"
    then have "i \<noteq> pos" using k(1) nk by (auto simp: holds_def keys)
    moreover from h this have "holds ops (map_keys m) x i" unfolding keys by (auto simp: holds_def)
    ultimately show False using holds_unique [OF _ x _ pos] inv by (auto simp: hash_map_inv_def)
  qed
qed

lemma set_value_inv:
  assumes inv: "hash_map_inv ops valid m" and pos: "pos < length (m_table m)" "e_key (m_table m ! pos) = Key k"
  shows "hash_map_inv ops valid (set_value pos v m)" "map_keys (set_value pos v m) = map_keys m"
    "add_mset (k, e_value (m_table m ! pos)) (mset (map_items (set_value pos v m))) = add_mset (k, v) (mset (map_items m))"
proof -
  let ?m = "set_value pos v m"
  show keys: "map_keys ?m = map_keys m" by (simp add: set_value_def map_update list_update_same_conv pos(1))
  have o: "\<not> m_is_ordered m" using inv by (auto simp: hash_map_inv_def)
  show items: "add_mset (k, e_value (m_table m ! pos)) (mset (map_items ?m)) = add_mset (k, v) (mset (map_items m))"
    using mset_map_filter_update [OF pos(1), of item "(m_table m ! pos)\<lparr>e_value := v\<rparr>"] o pos(2)
    by (simp add: map_items_def set_value_def)
  have "length (map_items ?m) = length (map_items m)" using arg_cong [OF items, of size] by simp
  moreover have "set (map_items ?m) \<subseteq> insert (k, v) (set (map_items m))"
    using arg_cong [OF items, of set_mset] by auto
  moreover have "(k, e_value (m_table m ! pos)) \<in> set (map_items m)" using hash_items_set [OF o] pos by auto
  ultimately have "length (map_items ?m) = length (map_items m)" "fst ` set (map_items ?m) \<subseteq> fst ` set (map_items m)"
    by force+
  moreover have "m_used ?m = m_used m" "m_all_keys_are_qstrs ?m = m_all_keys_are_qstrs m"
    "m_is_fixed ?m = m_is_fixed m" "m_is_ordered ?m = m_is_ordered m" by (simp_all add: set_value_def)
  ultimately show "hash_map_inv ops valid ?m" using inv unfolding hash_map_inv_def keys by auto
qed

text \<open>When the comparison of pointers replaces equality.\<close>

lemma hit_equal:
  assumes "hash_map_inv ops valid m" "valid x"
    and cmp: "cmp \<longrightarrow> fst ` set (map_items m) \<subseteq> Collect (o_is_qstr ops) \<and> (o_is_qstr ops x \<or> \<not> o_is_str ops x)"
    and k: "i < length (map_keys m)" "map_keys m ! i = Key k"
  shows "(k = x \<or> (\<not> cmp \<and> o_equal ops k x)) \<longleftrightarrow> o_equal ops k x"
proof -
  have v: "valid k" using table_invD(1) [OF _ k] assms(1) by (auto simp: hash_map_inv_def)
  have "(k, e_value (m_table m ! i)) \<in> set (map_items m)" using assms(1) k hash_items_set [of m] by (auto simp: hash_map_inv_def)
  then have "cmp \<Longrightarrow> o_is_qstr ops k" using cmp by auto
  then show ?thesis using cmp equal_refl [OF assms(2)] qstr_identity [OF v assms(2)] qstr_equal_str [OF v assms(2)] by blast
qed

lemma holds_item:
  assumes "hash_map_inv ops valid m"
  shows "(\<exists>i. holds ops (map_keys m) x i) \<longleftrightarrow> (\<exists>k \<in> fst ` set (map_items m). o_equal ops k x)"
  using assms hash_items_set [of m] by (force simp: holds_def hash_map_inv_def)

text \<open>The search loop, on its three outcomes.\<close>

lemma loop_cases:
  assumes inv: "hash_map_inv ops valid m" and x: "valid x"
    and cmp: "cmp \<longrightarrow> fst ` set (map_items m) \<subseteq> Collect (o_is_qstr ops) \<and> (o_is_qstr ops x \<or> \<not> o_is_str ops x)"
  defines "L \<equiv> mp_map_lookup_at ops (Some (cmp, o_hash ops x)) m x"
  obtains (held) i where "holds ops (map_keys m) x i" "L Lookup = Some (m, Some i)" "L Add_if_not_found = Some (m, Some i)"
      "L Remove_if_found = Some (mp_map_remove_at m i, Some i)"
    | (free) pos where "open_slot ops (map_keys m) x pos" "L Lookup = Some (m, None)" "L Remove_if_found = Some (m, None)"
      "L Add_if_not_found = Some (mp_map_add_at ops m pos x, Some pos)"
    | (full) "\<nexists>i. holds ops (map_keys m) x i" "\<forall>e \<in> set (m_table m). \<exists>k. e_key e = Key k"
      "L Lookup = Some (m, None)" "L Remove_if_found = Some (m, None)"
      "L Add_if_not_found = Option.bind (mp_map_rehash (\<lambda>m k. mp_map_lookup_at ops None m k Add_if_not_found) m)
         (\<lambda>m. mp_map_lookup_at ops (Some (cmp, o_hash ops x)) m x Add_if_not_found)"
proof -
  let ?r = "probe (\<lambda>k. k = x \<or> (\<not> cmp \<and> o_equal ops k x)) (map_keys m) None (search_order ops (map_keys m) x)"
  have t: "table_inv ops valid (map_keys m)" using inv by (simp add: hash_map_inv_def)
  have pc: "case ?r of Found pos \<Rightarrow> holds ops (map_keys m) x pos | Free pos \<Rightarrow> open_slot ops (map_keys m) x pos
    | Wrapped (Some pos) \<Rightarrow> open_slot ops (map_keys m) x pos
    | Wrapped None \<Rightarrow> (\<nexists>i. holds ops (map_keys m) x i) \<and> (\<forall>i < length (map_keys m). \<exists>k. map_keys m ! i = Key k)"
    by (rule probe_correct [OF t x]) (rule hit_equal [OF inv x cmp])
  have L: "L kind = (case ?r of
      Found pos \<Rightarrow> Some (if kind = Remove_if_found then mp_map_remove_at m pos else m, Some pos)
    | Free pos \<Rightarrow> Some (if kind = Add_if_not_found then (mp_map_add_at ops m pos x, Some pos) else (m, None))
    | Wrapped (Some pos) \<Rightarrow> Some (if kind = Add_if_not_found then (mp_map_add_at ops m pos x, Some pos) else (m, None))
    | Wrapped None \<Rightarrow> if kind = Add_if_not_found then
          Option.bind (mp_map_rehash (\<lambda>m k. mp_map_lookup_at ops None m k Add_if_not_found) m)
            (\<lambda>m. mp_map_lookup_at ops (Some (cmp, o_hash ops x)) m x kind)
        else Some (m, None))" for kind
    unfolding L_def by (subst mp_map_lookup_at.simps) (simp add: Let_def search_order_def hash_start_def)
  show thesis
  proof (cases ?r)
    case (Found pos)
    then show thesis using pc held [of pos] by (simp add: L)
  next
    case (Free pos)
    then show thesis using pc free [of pos] by (simp add: L)
  next
    case (Wrapped a)
    then show thesis using pc free full by (cases a) (simp_all add: L all_set_conv_all_nth)
  qed
qed

lemma add_room:
  assumes "hash_map_inv ops valid m" "valid x"
    and "cmp \<longrightarrow> fst ` set (map_items m) \<subseteq> Collect (o_is_qstr ops) \<and> (o_is_qstr ops x \<or> \<not> o_is_str ops x)"
    and "length (map_items m) < length (m_table m)"
  shows "add_result ops valid m x (mp_map_lookup_at ops (Some (cmp, o_hash ops x)) m x Add_if_not_found)"
proof (cases rule: loop_cases [OF assms(1-3), case_names held free full])
  case (held i)
  then show ?thesis using assms(1) by (auto simp: add_result_def)
next
  case (free pos)
  then show ?thesis using add_at [OF assms(1,2)] by simp
next
  case full
  then show ?thesis using assms(1,4) filled_count by (fastforce simp: map_items_def hash_map_inv_def)
qed

lemma lookup_entry:
  assumes "hash_map_inv ops valid m" "m_table m \<noteq> []"
  shows "\<exists>cmp. (cmp \<longrightarrow> fst ` set (map_items m) \<subseteq> Collect (o_is_qstr ops) \<and> (o_is_qstr ops x \<or> \<not> o_is_str ops x))
    \<and> mp_map_lookup_at ops None m x Add_if_not_found = mp_map_lookup_at ops (Some (cmp, o_hash ops x)) m x Add_if_not_found"
proof (intro exI conjI)
  let ?cmp = "m_all_keys_are_qstrs m \<and> (o_is_qstr ops x \<or> \<not> o_is_str ops x)"
  show "?cmp \<longrightarrow> fst ` set (map_items m) \<subseteq> Collect (o_is_qstr ops) \<and> (o_is_qstr ops x \<or> \<not> o_is_str ops x)"
    using assms(1) by (auto simp: hash_map_inv_def)
  show "mp_map_lookup_at ops None m x Add_if_not_found = mp_map_lookup_at ops (Some (?cmp, o_hash ops x)) m x Add_if_not_found"
    using assms by (subst mp_map_lookup_at.simps) (simp add: hash_map_inv_def Let_def)
qed

lemma add_entry_room:
  assumes "hash_map_inv ops valid m" "valid x" "length (map_items m) < length (m_table m)"
  shows "add_result ops valid m x (mp_map_lookup_at ops None m x Add_if_not_found)"
proof -
  have "m_table m \<noteq> []" using assms(3) by auto
  then show ?thesis using lookup_entry [OF assms(1), of x] add_room [OF assms(1,2) _ assms(3)] by auto
qed

text \<open>A rehash returns: every entry goes into the larger table, which never gets full.\<close>

lemma rehash_step:
  assumes inv: "hash_map_inv ops valid m" and tab: "table_inv ops valid (map e_key tbl)" and n: "n < length tbl"
    and items: "mset (map_items m) = mset (List.map_filter item (take n tbl))" and room: "n < length (m_table m)"
    and key: "e_key (tbl ! n) = Key x"
  shows "\<exists>m' pos. mp_map_lookup_at ops None m x Add_if_not_found = Some (m', Some pos)
    \<and> hash_map_inv ops valid (set_value pos (e_value (tbl ! n)) m')
    \<and> mset (map_items (set_value pos (e_value (tbl ! n)) m')) = mset (List.map_filter item (take (Suc n) tbl))"
proof -
  have x: "valid x" using table_invD(1) [OF tab, of n x] n key by simp
  have "length (map_items m) \<le> n"
    using mset_eq_length [OF items] map_filter_length [of item "take n tbl"] by simp
  then have "add_result ops valid m x (mp_map_lookup_at ops None m x Add_if_not_found)"
    using add_entry_room [OF inv x] room by simp
  moreover have "\<nexists>i. holds ops (map_keys m) x i"
  proof
    assume "\<exists>i. holds ops (map_keys m) x i"
    then obtain k v where k: "(k, v) \<in> set (map_items m)" "o_equal ops k x" using holds_item [OF inv] by auto
    then have "(k, v) \<in> set (List.map_filter item (take n tbl))" using arg_cong [OF items, of set_mset] by simp
    then obtain j where j: "j < n" "e_key (tbl ! j) = Key k" using n by (auto simp: map_filter_set item_iff in_set_conv_nth)
    then have "j = n" using table_invD(3) [OF tab, of j k n x] n key k(2) by simp
    then show False using j(1) by simp
  qed
  ultimately obtain m' pos where m': "mp_map_lookup_at ops None m x Add_if_not_found = Some (m', Some pos)" "hash_map_inv ops valid m'"
    "holds ops (map_keys m') x pos" "m_table m' ! pos = \<lparr>e_key = Key x, e_value = None\<rparr>"
    "mset (map_items m') = add_mset (x, None) (mset (map_items m))" by (auto simp: add_result_def)
  have pos: "pos < length (m_table m')" "e_key (m_table m' ! pos) = Key x" using m'(3,4) by (simp_all add: holds_def)
  note sv = set_value_inv [OF m'(2) pos, of "e_value (tbl ! n)"]
  have "mset (map_items (set_value pos (e_value (tbl ! n)) m')) = add_mset (x, e_value (tbl ! n)) (mset (map_items m))"
    using sv(3) m'(4,5) by simp
  then show ?thesis using m'(1) sv(1) items key n by (intro exI [of _ m'] exI [of _ pos]) (simp add: take_Suc_conv_app_nth)
qed

lemma add_room_length:
  assumes "hash_map_inv ops valid m" "valid x" "length (map_items m) < length (m_table m)"
    and "mp_map_lookup_at ops None m x Add_if_not_found = Some (m', Some pos)"
  shows "length (m_table m') = length (m_table m)"
proof -
  have ne: "m_table m \<noteq> []" using assms(3) by auto
  obtain cmp where cmp: "cmp \<longrightarrow> fst ` set (map_items m) \<subseteq> Collect (o_is_qstr ops) \<and> (o_is_qstr ops x \<or> \<not> o_is_str ops x)"
    "mp_map_lookup_at ops None m x Add_if_not_found = mp_map_lookup_at ops (Some (cmp, o_hash ops x)) m x Add_if_not_found"
    using lookup_entry [OF assms(1) ne] by blast
  show ?thesis
  proof (cases rule: loop_cases [OF assms(1,2) cmp(1), case_names held free full])
    case (held i)
    then show ?thesis using assms(4) cmp(2) by simp
  next
    case (free p)
    then show ?thesis using assms(4) cmp(2) by (auto simp: mp_map_add_at_def)
  next
    case full
    then show ?thesis using assms(1,3) filled_count by (fastforce simp: map_items_def hash_map_inv_def)
  qed
qed

lemma rehash_correct:
  assumes inv: "hash_map_inv ops valid m"
  shows "\<exists>m'. mp_map_rehash (\<lambda>m k. mp_map_lookup_at ops None m k Add_if_not_found) m = Some m' \<and> hash_map_inv ops valid m'
    \<and> mset (map_items m') = mset (map_items m) \<and> length (map_items m') < length (m_table m')"
proof -
  let ?tbl = "m_table m" and ?N = "get_hash_alloc_greater_or_equal_to (length (m_table m) + 1)"
  let ?step = "\<lambda>e m. case e_key e of
      Key k \<Rightarrow> Option.bind (mp_map_lookup_at ops None m k Add_if_not_found)
        (\<lambda>(m, slot). case slot of None \<Rightarrow> None | Some pos \<Rightarrow> Some (set_value pos (e_value e) m))
    | _ \<Rightarrow> Some m"
  let ?m0 = "m\<lparr>m_used := 0, m_all_keys_are_qstrs := True, m_table := replicate ?N empty_elem\<rparr>"
  have N: "length ?tbl < ?N" using get_hash_alloc_ge [of "length ?tbl + 1"] by simp
  have tab: "table_inv ops valid (map e_key ?tbl)" using inv by (simp add: hash_map_inv_def)
  have "\<exists>m1. fold_opt ?step (take n ?tbl) ?m0 = Some m1 \<and> hash_map_inv ops valid m1 \<and> length (m_table m1) = ?N
    \<and> mset (map_items m1) = mset (List.map_filter item (take n ?tbl))" if "n \<le> length ?tbl" for n
    using that
  proof (induction n)
    case 0
    have "List.map_filter item (replicate k empty_elem) = ([] :: ('a \<times> 'a option) list)" for k
      by (induction k) (simp_all add: item_def empty_elem_def)
    then have "map_items ?m0 = []" using inv by (simp add: map_items_def hash_map_inv_def)
    then show ?case using inv by (simp add: hash_map_inv_def map_replicate empty_elem_def table_inv_empty)
  next
    case (Suc n)
    then obtain m1 where m1: "fold_opt ?step (take n ?tbl) ?m0 = Some m1" "hash_map_inv ops valid m1" "length (m_table m1) = ?N"
      "mset (map_items m1) = mset (List.map_filter item (take n ?tbl))" by auto
    have n: "n < length ?tbl" "n < length (m_table m1)" using Suc.prems N m1(3) by simp_all
    show ?case
    proof (cases "\<exists>x. e_key (?tbl ! n) = Key x")
      case False
      then have "?step (?tbl ! n) m1 = Some m1" by (cases "e_key (?tbl ! n)") auto
      then show ?thesis using m1 n(1) item_None [OF False] by (simp add: take_Suc_conv_app_nth fold_opt_append)
    next
      case True
      then obtain x where x: "e_key (?tbl ! n) = Key x" by blast
      obtain m' pos where s: "mp_map_lookup_at ops None m1 x Add_if_not_found = Some (m', Some pos)"
        "hash_map_inv ops valid (set_value pos (e_value (?tbl ! n)) m')"
        "mset (map_items (set_value pos (e_value (?tbl ! n)) m')) = mset (List.map_filter item (take (Suc n) ?tbl))"
        using rehash_step [OF m1(2) tab n(1) m1(4) n(2) x] by blast
      have "length (map_items m1) < length (m_table m1)"
        using mset_eq_length [OF m1(4)] map_filter_length [of item "take n ?tbl"] n by simp
      then have "length (m_table m') = ?N"
        using add_room_length [OF m1(2) _ _ s(1)] table_invD(1) [OF tab, of n x] n(1) x m1(3) by simp
      then show ?thesis using m1(1) s x n(1) by (simp add: take_Suc_conv_app_nth fold_opt_append set_value_def)
    qed
  qed
  from this [of "length ?tbl"] obtain m1 where m1: "fold_opt ?step ?tbl ?m0 = Some m1" "hash_map_inv ops valid m1"
    "length (m_table m1) = ?N" "mset (map_items m1) = mset (List.map_filter item ?tbl)" by auto
  have "List.map_filter item ?tbl = map_items m" using inv by (simp add: map_items_def hash_map_inv_def)
  moreover have "length (map_items m1) < ?N"
    using mset_eq_length [OF m1(4)] map_filter_length [of item ?tbl] N by simp
  ultimately show ?thesis using m1 by (auto simp: mp_map_rehash_def)
qed

section \<open>The operations on hash tables\<close>

text \<open>A lookup returns the slot of the key, and \<open>NULL\<close> if and only if there is no entry for it.\<close>

lemma lookup_find:
  assumes inv: "hash_map_inv ops valid m" and x: "valid x"
  shows "\<exists>r. mp_map_lookup ops m x Lookup = Some (m, r)
    \<and> (case r of Some i \<Rightarrow> holds ops (map_keys m) x i | None \<Rightarrow> \<nexists>i. holds ops (map_keys m) x i)"
    and lookup_remove: "\<exists>r. (case r of
        Some i \<Rightarrow> holds ops (map_keys m) x i \<and> mp_map_lookup ops m x Remove_if_found = Some (mp_map_remove_at m i, Some i)
      | None \<Rightarrow> (\<nexists>i. holds ops (map_keys m) x i) \<and> mp_map_lookup ops m x Remove_if_found = Some (m, None))"
proof -
  let ?cmp = "m_all_keys_are_qstrs m \<and> (o_is_qstr ops x \<or> \<not> o_is_str ops x)"
  have flags: "\<not> m_is_fixed m" "\<not> m_is_ordered m" using inv by (auto simp: hash_map_inv_def)
  have cmp: "?cmp \<longrightarrow> fst ` set (map_items m) \<subseteq> Collect (o_is_qstr ops) \<and> (o_is_qstr ops x \<or> \<not> o_is_str ops x)"
    using inv by (auto simp: hash_map_inv_def)
  have early: "\<nexists>i. holds ops (map_keys m) x i" if "?cmp" "\<not> o_is_qstr ops x"
  proof
    assume "\<exists>i. holds ops (map_keys m) x i"
    then obtain i k where i: "i < length (map_keys m)" "map_keys m ! i = Key k" "o_equal ops k x" by (auto simp: holds_def)
    have "k = x" using hit_equal [OF inv x cmp i(1,2)] i(3) that(1) by blast
    moreover have "(k, e_value (m_table m ! i)) \<in> set (map_items m)" using hash_items_set [OF flags(2)] i by auto
    ultimately show False using cmp that by auto
  qed
  have empty: "\<nexists>i. holds ops (map_keys m) x i" if "m_table m = []" using that by (simp add: holds_def)
  have entry: "mp_map_lookup ops m x kind =
      (if ?cmp \<and> \<not> o_is_qstr ops x \<or> m_table m = [] then Some (m, None)
       else mp_map_lookup_at ops (Some (?cmp, o_hash ops x)) m x kind)" if "kind = Lookup \<or> kind = Remove_if_found" for kind
    using that flags unfolding mp_map_lookup_def by (subst mp_map_lookup_at.simps) (auto simp: Let_def)
  show "\<exists>r. mp_map_lookup ops m x Lookup = Some (m, r)
    \<and> (case r of Some i \<Rightarrow> holds ops (map_keys m) x i | None \<Rightarrow> \<nexists>i. holds ops (map_keys m) x i)"
  proof (cases "?cmp \<and> \<not> o_is_qstr ops x \<or> m_table m = []")
    case True
    then show ?thesis using entry [of Lookup] early empty by (intro exI [of _ None]) auto
  next
    case False
    show ?thesis
      by (cases rule: loop_cases [OF inv x cmp, case_names held free full])
         (use False entry [of Lookup] in \<open>auto simp: open_slot_def\<close>)
  qed
  show "\<exists>r. (case r of
        Some i \<Rightarrow> holds ops (map_keys m) x i \<and> mp_map_lookup ops m x Remove_if_found = Some (mp_map_remove_at m i, Some i)
      | None \<Rightarrow> (\<nexists>i. holds ops (map_keys m) x i) \<and> mp_map_lookup ops m x Remove_if_found = Some (m, None))"
  proof (cases "?cmp \<and> \<not> o_is_qstr ops x \<or> m_table m = []")
    case True
    then show ?thesis using entry [of Remove_if_found] early empty by (intro exI [of _ None]) auto
  next
    case False
    show ?thesis
    proof (cases rule: loop_cases [OF inv x cmp, case_names held free full])
      case (held i)
      then show ?thesis using False entry [of Remove_if_found] by (intro exI [of _ "Some i"]) auto
    next
      case (free pos)
      then show ?thesis using False entry [of Remove_if_found] by (intro exI [of _ None]) (auto simp: open_slot_def)
    next
      case full
      then show ?thesis using False entry [of Remove_if_found] by (intro exI [of _ None]) auto
    qed
  qed
qed

text \<open>An insertion returns, with or without a rehash.\<close>

lemma add_after_rehash:
  assumes inv: "hash_map_inv ops valid m" and x: "valid x" and no: "\<nexists>i. holds ops (map_keys m) x i"
    and cmp: "cmp \<longrightarrow> fst ` set (map_items m) \<subseteq> Collect (o_is_qstr ops) \<and> (o_is_qstr ops x \<or> \<not> o_is_str ops x)"
  shows "add_result ops valid m x
    (Option.bind (mp_map_rehash (\<lambda>m k. mp_map_lookup_at ops None m k Add_if_not_found) m)
       (\<lambda>m. mp_map_lookup_at ops (Some (cmp, o_hash ops x)) m x Add_if_not_found))"
proof -
  obtain m' where m': "mp_map_rehash (\<lambda>m k. mp_map_lookup_at ops None m k Add_if_not_found) m = Some m'" "hash_map_inv ops valid m'"
    "mset (map_items m') = mset (map_items m)" "length (map_items m') < length (m_table m')"
    using rehash_correct [OF inv] by blast
  have set_eq: "set (map_items m') = set (map_items m)" using m'(3) by (rule mset_eq_setD)
  have no': "\<nexists>i. holds ops (map_keys m') x i" using no unfolding holds_item [OF inv] holds_item [OF m'(2)] set_eq .
  have "add_result ops valid m' x (mp_map_lookup_at ops (Some (cmp, o_hash ops x)) m' x Add_if_not_found)"
    using add_room [OF m'(2) x _ m'(4)] cmp by (simp add: set_eq)
  then show ?thesis using m'(1,3) no no' by (auto simp: add_result_def)
qed

lemma lookup_add:
  assumes inv: "hash_map_inv ops valid m" and x: "valid x"
  shows "add_result ops valid m x (mp_map_lookup ops m x Add_if_not_found)"
proof (cases "m_table m = []")
  case True
  let ?cmp = "m_all_keys_are_qstrs m \<and> (o_is_qstr ops x \<or> \<not> o_is_str ops x)"
  have "mp_map_lookup ops m x Add_if_not_found =
      Option.bind (mp_map_rehash (\<lambda>m k. mp_map_lookup_at ops None m k Add_if_not_found) m)
        (\<lambda>m. mp_map_lookup_at ops (Some (?cmp, o_hash ops x)) m x Add_if_not_found)"
    using True inv unfolding mp_map_lookup_def by (subst mp_map_lookup_at.simps) (simp add: Let_def hash_map_inv_def)
  moreover have "\<nexists>i. holds ops (map_keys m) x i" using True by (simp add: holds_def)
  ultimately show ?thesis using add_after_rehash [OF inv x, of ?cmp] inv by (simp add: hash_map_inv_def)
next
  case False
  obtain cmp where cmp: "cmp \<longrightarrow> fst ` set (map_items m) \<subseteq> Collect (o_is_qstr ops) \<and> (o_is_qstr ops x \<or> \<not> o_is_str ops x)"
    "mp_map_lookup ops m x Add_if_not_found = mp_map_lookup_at ops (Some (cmp, o_hash ops x)) m x Add_if_not_found"
    using lookup_entry [OF inv False] unfolding mp_map_lookup_def by blast
  show ?thesis
  proof (cases rule: loop_cases [OF inv x cmp(1), case_names held free full])
    case (held i)
    then show ?thesis using inv cmp(2) by (auto simp: add_result_def)
  next
    case (free pos)
    then show ?thesis using add_at [OF inv x] cmp(2) by simp
  next
    case full
    then show ?thesis using add_after_rehash [OF inv x _ cmp(1)] cmp(2) by simp
  qed
qed

end

section \<open>Ordered arrays\<close>

definition ordered_map_inv :: "'o obj_ops \<Rightarrow> ('o \<Rightarrow> bool) \<Rightarrow> 'o mp_map \<Rightarrow> bool" where
  "ordered_map_inv ops valid m \<longleftrightarrow> m_is_ordered m \<and> m_used m \<le> length (m_table m)
     \<and> (\<forall>e \<in> set (take (m_used m) (m_table m)). \<exists>k. e_key e = Key k \<and> valid k)
     \<and> sorted_wrt (\<lambda>k l. \<not> o_equal ops k l) (map fst (map_items m))
     \<and> (m_all_keys_are_qstrs m \<longrightarrow> fst ` set (map_items m) \<subseteq> Collect (o_is_qstr ops))"

lemma ordered_items:
  assumes "ordered_map_inv ops valid m"
  shows "length (map_items m) = m_used m" "i < m_used m \<Longrightarrow> item (m_table m ! i) = Some (map_items m ! i)"
proof -
  let ?T = "take (m_used m) (m_table m)"
  have "\<exists>k. e_key e = Key k" if "e \<in> set ?T" for e using assms that by (auto simp: ordered_map_inv_def)
  then have all: "\<exists>kv. item e = Some kv" if "e \<in> set ?T" for e using that by force
  have mi: "map_items m = List.map_filter item ?T" using assms by (simp add: map_items_def ordered_map_inv_def)
  have eq: "map Some (List.map_filter item xs) = map item xs" if "\<forall>e \<in> set xs. \<exists>kv. item e = Some kv" for xs :: "'a mp_map_elem list"
    using that by (induction xs) (auto simp: List.map_filter_def)
  have m: "map Some (map_items m) = map item ?T" unfolding mi by (rule eq) (use all in blast)
  have used: "m_used m \<le> length (m_table m)" using assms by (simp add: ordered_map_inv_def)
  show len: "length (map_items m) = m_used m" using arg_cong [OF m, of length] used by simp
  show "item (m_table m ! i) = Some (map_items m ! i)" if "i < m_used m"
    using arg_cong [OF m, of "\<lambda>xs. xs ! i"] that len used by simp
qed

lemma find_index_Some:
  assumes "find P [0..<n] = Some i"
  shows "i < n" "P i" "\<forall>j < i. \<not> P j"
  using assms by (auto simp: find_Some_iff)

context hash_keys
begin

text \<open>The search of an ordered array finds the first entry with an equal key.\<close>

lemma ordered_find:
  assumes inv: "ordered_map_inv ops valid m" and x: "valid x"
    and cmp: "cmp \<longrightarrow> fst ` set (map_items m) \<subseteq> Collect (o_is_qstr ops) \<and> (o_is_qstr ops x \<or> \<not> o_is_str ops x)"
    and i: "i < m_used m"
  shows "(case e_key (m_table m ! i) of Key k \<Rightarrow> k = x \<or> (\<not> cmp \<and> o_equal ops k x) | _ \<Rightarrow> \<not> cmp)
    \<longleftrightarrow> o_equal ops (fst (map_items m ! i)) x"
proof -
  note oi = ordered_items [OF inv]
  obtain k v where kv: "map_items m ! i = (k, v)" by fastforce
  then have key: "e_key (m_table m ! i) = Key k" using oi(2) [OF i] by (simp add: item_iff)
  have "m_table m ! i \<in> set (take (m_used m) (m_table m))" using i inv by (auto simp: ordered_map_inv_def in_set_conv_nth)
  then have v: "valid k" using inv key by (fastforce simp: ordered_map_inv_def)
  have "(k, v) \<in> set (map_items m)" using kv i oi(1) nth_mem by metis
  then have "cmp \<Longrightarrow> o_is_qstr ops k" using cmp by auto
  then show ?thesis
    using key kv cmp equal_refl [OF x] qstr_identity [OF v x] qstr_equal_str [OF v x] by auto
qed

lemma ordered_remove:
  assumes inv: "ordered_map_inv ops valid m" and i: "i < m_used m"
  defines "u \<equiv> m_used m - 1"
  defines "m' \<equiv> m\<lparr>m_used := u, m_table := (take i (m_table m) @ take (u - i) (drop (i + 1) (m_table m)) @ drop u (m_table m))
      [u := \<lparr>e_key = Null, e_value = e_value (m_table m ! i)\<rparr>]\<rparr>"
  shows "\<exists>as kv bs. map_items m = as @ kv # bs \<and> length as = i \<and> map_items m' = as @ bs \<and> e_value (m_table m' ! u) = snd kv"
    "ordered_map_inv ops valid m'"
proof -
  let ?t = "m_table m"
  define A B where "A = take i ?t" and "B = take (u - i) (drop (i + 1) ?t)"
  obtain kv where kv: "item (?t ! i) = Some kv" using ordered_items(2) [OF inv i] by blast
  have o: "m_is_ordered m" "m_used m \<le> length ?t" using inv by (auto simp: ordered_map_inv_def)
  have len: "length (A @ B) = u" "u < length ?t" using i o(2) by (auto simp: u_def A_def B_def)
  have m': "m_table m' = (A @ B @ drop u ?t)[u := \<lparr>e_key = Null, e_value = e_value (?t ! i)\<rparr>]" "m_used m' = u" "m_is_ordered m'"
    "m_all_keys_are_qstrs m' = m_all_keys_are_qstrs m" using o(1) by (simp_all add: m'_def A_def B_def)
  have t': "take u (m_table m') = A @ B" using len by (simp add: m')
  have "m_used m = i + Suc (u - i)" using i by (simp add: u_def)
  then have "take (m_used m) ?t = A @ take (Suc (u - i)) (drop i ?t)" by (simp only: take_add A_def)
  then have split: "take (m_used m) ?t = A @ ?t ! i # B" using i o(2) by (simp add: Cons_nth_drop_Suc [symmetric] B_def)
  have m: "map_items m = List.map_filter item A @ kv # List.map_filter item B"
    using o(1) kv by (simp add: map_items_def split)
  have items: "map_items m' = List.map_filter item A @ List.map_filter item B"
    unfolding map_items_def using m'(2,3) t' by simp
  have "\<forall>e \<in> set A. \<exists>k. e_key e = Key k" using inv split by (auto simp: ordered_map_inv_def)
  then have "length (List.map_filter item A) = i" using filled_count [of A] i o(2) by (simp add: A_def)
  moreover have "e_value (m_table m' ! u) = snd kv" using len kv by (cases kv) (simp add: m' item_iff)
  ultimately show "\<exists>as kv bs. map_items m = as @ kv # bs \<and> length as = i \<and> map_items m' = as @ bs \<and> e_value (m_table m' ! u) = snd kv"
    using m items by blast
  have "u \<le> length (m_table m')" using len by (simp add: m')
  then show "ordered_map_inv ops valid m'"
    using inv o(1) unfolding ordered_map_inv_def m'(2,4) t' split m items by (auto simp: sorted_wrt_append m'(3))
qed

lemma ordered_add:
  assumes inv: "ordered_map_inv ops valid m" and x: "valid x" and new: "\<forall>kv \<in> set (map_items m). \<not> o_equal ops (fst kv) x"
  defines "t \<equiv> (if m_used m = length (m_table m) then m_table m @ replicate 4 empty_elem else m_table m)"
  defines "m' \<equiv> m\<lparr>m_used := m_used m + 1, m_table := t[m_used m := (t ! m_used m)\<lparr>e_key := Key x\<rparr>],
    m_all_keys_are_qstrs := m_all_keys_are_qstrs m \<and> o_is_qstr ops x\<rparr>"
  shows "map_items m' = map_items m @ [(x, e_value (t ! m_used m))]" "ordered_map_inv ops valid m'"
proof -
  have o: "m_is_ordered m" "m_used m \<le> length (m_table m)" using inv by (auto simp: ordered_map_inv_def)
  have t: "m_used m < length t" "take (m_used m) t = take (m_used m) (m_table m)" using o(2) by (auto simp: t_def)
  have m': "m_table m' = t[m_used m := (t ! m_used m)\<lparr>e_key := Key x\<rparr>]" "m_used m' = Suc (m_used m)" "m_is_ordered m'"
    "m_all_keys_are_qstrs m' = (m_all_keys_are_qstrs m \<and> o_is_qstr ops x)" using o(1) by (simp_all add: m'_def)
  have take': "take (Suc (m_used m)) (m_table m') = take (m_used m) (m_table m) @ [(t ! m_used m)\<lparr>e_key := Key x\<rparr>]"
    using t by (simp add: m' take_Suc_conv_app_nth)
  show items: "map_items m' = map_items m @ [(x, e_value (t ! m_used m))]"
    using o(1) m'(2,3) take' by (simp add: map_items_def)
  have "m_used m' \<le> length (m_table m')" using t(1) by (simp add: m')
  then show "ordered_map_inv ops valid m'"
    using inv x new unfolding ordered_map_inv_def m'(2,4) take' items by (auto simp: sorted_wrt_append m'(3))
qed

text \<open>The outcomes of the three kinds of lookup.\<close>

lemma ordered_cases:
  assumes inv: "ordered_map_inv ops valid m" and x: "valid x"
    and cmp: "cmp \<longrightarrow> fst ` set (map_items m) \<subseteq> Collect (o_is_qstr ops) \<and> (o_is_qstr ops x \<or> \<not> o_is_str ops x)"
  defines "R \<equiv> mp_map_lookup_ordered ops cmp m x"
  obtains (held) as k v bs m' where "map_items m = as @ (k, v) # bs" "o_equal ops k x"
      "R Lookup = Some (m, Some (length as))" "R Add_if_not_found = Some (m, Some (length as))"
      "R Remove_if_found = Some (m', Some (length (as @ bs)))" "ordered_map_inv ops valid m'" "map_items m' = as @ bs"
      "e_value (m_table m' ! length (as @ bs)) = v" "e_value (m_table m ! length as) = v"
      "m_is_fixed m' = m_is_fixed m" "m_used m' = length (as @ bs)"
      "\<forall>j. length (as @ bs) < j \<and> j < length (m_table m') \<longrightarrow> m_table m' ! j = m_table m ! j" "length (m_table m') = length (m_table m)"
    | (absent) m' v where "\<forall>kv \<in> set (map_items m). \<not> o_equal ops (fst kv) x" "R Lookup = Some (m, None)" "R Remove_if_found = Some (m, None)"
      "R Add_if_not_found = Some (m', Some (length (map_items m)))" "ordered_map_inv ops valid m'" "map_items m' = map_items m @ [(x, v)]"
      "m_is_fixed m' = m_is_fixed m" "m_used m' = Suc (m_used m)" "v = e_value (m_table m' ! length (map_items m))"
      "\<forall>j. m_used m \<le> j \<and> j < length (m_table m') \<longrightarrow>
         e_value (m_table m' ! j) = (if j < length (m_table m) then e_value (m_table m ! j) else None)"
proof -
  let ?P = "\<lambda>i. case e_key (m_table m ! i) of Key k \<Rightarrow> k = x \<or> (\<not> cmp \<and> o_equal ops k x) | _ \<Rightarrow> \<not> cmp"
  note oi = ordered_items [OF inv]
  show thesis
  proof (cases "find ?P [0..<m_used m]")
    case None
    then have "\<not> o_equal ops (fst (map_items m ! i)) x" if "i < m_used m" for i
      using that ordered_find [OF inv x cmp that] by (auto simp: find_None_iff)
    then have new: "\<forall>kv \<in> set (map_items m). \<not> o_equal ops (fst kv) x" using oi(1) by (metis in_set_conv_nth)
    note add = ordered_add [OF inv x new]
    have len: "m_used m \<le> length (m_table m)" using inv by (simp add: ordered_map_inv_def)
    show thesis
      by (rule absent [OF new _ _ _ add(2) add(1)])
         (use len in \<open>auto simp: R_def mp_map_lookup_ordered_def None Let_def oi(1) nth_list_update nth_append empty_elem_def\<close>)
  next
    case (Some i)
    note f = find_index_Some [OF Some]
    have eq: "o_equal ops (fst (map_items m ! i)) x" using ordered_find [OF inv x cmp f(1)] f(2) by blast
    note rem = ordered_remove [OF inv f(1)]
    from rem(1) obtain as kv bs where ab: "map_items m = as @ kv # bs" "length as = i"
      "map_items (m\<lparr>m_used := m_used m - 1, m_table := (take i (m_table m) @ take (m_used m - 1 - i) (drop (i + 1) (m_table m)) @ drop (m_used m - 1) (m_table m))
        [m_used m - 1 := \<lparr>e_key = Null, e_value = e_value (m_table m ! i)\<rparr>]\<rparr>) = as @ bs" by blast
    have kv: "map_items m ! i = kv" "m_used m - 1 = length (as @ bs)" "m_used m - Suc i = length bs" using ab oi(1) by (auto simp: nth_append)
    have item: "item (m_table m ! i) = Some kv" using oi(2) [OF f(1)] kv(1) by simp
    have ev: "e_value (m_table m ! length as) = snd kv" using item ab(2) by (cases kv) (simp add: item_iff)
    have len: "m_used m - 1 < length (m_table m)" "i < length (m_table m)" using f(1) inv by (auto simp: ordered_map_inv_def)
    have filled: "mp_map_slot_is_filled m i" using item by (cases kv) (simp add: item_iff mp_map_slot_is_filled_def)
    show thesis
      by (rule held [of as "fst kv" "snd kv" bs, OF _ _ _ _ _ rem(2)])
         (use ab eq kv ev len f(1) filled in \<open>simp_all add: R_def mp_map_lookup_ordered_def Some Let_def nth_append\<close>, auto)
  qed
qed

text \<open>The early return of \<open>mp_map_lookup\<close> gives what the search would give.\<close>

lemma lookup_ordered:
  assumes inv: "ordered_map_inv ops valid m" and x: "valid x" and kind: "kind = Lookup \<or> \<not> m_is_fixed m"
    "kind \<noteq> Add_if_not_found_or_remove_if_found"
  shows "\<exists>cmp. (cmp \<longrightarrow> fst ` set (map_items m) \<subseteq> Collect (o_is_qstr ops) \<and> (o_is_qstr ops x \<or> \<not> o_is_str ops x))
    \<and> mp_map_lookup ops m x kind = mp_map_lookup_ordered ops cmp m x kind"
proof -
  let ?cmp = "m_all_keys_are_qstrs m \<and> (o_is_qstr ops x \<or> \<not> o_is_str ops x)"
  have cmp: "?cmp \<longrightarrow> fst ` set (map_items m) \<subseteq> Collect (o_is_qstr ops) \<and> (o_is_qstr ops x \<or> \<not> o_is_str ops x)"
    and o: "m_is_ordered m" using inv by (auto simp: ordered_map_inv_def)
  have early: "mp_map_lookup_ordered ops ?cmp m x kind = Some (m, None)" if e: "?cmp" "\<not> o_is_qstr ops x" "kind \<noteq> Add_if_not_found"
  proof (cases rule: ordered_cases [OF inv x cmp, case_names held absent])
    case (held as k v bs m')
    then have "(k, v) \<in> set (map_items m)" by simp
    moreover from this have "valid k" using inv by (auto simp: ordered_map_inv_def map_items_def map_filter_set item_iff)
    ultimately have "o_is_qstr ops x \<or> o_is_str ops x" using cmp e(1) qstr_equal_str [OF _ x _ held(2)] by auto
    then show ?thesis using e(1,2) by blast
  next
    case (absent m' v)
    then show ?thesis using e(3) kind(2) by (cases kind) simp_all
  qed
  show ?thesis using cmp o kind early unfolding mp_map_lookup_def
    by (intro exI [of _ ?cmp] conjI) (simp, subst mp_map_lookup_at.simps, auto simp: Let_def)
qed

end

end
