(* ===== verification/Mp_Set.thy ===== *)
theory Mp_Set
  imports Mp_Map
begin

text \<open>
  The tables of \<open>src/py/map.c\<close> that hold sets: the open-addressing table of the maps without values,
  whose lookup may add a missing element, remove a present one, or do both (toggle). The lemmas
  show that every lookup returns, and what it does to the multiset of elements for each of the
  four kinds of lookup.
\<close>

section \<open>Set tables\<close>

text \<open>\<open>alloc\<close> is the length of the table.\<close>

record 'o mp_set =
  s_used :: nat
  s_table :: "'o slot list"

text \<open>The two bits of \<open>mp_map_lookup_kind_t\<close>.\<close>

definition adds :: "mp_map_lookup_kind \<Rightarrow> bool" where
  "adds kind = (kind = Add_if_not_found \<or> kind = Add_if_not_found_or_remove_if_found)"

definition removes :: "mp_map_lookup_kind \<Rightarrow> bool" where
  "removes kind = (kind = Remove_if_found \<or> kind = Add_if_not_found_or_remove_if_found)"

definition mp_set_slot_is_filled :: "'o mp_set \<Rightarrow> nat \<Rightarrow> bool" where
  "mp_set_slot_is_filled s pos = (s_table s ! pos \<noteq> Null \<and> s_table s ! pos \<noteq> Sentinel)"

definition mp_set_init :: "nat \<Rightarrow> 'o mp_set" where
  "mp_set_init n = \<lparr>s_used = 0, s_table = replicate n Null\<rparr>"

definition mp_set_clear :: "'o mp_set \<Rightarrow> 'o mp_set" where
  "mp_set_clear s = s\<lparr>s_used := 0, s_table := []\<rparr>"

text \<open>\<open>mp_set_rehash\<close>, where \<open>lookup_add\<close> is \<open>mp_set_lookup\<close> with \<open>MP_MAP_LOOKUP_ADD_IF_NOT_FOUND\<close>.\<close>

definition mp_set_rehash ::
  "('o mp_set \<Rightarrow> 'o \<Rightarrow> ('o mp_set \<times> 'o option) option) \<Rightarrow> 'o mp_set \<Rightarrow> 'o mp_set option" where
  "mp_set_rehash lookup_add s =
     fold_opt (\<lambda>e s. case e of Key k \<Rightarrow> map_option fst (lookup_add s k) | _ \<Rightarrow> Some s)
       (s_table s)
       (s\<lparr>s_used := 0, s_table := replicate (get_hash_alloc_greater_or_equal_to (length (s_table s) + 1)) Null\<rparr>)"

lemma map_option_bind: "map_option f x = Option.bind x (\<lambda>y. Some (f y))"
  by (cases x) simp_all

lemma mp_set_rehash_mono [partial_function_mono]:
  assumes "\<And>s k. mono_option (\<lambda>g. L g s k)"
  shows "mono_option (\<lambda>g. mp_set_rehash (L g) s)"
  unfolding mp_set_rehash_def
proof (rule fold_opt_mono)
  fix e :: "'a slot" and s
  show "mono_option (\<lambda>g. case e of Key k \<Rightarrow> map_option fst (L g s k) | _ \<Rightarrow> Some s)"
    using assms by (cases e) (auto simp: map_option_bind intro: bind_mono option.const_mono)
qed

definition mp_set_add_at :: "'o mp_set \<Rightarrow> nat \<Rightarrow> 'o \<Rightarrow> 'o mp_set" where
  "mp_set_add_at s pos index = s\<lparr>s_used := s_used s + 1, s_table := (s_table s)[pos := Key index]\<rparr>"

definition mp_set_remove_at :: "'o mp_set \<Rightarrow> nat \<Rightarrow> 'o mp_set" where
  "mp_set_remove_at s pos = s\<lparr>s_used := s_used s - 1, s_table := (s_table s)[pos := clear_slot (s_table s) pos]\<rparr>"

definition slot_key :: "'o slot \<Rightarrow> 'o option" where
  "slot_key e = (case e of Key k \<Rightarrow> Some k | _ \<Rightarrow> None)"

text \<open>
  \<open>mp_set_lookup\<close>. The argument \<open>resume\<close> is \<open>None\<close> at the entry of the function, and holds the hash when
  the search loop starts or restarts. The result is an element or \<open>MP_OBJ_NULL\<close>.
\<close>

partial_function (option) mp_set_lookup_at ::
  "'o obj_ops \<Rightarrow> mp_uint_t option \<Rightarrow> 'o mp_set \<Rightarrow> 'o \<Rightarrow> mp_map_lookup_kind \<Rightarrow> ('o mp_set \<times> 'o option) option" where
  "mp_set_lookup_at ops resume s index kind =
     (case resume of
        None \<Rightarrow>
          if s_table s = [] then
            if adds kind then
              Option.bind (mp_set_rehash (\<lambda>s k. mp_set_lookup_at ops None s k Add_if_not_found) s)
                (\<lambda>s. mp_set_lookup_at ops (Some (o_hash ops index)) s index kind)
            else Some (s, None)
          else mp_set_lookup_at ops (Some (o_hash ops index)) s index kind
      | Some hash \<Rightarrow>
          (let alloc = length (s_table s)
           in case probe (\<lambda>elem. o_equal ops elem index) (s_table s) None (probe_order (unat hash mod alloc) alloc) of
                Found pos \<Rightarrow> Some (if removes kind then mp_set_remove_at s pos else s, slot_key (s_table s ! pos))
              | Free pos \<Rightarrow> Some (if adds kind then (mp_set_add_at s pos index, Some index) else (s, None))
              | Wrapped (Some pos) \<Rightarrow> Some (if adds kind then (mp_set_add_at s pos index, Some index) else (s, None))
              | Wrapped None \<Rightarrow>
                  if adds kind then
                    Option.bind (mp_set_rehash (\<lambda>s k. mp_set_lookup_at ops None s k Add_if_not_found) s)
                      (\<lambda>s. mp_set_lookup_at ops (Some hash) s index kind)
                  else Some (s, None)))"

declare mp_set_lookup_at.simps [code]

definition mp_set_lookup ::
  "'o obj_ops \<Rightarrow> 'o mp_set \<Rightarrow> 'o \<Rightarrow> mp_map_lookup_kind \<Rightarrow> ('o mp_set \<times> 'o option) option" where
  "mp_set_lookup ops s index kind = mp_set_lookup_at ops None s index kind"

definition mp_set_remove_first :: "'o mp_set \<Rightarrow> 'o mp_set \<times> 'o option" where
  "mp_set_remove_first s =
     (case find (mp_set_slot_is_filled s) [0..<length (s_table s)] of
        None \<Rightarrow> (s, None)
      | Some pos \<Rightarrow> (mp_set_remove_at s pos, slot_key (s_table s ! pos)))"

section \<open>The elements of a set\<close>

definition set_items :: "'o mp_set \<Rightarrow> 'o list" where
  "set_items s = List.map_filter slot_key (s_table s)"

definition set_inv :: "'o obj_ops \<Rightarrow> ('o \<Rightarrow> bool) \<Rightarrow> 'o mp_set \<Rightarrow> bool" where
  "set_inv ops valid s \<longleftrightarrow> table_inv ops valid (s_table s) \<and> s_used s = length (set_items s)"

text \<open>What a lookup of the given kind does.\<close>

definition lookup_result ::
  "'o obj_ops \<Rightarrow> ('o \<Rightarrow> bool) \<Rightarrow> mp_map_lookup_kind \<Rightarrow> 'o mp_set \<Rightarrow> 'o \<Rightarrow> ('o mp_set \<times> 'o option) option \<Rightarrow> bool" where
  "lookup_result ops valid kind s x res \<longleftrightarrow>
     (\<exists>s' r. res = Some (s', r) \<and> set_inv ops valid s'
       \<and> (case r of
            None \<Rightarrow> \<not> adds kind \<and> s' = s \<and> (\<nexists>i. holds ops (s_table s) x i)
          | Some k \<Rightarrow>
              if \<exists>i. holds ops (s_table s) x i
              then o_equal ops k x \<and> k \<in> set (set_items s)
                \<and> (if removes kind then mset (set_items s) = add_mset k (mset (set_items s')) else s' = s)
              else adds kind \<and> k = x \<and> mset (set_items s') = add_mset x (mset (set_items s))))"

lemma slot_key_simps [simp]: "slot_key Null = None" "slot_key Sentinel = None" "slot_key (Key k) = Some k"
  by (simp_all add: slot_key_def)

lemma slot_key_iff: "slot_key e = Some k \<longleftrightarrow> e = Key k"
  by (cases e) simp_all

lemma slot_key_None: "\<nexists>k. e = Key k \<Longrightarrow> slot_key e = None"
  by (cases e) simp_all

lemma set_items_set: "set (set_items s) = {k. \<exists>i < length (s_table s). s_table s ! i = Key k}"
  by (auto simp: set_items_def map_filter_set slot_key_iff in_set_conv_nth)

lemma set_items_empty [simp]: "set_items \<lparr>s_used = u, s_table = replicate n Null\<rparr> = []"
  by (induction n) (simp_all add: set_items_def)

lemma set_inv_init: "set_inv ops valid (mp_set_init n)"
  by (simp add: mp_set_init_def set_inv_def table_inv_empty)

lemma set_inv_clear: "set_inv ops valid (mp_set_clear s)" "set_items (mp_set_clear s) = []"
  by (simp_all add: mp_set_clear_def set_inv_def set_items_def table_inv_def)

lemma holds_set_item: "(\<exists>i. holds ops (s_table s) x i) \<longleftrightarrow> (\<exists>k \<in> set (set_items s). o_equal ops k x)"
  by (auto simp: set_items_set holds_def)

lemma full_count:
  assumes "\<forall>i < length xs. \<exists>k. xs ! i = Key k"
  shows "length (List.map_filter slot_key xs) = length xs"
proof -
  have "\<forall>e \<in> set xs. \<exists>k. e = Key k" using assms by (simp add: all_set_conv_all_nth)
  then show ?thesis by (induction xs) (auto simp: List.map_filter_def)
qed

section \<open>Lookup in a set table\<close>

context hash_keys
begin

lemma set_add_at:
  assumes inv: "set_inv ops valid s" and x: "valid x" and pos: "open_slot ops (s_table s) x pos" and kind: "adds kind"
  shows "lookup_result ops valid kind s x (Some (mp_set_add_at s pos x, Some x))"
proof -
  let ?s = "mp_set_add_at s pos x"
  have p: "pos < length (s_table s)" "slot_key (s_table s ! pos) = None" "\<nexists>i. holds ops (s_table s) x i"
    using pos slot_key_None by (auto simp: open_slot_def)
  have items: "mset (set_items ?s) = add_mset x (mset (set_items s))"
    using mset_map_filter_update [OF p(1), of slot_key "Key x"] p(2) by (simp add: set_items_def mp_set_add_at_def)
  have "length (set_items ?s) = Suc (length (set_items s))" using arg_cong [OF items, of size] by simp
  then have "set_inv ops valid ?s" using inv fill_inv [OF _ x pos] by (simp add: set_inv_def mp_set_add_at_def)
  then show ?thesis using items p(3) kind unfolding lookup_result_def by auto
qed

lemma set_remove_at:
  assumes inv: "set_inv ops valid s" and pos: "pos < length (s_table s)" "s_table s ! pos = Key k"
  shows "set_inv ops valid (mp_set_remove_at s pos)"
    "mset (set_items s) = add_mset k (mset (set_items (mp_set_remove_at s pos)))"
proof -
  let ?s = "mp_set_remove_at s pos"
  have nk: "slot_key (clear_slot (s_table s) pos) = None" by (simp add: clear_slot_def)
  show items: "mset (set_items s) = add_mset k (mset (set_items ?s))"
    using mset_map_filter_update [OF pos(1), of slot_key "clear_slot (s_table s) pos"] pos(2) nk
    by (simp add: set_items_def mp_set_remove_at_def)
  have "length (set_items s) = Suc (length (set_items ?s))" using arg_cong [OF items, of size] by simp
  moreover have "s_used ?s = s_used s - 1" "s_table ?s = (s_table s)[pos := clear_slot (s_table s) pos]"
    by (simp_all add: mp_set_remove_at_def)
  ultimately show "set_inv ops valid ?s" using inv clear_inv [OF _ pos(1)] by (simp add: set_inv_def)
qed

lemma set_held:
  assumes inv: "set_inv ops valid s" and h: "holds ops (s_table s) x pos"
  shows "lookup_result ops valid kind s x
    (Some (if removes kind then mp_set_remove_at s pos else s, slot_key (s_table s ! pos)))"
proof -
  obtain k where k: "pos < length (s_table s)" "s_table s ! pos = Key k" "o_equal ops k x" using h by (auto simp: holds_def)
  then have "k \<in> set (set_items s)" by (auto simp: set_items_set)
  then show ?thesis using h k inv set_remove_at [OF inv k(1,2)] by (auto simp: lookup_result_def)
qed

text \<open>The search loop: a result without rehash, or a full table.\<close>

lemma set_loop_cases:
  assumes inv: "set_inv ops valid s" and x: "valid x"
  defines "L \<equiv> mp_set_lookup_at ops (Some (o_hash ops x)) s x"
  obtains (result) "lookup_result ops valid kind s x (L kind)" "\<exists>s' r. L kind = Some (s', r) \<and> length (s_table s') = length (s_table s)"
    | (full) "adds kind" "\<nexists>i. holds ops (s_table s) x i" "length (set_items s) = length (s_table s)"
      "L kind = Option.bind (mp_set_rehash (\<lambda>s k. mp_set_lookup_at ops None s k Add_if_not_found) s)
         (\<lambda>s. mp_set_lookup_at ops (Some (o_hash ops x)) s x kind)"
proof -
  let ?r = "probe (\<lambda>k. o_equal ops k x) (s_table s) None (search_order ops (s_table s) x)"
  have t: "table_inv ops valid (s_table s)" using inv by (simp add: set_inv_def)
  note pc = probe_correct [OF t x, of "\<lambda>k. o_equal ops k x", OF refl]
  have L: "L kind = (case ?r of
      Found pos \<Rightarrow> Some (if removes kind then mp_set_remove_at s pos else s, slot_key (s_table s ! pos))
    | Free pos \<Rightarrow> Some (if adds kind then (mp_set_add_at s pos x, Some x) else (s, None))
    | Wrapped (Some pos) \<Rightarrow> Some (if adds kind then (mp_set_add_at s pos x, Some x) else (s, None))
    | Wrapped None \<Rightarrow> if adds kind then
          Option.bind (mp_set_rehash (\<lambda>s k. mp_set_lookup_at ops None s k Add_if_not_found) s)
            (\<lambda>s. mp_set_lookup_at ops (Some (o_hash ops x)) s x kind)
        else Some (s, None))"
    unfolding L_def by (subst mp_set_lookup_at.simps) (simp add: Let_def search_order_def hash_start_def)
  have len: "length (s_table (mp_set_add_at s pos x)) = length (s_table s)"
    "length (s_table (mp_set_remove_at s pos)) = length (s_table s)" for pos
    by (simp_all add: mp_set_add_at_def mp_set_remove_at_def)
  have unfilled: "thesis" if o: "open_slot ops (s_table s) x pos"
    and Lk: "L kind = Some (if adds kind then (mp_set_add_at s pos x, Some x) else (s, None))" for pos
  proof (rule result)
    show "lookup_result ops valid kind s x (L kind)"
      using set_add_at [OF inv x o] Lk inv o by (cases "adds kind") (auto simp: lookup_result_def open_slot_def)
  qed (simp add: Lk len)
  show thesis
  proof (cases ?r)
    case (Found pos)
    then show thesis using pc set_held [OF inv, of x pos kind] by (intro result) (simp_all add: L len)
  next
    case (Free pos)
    then show thesis using pc by (intro unfilled [of pos]) (simp_all add: L)
  next
    case (Wrapped a)
    show thesis
    proof (cases a)
      case None
      then have no: "\<nexists>i. holds ops (s_table s) x i" and "\<forall>i < length (s_table s). \<exists>k. s_table s ! i = Key k"
        using pc Wrapped by simp_all
      then have "length (set_items s) = length (s_table s)" using full_count by (simp add: set_items_def)
      then show thesis using no Wrapped None full result inv by (cases "adds kind") (simp_all add: L lookup_result_def)
    next
      case (Some pos)
      then show thesis using pc Wrapped by (intro unfilled [of pos]) (simp_all add: L)
    qed
  qed
qed

text \<open>A lookup in a table with an unfilled slot does not rehash.\<close>

lemma set_room:
  assumes inv: "set_inv ops valid s" and x: "valid x" and room: "length (set_items s) < length (s_table s)"
  shows "mp_set_lookup_at ops None s x kind = mp_set_lookup_at ops (Some (o_hash ops x)) s x kind"
    "lookup_result ops valid kind s x (mp_set_lookup_at ops (Some (o_hash ops x)) s x kind)"
    "\<exists>s' r. mp_set_lookup_at ops (Some (o_hash ops x)) s x kind = Some (s', r) \<and> length (s_table s') = length (s_table s)"
proof -
  have "s_table s \<noteq> []" using room by auto
  then show "mp_set_lookup_at ops None s x kind = mp_set_lookup_at ops (Some (o_hash ops x)) s x kind"
    by (subst mp_set_lookup_at.simps) simp
  show "lookup_result ops valid kind s x (mp_set_lookup_at ops (Some (o_hash ops x)) s x kind)"
    "\<exists>s' r. mp_set_lookup_at ops (Some (o_hash ops x)) s x kind = Some (s', r) \<and> length (s_table s') = length (s_table s)"
    by (cases rule: set_loop_cases [OF inv x, of kind]; use room in simp)+
qed

text \<open>A rehash returns: every element goes into the larger table, which never gets full.\<close>

lemma set_rehash_step:
  assumes inv: "set_inv ops valid s" and tab: "table_inv ops valid tbl" and n: "n < length tbl"
    and items: "mset (set_items s) = mset (List.map_filter slot_key (take n tbl))" and room: "n < length (s_table s)"
    and key: "tbl ! n = Key x"
  shows "\<exists>s' r. mp_set_lookup_at ops None s x Add_if_not_found = Some (s', r) \<and> set_inv ops valid s'
    \<and> mset (set_items s') = mset (List.map_filter slot_key (take (Suc n) tbl)) \<and> length (s_table s') = length (s_table s)"
proof -
  have x: "valid x" using table_invD(1) [OF tab n key] .
  have "length (set_items s) \<le> n"
    using mset_eq_length [OF items] map_filter_length [of slot_key "take n tbl"] n by simp
  then have lt: "length (set_items s) < length (s_table s)" using room by simp
  note r = set_room [OF inv x lt, of Add_if_not_found]
  have no: "\<nexists>i. holds ops (s_table s) x i"
  proof
    assume "\<exists>i. holds ops (s_table s) x i"
    then obtain k where k: "k \<in> set (set_items s)" "o_equal ops k x" unfolding holds_set_item by blast
    then have "k \<in> set (List.map_filter slot_key (take n tbl))" using arg_cong [OF items, of set_mset] by simp
    then obtain j where j: "j < n" "tbl ! j = Key k" using n by (auto simp: map_filter_set slot_key_iff in_set_conv_nth)
    then have "j = n" using table_invD(3) [OF tab _ j(2) n key k(2)] n by simp
    then show False using j(1) by simp
  qed
  obtain s' e where s': "mp_set_lookup_at ops (Some (o_hash ops x)) s x Add_if_not_found = Some (s', e)" "set_inv ops valid s'"
    "mset (set_items s') = add_mset x (mset (set_items s))"
    using r(2) no by (auto simp: lookup_result_def adds_def split: option.splits)
  then show ?thesis using r(1,3) items key n by (simp add: take_Suc_conv_app_nth)
qed

lemma set_rehash_correct:
  assumes inv: "set_inv ops valid s"
  shows "\<exists>s'. mp_set_rehash (\<lambda>s k. mp_set_lookup_at ops None s k Add_if_not_found) s = Some s' \<and> set_inv ops valid s'
    \<and> mset (set_items s') = mset (set_items s) \<and> length (set_items s') < length (s_table s')"
proof -
  let ?tbl = "s_table s" and ?N = "get_hash_alloc_greater_or_equal_to (length (s_table s) + 1)"
  let ?step = "\<lambda>e s. case e of Key k \<Rightarrow> map_option fst (mp_set_lookup_at ops None s k Add_if_not_found) | _ \<Rightarrow> Some s"
  let ?s0 = "s\<lparr>s_used := 0, s_table := replicate ?N Null\<rparr>"
  have N: "length ?tbl < ?N" using get_hash_alloc_ge [of "length ?tbl + 1"] by simp
  have tab: "table_inv ops valid ?tbl" using inv by (simp add: set_inv_def)
  have "\<exists>s1. fold_opt ?step (take n ?tbl) ?s0 = Some s1 \<and> set_inv ops valid s1 \<and> length (s_table s1) = ?N
    \<and> mset (set_items s1) = mset (List.map_filter slot_key (take n ?tbl))" if "n \<le> length ?tbl" for n
    using that
  proof (induction n)
    case 0
    have "List.map_filter slot_key (replicate k Null) = ([] :: 'a list)" for k by (induction k) simp_all
    then show ?case by (simp add: set_inv_def set_items_def table_inv_empty)
  next
    case (Suc n)
    then obtain s1 where s1: "fold_opt ?step (take n ?tbl) ?s0 = Some s1" "set_inv ops valid s1" "length (s_table s1) = ?N"
      "mset (set_items s1) = mset (List.map_filter slot_key (take n ?tbl))" by auto
    have n: "n < length ?tbl" "n < length (s_table s1)" using Suc.prems N s1(3) by simp_all
    show ?case
    proof (cases "\<exists>x. ?tbl ! n = Key x")
      case False
      then have "?step (?tbl ! n) s1 = Some s1" by (cases "?tbl ! n") auto
      then show ?thesis using s1 n(1) slot_key_None [OF False] by (simp add: take_Suc_conv_app_nth fold_opt_append)
    next
      case True
      then obtain x where x: "?tbl ! n = Key x" by blast
      show ?thesis using set_rehash_step [OF s1(2) tab n(1) s1(4) n(2) x] s1(1,3) x n(1)
        by (auto simp: take_Suc_conv_app_nth fold_opt_append)
    qed
  qed
  from this [of "length ?tbl"] obtain s1 where s1: "fold_opt ?step ?tbl ?s0 = Some s1" "set_inv ops valid s1"
    "length (s_table s1) = ?N" "mset (set_items s1) = mset (set_items s)" by (auto simp: set_items_def)
  have "length (set_items s1) < ?N"
    using mset_eq_length [OF s1(4)] map_filter_length [of slot_key ?tbl] N by (simp add: set_items_def)
  then show ?thesis using s1 by (auto simp: mp_set_rehash_def)
qed

lemma set_after_rehash:
  assumes inv: "set_inv ops valid s" and x: "valid x" and no: "\<nexists>i. holds ops (s_table s) x i" and kind: "adds kind"
  shows "lookup_result ops valid kind s x
    (Option.bind (mp_set_rehash (\<lambda>s k. mp_set_lookup_at ops None s k Add_if_not_found) s)
       (\<lambda>s. mp_set_lookup_at ops (Some (o_hash ops x)) s x kind))"
proof -
  obtain s' where s': "mp_set_rehash (\<lambda>s k. mp_set_lookup_at ops None s k Add_if_not_found) s = Some s'" "set_inv ops valid s'"
    "mset (set_items s') = mset (set_items s)" "length (set_items s') < length (s_table s')"
    using set_rehash_correct [OF inv] by blast
  have no': "\<nexists>i. holds ops (s_table s') x i"
    using no mset_eq_setD [OF s'(3)] unfolding holds_set_item by simp
  have "lookup_result ops valid kind s' x (mp_set_lookup_at ops (Some (o_hash ops x)) s' x kind)"
    by (rule set_room(2) [OF s'(2) x s'(4)])
  then obtain t where "mp_set_lookup_at ops (Some (o_hash ops x)) s' x kind = Some (t, Some x)" "set_inv ops valid t"
    "mset (set_items t) = add_mset x (mset (set_items s'))"
    using no' kind by (auto simp: lookup_result_def split: option.splits)
  then show ?thesis using s'(1,3) no kind unfolding lookup_result_def by (intro exI [of _ t] exI [of _ "Some x"]) auto
qed

text \<open>Every lookup returns and does what its kind says.\<close>

lemma set_lookup:
  assumes inv: "set_inv ops valid s" and x: "valid x"
  shows "lookup_result ops valid kind s x (mp_set_lookup ops s x kind)"
proof (cases "s_table s = []")
  case True
  then have no: "\<nexists>i. holds ops (s_table s) x i" by (simp add: holds_def)
  show ?thesis
  proof (cases "adds kind")
    case True
    with \<open>s_table s = []\<close> show ?thesis using set_after_rehash [OF inv x no True]
      unfolding mp_set_lookup_def by (subst mp_set_lookup_at.simps) simp
  next
    case False
    with \<open>s_table s = []\<close> show ?thesis using no inv
      unfolding mp_set_lookup_def by (subst mp_set_lookup_at.simps) (simp add: lookup_result_def)
  qed
next
  case False
  then have "mp_set_lookup ops s x kind = mp_set_lookup_at ops (Some (o_hash ops x)) s x kind"
    unfolding mp_set_lookup_def by (subst mp_set_lookup_at.simps) simp
  then show ?thesis
    by (cases rule: set_loop_cases [OF inv x, of kind]) (use set_after_rehash [OF inv x] in auto)
qed

text \<open>The slot that changes when the element is there.\<close>

lemma set_lookup_held:
  assumes inv: "set_inv ops valid s" and x: "valid x" and h: "holds ops (s_table s) x pos"
  shows "mp_set_lookup ops s x kind = Some (if removes kind then mp_set_remove_at s pos else s, slot_key (s_table s ! pos))"
proof -
  have t: "table_inv ops valid (s_table s)" using inv by (simp add: set_inv_def)
  have ne: "s_table s \<noteq> []" using h by (auto simp: holds_def)
  let ?r = "probe (\<lambda>k. o_equal ops k x) (s_table s) None (search_order ops (s_table s) x)"
  note pc = probe_correct [OF t x, of "\<lambda>k. o_equal ops k x", OF refl]
  have r: "?r = Found pos"
  proof (cases ?r)
    case (Found p)
    then show ?thesis using pc holds_unique [OF t x _ h, of p] by simp
  next
    case (Free p)
    then show ?thesis using pc h unfolding open_slot_def by simp
  next
    case (Wrapped a)
    then show ?thesis using pc h unfolding open_slot_def by (cases a; simp)
  qed
  have "mp_set_lookup ops s x kind = mp_set_lookup_at ops (Some (o_hash ops x)) s x kind"
    using ne unfolding mp_set_lookup_def by (subst mp_set_lookup_at.simps) simp
  then show ?thesis using r by (subst (asm) mp_set_lookup_at.simps) (simp add: Let_def search_order_def hash_start_def)
qed

text \<open>\<open>mp_set_remove_first\<close> takes an element out, if there is one.\<close>

lemma set_remove_first:
  assumes inv: "set_inv ops valid s"
  shows "case mp_set_remove_first s of
      (s', None) \<Rightarrow> s' = s \<and> set_items s = []
    | (s', Some k) \<Rightarrow> set_inv ops valid s' \<and> mset (set_items s) = add_mset k (mset (set_items s'))"
proof (cases "find (mp_set_slot_is_filled s) [0..<length (s_table s)]")
  case None
  then have "\<forall>i < length (s_table s). \<nexists>k. s_table s ! i = Key k" by (auto simp: find_None_iff mp_set_slot_is_filled_def)
  then have "set (set_items s) = {}" by (auto simp: set_items_set)
  then show ?thesis using None by (simp add: mp_set_remove_first_def)
next
  case (Some pos)
  then have pos: "pos < length (s_table s)" "mp_set_slot_is_filled s pos" by (auto simp: find_Some_iff)
  then obtain k where k: "s_table s ! pos = Key k" by (cases "s_table s ! pos") (auto simp: mp_set_slot_is_filled_def)
  then show ?thesis using Some set_remove_at [OF inv pos(1) k] by (simp add: mp_set_remove_first_def)
qed

end

end
