(* ===== verification/Mp_Obj.thy ===== *)
theory Mp_Obj
  imports Mpz_Conv Mp_Set
begin

text \<open>
  The objects that serve as keys: integers in their two representations, booleans, interned and
  other strings, and bytes; their equality (\<open>mp_obj_equal\<close> of \<open>src/py/obj.c\<close> with the functions
  it dispatches to) and their hash (\<open>mp_unary_op\<close> of \<open>src/py/runtime.c\<close>, \<open>qstr_compute_hash\<close> of
  \<open>src/py/qstr.c\<close>). Floats, tuples and instances of user classes are left out. The theory shows
  that equality is an equivalence, that equal objects have equal hashes across the
  representations, and so that the objects meet the contract of the hash tables.
\<close>

section \<open>Objects\<close>

text \<open>
  Interning makes the identity of a \<open>qstr\<close> its text. The other heap objects carry their address,
  and a string its hash field, where zero means not computed.
\<close>

datatype mp_obj =
    Small_int int
  | Bool bool
  | Big_int nat mpz
  | Qstr "u8 list"
  | Str nat mp_uint_t "u8 list"
  | Bytes nat mp_uint_t "u8 list"

fun mp_obj_is_qstr :: "mp_obj \<Rightarrow> bool" where
  "mp_obj_is_qstr (Qstr s) = True"
| "mp_obj_is_qstr _ = False"

fun mp_obj_is_type_str :: "mp_obj \<Rightarrow> bool" where
  "mp_obj_is_type_str (Str a h s) = True"
| "mp_obj_is_type_str _ = False"

definition mp_obj_is_str :: "mp_obj \<Rightarrow> bool" where
  "mp_obj_is_str o' = (mp_obj_is_qstr o' \<or> mp_obj_is_type_str o')"

section \<open>Hash values\<close>

definition qstr_compute_hash :: "u8 list \<Rightarrow> mp_uint_t" where
  "qstr_compute_hash data =
     (let hash = fold (\<lambda>b hash. (push_bit 5 hash + hash) XOR ucast b) data 5381 AND 0xFFFF
      in if hash = 0 then 1 else hash)"

text \<open>\<open>MP_OBJ_NEW_SMALL_INT\<close> followed by \<open>MP_OBJ_SMALL_INT_VALUE\<close>: one bit is lost.\<close>

definition through_small_int :: "mp_uint_t \<Rightarrow> mp_uint_t" where
  "through_small_int w = signed_drop_bit 1 (push_bit 1 w OR 1)"

fun GET_STR_HASH :: "mp_obj \<Rightarrow> mp_uint_t" where
  "GET_STR_HASH (Qstr s) = qstr_compute_hash s"
| "GET_STR_HASH (Str a h s) = h"
| "GET_STR_HASH (Bytes a h s) = h"
| "GET_STR_HASH _ = 0"

fun GET_STR_DATA :: "mp_obj \<Rightarrow> u8 list" where
  "GET_STR_DATA (Qstr s) = s"
| "GET_STR_DATA (Str a h s) = s"
| "GET_STR_DATA (Bytes a h s) = s"
| "GET_STR_DATA _ = []"

fun mp_obj_hash :: "mp_obj \<Rightarrow> mp_uint_t" where
  "mp_obj_hash (Small_int i) = word_of_int i"
| "mp_obj_hash (Bool b) = word_of_int (of_bool b)"
| "mp_obj_hash (Big_int a z) = through_small_int (mpz_hash z)"
| "mp_obj_hash (Qstr s) = qstr_compute_hash s"
| "mp_obj_hash s =
     (let h = GET_STR_HASH s
      in through_small_int (if h = 0 then qstr_compute_hash (GET_STR_DATA s) else h))"

section \<open>Equality\<close>

definition mp_obj_str_equal :: "mp_obj \<Rightarrow> mp_obj \<Rightarrow> bool" where
  "mp_obj_str_equal s1 s2 =
     (if mp_obj_is_qstr s1 \<and> mp_obj_is_qstr s2 then s1 = s2
      else let h1 = GET_STR_HASH s1; h2 = GET_STR_HASH s2
           in if h1 \<noteq> 0 \<and> h2 \<noteq> 0 \<and> h1 \<noteq> h2 then False
              else if length (GET_STR_DATA s1) \<noteq> length (GET_STR_DATA s2) then False
              else GET_STR_DATA s1 = GET_STR_DATA s2)"

text \<open>
  The big integer that \<open>mp_obj_int_binary_op\<close> makes of a small one, in a buffer of two digits on the
  stack, whose previous contents are never read.
\<close>

definition small_int_mpz :: "int \<Rightarrow> mpz option" where
  "small_int_mpz i = mpz_init_fixed_from_int (\<lambda>_. 0) [0, 0] (word_of_int i)"

text \<open>
  \<open>mp_obj_equal\<close>: identity, the fast paths, and then \<open>binary_op\<close> of the type of the first object
  (\<open>mp_obj_int_binary_op\<close> with \<open>mp_obj_int_binary_op_extra_cases\<close>, \<open>bool_binary_op\<close>,
  \<open>mp_obj_str_binary_op\<close> on bytes), where \<open>mp_binary_op\<close> leads back to \<open>mp_obj_equal\<close>.
\<close>

function mp_obj_equal :: "mp_obj \<Rightarrow> mp_obj \<Rightarrow> bool" where
  "mp_obj_equal o1 o2 =
     (if o1 = o2 then True
      else case (o1, o2) of
        (Small_int i, Small_int j) \<Rightarrow> False
      | _ \<Rightarrow>
        (let (o1, o2) = (case o1 of Small_int i \<Rightarrow> (o2, o1) | _ \<Rightarrow> (o1, o2))
         in if mp_obj_is_str o1 then mp_obj_is_str o2 \<and> mp_obj_str_equal o1 o2
            else if mp_obj_is_str o2 then False
            else case (o1, o2) of
                (Bool b, _) \<Rightarrow> mp_obj_equal (Small_int (of_bool b)) o2
              | (Big_int a z, Small_int i) \<Rightarrow> (case small_int_mpz i of None \<Rightarrow> False | Some y \<Rightarrow> mpz_cmp z y = 0)
              | (Big_int a z, Big_int a' z') \<Rightarrow> mpz_cmp z z' = 0
              | (Big_int a z, Bool b) \<Rightarrow> mp_obj_equal o1 (Small_int (of_bool b))
              | (Bytes a h s, Bytes a' h' s') \<Rightarrow> s = s'
              | _ \<Rightarrow> False))"
  by pat_completeness auto
termination
proof (relation "measure (\<lambda>(o1, o2). (case o1 of Bool b \<Rightarrow> 1 | _ \<Rightarrow> 0) + (case o2 of Bool b \<Rightarrow> 1 | _ \<Rightarrow> 0))")
qed (auto split: mp_obj.splits)

declare mp_obj_equal.simps [simp del]

section \<open>Equality and hash agree\<close>

text \<open>
  The objects that occur: small integers in their 31-bit range, big integers that keep their
  invariant, strings whose hash field is the hash or zero.
\<close>

fun mp_obj_valid :: "mp_obj \<Rightarrow> bool" where
  "mp_obj_valid (Small_int i) = (- (2 ^ 30) \<le> i \<and> i < 2 ^ 30)"
| "mp_obj_valid (Bool b) = True"
| "mp_obj_valid (Big_int a z) = mpz_ok z"
| "mp_obj_valid (Qstr s) = True"
| "mp_obj_valid (Str a h s) = (h = 0 \<or> h = qstr_compute_hash s)"
| "mp_obj_valid (Bytes a h s) = (h = 0 \<or> h = qstr_compute_hash s)"

text \<open>What an object stands for: a number, a text, or a byte string.\<close>

datatype denotation = Number int | Text "u8 list" | Octets "u8 list"

fun denote :: "mp_obj \<Rightarrow> denotation" where
  "denote (Small_int i) = Number i"
| "denote (Bool b) = Number (of_bool b)"
| "denote (Big_int a z) = Number (mpz_val z)"
| "denote (Qstr s) = Text s"
| "denote (Str a h s) = Text s"
| "denote (Bytes a h s) = Octets s"

lemma small_int_mpz_val:
  assumes "- (2 ^ 30) \<le> i" "i < 2 ^ 30"
  shows "\<exists>z. small_int_mpz i = Some z \<and> mpz_ok z \<and> mpz_val z = i"
proof (cases "i = 0")
  case True
  then show ?thesis by (simp add: small_int_mpz_def mpz_init_fixed_from_int_def mpz_set_from_int_def mpz_ok_def mpz_val_def sval_def)
next
  case False
  let ?w = "word_of_int i :: mp_uint_t"
  let ?u = "if sint ?w < 0 then - ?w else ?w"
  have s: "sint ?w = i" using assms by (intro sint_word_of_int_u32) auto
  then have w: "?w \<noteq> 0" using False by force
  have len: "length (mpz_uint_digits ?u) \<le> 2" by (rule mpz_uint_digits_length) simp_all
  have val: "mpn_val (mpz_uint_digits ?u) = unat ?u" "normalised (mpz_uint_digits ?u)"
    by (rule mpz_uint_digits_val; simp)+
  have "sval (sint ?w < 0) (unat ?u) = i" using unat_of_sint [of ?w] s by (auto simp: sval_def)
  then show ?thesis using w len val
    by (auto simp: small_int_mpz_def mpz_init_fixed_from_int_def mpz_set_from_int_def mpz_need_dig_def mpz_put_def mpz_ok_def mpz_val_def Let_def)
qed

lemma mpz_cmp_eq_0: "mpz_ok x \<Longrightarrow> mpz_ok y \<Longrightarrow> mpz_cmp x y = 0 \<longleftrightarrow> mpz_val x = mpz_val y"
  by (simp add: mpz_cmp_sgn sgn_0_0)

lemma str_hash_nonzero: "qstr_compute_hash s \<noteq> 0"
  by (simp add: qstr_compute_hash_def Let_def)

lemma mp_obj_str_equal_data:
  assumes "mp_obj_valid x" "mp_obj_valid y" "mp_obj_is_str x" "mp_obj_is_str y"
  shows "mp_obj_str_equal x y \<longleftrightarrow> GET_STR_DATA x = GET_STR_DATA y"
  using assms by (cases x; cases y) (auto simp: mp_obj_str_equal_def mp_obj_is_str_def Let_def)

lemma mp_obj_equal_small: "mp_obj_equal (Small_int i) (Small_int j) = (i = j)"
  by (subst mp_obj_equal.simps) simp

lemma mp_obj_equal_bool: "mp_obj_equal (Bool b) (Small_int i) = (of_bool b = i)" "mp_obj_equal (Small_int i) (Bool b) = (of_bool b = i)"
  by (subst mp_obj_equal.simps, simp add: mp_obj_is_str_def mp_obj_equal_small)+

lemma mp_obj_equal_bools: "mp_obj_equal (Bool b) (Bool c) = (b = c)"
  by (subst mp_obj_equal.simps) (auto simp: mp_obj_is_str_def mp_obj_equal_bool)

lemma mp_obj_equal_big_small:
  assumes "mpz_ok z" "- (2 ^ 30) \<le> i" "i < 2 ^ 30"
  shows "mp_obj_equal (Big_int a z) (Small_int i) = (mpz_val z = i)" "mp_obj_equal (Small_int i) (Big_int a z) = (mpz_val z = i)"
proof -
  obtain w where w: "small_int_mpz i = Some w" "mpz_ok w" "mpz_val w = i" using small_int_mpz_val [OF assms(2,3)] by blast
  then show "mp_obj_equal (Big_int a z) (Small_int i) = (mpz_val z = i)" "mp_obj_equal (Small_int i) (Big_int a z) = (mpz_val z = i)"
    using mpz_cmp_eq_0 [OF assms(1) w(2)] by (subst mp_obj_equal.simps, simp add: mp_obj_is_str_def)+
qed

lemma mp_obj_equal_big_bool:
  assumes "mpz_ok z"
  shows "mp_obj_equal (Big_int a z) (Bool b) = (mpz_val z = of_bool b)" "mp_obj_equal (Bool b) (Big_int a z) = (mpz_val z = of_bool b)"
  by (subst mp_obj_equal.simps, simp add: mp_obj_is_str_def mp_obj_equal_big_small [OF assms])+

lemma mp_obj_equal_bigs:
  assumes "mpz_ok z" "mpz_ok z'"
  shows "mp_obj_equal (Big_int a z) (Big_int a' z') = (mpz_val z = mpz_val z')"
  by (subst mp_obj_equal.simps) (auto simp: mp_obj_is_str_def mpz_cmp_eq_0 [OF assms])

lemma mp_obj_equal_bytes: "mp_obj_equal (Bytes a h s) (Bytes a' h' s') = (s = s')"
  by (subst mp_obj_equal.simps) (auto simp: mp_obj_is_str_def)

lemma mp_obj_equal_strs:
  assumes "mp_obj_valid x" "mp_obj_valid y" "mp_obj_is_str x" "mp_obj_is_str y"
  shows "mp_obj_equal x y \<longleftrightarrow> GET_STR_DATA x = GET_STR_DATA y"
  using assms mp_obj_str_equal_data [OF assms]
  by (subst mp_obj_equal.simps) (cases x; cases y; simp add: mp_obj_is_str_def)

lemma mp_obj_equal_str_other:
  assumes "mp_obj_is_str x \<noteq> mp_obj_is_str y"
  shows "\<not> mp_obj_equal x y"
proof -
  from assms have "x \<noteq> y" by auto
  then show ?thesis using assms by (subst mp_obj_equal.simps) (cases x; cases y; simp add: mp_obj_is_str_def)
qed

lemma mp_obj_equal_bytes_number:
  "\<not> mp_obj_equal (Bytes a h s) (Small_int i)" "\<not> mp_obj_equal (Small_int i) (Bytes a h s)"
  "\<not> mp_obj_equal (Bytes a h s) (Bool b)" "\<not> mp_obj_equal (Bytes a h s) (Big_int a' z)" "\<not> mp_obj_equal (Big_int a' z) (Bytes a h s)"
  by (subst mp_obj_equal.simps, simp add: mp_obj_is_str_def)+

lemma mp_obj_equal_bool_bytes: "\<not> mp_obj_equal (Bool b) (Bytes a h s)"
  by (subst mp_obj_equal.simps) (simp add: mp_obj_is_str_def mp_obj_equal_bytes_number)

lemmas mp_obj_equal_cases = mp_obj_equal_small mp_obj_equal_bool mp_obj_equal_bools mp_obj_equal_big_small mp_obj_equal_big_bool
  mp_obj_equal_bigs mp_obj_equal_bytes mp_obj_equal_strs mp_obj_equal_str_other mp_obj_equal_bytes_number mp_obj_equal_bool_bytes

text \<open>Equality of objects is equality of what they stand for.\<close>

lemma mp_obj_equal_denote:
  assumes "mp_obj_valid x" "mp_obj_valid y"
  shows "mp_obj_equal x y \<longleftrightarrow> denote x = denote y"
  using assms by (cases x; cases y; auto simp: mp_obj_equal_cases mp_obj_is_str_def)

text \<open>The hash depends only on what an object stands for.\<close>

fun denote_hash :: "denotation \<Rightarrow> mp_uint_t" where
  "denote_hash (Number i) = through_small_int (word_of_int i)"
| "denote_hash (Text s) = qstr_compute_hash s"
| "denote_hash (Octets s) = qstr_compute_hash s"

lemma signed_drop_bit_u32:
  assumes "- 2147483648 \<le> t" "t < 2147483648"
  shows "signed_drop_bit n (word_of_int t :: u32) = word_of_int (t div 2 ^ n)"
proof -
  have "sint (signed_drop_bit n (word_of_int t :: u32)) = t div 2 ^ n"
    by (simp only: sint_signed_drop_bit_eq sint_word_of_int_u32 [OF assms]) (simp add: drop_bit_eq_div)
  then show ?thesis by (metis word_of_int_sint_u32)
qed

lemma through_small_int_id:
  assumes "- (2 ^ 30) \<le> i" "i < 2 ^ 30"
  shows "through_small_int (word_of_int i) = word_of_int i"
proof -
  have "push_bit 1 (word_of_int i :: mp_uint_t) OR 1 = word_of_int (2 * i + 1)"
    by (simp add: or_one_eq push_bit_eq_mult)
  then have "through_small_int (word_of_int i) = word_of_int ((2 * i + 1) div 2 ^ 1)"
    using assms signed_drop_bit_u32 [of "2 * i + 1" 1] unfolding through_small_int_def by simp
  then show ?thesis by simp
qed

lemma through_small_int_str_hash: "through_small_int (qstr_compute_hash s) = qstr_compute_hash s"
proof -
  have "unat (x AND 0xFFFF :: mp_uint_t) < 65536" for x by (simp only: unat_and_mask_16 mod_less_divisor zero_less_numeral)
  then have "unat (qstr_compute_hash s) < 65536" unfolding qstr_compute_hash_def Let_def by simp
  then have "int (unat (qstr_compute_hash s)) < 65536" by (simp only: of_nat_less_numeral_iff)
  then have "uint (qstr_compute_hash s) < 2 ^ 30" unfolding uint_nat [symmetric] by simp
  moreover have "- (2 ^ 30) \<le> uint (qstr_compute_hash s)" by (rule order_trans [OF _ uint_ge_0]) simp
  ultimately have "through_small_int (word_of_int (uint (qstr_compute_hash s))) = word_of_int (uint (qstr_compute_hash s))"
    by (intro through_small_int_id)
  then show ?thesis by simp
qed

lemma mp_obj_hash_denote:
  assumes "mp_obj_valid x"
  shows "mp_obj_hash x = denote_hash (denote x)"
  using assms through_small_int_id [of 0] through_small_int_id [of 1]
  by (cases x) (auto simp: through_small_int_id through_small_int_str_hash mpz_hash_val str_hash_nonzero)

section \<open>The contract of the hash tables\<close>

definition mp_obj_ops :: "mp_obj obj_ops" where
  "mp_obj_ops = \<lparr>o_is_qstr = mp_obj_is_qstr, o_is_str = mp_obj_is_type_str, o_equal = mp_obj_equal, o_hash = mp_obj_hash\<rparr>"

lemma mp_obj_ops_simps [simp]:
  "o_is_qstr mp_obj_ops = mp_obj_is_qstr" "o_is_str mp_obj_ops = mp_obj_is_type_str"
  "o_equal mp_obj_ops = mp_obj_equal" "o_hash mp_obj_ops = mp_obj_hash"
  by (simp_all add: mp_obj_ops_def)

lemma qstr_denote:
  assumes "mp_obj_is_qstr x" "denote x = denote y"
  shows "mp_obj_is_qstr y \<and> x = y \<or> mp_obj_is_type_str y"
  using assms by (cases x; cases y) simp_all

interpretation obj_keys: hash_keys mp_obj_ops mp_obj_valid
proof unfold_locales
  fix x y assume xy: "mp_obj_valid x" "mp_obj_valid y" "o_is_qstr mp_obj_ops x" "o_equal mp_obj_ops x y"
  then have "denote x = denote y" by (simp add: mp_obj_equal_denote)
  note q = qstr_denote [OF _ this]
  show "o_is_qstr mp_obj_ops y \<or> o_is_str mp_obj_ops y" using q xy(3) by auto
  show "x = y" if "o_is_qstr mp_obj_ops y" using q xy(3) that by (cases y) auto
qed (simp_all add: mp_obj_equal_denote mp_obj_hash_denote)

end
