(* ===== verification/Mp_Dict.thy ===== *)
theory Mp_Dict
  imports Mp_Obj
begin

text \<open>
  Dictionaries (\<open>src/py/objdict.c\<close>), the main client of the maps. The locale \<open>map_contract\<close> states what the
  dictionary methods rely on in \<open>mp_map_lookup\<close>, in terms of the abstract dictionary, a finite map
  from what keys stand for to values. It is interpreted on the hash tables and on the ordered
  arrays of \<open>Mp_Map\<close>, so that each method is proved once and holds for \<open>dict\<close> and
  \<open>OrderedDict\<close>. The one method that does not go through \<open>mp_map_lookup\<close>, \<open>popitem\<close>, is correct
  on hash tables and loses an entry of an ordered dictionary.
\<close>

section \<open>The methods\<close>

datatype 'o dict_error = KeyError 'o | KeyError_empty | TypeError | ValueError

text \<open>
  A method returns the dictionary and its result, or an exception; \<open>None\<close> is a failed assertion or
  not returning. \<open>none\<close> is the object \<open>None\<close> of the language.
\<close>

type_synonym ('o, 'r) dict_result = "('o dict_error + 'o mp_map \<times> 'r) option"

definition mp_obj_dict_get :: "'o obj_ops \<Rightarrow> 'o mp_map \<Rightarrow> 'o \<Rightarrow> ('o, 'o option) dict_result" where
  "mp_obj_dict_get ops m index =
     Option.bind (mp_map_lookup ops m index Lookup)
       (\<lambda>(m, elem). case elem of
            None \<Rightarrow> Some (Inl (KeyError index))
          | Some pos \<Rightarrow> Some (Inr (m, e_value (m_table m ! pos))))"

definition dict_contains :: "'o obj_ops \<Rightarrow> 'o mp_map \<Rightarrow> 'o \<Rightarrow> bool option" where
  "dict_contains ops m index = map_option (\<lambda>(m, elem). elem \<noteq> None) (mp_map_lookup ops m index Lookup)"

definition dict_get_helper ::
  "'o obj_ops \<Rightarrow> 'o \<Rightarrow> 'o mp_map \<Rightarrow> 'o \<Rightarrow> 'o option \<Rightarrow> mp_map_lookup_kind \<Rightarrow> ('o, 'o) dict_result" where
  "dict_get_helper ops none m key deflt kind =
     (if kind \<noteq> Lookup \<and> m_is_fixed m then Some (Inl TypeError)
      else
        Option.bind (mp_map_lookup ops m key kind)
          (\<lambda>(m, elem).
             case Option.bind elem (\<lambda>pos. e_value (m_table m ! pos)) of
               None \<Rightarrow>
                 (if deflt = None \<and> kind = Remove_if_found then Some (Inl (KeyError key))
                  else
                    let value = (case deflt of None \<Rightarrow> none | Some d \<Rightarrow> d)
                    in if kind = Add_if_not_found
                       then map_option (\<lambda>pos. Inr (set_value pos (Some value) m, value)) elem
                       else Some (Inr (m, value)))
             | Some value \<Rightarrow>
                 Some (Inr (if kind = Remove_if_found then set_value (the elem) None m else m, value))))"

definition dict_get :: "'o obj_ops \<Rightarrow> 'o \<Rightarrow> 'o mp_map \<Rightarrow> 'o \<Rightarrow> 'o option \<Rightarrow> ('o, 'o) dict_result" where
  "dict_get ops none m key deflt = dict_get_helper ops none m key deflt Lookup"

definition dict_pop :: "'o obj_ops \<Rightarrow> 'o \<Rightarrow> 'o mp_map \<Rightarrow> 'o \<Rightarrow> 'o option \<Rightarrow> ('o, 'o) dict_result" where
  "dict_pop ops none m key deflt = dict_get_helper ops none m key deflt Remove_if_found"

definition dict_setdefault :: "'o obj_ops \<Rightarrow> 'o \<Rightarrow> 'o mp_map \<Rightarrow> 'o \<Rightarrow> 'o option \<Rightarrow> ('o, 'o) dict_result" where
  "dict_setdefault ops none m key deflt = dict_get_helper ops none m key deflt Add_if_not_found"

definition mp_obj_dict_store :: "'o obj_ops \<Rightarrow> 'o mp_map \<Rightarrow> 'o \<Rightarrow> 'o \<Rightarrow> ('o, unit) dict_result" where
  "mp_obj_dict_store ops m key value =
     (if m_is_fixed m then Some (Inl TypeError)
      else Option.bind (mp_map_lookup ops m key Add_if_not_found)
        (\<lambda>(m, elem). map_option (\<lambda>pos. Inr (set_value pos (Some value) m, ())) elem))"

definition mp_obj_dict_delete :: "'o obj_ops \<Rightarrow> 'o \<Rightarrow> 'o mp_map \<Rightarrow> 'o \<Rightarrow> ('o, unit) dict_result" where
  "mp_obj_dict_delete ops none m key =
     map_option (map_sum id (map_prod id (\<lambda>_. ()))) (dict_get_helper ops none m key None Remove_if_found)"

definition mp_obj_dict_len :: "'o mp_map \<Rightarrow> nat" where
  "mp_obj_dict_len m = m_used m"

text \<open>\<open>dict_make_new\<close> without arguments, for \<open>dict\<close> and \<open>OrderedDict\<close>.\<close>

definition dict_make_new :: "bool \<Rightarrow> 'o mp_map" where
  "dict_make_new is_ordered = (if is_ordered then (mp_map_init 0)\<lparr>m_is_ordered := True\<rparr> else mp_map_init 0)"

definition dict_clear :: "'o mp_map \<Rightarrow> ('o, unit) dict_result" where
  "dict_clear m = Some (if m_is_fixed m then Inl TypeError else Inr (mp_map_clear m, ()))"

definition dict_copy :: "'o mp_map \<Rightarrow> 'o mp_map" where
  "dict_copy m = m\<lparr>m_is_fixed := False\<rparr>"

text \<open>The iteration: the next filled slot from a position on.\<close>

definition dict_iter_next :: "'o mp_map \<Rightarrow> nat \<Rightarrow> nat option" where
  "dict_iter_next m cur = find (mp_map_slot_is_filled m) [cur..<length (m_table m)]"

definition dict_popitem :: "'o mp_map \<Rightarrow> ('o, 'o slot \<times> 'o option) dict_result" where
  "dict_popitem m =
     (if m_is_fixed m then Some (Inl TypeError)
      else case dict_iter_next m 0 of
          None \<Rightarrow> Some (Inl KeyError_empty)
        | Some pos \<Rightarrow>
            Some (Inr (m\<lparr>m_used := m_used m - 1, m_table := (m_table m)[pos := \<lparr>e_key = Sentinel, e_value = None\<rparr>]\<rparr>,
                       e_key (m_table m ! pos), e_value (m_table m ! pos))))"

text \<open>The stores of \<open>dict_update\<close> and \<open>dict_fromkeys\<close>, over the pairs that their iterators yield.\<close>

definition dict_store_all :: "'o obj_ops \<Rightarrow> ('o \<times> 'o option) list \<Rightarrow> 'o mp_map \<Rightarrow> 'o mp_map option" where
  "dict_store_all ops =
     fold_opt (\<lambda>(key, value) m. Option.bind (mp_map_lookup ops m key Add_if_not_found)
       (\<lambda>(m, elem). map_option (\<lambda>pos. set_value pos value m) elem))"

definition dict_fromkeys :: "'o obj_ops \<Rightarrow> nat \<Rightarrow> 'o list \<Rightarrow> 'o \<Rightarrow> 'o mp_map option" where
  "dict_fromkeys ops len keys value = dict_store_all ops (map (\<lambda>k. (k, Some value)) keys) (mp_map_init len)"

text \<open>The pairs of the filled slots, in the order of the table.\<close>

definition filled_pairs :: "'o mp_map \<Rightarrow> ('o \<times> 'o option) list" where
  "filled_pairs m = List.map_filter item (m_table m)"

text \<open>
  \<open>dict_update\<close>: from another dictionary (with a flag that tells whether it is \<open>self\<close>) or from what
  a generic iterable yields, each item given by what its own iterator yields; then the keyword
  arguments. An item of the wrong length raises after the items before it have been stored, so
  the result has the exception and the dictionary.
\<close>

datatype 'o update_arg = From_dict bool "'o mp_map" | From_iterable "'o list list"

fun dict_update_pairs :: "'o obj_ops \<Rightarrow> 'o list list \<Rightarrow> 'o mp_map \<Rightarrow> ('o dict_error option \<times> 'o mp_map) option" where
  "dict_update_pairs ops [] m = Some (None, m)"
| "dict_update_pairs ops (next # nexts) m =
     (case next of
        [key, value] \<Rightarrow> Option.bind (dict_store_all ops [(key, Some value)] m) (dict_update_pairs ops nexts)
      | _ \<Rightarrow> Some (Some ValueError, m))"

definition dict_update ::
  "'o obj_ops \<Rightarrow> 'o mp_map \<Rightarrow> 'o update_arg option \<Rightarrow> 'o mp_map \<Rightarrow> ('o dict_error option \<times> 'o mp_map) option" where
  "dict_update ops self arg kwargs =
     (if m_is_fixed self then Some (Some TypeError, self)
      else Option.bind
        (case arg of
           None \<Rightarrow> Some (None, self)
         | Some (From_dict same other) \<Rightarrow>
             if same then Some (None, self)
             else map_option (Pair None) (dict_store_all ops (filled_pairs other) self)
         | Some (From_iterable nexts) \<Rightarrow> dict_update_pairs ops nexts self)
        (\<lambda>(e, m). if e \<noteq> None then Some (e, m) else map_option (Pair None) (dict_store_all ops (filled_pairs kwargs) m)))"

text \<open>
  \<open>dict_binary_op\<close> on \<open>MP_BINARY_OP_EQUAL\<close>: two ordered dictionaries are compared entry by entry in
  their order; otherwise the right side must be of the type \<open>dict\<close> itself, and every entry of the
  left side is looked up in it.
\<close>

datatype dict_type = Dict_type | Ordereddict_type | Other_type

fun value_equal :: "'o obj_ops \<Rightarrow> 'o option \<Rightarrow> 'o option \<Rightarrow> bool" where
  "value_equal ops (Some v) (Some w) = o_equal ops v w"
| "value_equal ops v w = (v = w)"

fun dict_equal_ordered :: "'o obj_ops \<Rightarrow> ('o \<times> 'o option) list \<Rightarrow> ('o \<times> 'o option) list \<Rightarrow> bool" where
  "dict_equal_ordered ops ((k1, v1) # e1) ((k2, v2) # e2) =
     (if \<not> o_equal ops k1 k2 \<or> \<not> value_equal ops v1 v2 then False else dict_equal_ordered ops e1 e2)"
| "dict_equal_ordered ops e1 e2 = (e1 = [] \<and> e2 = [])"

fun dict_equal_entries :: "'o obj_ops \<Rightarrow> ('o \<times> 'o option) list \<Rightarrow> 'o mp_map \<Rightarrow> bool option" where
  "dict_equal_entries ops [] rhs = Some True"
| "dict_equal_entries ops ((key, value) # kvs) rhs =
     Option.bind (mp_map_lookup ops rhs key Lookup)
       (\<lambda>(_, elem). case elem of
            None \<Rightarrow> Some False
          | Some pos \<Rightarrow> if \<not> value_equal ops value (e_value (m_table rhs ! pos)) then Some False else dict_equal_entries ops kvs rhs)"

definition dict_equal :: "'o obj_ops \<Rightarrow> dict_type \<Rightarrow> 'o mp_map \<Rightarrow> dict_type \<Rightarrow> 'o mp_map \<Rightarrow> bool option" where
  "dict_equal ops type1 o1 type2 rhs =
     (if type1 = Ordereddict_type \<and> type2 = Ordereddict_type then Some (dict_equal_ordered ops (filled_pairs o1) (filled_pairs rhs))
      else if type2 = Dict_type then
        (if m_used o1 \<noteq> m_used rhs then Some False else dict_equal_entries ops (filled_pairs o1) rhs)
      else Some False)"

text \<open>\<open>dict_subscr\<close>: the three uses of the subscript.\<close>

datatype 'o subscr = Subscr_delete | Subscr_load | Subscr_store 'o

fun dict_subscr :: "'o obj_ops \<Rightarrow> 'o \<Rightarrow> 'o mp_map \<Rightarrow> 'o \<Rightarrow> 'o subscr \<Rightarrow> ('o, 'o option) dict_result" where
  "dict_subscr ops none m index Subscr_delete =
     map_option (map_sum id (map_prod id (\<lambda>_. Some none))) (mp_obj_dict_delete ops none m index)"
| "dict_subscr ops none m index Subscr_load =
     Option.bind (mp_map_lookup ops m index Lookup)
       (\<lambda>(m, elem). case elem of
            None \<Rightarrow> Some (Inl (KeyError index))
          | Some pos \<Rightarrow> Some (Inr (m, e_value (m_table m ! pos))))"
| "dict_subscr ops none m index (Subscr_store value) =
     map_option (map_sum id (map_prod id (\<lambda>_. Some none))) (mp_obj_dict_store ops m index value)"

section \<open>The abstract dictionary\<close>

definition dict_abs :: "mp_obj mp_map \<Rightarrow> denotation \<rightharpoonup> mp_obj option" where
  "dict_abs m = map_of (map (\<lambda>(k, v). (denote k, v)) (map_items m))"

locale map_contract =
  fixes inv :: "mp_obj mp_map \<Rightarrow> bool"
  assumes find: "inv m \<Longrightarrow> mp_obj_valid x \<Longrightarrow>
      \<exists>r. mp_map_lookup mp_obj_ops m x Lookup = Some (m, r)
        \<and> dict_abs m (denote x) = map_option (\<lambda>i. e_value (m_table m ! i)) r"
    and add: "inv m \<Longrightarrow> mp_obj_valid x \<Longrightarrow> \<not> m_is_fixed m \<Longrightarrow>
      \<exists>m' i. mp_map_lookup mp_obj_ops m x Add_if_not_found = Some (m', Some i) \<and> \<not> m_is_fixed m'
        \<and> e_value (m_table m' ! i) = (case dict_abs m (denote x) of None \<Rightarrow> None | Some v \<Rightarrow> v)
        \<and> (dict_abs m (denote x) \<noteq> None \<longrightarrow> m' = m)
        \<and> (\<forall>v. inv (set_value i v m') \<and> dict_abs (set_value i v m') = (dict_abs m)(denote x \<mapsto> v))"
    and remove: "inv m \<Longrightarrow> mp_obj_valid x \<Longrightarrow> \<not> m_is_fixed m \<Longrightarrow>
      (case dict_abs m (denote x) of
         None \<Rightarrow> mp_map_lookup mp_obj_ops m x Remove_if_found = Some (m, None)
       | Some v \<Rightarrow> \<exists>m' i. mp_map_lookup mp_obj_ops m x Remove_if_found = Some (m', Some i) \<and> \<not> m_is_fixed m'
           \<and> e_value (m_table m' ! i) = v \<and> inv (set_value i None m')
           \<and> dict_abs (set_value i None m') = (dict_abs m)(denote x := None))"
    and count: "inv m \<Longrightarrow> m_used m = card (dom (dict_abs m))"
    and clear: "inv m \<Longrightarrow> inv (mp_map_clear m)"
begin

text \<open>A dictionary between two method calls has no null value.\<close>

lemma get_correct:
  assumes "inv m" "mp_obj_valid k"
  shows "mp_obj_dict_get mp_obj_ops m k =
    Some (case dict_abs m (denote k) of None \<Rightarrow> Inl (KeyError k) | Some v \<Rightarrow> Inr (m, v))"
proof -
  obtain r where "mp_map_lookup mp_obj_ops m k Lookup = Some (m, r)" "dict_abs m (denote k) = map_option (\<lambda>i. e_value (m_table m ! i)) r"
    using find [OF assms] by blast
  then show ?thesis by (cases r) (simp_all add: mp_obj_dict_get_def)
qed

lemma contains_correct:
  assumes "inv m" "mp_obj_valid k"
  shows "dict_contains mp_obj_ops m k = Some (denote k \<in> dom (dict_abs m))"
proof -
  obtain r where "mp_map_lookup mp_obj_ops m k Lookup = Some (m, r)" "dict_abs m (denote k) = map_option (\<lambda>i. e_value (m_table m ! i)) r"
    using find [OF assms] by blast
  then show ?thesis by (cases r) (auto simp: dict_contains_def)
qed

lemma store_correct:
  assumes "inv m" "mp_obj_valid k" "\<not> m_is_fixed m"
  shows "\<exists>m'. mp_obj_dict_store mp_obj_ops m k v = Some (Inr (m', ())) \<and> inv m' \<and> \<not> m_is_fixed m'
    \<and> dict_abs m' = (dict_abs m)(denote k \<mapsto> Some v)"
proof -
  obtain m' i where "mp_map_lookup mp_obj_ops m k Add_if_not_found = Some (m', Some i)" "\<not> m_is_fixed m'"
    "inv (set_value i (Some v) m')" "dict_abs (set_value i (Some v) m') = (dict_abs m)(denote k \<mapsto> Some v)"
    using add [OF assms] by blast
  then show ?thesis using assms(3) by (simp add: mp_obj_dict_store_def set_value_def)
qed

lemma setdefault_correct:
  assumes "inv m" "mp_obj_valid k" "\<not> m_is_fixed m" "None \<notin> ran (dict_abs m)"
    and d_def: "d = (case deflt of None \<Rightarrow> none | Some d \<Rightarrow> d)"
  shows "\<exists>m'. (case dict_abs m (denote k) of
      Some (Some v) \<Rightarrow> m' = m \<and> dict_setdefault mp_obj_ops none m k deflt = Some (Inr (m, v))
    | _ \<Rightarrow> dict_setdefault mp_obj_ops none m k deflt = Some (Inr (m', d)) \<and> inv m' \<and> \<not> m_is_fixed m'
        \<and> dict_abs m' = (dict_abs m)(denote k \<mapsto> Some d))"
proof -
  obtain m' i where m': "mp_map_lookup mp_obj_ops m k Add_if_not_found = Some (m', Some i)" "\<not> m_is_fixed m'"
    "e_value (m_table m' ! i) = (case dict_abs m (denote k) of None \<Rightarrow> None | Some v \<Rightarrow> v)"
    "dict_abs m (denote k) \<noteq> None \<Longrightarrow> m' = m"
    "inv (set_value i (Some d) m')" "dict_abs (set_value i (Some d) m') = (dict_abs m)(denote k \<mapsto> Some d)"
    using add [OF assms(1-3)] by blast
  show ?thesis
  proof (cases "dict_abs m (denote k)")
    case None
    then show ?thesis using m' assms(3)
      by (intro exI [of _ "set_value i (Some d) m'"]) (simp add: dict_setdefault_def dict_get_helper_def set_value_def d_def Let_def)
  next
    case (Some w)
    then obtain v where "w = Some v" using assms(4) by (cases w) (auto simp: ran_def)
    then show ?thesis using Some m'(1,3,4) assms(3) by (auto simp: dict_setdefault_def dict_get_helper_def)
  qed
qed

lemma pop_correct:
  assumes "inv m" "mp_obj_valid k" "\<not> m_is_fixed m" "None \<notin> ran (dict_abs m)"
  shows "\<exists>m'. (case dict_abs m (denote k) of
      Some (Some v) \<Rightarrow> dict_pop mp_obj_ops none m k deflt = Some (Inr (m', v)) \<and> inv m' \<and> \<not> m_is_fixed m'
        \<and> dict_abs m' = (dict_abs m)(denote k := None)
    | _ \<Rightarrow> dict_pop mp_obj_ops none m k deflt = Some (case deflt of None \<Rightarrow> Inl (KeyError k) | Some d \<Rightarrow> Inr (m, d)))"
proof (cases "dict_abs m (denote k)")
  case None
  then show ?thesis using remove [OF assms(1-3)] assms(3)
    by (auto simp: dict_pop_def dict_get_helper_def split: option.splits)
next
  case (Some w)
  then obtain v where v: "w = Some v" using assms(4) by (cases w) (auto simp: ran_def)
  obtain m' i where "mp_map_lookup mp_obj_ops m k Remove_if_found = Some (m', Some i)" "\<not> m_is_fixed m'"
    "e_value (m_table m' ! i) = Some v" "inv (set_value i None m')" "dict_abs (set_value i None m') = (dict_abs m)(denote k := None)"
    using remove [OF assms(1-3)] Some v by auto
  then show ?thesis using Some v assms(3) by (auto simp: dict_pop_def dict_get_helper_def set_value_def)
qed

lemma delete_correct:
  assumes "inv m" "mp_obj_valid k" "\<not> m_is_fixed m" "None \<notin> ran (dict_abs m)"
  shows "\<exists>m'. mp_obj_dict_delete mp_obj_ops none m k =
      Some (if denote k \<in> dom (dict_abs m) then Inr (m', ()) else Inl (KeyError k))
    \<and> (denote k \<in> dom (dict_abs m) \<longrightarrow> inv m' \<and> \<not> m_is_fixed m' \<and> dict_abs m' = (dict_abs m)(denote k := None))"
proof -
  obtain m' where m': "case dict_abs m (denote k) of
      Some (Some v) \<Rightarrow> dict_pop mp_obj_ops none m k None = Some (Inr (m', v)) \<and> inv m' \<and> \<not> m_is_fixed m'
        \<and> dict_abs m' = (dict_abs m)(denote k := None)
    | _ \<Rightarrow> dict_pop mp_obj_ops none m k None = Some (Inl (KeyError k))"
    using pop_correct [OF assms, of none None] unfolding option.case by blast
  have "denote k \<in> dom (dict_abs m) \<longleftrightarrow> (\<exists>v. dict_abs m (denote k) = Some (Some v))"
    using assms(4) by (auto simp: ran_def dom_def) (metis not_None_eq)
  then show ?thesis using m' by (auto simp: mp_obj_dict_delete_def dict_pop_def split: option.splits)
qed

lemma store_all_correct:
  assumes "inv m" "\<forall>kv \<in> set kvs. mp_obj_valid (fst kv)" "\<not> m_is_fixed m"
  shows "\<exists>m'. dict_store_all mp_obj_ops kvs m = Some m' \<and> inv m' \<and> \<not> m_is_fixed m'
    \<and> dict_abs m' = dict_abs m ++ map_of (rev (map (\<lambda>(k, v). (denote k, v)) kvs))"
  using assms
proof (induction kvs arbitrary: m)
  case Nil
  then show ?case by (simp add: dict_store_all_def)
next
  case (Cons kv kvs)
  obtain k v where kv: "kv = (k, v)" by fastforce
  obtain m1 i where m1: "mp_map_lookup mp_obj_ops m k Add_if_not_found = Some (m1, Some i)" "\<not> m_is_fixed m1"
    "inv (set_value i v m1)" "dict_abs (set_value i v m1) = (dict_abs m)(denote k \<mapsto> v)"
    using add [OF Cons.prems(1) _ Cons.prems(3), of k] Cons.prems(2) kv by fastforce
  have "\<not> m_is_fixed (set_value i v m1)" using m1(2) by (simp add: set_value_def)
  from Cons.IH [OF m1(3) _ this] Cons.prems(2)
  obtain m' where m': "dict_store_all mp_obj_ops kvs (set_value i v m1) = Some m'" "inv m'" "\<not> m_is_fixed m'"
    "dict_abs m' = dict_abs (set_value i v m1) ++ map_of (rev (map (\<lambda>(k, v). (denote k, v)) kvs))" by auto
  have "dict_store_all mp_obj_ops (kv # kvs) m = Some m'" using m1(1) m'(1) kv by (simp add: dict_store_all_def)
  moreover have "dict_abs m' = dict_abs m ++ map_of (rev (map (\<lambda>(k, v). (denote k, v)) (kv # kvs)))"
    unfolding m'(4) m1(4) kv by (rule ext) (simp add: map_add_def split: option.splits)
  ultimately show ?case using m'(2,3) by blast
qed

end

section \<open>Hash tables implement the dictionary\<close>

lemma distinct_map_filter:
  assumes "\<And>i j a b. i < length t \<Longrightarrow> j < length t \<Longrightarrow> f (t ! i) = Some a \<Longrightarrow> f (t ! j) = Some b \<Longrightarrow> g a = g b \<Longrightarrow> i = j"
  shows "distinct (map g (List.map_filter f t))"
  using assms
proof (induction t)
  case (Cons e t)
  have IH: "distinct (map g (List.map_filter f t))"
  proof (rule Cons.IH)
    fix i j a b assume "i < length t" "j < length t" "f (t ! i) = Some a" "f (t ! j) = Some b" "g a = g b"
    then show "i = j" using Cons.prems [of "Suc i" "Suc j" a b] by simp
  qed
  show ?case
  proof (cases "f e")
    case None
    then show ?thesis using IH by simp
  next
    case (Some a)
    have "g a \<notin> g ` set (List.map_filter f t)"
    proof
      assume "g a \<in> g ` set (List.map_filter f t)"
      then obtain j b where "j < length t" "f (t ! j) = Some b" "g a = g b" by (auto simp: map_filter_set in_set_conv_nth)
      then show False using Cons.prems [of 0 "Suc j" a b] Some by simp
    qed
    then show ?thesis using IH Some by simp
  qed
qed simp

abbreviation hash_dict_inv :: "mp_obj mp_map \<Rightarrow> bool" where
  "hash_dict_inv m \<equiv> hash_map_inv mp_obj_ops mp_obj_valid m"

lemma hash_key_valid:
  assumes "hash_dict_inv m" "i < length (m_table m)" "e_key (m_table m ! i) = Key k"
  shows "mp_obj_valid k"
  using table_invD(1) [of mp_obj_ops mp_obj_valid "map_keys m" i k] assms by (simp add: hash_map_inv_def)

lemma hash_distinct:
  assumes "hash_dict_inv m"
  shows "distinct (map (\<lambda>kv. denote (fst kv)) (map_items m))"
proof -
  have o: "\<not> m_is_ordered m" and t: "table_inv mp_obj_ops mp_obj_valid (map_keys m)"
    using assms by (auto simp: hash_map_inv_def)
  show ?thesis unfolding map_items_def if_not_P [OF o]
  proof (rule distinct_map_filter)
    fix i j :: nat and a b :: "mp_obj \<times> mp_obj option"
    assume ij: "i < length (m_table m)" "j < length (m_table m)" and ab: "item (m_table m ! i) = Some a" "item (m_table m ! j) = Some b"
      and eq: "denote (fst a) = denote (fst b)"
    have k: "e_key (m_table m ! i) = Key (fst a)" "e_key (m_table m ! j) = Key (fst b)"
      using ab by (cases a; cases b; simp add: item_iff)+
    have "mp_obj_equal (fst a) (fst b)"
      using eq hash_key_valid [OF assms ij(1) k(1)] hash_key_valid [OF assms ij(2) k(2)] by (simp add: mp_obj_equal_denote)
    then show "i = j" using table_invD(3) [OF t, of i "fst a" j "fst b"] ij k by simp
  qed
qed

lemma hash_abs:
  assumes inv: "hash_dict_inv m" and x: "mp_obj_valid x"
  shows "holds mp_obj_ops (map_keys m) x i \<Longrightarrow> dict_abs m (denote x) = Some (e_value (m_table m ! i))"
    "\<nexists>i. holds mp_obj_ops (map_keys m) x i \<Longrightarrow> dict_abs m (denote x) = None"
proof -
  have o: "\<not> m_is_ordered m" using inv by (auto simp: hash_map_inv_def)
  have d: "distinct (map fst (map (\<lambda>(k, v). (denote k, v)) (map_items m)))"
    using hash_distinct [OF inv] by (simp add: comp_def case_prod_unfold)
  show "dict_abs m (denote x) = Some (e_value (m_table m ! i))" if h: "holds mp_obj_ops (map_keys m) x i"
  proof -
    obtain k where k: "i < length (m_table m)" "e_key (m_table m ! i) = Key k" "mp_obj_equal k x" using h by (auto simp: holds_def)
    then have "denote k = denote x" using mp_obj_equal_denote [OF hash_key_valid [OF inv k(1,2)] x] by blast
    moreover have "(k, e_value (m_table m ! i)) \<in> set (map_items m)" using hash_items_set [OF o] k by auto
    ultimately show ?thesis unfolding dict_abs_def using d by (intro map_of_is_SomeI) force+
  qed
  show "dict_abs m (denote x) = None" if n: "\<nexists>i. holds mp_obj_ops (map_keys m) x i"
  proof (rule ccontr)
    assume "dict_abs m (denote x) \<noteq> None"
    then obtain k v where kv: "(k, v) \<in> set (map_items m)" "denote k = denote x"
      unfolding dict_abs_def map_of_eq_None_iff by auto
    then obtain i where i: "i < length (m_table m)" "e_key (m_table m ! i) = Key k" using hash_items_set [OF o] by auto
    then have "holds mp_obj_ops (map_keys m) x i"
      using mp_obj_equal_denote [OF hash_key_valid [OF inv i] x] kv(2) by (simp add: holds_def)
    then show False using n by blast
  qed
qed

text \<open>The abstract dictionary depends on the multiset of entries only.\<close>

lemma dict_abs_mset:
  assumes "hash_dict_inv m" "distinct (map (\<lambda>kv. denote (fst kv)) kvs)" "mset (map_items m) = mset kvs"
  shows "dict_abs m = map_of (map (\<lambda>(k, v). (denote k, v)) kvs)"
proof -
  have "set (map_items m) = set kvs" using assms(3) by (rule mset_eq_setD)
  moreover have "distinct (map fst (map (\<lambda>(k, v). (denote k, v)) (map_items m)))" "distinct (map fst (map (\<lambda>(k, v). (denote k, v)) kvs))"
    using hash_distinct [OF assms(1)] assms(2) by (simp_all add: comp_def case_prod_unfold)
  ultimately show ?thesis unfolding dict_abs_def by (subst map_of_inject_set) simp_all
qed

lemma dict_abs_insert:
  assumes inv: "hash_dict_inv m" and items: "mset (map_items m) = add_mset (k, v) (mset kvs)"
  shows "dict_abs m = (map_of (map (\<lambda>(k, v). (denote k, v)) kvs))(denote k \<mapsto> v)"
    "map_of (map (\<lambda>(k, v). (denote k, v)) kvs) (denote k) = None"
proof -
  have eq: "mset (map_items m) = mset ((k, v) # kvs)" using items by simp
  have "mset (map (\<lambda>kv. denote (fst kv)) (map_items m)) = mset (map (\<lambda>kv. denote (fst kv)) ((k, v) # kvs))"
    by (simp only: mset_map eq)
  then have d: "distinct (map (\<lambda>kv. denote (fst kv)) ((k, v) # kvs))"
    using hash_distinct [OF inv] mset_eq_imp_distinct_iff by blast
  show "dict_abs m = (map_of (map (\<lambda>(k, v). (denote k, v)) kvs))(denote k \<mapsto> v)"
    unfolding dict_abs_mset [OF inv d eq] by simp
  show "map_of (map (\<lambda>(k, v). (denote k, v)) kvs) (denote k) = None"
    using d by (auto simp: map_of_eq_None_iff image_image case_prod_unfold)
qed

lemma hash_add:
  assumes inv: "hash_dict_inv m" and x: "mp_obj_valid x"
  shows "\<exists>m' i. mp_map_lookup mp_obj_ops m x Add_if_not_found = Some (m', Some i) \<and> \<not> m_is_fixed m'
    \<and> e_value (m_table m' ! i) = (case dict_abs m (denote x) of None \<Rightarrow> None | Some v \<Rightarrow> v)
    \<and> (dict_abs m (denote x) \<noteq> None \<longrightarrow> m' = m)
    \<and> (\<forall>v. hash_dict_inv (set_value i v m') \<and> dict_abs (set_value i v m') = (dict_abs m)(denote x \<mapsto> v))"
proof -
  obtain m' i where a: "mp_map_lookup mp_obj_ops m x Add_if_not_found = Some (m', Some i)" "hash_dict_inv m'"
    "holds mp_obj_ops (map_keys m') x i"
    "if \<exists>j. holds mp_obj_ops (map_keys m) x j then m' = m
     else m_table m' ! i = \<lparr>e_key = Key x, e_value = None\<rparr> \<and> mset (map_items m') = add_mset (x, None) (mset (map_items m))"
    using obj_keys.lookup_add [OF inv x] unfolding add_result_def by blast
  obtain k where k: "i < length (m_table m')" "e_key (m_table m' ! i) = Key k" "mp_obj_equal k x" using a(3) by (auto simp: holds_def)
  have dk: "denote k = denote x" using mp_obj_equal_denote [OF hash_key_valid [OF a(2) k(1,2)] x] k(3) by blast
  let ?e = "e_value (m_table m' ! i)"
  have kv: "(k, ?e) \<in># mset (map_items m')"
    using hash_items_set [of m'] k a(2) by (auto simp: hash_map_inv_def)
  obtain kvs where kvs: "mset kvs = mset (map_items m') - {#(k, ?e)#}" using ex_mset by blast
  then have m': "mset (map_items m') = add_mset (k, ?e) (mset kvs)" using kv by simp
  note abs' = dict_abs_insert [OF a(2) m']
  have upd: "hash_dict_inv (set_value i v m') \<and> dict_abs (set_value i v m') = (map_of (map (\<lambda>(k, v). (denote k, v)) kvs))(denote x \<mapsto> v)" for v
  proof -
    note sv = obj_keys.set_value_inv [OF a(2) k(1,2), of v]
    have "mset (map_items (set_value i v m')) = add_mset (k, v) (mset kvs)" using sv(3) m' by simp
    then show ?thesis using sv(1) dict_abs_insert(1) [OF sv(1)] dk by simp
  qed
  have nf: "\<not> m_is_fixed m'" using a(2) by (simp add: hash_map_inv_def)
  show ?thesis
  proof (cases "\<exists>j. holds mp_obj_ops (map_keys m) x j")
    case True
    then have "m' = m" using a(4) by simp
    then show ?thesis using a(1) nf upd abs' dk by (intro exI [of _ m'] exI [of _ i]) simp
  next
    case False
    then have n: "dict_abs m (denote x) = None" using hash_abs(2) [OF inv x] by blast
    have i: "m_table m' ! i = \<lparr>e_key = Key x, e_value = None\<rparr>" "mset (map_items m') = add_mset (x, None) (mset (map_items m))"
      using a(4) False by simp_all
    then have "mset (map_items m) = mset kvs" using m' k(2) by simp
    moreover have "distinct (map (\<lambda>kv. denote (fst kv)) kvs)"
    proof -
      have "mset (map (\<lambda>kv. denote (fst kv)) (map_items m)) = mset (map (\<lambda>kv. denote (fst kv)) kvs)"
        by (simp only: mset_map calculation)
      then show ?thesis using hash_distinct [OF inv] mset_eq_imp_distinct_iff by blast
    qed
    ultimately have "dict_abs m = map_of (map (\<lambda>(k, v). (denote k, v)) kvs)" using dict_abs_mset [OF inv] by blast
    then show ?thesis using a(1) nf upd n i(1) by (intro exI [of _ m'] exI [of _ i]) simp
  qed
qed

lemma hash_remove:
  assumes inv: "hash_dict_inv m" and x: "mp_obj_valid x"
  shows "case dict_abs m (denote x) of
      None \<Rightarrow> mp_map_lookup mp_obj_ops m x Remove_if_found = Some (m, None)
    | Some v \<Rightarrow> \<exists>m' i. mp_map_lookup mp_obj_ops m x Remove_if_found = Some (m', Some i) \<and> \<not> m_is_fixed m'
        \<and> e_value (m_table m' ! i) = v \<and> hash_dict_inv (set_value i None m')
        \<and> dict_abs (set_value i None m') = (dict_abs m)(denote x := None)"
proof -
  obtain r where r: "case r of
        Some i \<Rightarrow> holds mp_obj_ops (map_keys m) x i \<and> mp_map_lookup mp_obj_ops m x Remove_if_found = Some (mp_map_remove_at m i, Some i)
      | None \<Rightarrow> (\<nexists>i. holds mp_obj_ops (map_keys m) x i) \<and> mp_map_lookup mp_obj_ops m x Remove_if_found = Some (m, None)"
    using obj_keys.lookup_remove [OF inv x] by blast
  show ?thesis
  proof (cases r)
    case None
    then show ?thesis using r hash_abs(2) [OF inv x] by simp
  next
    case (Some i)
    then have h: "holds mp_obj_ops (map_keys m) x i" "mp_map_lookup mp_obj_ops m x Remove_if_found = Some (mp_map_remove_at m i, Some i)"
      using r by simp_all
    let ?m = "mp_map_remove_at m i" and ?s = "set_value i None (mp_map_remove_at m i)"
    note ra = obj_keys.remove_at [OF inv x h(1)]
    obtain k where k: "e_key (m_table m ! i) = Key k" "mp_obj_equal k x"
      "mset (map_items m) = add_mset (k, e_value (m_table m ! i)) (mset (map_items ?m))" using ra(2) by auto
    have i: "i < length (m_table m)" using h(1) by (simp add: holds_def)
    have dk: "denote k = denote x" using mp_obj_equal_denote [OF hash_key_valid [OF inv i k(1)] x] k(2) by blast
    have keys: "map_keys ?s = map_keys ?m" using i by (simp add: set_value_def map_update list_update_same_conv mp_map_remove_at_def)
    have nk: "item (m_table ?s ! i) = None" "item (m_table ?m ! i) = None"
      using i by (auto simp: set_value_def mp_map_remove_at_def item_def clear_slot_def)
    have o: "\<not> m_is_ordered ?m" "\<not> m_is_ordered ?s" using inv by (auto simp: set_value_def mp_map_remove_at_def hash_map_inv_def)
    have li: "i < length (m_table ?m)" using i by (simp add: mp_map_remove_at_def)
    have "mset (List.map_filter item ((m_table ?m)[i := (m_table ?m ! i)\<lparr>e_value := None\<rparr>])) = mset (List.map_filter item (m_table ?m))"
      using mset_map_filter_update [OF li, of item "(m_table ?m ! i)\<lparr>e_value := None\<rparr>"] nk li by (simp add: set_value_def)
    then have items: "mset (map_items ?s) = mset (map_items ?m)" using o by (simp add: map_items_def set_value_def)
    then have sinv: "hash_dict_inv ?s"
      using ra(1) mset_eq_length [OF items] mset_eq_setD [OF items] unfolding hash_map_inv_def keys by (auto simp: set_value_def)
    note abs = dict_abs_insert [OF inv k(3)]
    have "distinct (map (\<lambda>kv. denote (fst kv)) (map_items ?m))" by (rule hash_distinct [OF ra(1)])
    then have "dict_abs ?s = map_of (map (\<lambda>(k, v). (denote k, v)) (map_items ?m))" using dict_abs_mset [OF sinv _ items] by blast
    then have "dict_abs ?s = (dict_abs m)(denote x := None)" using abs dk by (auto simp: fun_eq_iff)
    moreover have "\<not> m_is_fixed ?m" using ra(1) by (simp add: hash_map_inv_def)
    ultimately show ?thesis using hash_abs(1) [OF inv x h(1)] h(2) sinv ra(4) by auto
  qed
qed

interpretation hash_dict: map_contract hash_dict_inv
proof unfold_locales
  fix m x assume inv: "hash_dict_inv m" and x: "mp_obj_valid x"
  obtain r where r: "mp_map_lookup mp_obj_ops m x Lookup = Some (m, r)"
    "case r of Some i \<Rightarrow> holds mp_obj_ops (map_keys m) x i | None \<Rightarrow> \<nexists>i. holds mp_obj_ops (map_keys m) x i"
    using obj_keys.lookup_find [OF inv x] by blast
  then show "\<exists>r. mp_map_lookup mp_obj_ops m x Lookup = Some (m, r) \<and> dict_abs m (denote x) = map_option (\<lambda>i. e_value (m_table m ! i)) r"
    using hash_abs [OF inv x] by (intro exI [of _ r]) (cases r; simp)
next
  fix m assume inv: "hash_dict_inv m"
  have "dom (dict_abs m) = (\<lambda>kv. denote (fst kv)) ` set (map_items m)" by (simp add: dict_abs_def dom_map_of_conv_image_fst image_image case_prod_unfold)
  also have "card \<dots> = length (map_items m)" using distinct_card [OF hash_distinct [OF inv]] by simp
  finally show "m_used m = card (dom (dict_abs m))" using inv by (simp add: hash_map_inv_def)
next
  fix m assume "hash_dict_inv m"
  then show "hash_dict_inv (mp_map_clear m)"
    by (simp add: hash_map_inv_def mp_map_clear_def map_items_def table_inv_def)
qed (rule hash_add hash_remove; assumption)+

section \<open>Ordered arrays implement the dictionary\<close>

text \<open>Behind the last entry no slot keeps a value.\<close>

definition ordered_dict_inv :: "mp_obj mp_map \<Rightarrow> bool" where
  "ordered_dict_inv m \<longleftrightarrow> ordered_map_inv mp_obj_ops mp_obj_valid m \<and> (\<forall>i. m_used m \<le> i \<and> i < length (m_table m) \<longrightarrow> e_value (m_table m ! i) = None)"

lemma ordered_valid:
  assumes "ordered_map_inv mp_obj_ops mp_obj_valid m" "(k, v) \<in> set (map_items m)"
  shows "mp_obj_valid k"
  using assms by (auto simp: ordered_map_inv_def map_items_def map_filter_set item_iff)

lemma ordered_distinct:
  assumes "ordered_map_inv mp_obj_ops mp_obj_valid m"
  shows "distinct (map (\<lambda>kv. denote (fst kv)) (map_items m))"
proof -
  have "sorted_wrt (\<lambda>k l. \<not> mp_obj_equal k l) (map fst (map_items m))" using assms by (simp add: ordered_map_inv_def)
  then have neq: "\<not> mp_obj_equal (fst (map_items m ! i)) (fst (map_items m ! j))" if "i < j" "j < length (map_items m)" for i j
    using that sorted_wrt_nth_less [of _ "map fst (map_items m)" i j] by simp
  have ne: "denote (fst (map_items m ! i)) \<noteq> denote (fst (map_items m ! j))" if "i < j" "j < length (map_items m)" for i j
    using neq [OF that] that ordered_valid [OF assms, of "fst (map_items m ! i)" "snd (map_items m ! i)"]
      ordered_valid [OF assms, of "fst (map_items m ! j)" "snd (map_items m ! j)"] by (simp add: mp_obj_equal_denote)
  show ?thesis unfolding distinct_conv_nth length_map
  proof (intro allI impI)
    fix i j assume "i < length (map_items m)" "j < length (map_items m)" "i \<noteq> j"
    then show "map (\<lambda>kv. denote (fst kv)) (map_items m) ! i \<noteq> map (\<lambda>kv. denote (fst kv)) (map_items m) ! j"
      using ne [of i j] ne [of j i] by (cases "i < j") auto
  qed
qed

lemma ordered_abs_absent:
  assumes inv: "ordered_map_inv mp_obj_ops mp_obj_valid m" and x: "mp_obj_valid x"
  shows "dict_abs m (denote x) = None \<longleftrightarrow> (\<forall>kv \<in> set (map_items m). \<not> mp_obj_equal (fst kv) x)"
  using ordered_valid [OF inv] x
  by (force simp: dict_abs_def map_of_eq_None_iff image_image case_prod_unfold mp_obj_equal_denote)

lemma ordered_abs_held:
  assumes inv: "ordered_map_inv mp_obj_ops mp_obj_valid m" and items: "map_items m = as @ (k, v) # bs"
  shows "dict_abs m = (map_of (map (\<lambda>(k, v). (denote k, v)) (as @ bs)))(denote k \<mapsto> v)"
    "map_of (map (\<lambda>(k, v). (denote k, v)) (as @ bs)) (denote k) = None"
proof -
  have d: "distinct (map (\<lambda>kv. denote (fst kv)) (as @ (k, v) # bs))" using ordered_distinct [OF inv] items by simp
  then have "denote k \<notin> (\<lambda>kv. denote (fst kv)) ` set (as @ bs)" by auto
  then show n: "map_of (map (\<lambda>(k, v). (denote k, v)) (as @ bs)) (denote k) = None"
    by (auto simp: map_of_eq_None_iff image_image case_prod_unfold)
  then show "dict_abs m = (map_of (map (\<lambda>(k, v). (denote k, v)) (as @ bs)))(denote k \<mapsto> v)"
    unfolding dict_abs_def items by (rule_tac ext) (auto simp: map_add_def split: option.splits)
qed

lemma ordered_set_value:
  assumes inv: "ordered_map_inv mp_obj_ops mp_obj_valid m"
  shows "ordered_map_inv mp_obj_ops mp_obj_valid (set_value i v m)"
    "map_items (set_value i v m) = (if i < m_used m then (map_items m)[i := (fst (map_items m ! i), v)] else map_items m)"
proof -
  let ?s = "set_value i v m"
  have o: "m_is_ordered m" "m_used m \<le> length (m_table m)" using inv by (auto simp: ordered_map_inv_def)
  have s: "m_used ?s = m_used m" "m_is_ordered ?s = m_is_ordered m" "length (m_table ?s) = length (m_table m)"
    "m_all_keys_are_qstrs ?s = m_all_keys_are_qstrs m" by (simp_all add: set_value_def)
  have key: "e_key (m_table ?s ! j) = e_key (m_table m ! j)" if "j < length (m_table m)" for j
    using that by (cases "i = j") (simp_all add: set_value_def)
  have filled: "\<forall>e \<in> set (take (m_used m) (m_table ?s)). \<exists>k. e_key e = Key k \<and> mp_obj_valid k"
  proof
    fix e assume "e \<in> set (take (m_used m) (m_table ?s))"
    then obtain j where j: "j < m_used m" "e = m_table ?s ! j" using o(2) s(3) by (auto simp: in_set_conv_nth)
    then have "m_table m ! j \<in> set (take (m_used m) (m_table m))" using o(2) by (auto simp: in_set_conv_nth)
    then show "\<exists>k. e_key e = Key k \<and> mp_obj_valid k" using inv key [of j] j o(2) by (auto simp: ordered_map_inv_def)
  qed
  have all: "map Some (List.map_filter item xs) = map item xs" if "\<forall>e \<in> set xs. \<exists>k. e_key e = Key k \<and> mp_obj_valid k"
    for xs :: "mp_obj mp_map_elem list" using that by (induction xs) (auto simp: List.map_filter_def)
  have ms: "map Some (map_items ?s) = map item (take (m_used m) (m_table ?s))"
    unfolding map_items_def s(1,2) using o(1) all [OF filled] by simp
  note oi = ordered_items [OF inv]
  have len: "length (map_items ?s) = m_used m" using arg_cong [OF ms, of length] o(2) s(3) by simp
  show items: "map_items ?s = (if i < m_used m then (map_items m)[i := (fst (map_items m ! i), v)] else map_items m)"
  proof (rule nth_equalityI)
    show "length (map_items ?s) = length (if i < m_used m then (map_items m)[i := (fst (map_items m ! i), v)] else map_items m)"
      using len oi(1) by simp
    fix j assume "j < length (map_items ?s)"
    then have j: "j < m_used m" "j < length (m_table m)" using len o(2) by simp_all
    have it: "item (m_table ?s ! j) = Some (map_items ?s ! j)"
      using arg_cong [OF ms, of "\<lambda>xs. xs ! j"] j len o(2) s(3) by simp
    have old: "item (m_table m ! j) = Some (map_items m ! j)" by (rule oi(2) [OF j(1)])
    show "map_items ?s ! j = (if i < m_used m then (map_items m)[i := (fst (map_items m ! i), v)] else map_items m) ! j"
    proof (cases "i = j")
      case True
      obtain k w where kw: "map_items m ! j = (k, w)" by fastforce
      then have "e_key (m_table m ! j) = Key k" using old by (simp add: item_iff)
      then have "item (m_table ?s ! j) = Some (k, v)" using True j by (simp add: set_value_def item_iff)
      then show ?thesis using True it kw j oi(1) by simp
    next
      case False
      then show ?thesis using it old j by (simp add: set_value_def)
    qed
  qed
  have fst: "map fst (map_items ?s) = map fst (map_items m)" unfolding items
    using oi(1) by (auto simp: map_update list_update_same_conv)
  then have "fst ` set (map_items ?s) = fst ` set (map_items m)" by (metis list.set_map)
  then show "ordered_map_inv mp_obj_ops mp_obj_valid ?s"
    using inv filled unfolding ordered_map_inv_def s fst by simp
qed

lemma dict_abs_upd:
  assumes "map_items m = as @ (k, w) # bs" "map_items m' = as @ (k, v) # bs"
    "ordered_map_inv mp_obj_ops mp_obj_valid m" "ordered_map_inv mp_obj_ops mp_obj_valid m'"
  shows "dict_abs m' = (dict_abs m)(denote k \<mapsto> v)"
  using ordered_abs_held [OF assms(3,1)] ordered_abs_held [OF assms(4,2)] by simp

lemma set_value_frame:
  "m_is_fixed (set_value i v m) = m_is_fixed m" "m_used (set_value i v m) = m_used m"
  "length (m_table (set_value i v m)) = length (m_table m)"
  "j < length (m_table m) \<Longrightarrow> e_value (m_table (set_value i v m) ! j) = (if j = i then v else e_value (m_table m ! j))"
  by (auto simp: set_value_def nth_list_update)

lemma ordered_dict_add:
  assumes inv: "ordered_dict_inv m" and x: "mp_obj_valid x" and nf: "\<not> m_is_fixed m"
  shows "\<exists>m' i. mp_map_lookup mp_obj_ops m x Add_if_not_found = Some (m', Some i) \<and> \<not> m_is_fixed m'
    \<and> e_value (m_table m' ! i) = (case dict_abs m (denote x) of None \<Rightarrow> None | Some v \<Rightarrow> v)
    \<and> (dict_abs m (denote x) \<noteq> None \<longrightarrow> m' = m)
    \<and> (\<forall>v. ordered_dict_inv (set_value i v m') \<and> dict_abs (set_value i v m') = (dict_abs m)(denote x \<mapsto> v))"
proof -
  have oinv: "ordered_map_inv mp_obj_ops mp_obj_valid m" using inv by (simp add: ordered_dict_inv_def)
  note oi = ordered_items [OF oinv]
  have used: "m_used m \<le> length (m_table m)" using oinv by (simp add: ordered_map_inv_def)
  obtain cmp where cmp: "cmp \<longrightarrow> fst ` set (map_items m) \<subseteq> Collect (o_is_qstr mp_obj_ops) \<and> (o_is_qstr mp_obj_ops x \<or> \<not> o_is_str mp_obj_ops x)"
    "mp_map_lookup mp_obj_ops m x Add_if_not_found = mp_map_lookup_ordered mp_obj_ops cmp m x Add_if_not_found"
    using obj_keys.lookup_ordered [OF oinv x, of Add_if_not_found] nf by blast
  show ?thesis
  proof (cases rule: obj_keys.ordered_cases [OF oinv x cmp(1), case_names held absent])
    case (held as k v bs m')
    have dk: "denote k = denote x"
      using held(2) mp_obj_equal_denote [OF ordered_valid [OF oinv] x, of k v] held(1) by simp
    have i: "length as < m_used m" using oi(1) held(1) by simp
    have "ordered_dict_inv (set_value (length as) w m) \<and> dict_abs (set_value (length as) w m) = (dict_abs m)(denote x \<mapsto> w)" for w
    proof -
      note sv = ordered_set_value [OF oinv, of "length as" w]
      have "map_items (set_value (length as) w m) = as @ (k, w) # bs" using sv(2) i held(1) by simp
      then have "dict_abs (set_value (length as) w m) = (dict_abs m)(denote k \<mapsto> w)"
        by (rule dict_abs_upd [OF held(1) _ oinv sv(1)])
      then show ?thesis using inv sv(1) i dk by (simp add: ordered_dict_inv_def set_value_frame)
    qed
    moreover have "dict_abs m (denote x) = Some v" using ordered_abs_held(1) [OF oinv held(1)] dk by simp
    ultimately show ?thesis using cmp(2) held(4,9) nf by (intro exI [of _ m] exI [of _ "length as"]) simp
  next
    case (absent m' v)
    have n: "dict_abs m (denote x) = None" using absent(1) ordered_abs_absent [OF oinv x] by simp
    have o': "m_used m' = Suc (m_used m)" "m_used m' \<le> length (m_table m')" using absent(5,8) by (auto simp: ordered_map_inv_def)
    have behind: "e_value (m_table m' ! j) = None" if "m_used m \<le> j" "j < length (m_table m')" for j
      using absent(10) that inv by (auto simp: ordered_dict_inv_def)
    have "ordered_dict_inv (set_value (m_used m) w m') \<and> dict_abs (set_value (m_used m) w m') = (dict_abs m)(denote x \<mapsto> w)" for w
    proof -
      note sv = ordered_set_value [OF absent(5), of "m_used m" w]
      have "map_items (set_value (m_used m) w m') = map_items m @ (x, w) # []"
        using sv(2) o'(1) absent(6) oi(1) by (simp add: list_update_append nth_append)
      from ordered_abs_held [OF sv(1) this] have "dict_abs (set_value (m_used m) w m') = (dict_abs m)(denote x \<mapsto> w)"
        by (simp add: dict_abs_def)
      moreover have "ordered_dict_inv (set_value (m_used m) w m')"
        using sv(1) behind o'(1) by (auto simp: ordered_dict_inv_def set_value_frame)
      ultimately show ?thesis by blast
    qed
    then show ?thesis using cmp(2) absent(4,7) n nf behind [of "m_used m"] o' oi(1)
      by (intro exI [of _ m'] exI [of _ "m_used m"]) simp
  qed
qed

lemma ordered_dict_remove:
  assumes inv: "ordered_dict_inv m" and x: "mp_obj_valid x" and nf: "\<not> m_is_fixed m"
  shows "case dict_abs m (denote x) of
      None \<Rightarrow> mp_map_lookup mp_obj_ops m x Remove_if_found = Some (m, None)
    | Some v \<Rightarrow> \<exists>m' i. mp_map_lookup mp_obj_ops m x Remove_if_found = Some (m', Some i) \<and> \<not> m_is_fixed m'
        \<and> e_value (m_table m' ! i) = v \<and> ordered_dict_inv (set_value i None m')
        \<and> dict_abs (set_value i None m') = (dict_abs m)(denote x := None)"
proof -
  have oinv: "ordered_map_inv mp_obj_ops mp_obj_valid m" using inv by (simp add: ordered_dict_inv_def)
  obtain cmp where cmp: "cmp \<longrightarrow> fst ` set (map_items m) \<subseteq> Collect (o_is_qstr mp_obj_ops) \<and> (o_is_qstr mp_obj_ops x \<or> \<not> o_is_str mp_obj_ops x)"
    "mp_map_lookup mp_obj_ops m x Remove_if_found = mp_map_lookup_ordered mp_obj_ops cmp m x Remove_if_found"
    using obj_keys.lookup_ordered [OF oinv x, of Remove_if_found] nf by blast
  show ?thesis
  proof (cases rule: obj_keys.ordered_cases [OF oinv x cmp(1), case_names held absent])
    case (held as k v bs m')
    let ?i = "length (as @ bs)"
    have dk: "denote k = denote x"
      using held(2) mp_obj_equal_denote [OF ordered_valid [OF oinv] x, of k v] held(1) by simp
    note abs = ordered_abs_held [OF oinv held(1)]
    note sv = ordered_set_value [OF held(6), of ?i None]
    have used: "m_used m = Suc ?i" using ordered_items(1) [OF oinv] held(1) by simp
    have "map_items (set_value ?i None m') = as @ bs" using sv(2) held(7,11) by simp
    then have "dict_abs (set_value ?i None m') = (dict_abs m)(denote x := None)"
      using abs dk by (auto simp: dict_abs_def fun_eq_iff)
    moreover have "ordered_dict_inv (set_value ?i None m')"
      using sv(1) inv held(11-13) used by (auto simp: ordered_dict_inv_def set_value_frame)
    moreover have "dict_abs m (denote x) = Some v" using abs(1) dk by simp
    ultimately show ?thesis using cmp(2) held(5,8,10) nf by auto
  next
    case (absent m' v)
    then show ?thesis using cmp(2) ordered_abs_absent [OF oinv x] by simp
  qed
qed

interpretation ordered_dict: map_contract ordered_dict_inv
proof unfold_locales
  fix m x assume inv: "ordered_dict_inv m" and x: "mp_obj_valid x"
  have oinv: "ordered_map_inv mp_obj_ops mp_obj_valid m" using inv by (simp add: ordered_dict_inv_def)
  obtain cmp where cmp: "cmp \<longrightarrow> fst ` set (map_items m) \<subseteq> Collect (o_is_qstr mp_obj_ops) \<and> (o_is_qstr mp_obj_ops x \<or> \<not> o_is_str mp_obj_ops x)"
    "mp_map_lookup mp_obj_ops m x Lookup = mp_map_lookup_ordered mp_obj_ops cmp m x Lookup"
    using obj_keys.lookup_ordered [OF oinv x, of Lookup] by blast
  show "\<exists>r. mp_map_lookup mp_obj_ops m x Lookup = Some (m, r) \<and> dict_abs m (denote x) = map_option (\<lambda>i. e_value (m_table m ! i)) r"
  proof (cases rule: obj_keys.ordered_cases [OF oinv x cmp(1), case_names held absent])
    case (held as k v bs m')
    have "denote k = denote x"
      using held(2) mp_obj_equal_denote [OF ordered_valid [OF oinv] x, of k v] held(1) by simp
    then show ?thesis using cmp(2) held(3,9) ordered_abs_held(1) [OF oinv held(1)] by (intro exI [of _ "Some (length as)"]) simp
  next
    case (absent m' v)
    then show ?thesis using cmp(2) ordered_abs_absent [OF oinv x] by (intro exI [of _ None]) simp
  qed
next
  fix m assume "ordered_dict_inv m"
  then have oinv: "ordered_map_inv mp_obj_ops mp_obj_valid m" by (simp add: ordered_dict_inv_def)
  have "dom (dict_abs m) = (\<lambda>kv. denote (fst kv)) ` set (map_items m)" by (simp add: dict_abs_def dom_map_of_conv_image_fst image_image case_prod_unfold)
  also have "card \<dots> = length (map_items m)" using distinct_card [OF ordered_distinct [OF oinv]] by simp
  finally show "m_used m = card (dom (dict_abs m))" using ordered_items(1) [OF oinv] by simp
next
  fix m assume "ordered_dict_inv m"
  then show "ordered_dict_inv (mp_map_clear m)"
    by (simp add: ordered_dict_inv_def ordered_map_inv_def mp_map_clear_def map_items_def)
qed (rule ordered_dict_add ordered_dict_remove; assumption)+

end
