(* ===== verification/Mp_Dict_Spec.thy ===== *)
theory Mp_Dict_Spec
  imports Mp_Dict
begin

text \<open>
  The dictionary of the language as an abstract state machine, the simulation of it by the methods
  of \<open>src/py/objdict.c\<close>, and the properties of dictionaries and of the keys.
\<close>

section \<open>Sequences of method calls\<close>

datatype dict_op =
    Op_getitem mp_obj
  | Op_get mp_obj "mp_obj option"
  | Op_in mp_obj
  | Op_setitem mp_obj mp_obj
  | Op_delitem mp_obj
  | Op_pop mp_obj "mp_obj option"
  | Op_setdefault mp_obj "mp_obj option"
  | Op_len
  | Op_clear

datatype dict_answer = Raised "mp_obj dict_error" | Value "mp_obj option" | Truth bool | Count nat | Done

text \<open>An exception leaves the dictionary as it was.\<close>

definition answer :: "mp_obj mp_map \<Rightarrow> ('r \<Rightarrow> dict_answer) \<Rightarrow> (mp_obj, 'r) dict_result \<Rightarrow> (mp_obj mp_map \<times> dict_answer) option" where
  "answer m f r = map_option (\<lambda>r. case r of Inl e \<Rightarrow> (m, Raised e) | Inr (m', v) \<Rightarrow> (m', f v)) r"

fun dict_step :: "mp_obj \<Rightarrow> dict_op \<Rightarrow> mp_obj mp_map \<Rightarrow> (mp_obj mp_map \<times> dict_answer) option" where
  "dict_step none (Op_getitem k) m = answer m Value (dict_subscr mp_obj_ops none m k Subscr_load)"
| "dict_step none (Op_get k d) m = answer m (Value \<circ> Some) (dict_get mp_obj_ops none m k d)"
| "dict_step none (Op_in k) m = map_option (\<lambda>b. (m, Truth b)) (dict_contains mp_obj_ops m k)"
| "dict_step none (Op_setitem k v) m = answer m (\<lambda>_. Done) (dict_subscr mp_obj_ops none m k (Subscr_store v))"
| "dict_step none (Op_delitem k) m = answer m (\<lambda>_. Done) (dict_subscr mp_obj_ops none m k Subscr_delete)"
| "dict_step none (Op_pop k d) m = answer m (Value \<circ> Some) (dict_pop mp_obj_ops none m k d)"
| "dict_step none (Op_setdefault k d) m = answer m (Value \<circ> Some) (dict_setdefault mp_obj_ops none m k d)"
| "dict_step none Op_len m = Some (m, Count (mp_obj_dict_len m))"
| "dict_step none Op_clear m = answer m (\<lambda>_. Done) (dict_clear m)"

fun dict_run :: "mp_obj \<Rightarrow> dict_op list \<Rightarrow> mp_obj mp_map \<Rightarrow> (mp_obj mp_map \<times> dict_answer list) option" where
  "dict_run none [] m = Some (m, [])"
| "dict_run none (op # ops) m =
     Option.bind (dict_step none op m) (\<lambda>(m, a). map_option (map_prod id ((#) a)) (dict_run none ops m))"

text \<open>What the language promises, on a finite map from what keys stand for to values.\<close>

abbreviation default_of :: "mp_obj \<Rightarrow> mp_obj option \<Rightarrow> mp_obj" where
  "default_of none d \<equiv> case d of None \<Rightarrow> none | Some d \<Rightarrow> d"

fun spec_step :: "mp_obj \<Rightarrow> dict_op \<Rightarrow> (denotation \<rightharpoonup> mp_obj) \<Rightarrow> (denotation \<rightharpoonup> mp_obj) \<times> dict_answer" where
  "spec_step none (Op_getitem k) d = (d, case d (denote k) of None \<Rightarrow> Raised (KeyError k) | Some v \<Rightarrow> Value (Some v))"
| "spec_step none (Op_get k e) d = (d, Value (Some (case d (denote k) of None \<Rightarrow> default_of none e | Some v \<Rightarrow> v)))"
| "spec_step none (Op_in k) d = (d, Truth (denote k \<in> dom d))"
| "spec_step none (Op_setitem k v) d = (d(denote k \<mapsto> v), Done)"
| "spec_step none (Op_delitem k) d =
     (case d (denote k) of None \<Rightarrow> (d, Raised (KeyError k)) | Some v \<Rightarrow> (d(denote k := None), Done))"
| "spec_step none (Op_pop k e) d =
     (case d (denote k) of
        None \<Rightarrow> (d, case e of None \<Rightarrow> Raised (KeyError k) | Some v \<Rightarrow> Value (Some v))
      | Some v \<Rightarrow> (d(denote k := None), Value (Some v)))"
| "spec_step none (Op_setdefault k e) d =
     (case d (denote k) of
        None \<Rightarrow> (d(denote k \<mapsto> default_of none e), Value (Some (default_of none e)))
      | Some v \<Rightarrow> (d, Value (Some v)))"
| "spec_step none Op_len d = (d, Count (card (dom d)))"
| "spec_step none Op_clear d = (Map.empty, Done)"

fun spec_run :: "mp_obj \<Rightarrow> dict_op list \<Rightarrow> (denotation \<rightharpoonup> mp_obj) \<Rightarrow> (denotation \<rightharpoonup> mp_obj) \<times> dict_answer list" where
  "spec_run none [] d = (d, [])"
| "spec_run none (op # ops) d = (let (d, a) = spec_step none op d in map_prod id ((#) a) (spec_run none ops d))"

fun op_valid :: "dict_op \<Rightarrow> bool" where
  "op_valid (Op_getitem k) = mp_obj_valid k"
| "op_valid (Op_get k d) = mp_obj_valid k"
| "op_valid (Op_in k) = mp_obj_valid k"
| "op_valid (Op_setitem k v) = mp_obj_valid k"
| "op_valid (Op_delitem k) = mp_obj_valid k"
| "op_valid (Op_pop k d) = mp_obj_valid k"
| "op_valid (Op_setdefault k d) = mp_obj_valid k"
| "op_valid Op_len = True"
| "op_valid Op_clear = True"

text \<open>The dictionary \<open>m\<close> represents the finite map \<open>d\<close>: no value is null.\<close>

definition represents :: "mp_obj mp_map \<Rightarrow> (denotation \<rightharpoonup> mp_obj) \<Rightarrow> bool" where
  "represents m d \<longleftrightarrow> \<not> m_is_fixed m \<and> (\<forall>x. dict_abs m x = map_option Some (d x))"

lemma representsD:
  assumes "represents m d"
  shows "\<not> m_is_fixed m" "dict_abs m x = map_option Some (d x)" "None \<notin> ran (dict_abs m)" "dom (dict_abs m) = dom d"
  using assms by (auto simp: represents_def ran_def dom_def)

lemma represents_upd:
  assumes "represents m d" "\<not> m_is_fixed m'"
  shows "dict_abs m' = (dict_abs m)(x \<mapsto> Some v) \<Longrightarrow> represents m' (d(x \<mapsto> v))"
    "dict_abs m' = (dict_abs m)(x := None) \<Longrightarrow> represents m' (d(x := None))"
  using assms by (simp_all add: represents_def)

lemma represents_clear: "represents (mp_map_clear m) Map.empty"
  by (simp add: represents_def mp_map_clear_def dict_abs_def map_items_def)

context map_contract
begin

text \<open>The simulation: each method does what the language promises, and keeps the invariant.\<close>

lemma read_refines:
  assumes "inv m" "represents m d" "op_valid op" "op \<in> {Op_getitem k, Op_get k e, Op_in k, Op_len}"
  shows "dict_step none op m = Some (m, snd (spec_step none op d)) \<and> fst (spec_step none op d) = d"
proof -
  note d = representsD [OF assms(2)]
  consider "op = Op_getitem k" | "op = Op_get k e" | "op = Op_in k" | "op = Op_len" using assms(4) by auto
  then show ?thesis
  proof cases
    case 1
    then show ?thesis using get_correct [OF assms(1), of k] assms(3) d(2) by (simp add: answer_def mp_obj_dict_get_def [symmetric] split: option.split)
  next
    case 2
    obtain r where "mp_map_lookup mp_obj_ops m k Lookup = Some (m, r)" "dict_abs m (denote k) = map_option (\<lambda>i. e_value (m_table m ! i)) r"
      using find [OF assms(1), of k] assms(3) 2 by auto
    moreover from this(2) have "Option.bind r (\<lambda>i. e_value (m_table m ! i)) = d (denote k)" using d(2) [of "denote k"]
      by (cases r; cases "d (denote k)") simp_all
    ultimately show ?thesis using 2
      by (cases "d (denote k)") (auto simp: answer_def dict_get_def dict_get_helper_def Let_def)
  next
    case 3
    then show ?thesis using contains_correct [OF assms(1), of k] assms(3) d(4) by simp
  next
    case 4
    then show ?thesis using count [OF assms(1)] d(4) by (simp add: mp_obj_dict_len_def)
  qed
qed

lemma step_refines:
  assumes "inv m" "represents m d" "op_valid op"
  shows "\<exists>m'. dict_step none op m = Some (m', snd (spec_step none op d)) \<and> inv m' \<and> represents m' (fst (spec_step none op d))"
proof -
  note d = representsD [OF assms(2)] and up = represents_upd [OF assms(2)] and rd = read_refines [OF assms]
  show ?thesis
  proof (cases op)
    case (Op_setitem k v)
    obtain m' where "mp_obj_dict_store mp_obj_ops m k v = Some (Inr (m', ()))" "inv m'" "\<not> m_is_fixed m'"
      "dict_abs m' = (dict_abs m)(denote k \<mapsto> Some v)"
      using store_correct [OF assms(1) _ d(1), of k v] assms(3) Op_setitem by auto
    then show ?thesis using up(1) [of m' "denote k" v] Op_setitem by (simp add: answer_def)
  next
    case (Op_delitem k)
    obtain m' where m': "mp_obj_dict_delete mp_obj_ops none m k = Some (if denote k \<in> dom d then Inr (m', ()) else Inl (KeyError k))"
      "denote k \<in> dom d \<Longrightarrow> inv m' \<and> \<not> m_is_fixed m' \<and> dict_abs m' = (dict_abs m)(denote k := None)"
      using delete_correct [OF assms(1) _ d(1,3), of k none] assms(3) Op_delitem unfolding d(4) by auto
    show ?thesis
    proof (cases "d (denote k)")
      case (Some v)
      then show ?thesis using m' up(2) [of m' "denote k"] Op_delitem by (simp add: answer_def domI)
    qed (use m'(1) assms(1,2) Op_delitem in \<open>simp add: answer_def domIff\<close>)
  next
    case (Op_pop k e)
    note k = d(2) [of "denote k"]
    obtain m' where m': "case dict_abs m (denote k) of
        Some (Some v) \<Rightarrow> dict_pop mp_obj_ops none m k e = Some (Inr (m', v)) \<and> inv m' \<and> \<not> m_is_fixed m'
          \<and> dict_abs m' = (dict_abs m)(denote k := None)
      | _ \<Rightarrow> dict_pop mp_obj_ops none m k e = Some (case e of None \<Rightarrow> Inl (KeyError k) | Some d \<Rightarrow> Inr (m, d))"
      using pop_correct [OF assms(1) _ d(1,3), of k none e] assms(3) Op_pop by auto
    show ?thesis
    proof (cases "d (denote k)")
      case None
      then show ?thesis using m' k assms(1,2) Op_pop by (cases e) (simp_all add: answer_def)
    next
      case (Some v)
      then show ?thesis using m' k up(2) [of m' "denote k"] Op_pop by (simp add: answer_def)
    qed
  next
    case (Op_setdefault k e)
    note k = d(2) [of "denote k"]
    obtain m' where m': "case dict_abs m (denote k) of
        Some (Some v) \<Rightarrow> m' = m \<and> dict_setdefault mp_obj_ops none m k e = Some (Inr (m, v))
      | _ \<Rightarrow> dict_setdefault mp_obj_ops none m k e = Some (Inr (m', default_of none e)) \<and> inv m' \<and> \<not> m_is_fixed m'
          \<and> dict_abs m' = (dict_abs m)(denote k \<mapsto> Some (default_of none e))"
      using setdefault_correct [OF assms(1) _ d(1,3) refl, of k none e] assms(3) Op_setdefault by auto
    show ?thesis
    proof (cases "d (denote k)")
      case None
      then show ?thesis using m' k up(1) [of m' "denote k" "default_of none e"] Op_setdefault by (simp add: answer_def)
    next
      case (Some v)
      then show ?thesis using m' k assms(1,2) Op_setdefault by (simp add: answer_def)
    qed
  next
    case Op_clear
    then show ?thesis using clear [OF assms(1)] represents_clear d(1) by (auto simp: answer_def dict_clear_def)
  next
    case (Op_getitem k)
    then show ?thesis using rd [of k] assms(1,2) by simp
  next
    case (Op_get k e)
    then show ?thesis using rd [of k e] assms(1,2) by simp
  next
    case (Op_in k)
    then show ?thesis using rd [of k] assms(1,2) by simp
  next
    case Op_len
    then show ?thesis using rd assms(1,2) by simp
  qed
qed

lemma run_refines:
  assumes "inv m" "represents m d" "list_all op_valid ops"
  shows "\<exists>m'. dict_run none ops m = Some (m', snd (spec_run none ops d)) \<and> inv m' \<and> represents m' (fst (spec_run none ops d))"
  using assms
proof (induction ops arbitrary: m d)
  case (Cons op ops)
  obtain m1 where m1: "dict_step none op m = Some (m1, snd (spec_step none op d))" "inv m1" "represents m1 (fst (spec_step none op d))"
    using step_refines [OF Cons.prems(1,2)] Cons.prems(3) by fastforce
  obtain m' where "dict_run none ops m1 = Some (m', snd (spec_run none ops (fst (spec_step none op d))))" "inv m'"
    "represents m' (fst (spec_run none ops (fst (spec_step none op d))))"
    using Cons.IH [OF m1(2,3)] Cons.prems(3) by auto
  then show ?case using m1(1) by (auto simp: case_prod_unfold Let_def)
qed simp

end

section \<open>Taking any entry\<close>

lemma find_Some_nth:
  assumes "find P xs = Some x"
  shows "x \<in> set xs \<and> P x"
  using assms by (auto simp: find_Some_iff)

lemma sentinel_inv:
  assumes "table_inv ops valid keys"
  shows "table_inv ops valid (keys[pos := Sentinel])"
proof (cases "pos < length keys")
  case True
  then have old: "keys ! i = Key k" if "i < length keys" "keys[pos := Sentinel] ! i = Key k" for i k
    using that by (cases "i = pos") simp_all
  show ?thesis unfolding table_inv_def length_list_update
  proof (intro conjI allI impI)
    fix i k assume "i < length keys" "keys[pos := Sentinel] ! i = Key k"
    note k = this(1) old [OF this]
    show "valid k" using table_invD(1) [OF assms k] .
    show "reached ops (keys[pos := Sentinel]) i k" by (rule reached_update [OF table_invD(2) [OF assms k]]) simp
  next
    fix i j k l assume ij: "i < length keys" "j < length keys" "keys[pos := Sentinel] ! i = Key k" "keys[pos := Sentinel] ! j = Key l" "o_equal ops k l"
    then show "i = j" using table_invD(3) [OF assms ij(1) old [OF ij(1,3)] ij(2) old [OF ij(2,4)]] by simp
  qed
qed (use assms in \<open>simp only: list_update_beyond not_less\<close>)

lemma popitem_hash:
  assumes inv: "hash_dict_inv m"
  shows "dict_popitem m = Some (Inl KeyError_empty) \<and> dict_abs m = Map.empty
    \<or> (\<exists>m' k v. dict_popitem m = Some (Inr (m', Key k, v)) \<and> hash_dict_inv m' \<and> dict_abs m (denote k) = Some v
        \<and> dict_abs m' = (dict_abs m)(denote k := None))"
proof -
  have m: "\<not> m_is_fixed m" "\<not> m_is_ordered m" "m_used m = length (map_items m)" "table_inv mp_obj_ops mp_obj_valid (map_keys m)"
    using inv by (auto simp: hash_map_inv_def)
  show ?thesis
  proof (cases "dict_iter_next m 0")
    case None
    have "item e = None" if "e \<in> set (m_table m)" for e
      using None that by (cases "e_key e") (auto simp: dict_iter_next_def find_None_iff mp_map_slot_is_filled_def in_set_conv_nth item_def)
    then have "map_items m = []" using m(2) by (simp add: map_items_def List.map_filter_def)
    then show ?thesis using None m(1) by (simp add: dict_popitem_def dict_abs_def)
  next
    case (Some pos)
    define m' where "m' = m\<lparr>m_used := m_used m - 1, m_table := (m_table m)[pos := \<lparr>e_key = Sentinel, e_value = None\<rparr>]\<rparr>"
    have pos: "pos < length (m_table m)" "mp_map_slot_is_filled m pos" using find_Some_nth [OF Some [unfolded dict_iter_next_def]] by auto
    then obtain k where k: "e_key (m_table m ! pos) = Key k" by (cases "e_key (m_table m ! pos)") (auto simp: mp_map_slot_is_filled_def)
    let ?v = "e_value (m_table m ! pos)"
    have items: "mset (map_items m) = add_mset (k, ?v) (mset (map_items m'))"
      using mset_map_filter_update [OF pos(1), of item "\<lparr>e_key = Sentinel, e_value = None\<rparr>"] m(2) k
      by (simp add: map_items_def m'_def item_def)
    have sub: "set (map_items m') \<subseteq> set (map_items m)" "length (map_items m) = Suc (length (map_items m'))"
      using arg_cong [OF items, of set_mset] arg_cong [OF items, of size] by auto
    have "map_keys m' = (map_keys m)[pos := Sentinel]" by (simp add: m'_def map_update)
    moreover have "m_used m' = m_used m - 1" "m_is_fixed m' = m_is_fixed m" "m_is_ordered m' = m_is_ordered m"
      "m_all_keys_are_qstrs m' = m_all_keys_are_qstrs m" by (simp_all add: m'_def)
    ultimately have "hash_dict_inv m'" using inv sentinel_inv [OF m(4), of pos] sub image_mono [OF sub(1), of fst]
      unfolding hash_map_inv_def by (simp, blast)
    moreover have "dict_popitem m = Some (Inr (m', Key k, ?v))" using Some m(1) k by (simp add: dict_popitem_def m'_def)
    moreover note dict_abs_insert [OF inv items]
    ultimately show ?thesis by (simp add: dict_abs_def [symmetric] fun_upd_idem)
  qed
qed

section \<open>Properties\<close>

lemma make_new_hash: "hash_dict_inv (dict_make_new False)" "represents (dict_make_new False) Map.empty"
  by (simp_all add: dict_make_new_def mp_map_init_def hash_map_inv_def map_items_def table_inv_def represents_def dict_abs_def)

lemma make_new_ordered: "ordered_dict_inv (dict_make_new True)" "represents (dict_make_new True) Map.empty"
  by (simp_all add: dict_make_new_def mp_map_init_def ordered_dict_inv_def ordered_map_inv_def map_items_def represents_def dict_abs_def)

text \<open>
  C8: The methods of \<open>dict\<close>, on open addressing tables that grow and leave sentinels behind,
  implement the dictionary of the language. Any sequence of method calls on a new dictionary
  returns, with the answers and exceptions of a finite map whose keys are compared by value, keeps
  the invariant of the table, and ends in a table that represents that map.
\<close>

theorem dict_refines_finite_map:
  assumes "list_all op_valid ops"
  shows "\<exists>m. dict_run none ops (dict_make_new False) = Some (m, snd (spec_run none ops Map.empty))
    \<and> hash_dict_inv m \<and> represents m (fst (spec_run none ops Map.empty))"
  using hash_dict.run_refines [OF make_new_hash assms] .

theorem dict_refines_finite_map_witness:
  "\<exists>m. dict_run (Qstr []) [Op_setitem (Small_int 1) (Qstr [97]), Op_setdefault (Bool True) None, Op_len, Op_pop (Bool True) None, Op_delitem (Small_int 1)]
      (dict_make_new False) = Some (m, [Done, Value (Some (Qstr [97])), Count 1, Value (Some (Qstr [97])), Raised (KeyError (Small_int 1))])"
  using dict_refines_finite_map [of "[Op_setitem (Small_int 1) (Qstr [97]), Op_setdefault (Bool True) None, Op_len, Op_pop (Bool True) None, Op_delitem (Small_int 1)]" "Qstr []"]
  by auto

text \<open>
  C11: On the ordered arrays of \<open>OrderedDict\<close>, the calls of \<open>dict_op\<close> (subscript, \<open>get\<close>, \<open>in\<close>, item assignment,
  item deletion, \<open>pop\<close>, \<open>setdefault\<close>, \<open>len\<close> and \<open>clear\<close>) implement the same finite map, in any sequence. \<open>popitem\<close>
  is not among them: on ordered dictionaries it is wrong.
\<close>

theorem ordered_dict_refines_finite_map:
  assumes "list_all op_valid ops"
  shows "\<exists>m. dict_run none ops (dict_make_new True) = Some (m, snd (spec_run none ops Map.empty))
    \<and> ordered_dict_inv m \<and> represents m (fst (spec_run none ops Map.empty))"
  using ordered_dict.run_refines [OF make_new_ordered assms] .

theorem ordered_dict_refines_finite_map_witness:
  "\<exists>m. dict_run (Qstr []) [Op_setitem (Str 1 0 [98]) (Small_int 5), Op_get (Qstr [98]) None, Op_in (Bytes 2 0 [98]), Op_clear, Op_getitem (Qstr [98])]
      (dict_make_new True) = Some (m, [Done, Value (Some (Small_int 5)), Truth False, Done, Raised (KeyError (Qstr [98]))])"
  using ordered_dict_refines_finite_map [of "[Op_setitem (Str 1 0 [98]) (Small_int 5), Op_get (Qstr [98]) None, Op_in (Bytes 2 0 [98]), Op_clear, Op_getitem (Qstr [98])]" "Qstr []"]
  by auto

text \<open>
  \<open>popitem\<close> on a hash table removes one entry and returns it, or raises \<open>KeyError\<close> exactly on
  the empty dictionary.
\<close>

theorem dict_popitem_correct:
  assumes "hash_dict_inv m"
  shows "if dict_abs m = Map.empty then dict_popitem m = Some (Inl KeyError_empty)
    else \<exists>m' k v. dict_popitem m = Some (Inr (m', Key k, v)) \<and> hash_dict_inv m' \<and> dict_abs m (denote k) = Some v
      \<and> dict_abs m' = (dict_abs m)(denote k := None)"
  using popitem_hash [OF assms] by (elim disjE exE conjE) (simp, force)

theorem dict_popitem_correct_witness:
  "dict_popitem (dict_make_new False) = Some (Inl (KeyError_empty :: mp_obj dict_error))"
  using dict_popitem_correct [OF make_new_hash(1)] by (simp add: dict_make_new_def mp_map_init_def dict_abs_def map_items_def)

text \<open>What \<open>popitem\<close> leaves of an ordered array: a sentinel in the first slot, and one slot less in use.\<close>

lemma popitem_ordered:
  assumes "ordered_map_inv mp_obj_ops mp_obj_valid m" "\<not> m_is_fixed m" "map_items m = (k, v) # kvs"
  shows "dict_popitem m = Some (Inr (m\<lparr>m_used := length kvs, m_table := (m_table m)[0 := \<lparr>e_key = Sentinel, e_value = None\<rparr>]\<rparr>, Key k, v))"
proof -
  have u: "m_used m = Suc (length kvs)" "0 < length (m_table m)"
    using ordered_items(1) [OF assms(1)] assms(1,3) by (auto simp: ordered_map_inv_def)
  then have i: "e_key (m_table m ! 0) = Key k" "e_value (m_table m ! 0) = v"
    using ordered_items(2) [OF assms(1), of 0] assms(3) by (simp_all add: item_iff)
  then have "dict_iter_next m 0 = Some 0" using u(2) by (simp add: dict_iter_next_def mp_map_slot_is_filled_def upt_conv_Cons)
  then show ?thesis using assms(2) u(1) i by (simp add: dict_popitem_def)
qed

text \<open>
  A lookup in an ordered array that starts with a sentinel. The comparison of pointers passes over
  it; any other comparison does not return.
\<close>

lemma lookup_behind_sentinel:
  assumes "m_is_ordered m" "\<not> m_is_fixed m" "0 < m_used m" "e_key (m_table m ! 0) = Sentinel"
    "\<And>i. i < m_used m \<Longrightarrow> e_key (m_table m ! i) \<noteq> Key x" "m_all_keys_are_qstrs m \<Longrightarrow> mp_obj_is_qstr x"
  shows "mp_map_lookup mp_obj_ops m x Lookup = (if m_all_keys_are_qstrs m then Some (m, None) else None)"
proof (cases "m_all_keys_are_qstrs m")
  case True
  have "find (\<lambda>i. case e_key (m_table m ! i) of Key k \<Rightarrow> k = x \<or> (\<not> True \<and> o_equal mp_obj_ops k x) | _ \<Rightarrow> \<not> True) [0..<m_used m] = None"
    using assms(5) by (auto simp: find_None_iff split: slot.splits)
  then show ?thesis using True assms(1,2,6) by (simp add: mp_map_lookup_def mp_map_lookup_at.simps mp_map_lookup_ordered_def)
next
  case False
  have "[0..<m_used m] = 0 # [Suc 0..<m_used m]" using assms(3) by (rule upt_conv_Cons)
  then show ?thesis using False assms(1,2,4)
    by (simp add: mp_map_lookup_def mp_map_lookup_at.simps mp_map_lookup_ordered_def mp_map_slot_is_filled_def)
qed

text \<open>
  C37: \<open>popitem\<close> on an ordered dictionary of two or more entries returns the first entry and makes
  another one unreachable. If all keys are interned strings, the last key is no longer found,
  although iteration over the table still yields its entry; otherwise the next lookup of that key
  reads the sentinel that \<open>popitem\<close> leaves in the array as an object, and does not return.
\<close>

theorem ordered_dict_popitem_loses_entry:
  assumes "ordered_dict_inv m" "\<not> m_is_fixed m" "map_items m = (k, v) # kvs @ [(l, w)]"
  shows "\<exists>m'. dict_popitem m = Some (Inr (m', Key k, v)) \<and> (l, w) \<in> set (filled_pairs m')
    \<and> mp_obj_dict_get mp_obj_ops m' l = (if m_all_keys_are_qstrs m then Some (Inl (KeyError l)) else None)"
proof -
  define n where "n = Suc (length kvs)"
  define m' where "m' = m\<lparr>m_used := n, m_table := (m_table m)[0 := \<lparr>e_key = Sentinel, e_value = None\<rparr>]\<rparr>"
  have inv: "ordered_map_inv mp_obj_ops mp_obj_valid m" using assms(1) by (simp add: ordered_dict_inv_def)
  note oi = ordered_items [OF inv]
  have u: "m_used m = Suc n" "n < length (m_table m)" "m_is_ordered m" "0 < n"
    using oi(1) inv assms(3) by (auto simp: ordered_map_inv_def n_def)
  have t: "m_table m' ! 0 = \<lparr>e_key = Sentinel, e_value = None\<rparr>" "m_table m' ! i = m_table m ! i" if "0 < i" for i
    using u(2) that by (cases "m_table m", simp_all add: m'_def)
  have last: "item (m_table m' ! n) = Some (l, w)" using oi(2) [of n] u(1,4) t(2) [of n] assms(3) by (simp add: n_def nth_append)
  have "m_table m' ! n \<in> set (m_table m')" using u(2) by (intro nth_mem) (simp add: m'_def)
  then have pairs: "(l, w) \<in> set (filled_pairs m')" using last by (auto simp: filled_pairs_def map_filter_set)
  have l: "mp_obj_valid l" "m_all_keys_are_qstrs m \<Longrightarrow> mp_obj_is_qstr l"
    using inv ordered_valid [OF inv, of l w] assms(3) by (auto simp: ordered_map_inv_def)
  have other: "e_key (m_table m' ! i) \<noteq> Key l" if "i < n" for i
  proof (cases "i = 0")
    case False
    have "\<not> mp_obj_equal (fst (map_items m ! i)) (fst (map_items m ! n))"
      using inv oi(1) u(1) that by (auto simp: ordered_map_inv_def sorted_wrt_iff_nth_less)
    moreover have "map_items m ! n = (l, w)" using assms(3) by (simp add: n_def nth_append)
    ultimately have "fst (map_items m ! i) \<noteq> l" using mp_obj_equal_denote [OF l(1) l(1)] by auto
    moreover obtain k v where "map_items m ! i = (k, v)" by fastforce
    ultimately show ?thesis using oi(2) [of i] t(2) [of i] False that u(1) by (auto simp: item_iff)
  qed (use t(1) [of 1] in simp)
  have "mp_map_lookup mp_obj_ops m' l Lookup = (if m_all_keys_are_qstrs m' then Some (m', None) else None)"
    by (rule lookup_behind_sentinel) (use t(1) [of 1] other l(2) u assms(2) in \<open>simp_all add: m'_def\<close>)
  then have "mp_map_lookup mp_obj_ops m' l Lookup = (if m_all_keys_are_qstrs m then Some (m', None) else None)"
    by (simp add: m'_def)
  then show ?thesis using popitem_ordered [OF inv assms(2,3)] pairs
    by (intro exI [of _ m']) (simp add: m'_def [symmetric] n_def [symmetric] mp_obj_dict_get_def)
qed

definition sample_ordered :: "mp_obj mp_map" where
  "sample_ordered = \<lparr>m_all_keys_are_qstrs = True, m_is_fixed = False, m_is_ordered = True, m_used = 2,
     m_table = [\<lparr>e_key = Key (Qstr [97]), e_value = Some (Small_int 10)\<rparr>, \<lparr>e_key = Key (Qstr [98]), e_value = Some (Small_int 20)\<rparr>]\<rparr>"

theorem ordered_dict_popitem_loses_entry_witness:
  "\<exists>m'. dict_popitem sample_ordered = Some (Inr (m', Key (Qstr [97]), Some (Small_int 10)))
    \<and> (Qstr [98], Some (Small_int 20)) \<in> set (filled_pairs m')
    \<and> mp_obj_dict_get mp_obj_ops m' (Qstr [98]) = Some (Inl (KeyError (Qstr [98])))"
proof -
  have i: "map_items sample_ordered = (Qstr [97], Some (Small_int 10)) # [] @ [(Qstr [98], Some (Small_int 20))]"
    by (simp add: sample_ordered_def map_items_def List.map_filter_def)
  have "\<not> mp_obj_equal (Qstr [97]) (Qstr [98])" by (simp add: mp_obj_equal_denote)
  then have "ordered_dict_inv sample_ordered"
    unfolding ordered_dict_inv_def ordered_map_inv_def i by (simp add: sample_ordered_def)
  from ordered_dict_popitem_loses_entry [OF this _ i] show ?thesis by (simp add: sample_ordered_def)
qed

text \<open>
  C16: Equality of keys is equality of what they stand for, so an equivalence, over small and big
  integers, booleans, interned and other strings, and bytes; and equal keys have the same hash.
\<close>

theorem mp_obj_equal_hash:
  assumes "mp_obj_valid x" "mp_obj_valid y"
  shows "(mp_obj_equal x y \<longleftrightarrow> denote x = denote y) \<and> (mp_obj_equal x y \<longrightarrow> mp_obj_hash x = mp_obj_hash y)"
  using mp_obj_equal_denote [OF assms] mp_obj_hash_denote [OF assms(1)] mp_obj_hash_denote [OF assms(2)] by simp

theorem mp_obj_equal_hash_witness: "mp_obj_equal (Bool True) (Small_int 1) \<and> mp_obj_hash (Bool True) = mp_obj_hash (Small_int 1)"
  using mp_obj_equal_hash [of "Bool True" "Small_int 1"] by simp

text \<open>
  C18: \<open>update\<close> from another dictionary and keyword arguments returns, and gives the entries of
  the other dictionary precedence, and the last keyword argument most; the table grows as needed
  and keeps its invariant.
\<close>

theorem dict_update_correct:
  assumes "hash_dict_inv self" "hash_dict_inv other" "list_all (\<lambda>kv. mp_obj_valid (fst kv)) (filled_pairs kwargs)"
  shows "\<exists>m. dict_update mp_obj_ops self (Some (From_dict False other)) kwargs = Some (None, m) \<and> hash_dict_inv m
    \<and> dict_abs m = dict_abs self ++ dict_abs other ++ map_of (rev (map (\<lambda>(k, v). (denote k, v)) (filled_pairs kwargs)))"
proof -
  have o: "\<not> m_is_fixed self" "filled_pairs other = map_items other" "\<not> m_is_ordered other"
    using assms by (auto simp: hash_map_inv_def map_items_def filled_pairs_def)
  have v: "\<forall>kv \<in> set (map_items other). mp_obj_valid (fst kv)"
    using hash_key_valid [OF assms(2)] hash_items_set [OF o(3)] by auto
  have "distinct (map fst (map (\<lambda>(k, v). (denote k, v)) (map_items other)))"
    using hash_distinct [OF assms(2)] by (simp add: comp_def case_prod_unfold)
  then have "map_of (rev (map (\<lambda>(k, v). (denote k, v)) (map_items other))) = dict_abs other"
    unfolding dict_abs_def by (subst map_of_inject_set) (simp_all add: rev_map [symmetric])
  then obtain m where m: "dict_store_all mp_obj_ops (filled_pairs other) self = Some m" "hash_dict_inv m" "\<not> m_is_fixed m"
    "dict_abs m = dict_abs self ++ dict_abs other"
    using hash_dict.store_all_correct [OF assms(1) v o(1)] o(2) by auto
  show ?thesis using hash_dict.store_all_correct [OF m(2) _ m(3), of "filled_pairs kwargs"] assms(3) o(1) m(1,4)
    by (auto simp: dict_update_def list_all_iff)
qed

theorem dict_update_correct_witness:
  "\<exists>m. dict_update mp_obj_ops (dict_make_new False) (Some (From_dict False (dict_make_new False)))
      (mp_map_init_fixed_table [\<lparr>e_key = Key (Qstr [97]), e_value = Some (Small_int 1)\<rparr>]) = Some (None, m)
    \<and> dict_abs m (Text [97]) = Some (Some (Small_int 1))"
  using dict_update_correct [OF make_new_hash(1) make_new_hash(1),
      of "mp_map_init_fixed_table [\<lparr>e_key = Key (Qstr [97]), e_value = Some (Small_int 1)\<rparr>]"]
  by (force simp: mp_map_init_fixed_table_def filled_pairs_def List.map_filter_def)

section \<open>Equality of dictionaries\<close>

lemma map_eq_by_card:
  assumes "finite (dom d)" "finite (dom e)"
  shows "(\<forall>x. map_option f (d x) = map_option f (e x)) \<longleftrightarrow>
    card (dom d) = card (dom e) \<and> (\<forall>x \<in> dom d. map_option f (d x) = map_option f (e x))"
proof (intro iffI conjI ballI allI)
  assume eq: "\<forall>x. map_option f (d x) = map_option f (e x)"
  have "d x = None \<longleftrightarrow> e x = None" for x using spec [OF eq, of x] by (cases "d x"; cases "e x") simp_all
  then have "dom d = dom e" by (simp add: dom_def)
  then show "card (dom d) = card (dom e)" by simp
next
  fix x assume eq: "card (dom d) = card (dom e) \<and> (\<forall>x \<in> dom d. map_option f (d x) = map_option f (e x))"
  then have "dom d \<subseteq> dom e" by (auto simp: dom_def) (metis map_option_is_None option.simps(3) option.exhaust)
  then have "dom d = dom e" using card_subset_eq [OF assms(2)] eq by simp
  then have "x \<notin> dom d \<Longrightarrow> d x = None \<and> e x = None" by (metis domIff)
  then show "map_option f (d x) = map_option f (e x)" using eq by (cases "x \<in> dom d") auto
qed simp

lemma equal_entries:
  assumes rhs: "hash_dict_inv rhs" "represents rhs d" and v: "\<forall>w \<in> ran d. mp_obj_valid w"
    and kvs: "\<forall>(k, v) \<in> set kvs. mp_obj_valid k \<and> (\<exists>w. v = Some w \<and> mp_obj_valid w)"
  shows "dict_equal_entries mp_obj_ops kvs rhs =
    Some (\<forall>(k, v) \<in> set kvs. map_option (denote \<circ> the) (Some v) = map_option denote (d (denote k)))"
  using kvs
proof (induction kvs)
  case (Cons kv kvs)
  obtain k w where kw: "kv = (k, Some w)" "mp_obj_valid k" "mp_obj_valid w" using Cons.prems by (cases kv) auto
  obtain r where r: "mp_map_lookup mp_obj_ops rhs k Lookup = Some (rhs, r)" "dict_abs rhs (denote k) = map_option (\<lambda>i. e_value (m_table rhs ! i)) r"
    using hash_dict.find [OF rhs(1) kw(2)] by blast
  note dk = representsD(2) [OF rhs(2), of "denote k"]
  show ?case
  proof (cases r)
    case None
    then show ?thesis using r dk kw(1) by simp
  next
    case (Some i)
    then obtain u where u: "d (denote k) = Some u" "e_value (m_table rhs ! i) = Some u" using r(2) dk by (cases "d (denote k)") simp_all
    then have "mp_obj_valid u" using v by (auto simp: ran_def)
    then show ?thesis using r(1) Some u Cons.IH Cons.prems kw by (simp add: mp_obj_equal_denote)
  qed
qed simp

text \<open>
  C17: Two dictionaries compare equal exactly when they have the same keys and equal values under
  them, by value, whatever the layout of the two tables.
\<close>

theorem dict_equal_correct:
  assumes "hash_dict_inv a" "represents a d" "hash_dict_inv b" "represents b e"
    and "\<forall>w \<in> ran d \<union> ran e. mp_obj_valid w"
  shows "dict_equal mp_obj_ops Dict_type a Dict_type b = Some (\<forall>x. map_option denote (d x) = map_option denote (e x))"
proof -
  have o: "filled_pairs a = map_items a" "\<not> m_is_ordered a"
    using assms(1) by (auto simp: hash_map_inv_def map_items_def filled_pairs_def)
  have dom: "dom (dict_abs a) = dom d" "dom (dict_abs b) = dom e" using representsD(4) assms(2,4) by auto
  have fin: "finite (dom d)" "finite (dom e)" unfolding dom [symmetric] dict_abs_def by (rule finite_dom_map_of)+
  have used: "m_used a = card (dom d)" "m_used b = card (dom e)"
    using hash_dict.count [OF assms(1)] hash_dict.count [OF assms(3)] dom by auto
  have mem: "\<exists>w. v = Some w \<and> d (denote k) = Some w" if "(k, v) \<in> set (map_items a)" for k v
  proof -
    have "dict_abs a (denote k) = Some v"
      unfolding dict_abs_def using that hash_distinct [OF assms(1)] by (intro map_of_is_SomeI) (force simp: comp_def case_prod_unfold)+
    then show ?thesis using representsD(2) [OF assms(2), of "denote k"] by auto
  qed
  have kvs: "\<forall>(k, v) \<in> set (map_items a). mp_obj_valid k \<and> (\<exists>w. v = Some w \<and> mp_obj_valid w)"
  proof safe
    fix k v assume kv: "(k, v) \<in> set (map_items a)"
    then show "mp_obj_valid k" using hash_key_valid [OF assms(1)] hash_items_set [OF o(2)] by auto
    obtain w where w: "v = Some w" "d (denote k) = Some w" using mem [OF kv] by blast
    then have "w \<in> ran d" by (auto simp: ran_def)
    then show "\<exists>w. v = Some w \<and> mp_obj_valid w" using assms(5) w(1) by blast
  qed
  have "dict_equal_entries mp_obj_ops (map_items a) b = Some (\<forall>x \<in> dom d. map_option denote (d x) = map_option denote (e x))"
  proof (subst equal_entries [OF assms(3,4) _ kvs], simp add: assms(5), rule arg_cong [of _ _ Some], safe)
    fix x w assume all: "\<forall>(k, v) \<in> set (map_items a). map_option (denote \<circ> the) (Some v) = map_option denote (e (denote k))" and "d x = Some w"
    then have "dict_abs a x = Some (Some w)" using representsD(2) [OF assms(2)] by simp
    then obtain k where "(k, Some w) \<in> set (map_items a)" "denote k = x" unfolding dict_abs_def by (auto dest!: map_of_SomeD)
    then show "map_option denote (d x) = map_option denote (e x)" using all \<open>d x = Some w\<close> by fastforce
  next
    fix k v assume all: "\<forall>x \<in> dom d. map_option denote (d x) = map_option denote (e x)" and "(k, v) \<in> set (map_items a)"
    then obtain w where "v = Some w" "d (denote k) = Some w" using mem by blast
    then show "map_option (denote \<circ> the) (Some v) = map_option denote (e (denote k))" using bspec [OF all domI] by simp
  qed
  moreover have "(\<forall>x. map_option denote (d x) = map_option denote (e x)) \<longleftrightarrow>
      card (dom d) = card (dom e) \<and> (\<forall>x \<in> dom d. map_option denote (d x) = map_option denote (e x))"
    by (rule map_eq_by_card [OF fin])
  ultimately show ?thesis using used o(1) by (auto simp: dict_equal_def)
qed

theorem dict_equal_correct_witness:
  "\<exists>a b. dict_run (Qstr []) [Op_setitem (Small_int 1) (Qstr [97])] (dict_make_new False) = Some (a, [Done])
    \<and> dict_run (Qstr []) [Op_setitem (Small_int 2) (Qstr []), Op_setitem (Bool True) (Str 5 0 [97]), Op_delitem (Small_int 2)] (dict_make_new False)
      = Some (b, [Done, Done, Done])
    \<and> dict_equal mp_obj_ops Dict_type a Dict_type b = Some True"
proof -
  obtain a where a: "dict_run (Qstr []) [Op_setitem (Small_int 1) (Qstr [97])] (dict_make_new False) = Some (a, [Done])"
    "hash_dict_inv a" "represents a [denote (Small_int 1) \<mapsto> Qstr [97]]"
    using hash_dict.run_refines [OF make_new_hash, of "[Op_setitem (Small_int 1) (Qstr [97])]" "Qstr []"] by auto
  obtain b where b: "dict_run (Qstr []) [Op_setitem (Small_int 2) (Qstr []), Op_setitem (Bool True) (Str 5 0 [97]), Op_delitem (Small_int 2)] (dict_make_new False)
      = Some (b, [Done, Done, Done])"
    "hash_dict_inv b" "represents b [denote (Small_int 1) \<mapsto> Str 5 0 [97]]"
    using hash_dict.run_refines [OF make_new_hash, of "[Op_setitem (Small_int 2) (Qstr []), Op_setitem (Bool True) (Str 5 0 [97]), Op_delitem (Small_int 2)]" "Qstr []"]
    by auto
  show ?thesis using a(1) b(1) dict_equal_correct [OF a(2,3) b(2,3)] by auto
qed

text \<open>
  Equality is not symmetric between the two types: an empty ordered dictionary equals an
  empty dictionary, and not the other way round.
\<close>

theorem dict_equal_asymmetric:
  "dict_equal mp_obj_ops Ordereddict_type (dict_make_new True) Dict_type (dict_make_new False) = Some True
   \<and> dict_equal mp_obj_ops Dict_type (dict_make_new False) Ordereddict_type (dict_make_new True) = Some False"
  by (simp add: dict_equal_def dict_make_new_def mp_map_init_def filled_pairs_def)

end
