(* ===== verification/Objset.thy ===== *)
theory Objset
  imports Mp_Obj
begin

text \<open>
  The types \<open>set\<close> and \<open>frozenset\<close> of \<open>src/py/objset.c\<close>: construction, iteration, the methods, the unary and
  the binary operations, on the key objects of \<open>Mp_Obj\<close>. The checks of the type of \<open>self\<close> are empty
  in this configuration, because the lookup of a method has made them. The argument of an operation may
  be the very set that is operated on; \<open>Same\<close> is that case, and then the iteration and the
  changes work on one table. The result \<open>None\<close> of an operation is not returning.
\<close>

section \<open>Set objects\<close>

datatype set_type = Type_set | Type_frozenset

record mp_obj_set =
  so_type :: set_type
  so_set :: "mp_obj mp_set"

text \<open>What a method takes as its argument: the object itself, another set, or another iterable.\<close>

datatype set_arg = Same | Other mp_obj_set | Iterable "mp_obj list"

datatype set_error = Missing mp_obj | Empty_set

fun is_set_or_frozenset :: "set_arg \<Rightarrow> bool" where
  "is_set_or_frozenset Same = True"
| "is_set_or_frozenset (Other t) = True"
| "is_set_or_frozenset (Iterable xs) = False"

abbreviation lookup_elem :: "mp_obj mp_set \<Rightarrow> mp_obj \<Rightarrow> mp_map_lookup_kind \<Rightarrow> (mp_obj mp_set \<times> mp_obj option) option" where
  "lookup_elem \<equiv> mp_set_lookup mp_obj_ops"

text \<open>A lookup for its effect, and one for its result as a truth value.\<close>

definition set_apply :: "mp_map_lookup_kind \<Rightarrow> mp_obj \<Rightarrow> mp_obj mp_set \<Rightarrow> mp_obj mp_set option" where
  "set_apply kind elem s = map_option fst (lookup_elem s elem kind)"

definition set_has :: "mp_obj mp_set \<Rightarrow> mp_obj \<Rightarrow> bool option" where
  "set_has s elem = map_option (\<lambda>(_, r). r \<noteq> None) (lookup_elem s elem Lookup)"

section \<open>Construction and iteration\<close>

definition mp_obj_new_set :: "mp_obj list \<Rightarrow> mp_obj_set option" where
  "mp_obj_new_set items =
     map_option (\<lambda>s. \<lparr>so_type = Type_set, so_set = s\<rparr>)
       (fold_opt (set_apply Add_if_not_found) items (mp_set_init (length items)))"

definition mp_obj_set_store :: "mp_obj_set \<Rightarrow> mp_obj \<Rightarrow> mp_obj_set option" where
  "mp_obj_set_store self elem = map_option (\<lambda>s. self\<lparr>so_set := s\<rparr>) (set_apply Add_if_not_found elem (so_set self))"

text \<open>The iterator is the set and a position.\<close>

definition set_it_iternext :: "mp_obj mp_set \<Rightarrow> nat \<Rightarrow> (nat \<times> mp_obj) option" where
  "set_it_iternext s cur =
     (case find (mp_set_slot_is_filled s) [cur..<length (s_table s)] of
        None \<Rightarrow> None
      | Some i \<Rightarrow> map_option (Pair (i + 1)) (slot_key (s_table s ! i)))"

lemma set_it_iternext_less: "set_it_iternext s cur = Some (cur', k) \<Longrightarrow> cur < cur' \<and> cur' \<le> length (s_table s)"
  by (auto simp: set_it_iternext_def find_Some_iff split: option.splits)

function set_iterate :: "mp_obj mp_set \<Rightarrow> nat \<Rightarrow> mp_obj list" where
  "set_iterate s cur = (case set_it_iternext s cur of None \<Rightarrow> [] | Some (cur', k) \<Rightarrow> k # set_iterate s cur')"
  by pat_completeness auto
termination
  by (relation "measure (\<lambda>(s, cur). length (s_table s) - cur)") (auto dest: set_it_iternext_less)

declare set_iterate.simps [simp del]

definition set_getiter :: "mp_obj_set \<Rightarrow> mp_obj list" where
  "set_getiter o' = set_iterate (so_set o') 0"

text \<open>The items of an argument, where the iteration changes no set.\<close>

fun arg_items :: "mp_obj_set \<Rightarrow> set_arg \<Rightarrow> mp_obj list" where
  "arg_items self Same = set_getiter self"
| "arg_items self (Other t) = set_getiter t"
| "arg_items self (Iterable xs) = xs"

text \<open>The loop of the methods that apply a lookup of one kind to every item of the argument.\<close>

partial_function (option) set_apply_self :: "mp_map_lookup_kind \<Rightarrow> nat \<Rightarrow> mp_obj mp_set \<Rightarrow> mp_obj mp_set option" where
  "set_apply_self kind cur s =
     (case set_it_iternext s cur of
        None \<Rightarrow> Some s
      | Some (cur', k) \<Rightarrow> Option.bind (set_apply kind k s) (set_apply_self kind cur'))"

declare set_apply_self.simps [code]

definition set_apply_all :: "mp_map_lookup_kind \<Rightarrow> mp_obj_set \<Rightarrow> set_arg \<Rightarrow> mp_obj_set option" where
  "set_apply_all kind self arg =
     map_option (\<lambda>s. self\<lparr>so_set := s\<rparr>)
       (if arg = Same then set_apply_self kind 0 (so_set self)
        else fold_opt (set_apply kind) (arg_items self arg) (so_set self))"

definition set_make_new :: "set_type \<Rightarrow> mp_obj list option \<Rightarrow> mp_obj_set option" where
  "set_make_new type arg =
     Option.bind (mp_obj_new_set []) (\<lambda>set.
       map_option (\<lambda>set. set\<lparr>so_type := type\<rparr>)
         (case arg of None \<Rightarrow> Some set | Some items \<Rightarrow> fold_opt (\<lambda>elem set. mp_obj_set_store set elem) items set))"

section \<open>Methods\<close>

definition set_add :: "mp_obj_set \<Rightarrow> mp_obj \<Rightarrow> mp_obj_set option" where
  "set_add self elem = map_option (\<lambda>s. self\<lparr>so_set := s\<rparr>) (set_apply Add_if_not_found elem (so_set self))"

definition set_clear :: "mp_obj_set \<Rightarrow> mp_obj_set" where
  "set_clear self = self\<lparr>so_set := mp_set_clear (so_set self)\<rparr>"

definition set_copy :: "mp_obj_set \<Rightarrow> mp_obj_set" where
  "set_copy self =
     (let other = mp_set_init (length (s_table (so_set self)))
      in \<lparr>so_type = so_type self, so_set = other\<lparr>s_used := s_used (so_set self), s_table := s_table (so_set self)\<rparr>\<rparr>)"

definition set_discard :: "mp_obj_set \<Rightarrow> mp_obj \<Rightarrow> mp_obj_set option" where
  "set_discard self elem = map_option (\<lambda>s. self\<lparr>so_set := s\<rparr>) (set_apply Remove_if_found elem (so_set self))"

definition set_remove :: "mp_obj_set \<Rightarrow> mp_obj \<Rightarrow> (set_error + mp_obj_set) option" where
  "set_remove self elem =
     map_option (\<lambda>(s, r). case r of None \<Rightarrow> Inl (Missing elem) | Some _ \<Rightarrow> Inr (self\<lparr>so_set := s\<rparr>))
       (lookup_elem (so_set self) elem Remove_if_found)"

definition set_pop :: "mp_obj_set \<Rightarrow> set_error + mp_obj_set \<times> mp_obj" where
  "set_pop self =
     (case mp_set_remove_first (so_set self) of
        (s, None) \<Rightarrow> Inl Empty_set
      | (s, Some obj) \<Rightarrow> Inr (self\<lparr>so_set := s\<rparr>, obj))"

text \<open>
  \<open>set_diff_int\<close>: the object it changes, which is \<open>self\<close> or a copy. A copy is never the same
  object as an argument.
\<close>

definition set_diff_int :: "mp_obj_set \<Rightarrow> set_arg list \<Rightarrow> bool \<Rightarrow> mp_obj_set option" where
  "set_diff_int self args update =
     fold_opt
       (\<lambda>arg out.
          if update \<and> arg = Same then Some (set_clear out)
          else set_apply_all Remove_if_found out (if arg = Same then Other self else arg))
       args (if update then self else set_copy self)"

definition set_diff :: "mp_obj_set \<Rightarrow> set_arg list \<Rightarrow> mp_obj_set option" where
  "set_diff self args = set_diff_int self args False"

definition set_diff_update :: "mp_obj_set \<Rightarrow> set_arg list \<Rightarrow> mp_obj_set option" where
  "set_diff_update self args = set_diff_int self args True"

text \<open>\<open>set_intersect_int\<close>: the changed \<open>self\<close> if \<open>update\<close>, the new set otherwise.\<close>

definition set_intersect_int :: "mp_obj_set \<Rightarrow> set_arg \<Rightarrow> bool \<Rightarrow> mp_obj_set option" where
  "set_intersect_int self other update =
     (if other = Same then Some (if update then self else set_copy self)
      else
        Option.bind (mp_obj_new_set []) (\<lambda>out.
          map_option (\<lambda>out. if update then self\<lparr>so_set := so_set out\<rparr> else out)
            (fold_opt
               (\<lambda>next' out. Option.bind (set_has (so_set self) next') (\<lambda>b. if b then set_add out next' else Some out))
               (arg_items self other) out)))"

definition set_intersect :: "mp_obj_set \<Rightarrow> set_arg \<Rightarrow> mp_obj_set option" where
  "set_intersect self other = set_intersect_int self other False"

definition set_intersect_update :: "mp_obj_set \<Rightarrow> set_arg \<Rightarrow> mp_obj_set option" where
  "set_intersect_update self other = set_intersect_int self other True"

text \<open>The loops that leave at the first item that is, or is not, in a set.\<close>

fun none_in :: "mp_obj mp_set \<Rightarrow> mp_obj list \<Rightarrow> bool option" where
  "none_in s [] = Some True"
| "none_in s (x # xs) = Option.bind (set_has s x) (\<lambda>b. if b then Some False else none_in s xs)"

fun all_in :: "mp_obj mp_set \<Rightarrow> mp_obj list \<Rightarrow> bool option" where
  "all_in s [] = Some True"
| "all_in s (x # xs) = Option.bind (set_has s x) (\<lambda>b. if \<not> b then Some False else all_in s xs)"

definition set_isdisjoint :: "mp_obj_set \<Rightarrow> set_arg \<Rightarrow> bool option" where
  "set_isdisjoint self other = none_in (so_set self) (arg_items self other)"

text \<open>
  \<open>set_issubset_internal\<close>: an argument that is not a set becomes one, which the function clears at
  the end.
\<close>

fun arg_as_set :: "mp_obj_set \<Rightarrow> set_arg \<Rightarrow> mp_obj_set option" where
  "arg_as_set self Same = Some self"
| "arg_as_set self (Other t) = Some t"
| "arg_as_set self (Iterable xs) = set_make_new Type_set (Some xs)"

definition set_issubset_internal :: "mp_obj_set option \<Rightarrow> mp_obj_set option \<Rightarrow> bool \<Rightarrow> bool option" where
  "set_issubset_internal self_in other_in proper =
     Option.bind self_in (\<lambda>self. Option.bind other_in (\<lambda>other.
       if proper \<and> s_used (so_set self) = s_used (so_set other) then Some False
       else all_in (so_set other) (set_getiter self)))"

definition set_issubset :: "mp_obj_set \<Rightarrow> set_arg \<Rightarrow> bool option" where
  "set_issubset self other = set_issubset_internal (Some self) (arg_as_set self other) False"

definition set_issubset_proper :: "mp_obj_set \<Rightarrow> set_arg \<Rightarrow> bool option" where
  "set_issubset_proper self other = set_issubset_internal (Some self) (arg_as_set self other) True"

definition set_issuperset :: "mp_obj_set \<Rightarrow> set_arg \<Rightarrow> bool option" where
  "set_issuperset self other = set_issubset_internal (arg_as_set self other) (Some self) False"

definition set_issuperset_proper :: "mp_obj_set \<Rightarrow> set_arg \<Rightarrow> bool option" where
  "set_issuperset_proper self other = set_issubset_internal (arg_as_set self other) (Some self) True"

definition set_equal :: "mp_obj_set \<Rightarrow> set_arg \<Rightarrow> bool option" where
  "set_equal self other =
     Option.bind (arg_as_set self other) (\<lambda>t.
       if s_used (so_set self) \<noteq> s_used (so_set t) then Some False else set_issubset self other)"

definition set_symmetric_difference_update :: "mp_obj_set \<Rightarrow> set_arg \<Rightarrow> mp_obj_set option" where
  "set_symmetric_difference_update self other = set_apply_all Add_if_not_found_or_remove_if_found self other"

text \<open>The copy is another object than the argument.\<close>

definition set_symmetric_difference :: "mp_obj_set \<Rightarrow> set_arg \<Rightarrow> mp_obj_set option" where
  "set_symmetric_difference self other =
     set_symmetric_difference_update (set_copy self) (if other = Same then Other self else other)"

definition set_update_int :: "mp_obj_set \<Rightarrow> set_arg \<Rightarrow> mp_obj_set option" where
  "set_update_int self other = set_apply_all Add_if_not_found self other"

definition set_update :: "mp_obj_set \<Rightarrow> set_arg list \<Rightarrow> mp_obj_set option" where
  "set_update self args = fold_opt (\<lambda>arg self. set_update_int self arg) args self"

definition set_union :: "mp_obj_set \<Rightarrow> set_arg \<Rightarrow> mp_obj_set option" where
  "set_union self other = set_update_int (set_copy self) (if other = Same then Other self else other)"

section \<open>Operators\<close>

definition set_bool :: "mp_obj_set \<Rightarrow> bool" where
  "set_bool self = (s_used (so_set self) \<noteq> 0)"

definition set_len :: "mp_obj_set \<Rightarrow> nat" where
  "set_len self = s_used (so_set self)"

text \<open>The hash of a frozen set; \<open>start\<close> is the address of the type.\<close>

definition set_hash :: "mp_uint_t \<Rightarrow> mp_obj_set \<Rightarrow> mp_uint_t option" where
  "set_hash start self =
     (if so_type self = Type_frozenset
      then Some (through_small_int
             (fold (\<lambda>i hash. case slot_key (s_table (so_set self) ! i) of None \<Rightarrow> hash | Some k \<Rightarrow> hash + mp_obj_hash k)
                [0..<length (s_table (so_set self))] start))
      else None)"

datatype set_binop =
    Binop_or | Binop_xor | Binop_and | Binop_subtract
  | Binop_inplace_or | Binop_inplace_xor | Binop_inplace_and | Binop_inplace_subtract
  | Binop_less | Binop_more | Binop_equal | Binop_less_equal | Binop_more_equal

text \<open>A binary operator returns a new set, the changed left operand, a truth value, or is not supported.\<close>

datatype binop_result = New mp_obj_set | Changed mp_obj_set | Answer bool | Not_supported

definition set_binary_op :: "set_binop \<Rightarrow> mp_obj_set \<Rightarrow> set_arg \<Rightarrow> binop_result option" where
  "set_binary_op op lhs rhs =
     (let update = (so_type lhs = Type_set)
      in if \<not> is_set_or_frozenset rhs then Some Not_supported
         else case op of
             Binop_or \<Rightarrow> map_option New (set_union lhs rhs)
           | Binop_xor \<Rightarrow> map_option New (set_symmetric_difference lhs rhs)
           | Binop_and \<Rightarrow> map_option New (set_intersect lhs rhs)
           | Binop_subtract \<Rightarrow> map_option New (set_diff lhs [rhs])
           | Binop_inplace_or \<Rightarrow>
               if update then map_option Changed (set_update lhs [rhs]) else map_option New (set_union lhs rhs)
           | Binop_inplace_xor \<Rightarrow>
               if update then map_option Changed (set_symmetric_difference_update lhs rhs)
               else map_option New (set_symmetric_difference lhs rhs)
           | Binop_inplace_and \<Rightarrow>
               map_option (if update then Changed else New) (set_intersect_int lhs rhs update)
           | Binop_inplace_subtract \<Rightarrow>
               map_option (if update then Changed else New) (set_diff_int lhs [rhs] update)
           | Binop_less \<Rightarrow> map_option Answer (set_issubset_proper lhs rhs)
           | Binop_more \<Rightarrow> map_option Answer (set_issuperset_proper lhs rhs)
           | Binop_equal \<Rightarrow> map_option Answer (set_equal lhs rhs)
           | Binop_less_equal \<Rightarrow> map_option Answer (set_issubset lhs rhs)
           | Binop_more_equal \<Rightarrow> map_option Answer (set_issuperset lhs rhs))"

definition set_contains :: "mp_obj_set \<Rightarrow> mp_obj \<Rightarrow> bool option" where
  "set_contains lhs rhs = set_has (so_set lhs) rhs"

section \<open>Sets of what the elements stand for\<close>

abbreviation sinv :: "mp_obj mp_set \<Rightarrow> bool" where
  "sinv \<equiv> set_inv mp_obj_ops mp_obj_valid"

definition set_abs :: "mp_obj mp_set \<Rightarrow> denotation set" where
  "set_abs s = denote ` set (set_items s)"

text \<open>The effect of a lookup on the set.\<close>

definition abs_step :: "mp_map_lookup_kind \<Rightarrow> denotation \<Rightarrow> denotation set \<Rightarrow> denotation set" where
  "abs_step kind d A =
     (if d \<in> A then if removes kind then A - {d} else A
      else if adds kind then insert d A else A)"

lemma sinv_valid: "sinv s \<Longrightarrow> x \<in> set (set_items s) \<Longrightarrow> mp_obj_valid x"
  by (auto simp: set_inv_def set_items_set dest: table_invD(1))

lemma unique_keys_distinct:
  assumes "\<And>i j k l. i < length xs \<Longrightarrow> j < length xs \<Longrightarrow> xs ! i = Key k \<Longrightarrow> xs ! j = Key l \<Longrightarrow> f k = f l \<Longrightarrow> i = j"
  shows "distinct (map f (List.map_filter slot_key xs))"
  using assms
proof (induction xs)
  case (Cons e xs)
  have tail: "distinct (map f (List.map_filter slot_key xs))"
  proof (rule Cons.IH)
    fix i j k l assume "i < length xs" "j < length xs" "xs ! i = Key k" "xs ! j = Key l" "f k = f l"
    then show "i = j" using Cons.prems [of "Suc i" "Suc j" k l] by simp
  qed
  show ?case
  proof (cases e)
    case (Key k)
    have "f l \<noteq> f k" if "xs ! j = Key l" "j < length xs" for j l
      using Cons.prems [of 0 "Suc j" k l] that Key by auto
    then have "f k \<notin> f ` set (List.map_filter slot_key xs)"
      by (force simp: map_filter_set slot_key_iff in_set_conv_nth)
    then show ?thesis using tail Key by (simp add: map_filter_simps)
  qed (use tail in \<open>simp_all add: map_filter_simps\<close>)
qed simp

lemma sinv_distinct:
  assumes "sinv s"
  shows "distinct (map denote (set_items s))"
  unfolding set_items_def
proof (rule unique_keys_distinct)
  have t: "table_inv mp_obj_ops mp_obj_valid (s_table s)" using assms by (simp add: set_inv_def)
  fix i j k l assume i: "i < length (s_table s)" "j < length (s_table s)" "s_table s ! i = Key k" "s_table s ! j = Key l" "denote k = denote l"
  have "mp_obj_equal k l" using mp_obj_equal_denote table_invD(1) [OF t i(1,3)] table_invD(1) [OF t i(2,4)] i(5) by simp
  then show "i = j" using table_invD(3) [OF t i(1,3) i(2,4)] by simp
qed

lemma sinv_used: "sinv s \<Longrightarrow> s_used s = card (set_abs s)"
  using distinct_card [OF sinv_distinct, of s] by (simp add: set_inv_def set_abs_def)

lemma set_abs_finite [simp]: "finite (set_abs s)"
  by (simp add: set_abs_def)

lemma holds_abs:
  assumes "sinv s" "mp_obj_valid x"
  shows "(\<exists>i. holds mp_obj_ops (s_table s) x i) \<longleftrightarrow> denote x \<in> set_abs s"
proof -
  have "o_equal mp_obj_ops k x \<longleftrightarrow> denote k = denote x" if "k \<in> set (set_items s)" for k
    using mp_obj_equal_denote [OF sinv_valid [OF assms(1) that] assms(2)] by simp
  then show ?thesis unfolding holds_set_item set_abs_def image_iff by metis
qed

text \<open>What the methods rely on: a lookup of any kind returns and works on the set of denotations.\<close>

lemma lookup_abs:
  assumes inv: "sinv s" and x: "mp_obj_valid x"
  shows "\<exists>s' r. lookup_elem s x kind = Some (s', r) \<and> sinv s' \<and> set_abs s' = abs_step kind (denote x) (set_abs s)
    \<and> (r \<noteq> None \<longleftrightarrow> denote x \<in> set_abs s \<or> adds kind)
    \<and> (\<forall>k. r = Some k \<longrightarrow> mp_obj_valid k \<and> denote k = denote x) \<and> (\<not> adds kind \<and> \<not> removes kind \<longrightarrow> s' = s)"
proof -
  note L = obj_keys.set_lookup [OF inv x, of kind, unfolded lookup_result_def holds_abs [OF inv x]]
  then obtain s' r where s': "lookup_elem s x kind = Some (s', r)" "sinv s'"
    "case r of None \<Rightarrow> \<not> adds kind \<and> s' = s \<and> denote x \<notin> set_abs s
     | Some k \<Rightarrow> if denote x \<in> set_abs s then o_equal mp_obj_ops k x \<and> k \<in> set (set_items s)
           \<and> (if removes kind then mset (set_items s) = add_mset k (mset (set_items s')) else s' = s)
         else adds kind \<and> k = x \<and> mset (set_items s') = add_mset x (mset (set_items s))" by auto
  show ?thesis
  proof (cases r)
    case None
    then show ?thesis using s' by (intro exI [of _ s'] exI [of _ r]) (auto simp: abs_step_def)
  next
    case (Some k)
    show ?thesis
    proof (cases "denote x \<in> set_abs s")
      case True
      then have k: "mp_obj_valid k" "denote k = denote x" "k \<in> set (set_items s)"
        using s'(3) Some sinv_valid [OF inv] mp_obj_equal_denote [OF _ x] by auto
      show ?thesis
      proof (cases "removes kind")
        case rem: True
        then have m: "mset (set_items s) = add_mset k (mset (set_items s'))" using s'(3) Some True by simp
        then have "mset (map denote (set_items s)) = mset (denote x # map denote (set_items s'))" using k(2) by simp
        then have "distinct (denote x # map denote (set_items s'))" using sinv_distinct [OF inv] mset_eq_imp_distinct_iff by blast
        then have "denote x \<notin> set_abs s'" by (simp add: set_abs_def)
        moreover have "set_abs s = insert (denote x) (set_abs s')" using arg_cong [OF m, of set_mset] k(2) by (simp add: set_abs_def)
        ultimately show ?thesis using s'(1,2) Some k True rem by (intro exI [of _ s'] exI [of _ r]) (auto simp: abs_step_def)
      next
        case False
        then show ?thesis using s' Some k True by (intro exI [of _ s'] exI [of _ r]) (auto simp: abs_step_def)
      qed
    next
      case False
      then have k: "k = x" "adds kind" "mset (set_items s') = add_mset x (mset (set_items s))" using s'(3) Some by auto
      have "set_abs s' = insert (denote x) (set_abs s)" using arg_cong [OF k(3), of set_mset] by (simp add: set_abs_def)
      then show ?thesis using s'(1,2) Some False x k(1,2) by (intro exI [of _ s'] exI [of _ r]) (auto simp: abs_step_def)
    qed
  qed
qed

lemma set_apply_abs:
  assumes "sinv s" "mp_obj_valid x"
  shows "\<exists>s'. set_apply kind x s = Some s' \<and> sinv s' \<and> set_abs s' = abs_step kind (denote x) (set_abs s)"
proof -
  obtain s' r where "lookup_elem s x kind = Some (s', r)" "sinv s'" "set_abs s' = abs_step kind (denote x) (set_abs s)"
    using lookup_abs [OF assms, of kind] by blast
  then show ?thesis by (simp add: set_apply_def)
qed

lemma set_has_abs:
  assumes "sinv s" "mp_obj_valid x"
  shows "set_has s x = Some (denote x \<in> set_abs s)"
proof -
  obtain s' r where "lookup_elem s x Lookup = Some (s', r)" "r \<noteq> None \<longleftrightarrow> denote x \<in> set_abs s \<or> adds Lookup"
    using lookup_abs [OF assms, of Lookup] by blast
  then show ?thesis by (simp add: set_has_def adds_def)
qed

section \<open>Iteration\<close>

lemma map_filter_none: "\<forall>e \<in> set xs. slot_key e = None \<Longrightarrow> List.map_filter slot_key xs = []"
  by (induction xs) (simp_all add: map_filter_simps)

text \<open>The iterator gives the elements in the order of the table.\<close>

lemma set_it_iternext_drop:
  "case set_it_iternext s cur of
     None \<Rightarrow> List.map_filter slot_key (drop cur (s_table s)) = []
   | Some (cur', k) \<Rightarrow> cur < cur' \<and> cur' \<le> length (s_table s) \<and> s_table s ! (cur' - 1) = Key k
       \<and> (\<forall>i. cur \<le> i \<and> i < cur' - 1 \<longrightarrow> slot_key (s_table s ! i) = None)
       \<and> List.map_filter slot_key (drop cur (s_table s)) = k # List.map_filter slot_key (drop cur' (s_table s))"
proof (cases "find (mp_set_slot_is_filled s) [cur..<length (s_table s)]")
  case None
  then have "\<forall>i. cur \<le> i \<and> i < length (s_table s) \<longrightarrow> slot_key (s_table s ! i) = None"
    by (auto simp: find_None_iff mp_set_slot_is_filled_def)
  then have "\<forall>e \<in> set (drop cur (s_table s)). slot_key e = None" by (auto simp: in_set_conv_nth)
  then show ?thesis using None map_filter_none by (simp add: set_it_iternext_def)
next
  case (Some i)
  then obtain j where j: "i = cur + j" "i < length (s_table s)" "mp_set_slot_is_filled s i"
    "\<forall>l < j. \<not> mp_set_slot_is_filled s (cur + l)"
    by (auto simp: find_Some_iff)
  obtain k where k: "s_table s ! i = Key k" using j(3) by (cases "s_table s ! i") (auto simp: mp_set_slot_is_filled_def)
  have before: "slot_key (s_table s ! l) = None" if "cur \<le> l" "l < i" for l
    using j(4) that j(1) by (auto simp: mp_set_slot_is_filled_def dest: spec [of _ "l - cur"])
  have eq: "drop cur (s_table s) = take j (drop cur (s_table s)) @ Key k # drop (Suc i) (s_table s)"
    using id_take_nth_drop [of j "drop cur (s_table s)"] j(1,2) k by (simp add: add.commute)
  have none: "List.map_filter slot_key (take j (drop cur (s_table s))) = []"
    using before j(1,2) by (intro map_filter_none) (auto simp: in_set_conv_nth)
  have "List.map_filter slot_key (drop cur (s_table s)) = k # List.map_filter slot_key (drop (Suc i) (s_table s))"
    using arg_cong [OF eq, of "List.map_filter slot_key"] none by (simp add: map_filter_simps)
  then show ?thesis using Some k j(1,2) before by (auto simp: set_it_iternext_def)
qed

lemma set_iterate_drop: "set_iterate s cur = List.map_filter slot_key (drop cur (s_table s))"
proof (induction s cur rule: set_iterate.induct)
  case (1 s cur)
  then show ?case using set_it_iternext_drop [where s = s and cur = cur]
    by (subst set_iterate.simps) (auto split: option.splits)
qed

lemma set_getiter_items: "set_getiter o' = set_items (so_set o')"
  by (simp add: set_getiter_def set_iterate_drop set_items_def)

lemma fold_apply_abs:
  assumes "sinv s" "\<forall>x \<in> set xs. mp_obj_valid x"
  shows "\<exists>s'. fold_opt (set_apply kind) xs s = Some s' \<and> sinv s' \<and> set_abs s' = fold (abs_step kind) (map denote xs) (set_abs s)"
  using assms
proof (induction xs arbitrary: s)
  case (Cons x xs)
  obtain s1 where s1: "set_apply kind x s = Some s1" "sinv s1" "set_abs s1 = abs_step kind (denote x) (set_abs s)"
    using set_apply_abs [OF Cons.prems(1), of x kind] Cons.prems(2) by auto
  from Cons.IH [OF s1(2)] Cons.prems(2) obtain s2 where "fold_opt (set_apply kind) xs s1 = Some s2" "sinv s2"
    "set_abs s2 = fold (abs_step kind) (map denote xs) (set_abs s1)" by auto
  then show ?case using s1 by simp
qed simp

text \<open>A loop over the items adds them all, removes them all, or keeps those seen an odd number of times.\<close>

lemma fold_abs_add: "fold (abs_step Add_if_not_found) ds A = A \<union> set ds"
  by (induction ds arbitrary: A) (auto simp: abs_step_def adds_def removes_def)

lemma fold_abs_remove: "fold (abs_step Remove_if_found) ds A = A - set ds"
  by (induction ds arbitrary: A) (auto simp: abs_step_def adds_def removes_def)

lemma fold_abs_toggle:
  "fold (abs_step Add_if_not_found_or_remove_if_found) ds A = {d. (d \<in> A) \<noteq> odd (count (mset ds) d)}"
proof (induction ds arbitrary: A)
  case (Cons e ds)
  have step: "(d \<in> abs_step Add_if_not_found_or_remove_if_found e A) \<longleftrightarrow> (d \<in> A) \<noteq> (d = e)" for d
    by (cases "d = e") (auto simp: abs_step_def adds_def removes_def)
  show ?case
  proof (rule set_eqI)
    fix d
    show "d \<in> fold (abs_step Add_if_not_found_or_remove_if_found) (e # ds) A \<longleftrightarrow> d \<in> {d. (d \<in> A) \<noteq> odd (count (mset (e # ds)) d)}"
      using step [of d] by (cases "d = e") (auto simp: Cons.IH)
  qed
qed simp

text \<open>The loop over the set that it changes.\<close>

lemma set_apply_held:
  assumes inv: "sinv s" and i: "i < length (s_table s)" "s_table s ! i = Key k"
  shows "set_apply kind k s = Some (if removes kind then mp_set_remove_at s i else s)"
proof -
  have k: "mp_obj_valid k" using inv i by (auto simp: set_inv_def dest: table_invD(1))
  then have "holds mp_obj_ops (s_table s) k i" using i by (simp add: holds_def mp_obj_equal_denote)
  then show ?thesis using obj_keys.set_lookup_held [OF inv k] by (simp add: set_apply_def)
qed

lemma set_apply_self_keep:
  assumes "sinv s" "\<not> removes kind"
  shows "set_apply_self kind cur s = Some s"
proof (induction "length (s_table s) - cur" arbitrary: cur rule: less_induct)
  case less
  show ?case
  proof (cases "set_it_iternext s cur")
    case (Some c)
    then obtain cur' k where c: "set_it_iternext s cur = Some (cur', k)" by (cases c) auto
    then have d: "cur < cur'" "cur' \<le> length (s_table s)" "s_table s ! (cur' - 1) = Key k"
      using set_it_iternext_drop [where s = s and cur = cur] by simp_all
    then have "set_apply kind k s = Some s" using set_apply_held [OF assms(1) _ d(3), of kind] assms(2) by simp
    then show ?thesis using c less [of cur'] d(1,2) by (subst set_apply_self.simps) simp
  qed (subst set_apply_self.simps, simp)
qed

lemma set_apply_self_clear:
  assumes "sinv s" "removes kind" "\<forall>i < cur. slot_key (s_table s ! i) = None"
  shows "\<exists>s'. set_apply_self kind cur s = Some s' \<and> sinv s' \<and> set_items s' = []"
  using assms
proof (induction "length (s_table s) - cur" arbitrary: cur s rule: less_induct)
  case less
  note it = set_it_iternext_drop [where s = s and cur = cur]
  show ?case
  proof (cases "set_it_iternext s cur")
    case None
    have "slot_key e = None" if "e \<in> set (take cur (s_table s))" for e using less.prems(3) that by (auto simp: in_set_conv_nth)
    then have "List.map_filter slot_key (take cur (s_table s)) = []" using map_filter_none by blast
    then have "List.map_filter slot_key (take cur (s_table s) @ drop cur (s_table s)) = []"
      using None it by (simp only: map_filter_simps'(2)) simp
    then have "set_items s = []" by (simp add: set_items_def)
    then show ?thesis using None less.prems(1) by (subst set_apply_self.simps) simp
  next
    case (Some c)
    then obtain p k where c: "set_it_iternext s cur = Some (Suc p, k)"
      using it by (cases c; cases "fst c") auto
    then have d: "cur < Suc p" "p < length (s_table s)" "s_table s ! p = Key k"
      "\<forall>i. cur \<le> i \<and> i < p \<longrightarrow> slot_key (s_table s ! i) = None" using it by simp_all
    let ?s = "mp_set_remove_at s p"
    have a: "set_apply kind k s = Some ?s" using set_apply_held [OF less.prems(1) d(2,3), of kind] less.prems(2) by simp
    have t: "s_table ?s = (s_table s)[p := clear_slot (s_table s) p]" by (simp add: mp_set_remove_at_def)
    have "slot_key (s_table ?s ! i) = None" if "i < Suc p" for i
      using that less.prems(3) d(2,4) unfolding t by (cases "i < cur"; cases "i = p") (auto simp: clear_slot_def)
    then have "\<exists>s'. set_apply_self kind (Suc p) ?s = Some s' \<and> sinv s' \<and> set_items s' = []"
      using less.hyps [of ?s "Suc p"] obj_keys.set_remove_at(1) [OF less.prems(1) d(2,3)] less.prems(2) d(1,2) t by simp
    then show ?thesis using c a by (subst set_apply_self.simps) simp
  qed
qed

section \<open>The methods on the set of denotations\<close>

definition so_ok :: "mp_obj_set \<Rightarrow> bool" where
  "so_ok o' = sinv (so_set o')"

definition so_abs :: "mp_obj_set \<Rightarrow> denotation set" where
  "so_abs o' = set_abs (so_set o')"

fun arg_ok :: "set_arg \<Rightarrow> bool" where
  "arg_ok Same = True"
| "arg_ok (Other t) = so_ok t"
| "arg_ok (Iterable xs) = (\<forall>x \<in> set xs. mp_obj_valid x)"

fun arg_abs :: "mp_obj_set \<Rightarrow> set_arg \<Rightarrow> denotation set" where
  "arg_abs self Same = so_abs self"
| "arg_abs self (Other t) = so_abs t"
| "arg_abs self (Iterable xs) = denote ` set xs"

text \<open>An object of type \<open>t\<close> that holds the set \<open>A\<close>.\<close>

definition holds_set :: "set_type \<Rightarrow> denotation set \<Rightarrow> mp_obj_set option \<Rightarrow> bool" where
  "holds_set t A r \<longleftrightarrow> (\<exists>o'. r = Some o' \<and> so_ok o' \<and> so_type o' = t \<and> so_abs o' = A)"

lemma holds_setI: "sinv s \<Longrightarrow> so_type o' = t \<Longrightarrow> set_abs s = A \<Longrightarrow> holds_set t A (Some (o'\<lparr>so_set := s\<rparr>))"
  by (simp add: holds_set_def so_ok_def so_abs_def)

lemma holds_set_self: "so_ok o' \<Longrightarrow> holds_set (so_type o') (so_abs o') (Some o')"
  by (simp add: holds_set_def)

lemma arg_items_valid:
  assumes "so_ok self" "arg_ok arg"
  shows "\<forall>x \<in> set (arg_items self arg). mp_obj_valid x" "denote ` set (arg_items self arg) = arg_abs self arg"
  using assms by (cases arg; auto simp: so_ok_def so_abs_def set_abs_def set_getiter_items sinv_valid)+

lemma apply_one:
  assumes "so_ok self" "mp_obj_valid x"
  shows "holds_set (so_type self) (abs_step kind (denote x) (so_abs self))
    (map_option (\<lambda>s. self\<lparr>so_set := s\<rparr>) (set_apply kind x (so_set self)))"
  using set_apply_abs [of "so_set self" x kind] assms holds_setI by (auto simp: so_ok_def so_abs_def)

text \<open>The loops over an argument that is another object.\<close>

lemma apply_items:
  assumes "so_ok self" "arg_ok arg" "arg \<noteq> Same"
  shows "holds_set (so_type self) (fold (abs_step kind) (map denote (arg_items self arg)) (so_abs self)) (set_apply_all kind self arg)"
  using fold_apply_abs [of "so_set self" "arg_items self arg" kind] assms arg_items_valid(1) [OF assms(1,2)] holds_setI
  by (auto simp: set_apply_all_def so_ok_def so_abs_def)

lemma apply_add:
  assumes "so_ok self" "arg_ok arg"
  shows "holds_set (so_type self) (so_abs self \<union> arg_abs self arg) (set_apply_all Add_if_not_found self arg)"
proof (cases "arg = Same")
  case True
  then show ?thesis using assms(1) set_apply_self_keep [of "so_set self" Add_if_not_found 0] holds_set_self [OF assms(1)]
    by (simp add: set_apply_all_def so_ok_def removes_def)
next
  case False
  then show ?thesis using apply_items [OF assms False, of Add_if_not_found] arg_items_valid(2) [OF assms] by (simp add: fold_abs_add)
qed

lemma apply_remove:
  assumes "so_ok self" "arg_ok arg" "arg \<noteq> Same"
  shows "holds_set (so_type self) (so_abs self - arg_abs self arg) (set_apply_all Remove_if_found self arg)"
  using apply_items [OF assms, of Remove_if_found] arg_items_valid(2) [OF assms(1,2)] by (simp add: fold_abs_remove)

text \<open>The symmetric difference, where an iterable counts the elements it gives an odd number of times.\<close>

definition odd_abs :: "mp_obj_set \<Rightarrow> set_arg \<Rightarrow> denotation set" where
  "odd_abs self arg = (case arg of Iterable xs \<Rightarrow> {d. odd (count (mset (map denote xs)) d)} | _ \<Rightarrow> arg_abs self arg)"

definition set_xor :: "'a set \<Rightarrow> 'a set \<Rightarrow> 'a set" where
  "set_xor A B = (A - B) \<union> (B - A)"

lemma set_xor_Collect: "{d. (d \<in> A) \<noteq> P d} = set_xor A {d. P d}"
  by (auto simp: set_xor_def)

lemma toggle_distinct:
  assumes "distinct ds"
  shows "odd (count (mset ds) d) \<longleftrightarrow> d \<in> set ds"
  using assms by (simp add: distinct_count_atmost_1)

lemma apply_toggle:
  assumes "so_ok self" "arg_ok arg"
  shows "holds_set (so_type self) (set_xor (so_abs self) (odd_abs self arg))
    (set_apply_all Add_if_not_found_or_remove_if_found self arg)"
proof (cases arg)
  case Same
  obtain s' where "set_apply_self Add_if_not_found_or_remove_if_found 0 (so_set self) = Some s'" "sinv s'" "set_items s' = []"
    using set_apply_self_clear [of "so_set self" Add_if_not_found_or_remove_if_found 0] assms(1) by (auto simp: so_ok_def removes_def)
  then show ?thesis using Same holds_setI [of s' self _ "{}"]
    by (simp add: set_apply_all_def set_xor_def odd_abs_def set_abs_def)
next
  case (Other t)
  have d: "distinct (map denote (arg_items self arg))" using sinv_distinct assms(2) Other by (simp add: set_getiter_items so_ok_def)
  have "set (map denote (arg_items self arg)) = so_abs t" using arg_items_valid(2) [OF assms] Other by simp
  then show ?thesis using apply_items [OF assms, of Add_if_not_found_or_remove_if_found] Other
    unfolding fold_abs_toggle toggle_distinct [OF d] set_xor_Collect by (simp add: odd_abs_def)
next
  case (Iterable xs)
  then show ?thesis using apply_items [OF assms, of Add_if_not_found_or_remove_if_found]
    unfolding fold_abs_toggle set_xor_Collect by (simp add: odd_abs_def)
qed

lemma new_set: "holds_set Type_set {} (mp_obj_new_set [])"
  by (simp add: mp_obj_new_set_def holds_set_def so_ok_def so_abs_def set_abs_def set_inv_init) (simp add: mp_set_init_def set_items_def)

lemma copy_set:
  assumes "so_ok self"
  shows "so_ok (set_copy self)" "so_type (set_copy self) = so_type self" "so_abs (set_copy self) = so_abs self"
  using assms by (simp_all add: set_copy_def Let_def so_ok_def so_abs_def set_abs_def set_inv_def set_items_def mp_set_init_def)

end
