(* ===== verification/Objset_Spec.thy ===== *)
theory Objset_Spec
  imports Objset
begin

text \<open>
  What the methods and operators of \<open>src/py/objset.c\<close> promise: on the set of what the elements stand
  for they are the operations of set algebra. The theory ends with the properties of sets: the
  refinement of an abstract set by sequences of method calls, the operators, their types, and
  the hash of frozen sets.
\<close>

section \<open>Each method\<close>

lemma holds_set_bind:
  assumes "holds_set t A r" "\<And>o'. so_ok o' \<Longrightarrow> so_type o' = t \<Longrightarrow> so_abs o' = A \<Longrightarrow> holds_set u B (f o')"
  shows "holds_set u B (Option.bind r f)"
  using assms by (auto simp: holds_set_def)

lemma set_store_correct: "so_ok self \<Longrightarrow> mp_obj_valid x \<Longrightarrow> holds_set (so_type self) (insert (denote x) (so_abs self)) (mp_obj_set_store self x)"
  using apply_one [of self x Add_if_not_found] fold_abs_add [of "[denote x]" "so_abs self"] by (simp add: mp_obj_set_store_def)

lemma set_add_store: "set_add self x = mp_obj_set_store self x"
  by (simp add: set_add_def mp_obj_set_store_def)

lemma fold_store:
  assumes "so_ok self" "\<forall>x \<in> set xs. mp_obj_valid x"
  shows "holds_set (so_type self) (so_abs self \<union> denote ` set xs) (fold_opt (\<lambda>x set. mp_obj_set_store set x) xs self)"
  using assms
proof (induction xs arbitrary: self)
  case Nil
  then show ?case by (simp add: holds_set_self)
next
  case (Cons x xs)
  show ?case unfolding fold_opt.simps
  proof (rule holds_set_bind)
    show "holds_set (so_type self) (insert (denote x) (so_abs self)) (mp_obj_set_store self x)" using set_store_correct Cons.prems by simp
    show "holds_set (so_type self) (so_abs self \<union> denote ` set (x # xs)) (fold_opt (\<lambda>x set. mp_obj_set_store set x) xs o')"
      if "so_ok o'" "so_type o' = so_type self" "so_abs o' = insert (denote x) (so_abs self)" for o'
      using Cons.IH [OF that(1)] Cons.prems(2) that by simp
  qed
qed

lemma make_new_correct:
  assumes "case arg of None \<Rightarrow> True | Some xs \<Rightarrow> \<forall>x \<in> set xs. mp_obj_valid x"
  shows "holds_set t (case arg of None \<Rightarrow> {} | Some xs \<Rightarrow> denote ` set xs) (set_make_new t arg)"
  unfolding set_make_new_def
proof (rule holds_set_bind [OF new_set])
  fix o' assume o': "so_ok o'" "so_type o' = Type_set" "so_abs o' = {}"
  have "holds_set Type_set (case arg of None \<Rightarrow> {} | Some xs \<Rightarrow> denote ` set xs)
      (case arg of None \<Rightarrow> Some o' | Some items \<Rightarrow> fold_opt (\<lambda>x set. mp_obj_set_store set x) items o')"
    using assms o' fold_store [OF o'(1)] holds_set_self [OF o'(1)] by (cases arg) simp_all
  then show "holds_set t (case arg of None \<Rightarrow> {} | Some xs \<Rightarrow> denote ` set xs)
      (map_option (so_type_update (\<lambda>_. t)) (case arg of None \<Rightarrow> Some o' | Some items \<Rightarrow> fold_opt (\<lambda>x set. mp_obj_set_store set x) items o'))"
    by (auto simp: holds_set_def so_ok_def so_abs_def)
qed

lemma new_set_correct:
  assumes "\<forall>x \<in> set xs. mp_obj_valid x"
  shows "holds_set Type_set (denote ` set xs) (mp_obj_new_set xs)"
proof -
  have "set_abs (mp_set_init n) = {}" for n by (simp add: set_abs_def mp_set_init_def)
  then show ?thesis using fold_apply_abs [OF set_inv_init assms, of Add_if_not_found "length xs"]
    by (auto simp: mp_obj_new_set_def fold_abs_add holds_set_def so_ok_def so_abs_def)
qed

lemma diff_correct:
  assumes "so_ok self" "\<forall>arg \<in> set args. arg_ok arg"
  shows "holds_set (so_type self) (so_abs self - (\<Union>arg \<in> set args. arg_abs self arg)) (set_diff_int self args update)"
proof -
  let ?step = "\<lambda>arg out. if update \<and> arg = Same then Some (set_clear out)
    else set_apply_all Remove_if_found out (if arg = Same then Other self else arg)"
  have clear: "holds_set (so_type out) {} (Some (set_clear out))" for out
    by (simp add: set_clear_def holds_set_def so_ok_def so_abs_def set_abs_def set_inv_clear)
  have step: "holds_set (so_type out) (so_abs out - arg_abs self arg) (?step arg out)"
    if "so_ok out" "so_abs out \<subseteq> so_abs self" "arg_ok arg" for arg out
  proof (cases "arg = Same")
    case True
    have e: "so_abs out - so_abs self = {}" using that(2) by auto
    show ?thesis
    proof (cases update)
      case True
      then show ?thesis using \<open>arg = Same\<close> clear [of out] by (simp only: arg_abs.simps e if_True simp_thms)
    next
      case False
      then show ?thesis using \<open>arg = Same\<close> apply_remove [OF that(1), of "Other self"] assms(1) by simp
    qed
  next
    case False
    then have "arg_abs out arg = arg_abs self arg" by (cases arg) simp_all
    then show ?thesis using False apply_remove [OF that(1,3) False] by simp
  qed
  have "holds_set (so_type out) (so_abs out - (\<Union>arg \<in> set args. arg_abs self arg)) (fold_opt ?step args out)"
    if "so_ok out" "so_abs out \<subseteq> so_abs self" for out
    using that assms(2)
  proof (induction args arbitrary: out)
    case Nil
    then show ?case by (simp add: holds_set_self)
  next
    case (Cons arg args)
    show ?case unfolding fold_opt.simps
    proof (rule holds_set_bind [OF step [OF Cons.prems(1,2), of arg]])
      show "arg_ok arg" using Cons.prems(3) by simp
      fix o' assume o': "so_ok o'" "so_type o' = so_type out" "so_abs o' = so_abs out - arg_abs self arg"
      then have "so_abs o' - (\<Union>arg \<in> set args. arg_abs self arg) = so_abs out - (\<Union>arg \<in> set (arg # args). arg_abs self arg)" by auto
      moreover have "so_abs o' \<subseteq> so_abs self" using o'(3) Cons.prems(2) by auto
      ultimately show "holds_set (so_type out) (so_abs out - (\<Union>arg \<in> set (arg # args). arg_abs self arg)) (fold_opt ?step args o')"
        using Cons.IH [OF o'(1)] Cons.prems(3) o'(2) by simp
    qed
  qed
  from this [of "if update then self else set_copy self"]
  show ?thesis using assms(1) copy_set [OF assms(1)] by (cases update) (simp_all add: set_diff_int_def)
qed

lemma intersect_correct:
  assumes "so_ok self" "arg_ok arg"
  shows "holds_set (if update \<or> arg = Same then so_type self else Type_set) (so_abs self \<inter> arg_abs self arg)
    (set_intersect_int self arg update)"
proof (cases "arg = Same")
  case True
  then show ?thesis using holds_set_self [OF assms(1)] holds_set_self [OF copy_set(1) [OF assms(1)]] copy_set [OF assms(1)]
    by (simp add: set_intersect_int_def)
next
  case False
  let ?step = "\<lambda>x out. Option.bind (set_has (so_set self) x) (\<lambda>b. if b then set_add out x else Some out)"
  have fold: "holds_set (so_type out) (so_abs out \<union> (so_abs self \<inter> denote ` set xs)) (fold_opt ?step xs out)"
    if "so_ok out" "\<forall>x \<in> set xs. mp_obj_valid x" for xs out
    using that
  proof (induction xs arbitrary: out)
    case Nil
    then show ?case by (simp add: holds_set_self)
  next
    case (Cons x xs)
    have has: "set_has (so_set self) x = Some (denote x \<in> so_abs self)"
      using set_has_abs assms(1) Cons.prems(2) by (simp add: so_ok_def so_abs_def)
    show ?case
    proof (cases "denote x \<in> so_abs self")
      case True
      have "holds_set (so_type out) (so_abs out \<union> (so_abs self \<inter> denote ` set (x # xs)))
          (Option.bind (mp_obj_set_store out x) (fold_opt ?step xs))"
      proof (rule holds_set_bind [OF set_store_correct [OF Cons.prems(1)]])
        fix o' assume o': "so_ok o'" "so_type o' = so_type out" "so_abs o' = insert (denote x) (so_abs out)"
        have "so_abs o' \<union> (so_abs self \<inter> denote ` set xs) = so_abs out \<union> (so_abs self \<inter> denote ` set (x # xs))"
          using o'(3) True by auto
        then show "holds_set (so_type out) (so_abs out \<union> (so_abs self \<inter> denote ` set (x # xs))) (fold_opt ?step xs o')"
          using Cons.IH [OF o'(1)] Cons.prems(2) o'(2) by simp
      qed (use Cons.prems(2) in simp)
      then show ?thesis using has True by (simp add: set_add_store)
    next
      case False
      then show ?thesis using has Cons by simp
    qed
  qed
  obtain o0 where o0: "mp_obj_new_set [] = Some o0" "so_ok o0" "so_type o0 = Type_set" "so_abs o0 = {}"
    using new_set by (auto simp: holds_set_def)
  show ?thesis using fold [OF o0(2) arg_items_valid(1) [OF assms]] o0 False arg_items_valid(2) [OF assms]
    by (auto simp: set_intersect_int_def holds_set_def so_ok_def so_abs_def)
qed

lemma update_correct:
  assumes "so_ok self" "\<forall>arg \<in> set args. arg_ok arg"
  shows "holds_set (so_type self) (so_abs self \<union> (\<Union>arg \<in> set args. arg_abs self arg)) (set_update self args)"
proof -
  have "holds_set (so_type out) (so_abs out \<union> (\<Union>arg \<in> set args. arg_abs self arg)) (fold_opt (\<lambda>arg self. set_update_int self arg) args out)"
    if "so_ok out" "so_abs self \<subseteq> so_abs out" for out
    using that assms(2)
  proof (induction args arbitrary: out)
    case Nil
    then show ?case by (simp add: holds_set_self)
  next
    case (Cons arg args)
    show ?case unfolding fold_opt.simps set_update_int_def
    proof (rule holds_set_bind [OF apply_add [OF Cons.prems(1), of arg]])
      show "arg_ok arg" using Cons.prems(3) by simp
      fix o' assume o': "so_ok o'" "so_type o' = so_type out" "so_abs o' = so_abs out \<union> arg_abs out arg"
      then have "so_abs o' \<union> (\<Union>arg \<in> set args. arg_abs self arg) = so_abs out \<union> (\<Union>arg \<in> set (arg # args). arg_abs self arg)"
        using Cons.prems(2) by (cases arg) auto
      moreover have "so_abs self \<subseteq> so_abs o'" using o'(3) Cons.prems(2) by auto
      ultimately show "holds_set (so_type out) (so_abs out \<union> (\<Union>arg \<in> set (arg # args). arg_abs self arg))
          (fold_opt (\<lambda>arg self. set_apply_all Add_if_not_found self arg) args o')"
        using Cons.IH [OF o'(1)] Cons.prems(3) o'(2) by (simp add: set_update_int_def)
    qed
  qed
  from this [of self] show ?thesis using assms(1) by (simp add: set_update_def)
qed

text \<open>The operations on a copy.\<close>

lemma copy_arg:
  assumes "so_ok self" "arg_ok arg"
  defines "arg' \<equiv> if arg = Same then Other self else arg"
  shows "arg_ok arg'" "arg' \<noteq> Same" "arg_abs (set_copy self) arg' = arg_abs self arg" "odd_abs (set_copy self) arg' = odd_abs self arg"
  using assms by (cases arg; simp add: odd_abs_def)+

lemma union_correct:
  assumes "so_ok self" "arg_ok arg"
  shows "holds_set (so_type self) (so_abs self \<union> arg_abs self arg) (set_union self arg)"
  using apply_add [OF copy_set(1) [OF assms(1)] copy_arg(1) [OF assms]] copy_set [OF assms(1)] copy_arg [OF assms]
  by (simp add: set_union_def set_update_int_def)

lemma symmetric_difference_correct:
  assumes "so_ok self" "arg_ok arg"
  shows "holds_set (so_type self) (set_xor (so_abs self) (odd_abs self arg)) (set_symmetric_difference self arg)"
  using apply_toggle [OF copy_set(1) [OF assms(1)] copy_arg(1) [OF assms]] copy_set [OF assms(1)] copy_arg [OF assms]
  by (simp add: set_symmetric_difference_def set_symmetric_difference_update_def)

text \<open>Tests.\<close>

lemma all_in_correct:
  assumes "sinv s" "\<forall>x \<in> set xs. mp_obj_valid x"
  shows "all_in s xs = Some (denote ` set xs \<subseteq> set_abs s)" "none_in s xs = Some (denote ` set xs \<inter> set_abs s = {})"
  using assms(2) by (induction xs) (auto simp: set_has_abs [OF assms(1)])

lemma isdisjoint_correct:
  assumes "so_ok self" "arg_ok arg"
  shows "set_isdisjoint self arg = Some (so_abs self \<inter> arg_abs self arg = {})"
  using all_in_correct(2) [of "so_set self" "arg_items self arg"] arg_items_valid [OF assms] assms(1)
  by (simp add: set_isdisjoint_def so_ok_def so_abs_def Int_commute)

lemma arg_as_set_correct:
  assumes "so_ok self" "arg_ok arg"
  shows "\<exists>o'. arg_as_set self arg = Some o' \<and> so_ok o' \<and> so_abs o' = arg_abs self arg"
proof (cases arg)
  case (Iterable xs)
  then show ?thesis using assms(2) make_new_correct [of "Some xs" Type_set] by (auto simp: holds_set_def)
qed (use assms in simp_all)

lemma so_used: "so_ok o' \<Longrightarrow> s_used (so_set o') = card (so_abs o')"
  by (simp add: so_ok_def so_abs_def sinv_used)

lemma so_abs_finite [simp]: "finite (so_abs o')"
  by (simp add: so_abs_def)

lemma subset_internal:
  assumes "so_ok a" "so_ok b"
  shows "set_issubset_internal (Some a) (Some b) proper = Some (if proper then so_abs a \<subset> so_abs b else so_abs a \<subseteq> so_abs b)"
proof -
  have all: "all_in (so_set b) (set_getiter a) = Some (so_abs a \<subseteq> so_abs b)"
  proof -
    have "\<forall>x \<in> set (set_items (so_set a)). mp_obj_valid x" using sinv_valid assms(1) unfolding so_ok_def by blast
    then show ?thesis using all_in_correct(1) [of "so_set b" "set_items (so_set a)"] assms(2)
      unfolding set_getiter_items so_ok_def so_abs_def set_abs_def by simp
  qed
  have eq: "card (so_abs a) = card (so_abs b) \<Longrightarrow> so_abs a \<subseteq> so_abs b \<Longrightarrow> so_abs a = so_abs b"
    by (rule card_subset_eq [OF so_abs_finite])
  show ?thesis
  proof (cases "proper \<and> card (so_abs a) = card (so_abs b)")
    case True
    then have "\<not> so_abs a \<subset> so_abs b" using eq by blast
    then show ?thesis using True so_used [OF assms(1)] so_used [OF assms(2)] by (simp add: set_issubset_internal_def)
  next
    case False
    then have "so_abs a \<subseteq> so_abs b \<longleftrightarrow> (if proper then so_abs a \<subset> so_abs b else so_abs a \<subseteq> so_abs b)" by auto
    then show ?thesis using False so_used [OF assms(1)] so_used [OF assms(2)] all
      by (cases proper) (simp_all add: set_issubset_internal_def)
  qed
qed

lemma subset_correct:
  assumes "so_ok self" "arg_ok arg"
  shows "set_issubset self arg = Some (so_abs self \<subseteq> arg_abs self arg)"
    "set_issubset_proper self arg = Some (so_abs self \<subset> arg_abs self arg)"
    "set_issuperset self arg = Some (arg_abs self arg \<subseteq> so_abs self)"
    "set_issuperset_proper self arg = Some (arg_abs self arg \<subset> so_abs self)"
proof -
  obtain t where t: "arg_as_set self arg = Some t" "so_ok t" "so_abs t = arg_abs self arg" using arg_as_set_correct [OF assms] by blast
  note i = subset_internal [OF assms(1) t(2)] subset_internal [OF t(2) assms(1)]
  show "set_issubset self arg = Some (so_abs self \<subseteq> arg_abs self arg)"
    "set_issubset_proper self arg = Some (so_abs self \<subset> arg_abs self arg)"
    "set_issuperset self arg = Some (arg_abs self arg \<subseteq> so_abs self)"
    "set_issuperset_proper self arg = Some (arg_abs self arg \<subset> so_abs self)"
    by (simp_all add: set_issubset_def set_issubset_proper_def set_issuperset_def set_issuperset_proper_def t(1,3) i)
qed

lemma equal_correct:
  assumes "so_ok self" "arg_ok arg"
  shows "set_equal self arg = Some (so_abs self = arg_abs self arg)"
proof -
  obtain t where t: "arg_as_set self arg = Some t" "so_ok t" "so_abs t = arg_abs self arg" using arg_as_set_correct [OF assms] by blast
  have "card (so_abs self) = card (so_abs t) \<Longrightarrow> so_abs self \<subseteq> so_abs t \<longleftrightarrow> so_abs self = so_abs t"
    using card_subset_eq [OF so_abs_finite, of "so_abs self" t] by auto
  then show ?thesis using t subset_correct(1) [OF assms] so_used [OF assms(1)] so_used [OF t(2)] by (auto simp: set_equal_def)
qed

text \<open>The hash of a frozen set depends only on the set.\<close>

lemma fold_hash:
  "fold (\<lambda>e hash. case slot_key e of None \<Rightarrow> hash | Some k \<Rightarrow> hash + mp_obj_hash k) es h = h + (\<Sum>k \<leftarrow> List.map_filter slot_key es. mp_obj_hash k)"
  by (induction es arbitrary: h) (auto simp: map_filter_simps split: option.splits)

lemma hash_correct:
  assumes "so_ok o'" "so_type o' = Type_frozenset"
  shows "set_hash start o' = Some (through_small_int (start + (\<Sum>d \<in> so_abs o'. denote_hash d)))"
proof -
  let ?t = "s_table (so_set o')" and ?xs = "set_items (so_set o')"
  let ?f = "\<lambda>e hash. case slot_key e of None \<Rightarrow> hash | Some k \<Rightarrow> hash + mp_obj_hash k"
  have "fold (\<lambda>i hash. ?f (?t ! i) hash) [0..<length ?t] start = fold ?f (map ((!) ?t) [0..<length ?t]) start"
    by (simp add: fold_map comp_def)
  also have "\<dots> = start + (\<Sum>k \<leftarrow> ?xs. mp_obj_hash k)" by (simp add: map_nth fold_hash set_items_def)
  also have "(\<Sum>k \<leftarrow> ?xs. mp_obj_hash k) = (\<Sum>d \<leftarrow> map denote ?xs. denote_hash d)"
  proof -
    have "mp_obj_hash k = denote_hash (denote k)" if "k \<in> set ?xs" for k
      using mp_obj_hash_denote sinv_valid [OF _ that] assms(1) by (simp add: so_ok_def)
    then have "map mp_obj_hash ?xs = map denote_hash (map denote ?xs)" by simp
    then show ?thesis by (rule arg_cong)
  qed
  also have "\<dots> = (\<Sum>d \<in> so_abs o'. denote_hash d)"
    using sum_list_distinct_conv_sum_set [OF sinv_distinct, of "so_set o'" denote_hash] assms(1) by (simp add: so_ok_def so_abs_def set_abs_def)
  finally show ?thesis using assms(2) by (simp add: set_hash_def)
qed

section \<open>Sequences of method calls\<close>

datatype set_op =
    S_add mp_obj
  | S_discard mp_obj
  | S_remove mp_obj
  | S_pop
  | S_clear
  | S_contains mp_obj
  | S_len
  | S_update "set_arg list"
  | S_difference_update "set_arg list"
  | S_intersection_update set_arg
  | S_symmetric_difference_update set_arg

datatype set_reply = S_none | S_raised set_error | S_elem mp_obj | S_truth bool | S_count nat

abbreviation s_done :: "mp_obj_set option \<Rightarrow> (mp_obj_set \<times> set_reply) option" where
  "s_done r \<equiv> map_option (\<lambda>o'. (o', S_none)) r"

text \<open>An exception leaves the set as it was.\<close>

fun set_step :: "set_op \<Rightarrow> mp_obj_set \<Rightarrow> (mp_obj_set \<times> set_reply) option" where
  "set_step (S_add x) o' = s_done (set_add o' x)"
| "set_step (S_discard x) o' = s_done (set_discard o' x)"
| "set_step (S_remove x) o' = map_option (\<lambda>r. case r of Inl e \<Rightarrow> (o', S_raised e) | Inr p \<Rightarrow> (p, S_none)) (set_remove o' x)"
| "set_step S_pop o' = Some (case set_pop o' of Inl e \<Rightarrow> (o', S_raised e) | Inr (p, x) \<Rightarrow> (p, S_elem x))"
| "set_step S_clear o' = Some (set_clear o', S_none)"
| "set_step (S_contains x) o' = map_option (\<lambda>b. (o', S_truth b)) (set_contains o' x)"
| "set_step S_len o' = Some (o', S_count (set_len o'))"
| "set_step (S_update args) o' = s_done (set_update o' args)"
| "set_step (S_difference_update args) o' = s_done (set_diff_update o' args)"
| "set_step (S_intersection_update arg) o' = s_done (set_intersect_update o' arg)"
| "set_step (S_symmetric_difference_update arg) o' = s_done (set_symmetric_difference_update o' arg)"

fun set_run :: "set_op list \<Rightarrow> mp_obj_set \<Rightarrow> (mp_obj_set \<times> set_reply list) option" where
  "set_run [] o' = Some (o', [])"
| "set_run (op # ops) o' = Option.bind (set_step op o') (\<lambda>(p, a). map_option (map_prod id ((#) a)) (set_run ops p))"

text \<open>
  What the language promises, on a set of what the elements stand for; \<open>pop\<close> takes out an arbitrary
  element. An argument stands for a set, and \<open>Same\<close> for the present one.
\<close>

fun the_arg :: "denotation set \<Rightarrow> set_arg \<Rightarrow> denotation set" where
  "the_arg A Same = A"
| "the_arg A (Other t) = so_abs t"
| "the_arg A (Iterable xs) = denote ` set xs"

inductive set_spec :: "denotation set \<Rightarrow> set_op \<Rightarrow> denotation set \<Rightarrow> set_reply \<Rightarrow> bool" where
  add: "set_spec A (S_add x) (insert (denote x) A) S_none"
| discard: "set_spec A (S_discard x) (A - {denote x}) S_none"
| remove: "denote x \<in> A \<Longrightarrow> set_spec A (S_remove x) (A - {denote x}) S_none"
| remove_missing: "denote x \<notin> A \<Longrightarrow> set_spec A (S_remove x) A (S_raised (Missing x))"
| pop: "denote x \<in> A \<Longrightarrow> set_spec A S_pop (A - {denote x}) (S_elem x)"
| pop_empty: "set_spec {} S_pop {} (S_raised Empty_set)"
| clear: "set_spec A S_clear {} S_none"
| contains: "set_spec A (S_contains x) A (S_truth (denote x \<in> A))"
| len: "set_spec A S_len A (S_count (card A))"
| update: "set_spec A (S_update args) (A \<union> (\<Union>arg \<in> set args. the_arg A arg)) S_none"
| difference_update: "set_spec A (S_difference_update args) (A - (\<Union>arg \<in> set args. the_arg A arg)) S_none"
| intersection_update: "set_spec A (S_intersection_update arg) (A \<inter> the_arg A arg) S_none"
| symmetric_difference_update: "set_spec A (S_symmetric_difference_update arg) (set_xor A (the_arg A arg)) S_none"

inductive set_spec_run :: "denotation set \<Rightarrow> set_op list \<Rightarrow> denotation set \<Rightarrow> set_reply list \<Rightarrow> bool" where
  run_nil: "set_spec_run A [] A []"
| run_cons: "set_spec A op B a \<Longrightarrow> set_spec_run B ops C as \<Longrightarrow> set_spec_run A (op # ops) C (a # as)"

text \<open>
  The objects in a call are valid, and an iterable given to \<open>symmetric_difference_update\<close> has no
  two equal items.
\<close>

fun set_op_ok :: "set_op \<Rightarrow> bool" where
  "set_op_ok (S_add x) = mp_obj_valid x"
| "set_op_ok (S_discard x) = mp_obj_valid x"
| "set_op_ok (S_remove x) = mp_obj_valid x"
| "set_op_ok (S_contains x) = mp_obj_valid x"
| "set_op_ok (S_update args) = list_all arg_ok args"
| "set_op_ok (S_difference_update args) = list_all arg_ok args"
| "set_op_ok (S_intersection_update arg) = arg_ok arg"
| "set_op_ok (S_symmetric_difference_update arg) =
     (arg_ok arg \<and> (case arg of Iterable xs \<Rightarrow> distinct (map denote xs) | _ \<Rightarrow> True))"
| "set_op_ok _ = True"

lemma the_arg_abs: "the_arg (so_abs o') arg = arg_abs o' arg"
  by (cases arg) simp_all

lemma odd_abs_distinct:
  assumes "case arg of Iterable xs \<Rightarrow> distinct (map denote xs) | _ \<Rightarrow> True"
  shows "odd_abs o' arg = arg_abs o' arg"
proof (cases arg)
  case (Iterable xs)
  then have "odd (count (mset (map denote xs)) d) \<longleftrightarrow> d \<in> set (map denote xs)" for d using assms by (intro toggle_distinct) simp
  then show ?thesis using Iterable by (simp add: odd_abs_def del: mset_map)
qed (simp_all add: odd_abs_def)

lemma s_done_spec:
  assumes "holds_set (so_type o') B r" "set_spec (so_abs o') op B S_none"
  shows "\<exists>p a. s_done r = Some (p, a) \<and> so_ok p \<and> set_spec (so_abs o') op (so_abs p) a"
  using assms by (auto simp: holds_set_def)

lemma discard_correct:
  assumes "so_ok o'" "mp_obj_valid x"
  shows "holds_set (so_type o') (so_abs o' - {denote x}) (set_discard o' x)"
  using apply_one [OF assms, of Remove_if_found] fold_abs_remove [of "[denote x]" "so_abs o'"] by (simp add: set_discard_def)

lemma remove_spec:
  assumes "so_ok o'" "mp_obj_valid x"
  shows "\<exists>p a. set_step (S_remove x) o' = Some (p, a) \<and> so_ok p \<and> set_spec (so_abs o') (S_remove x) (so_abs p) a"
proof -
  obtain s r where s: "lookup_elem (so_set o') x Remove_if_found = Some (s, r)" "sinv s"
    "set_abs s = abs_step Remove_if_found (denote x) (so_abs o')" "r \<noteq> None \<longleftrightarrow> denote x \<in> so_abs o'"
    using lookup_abs [of "so_set o'" x Remove_if_found] assms unfolding so_ok_def so_abs_def adds_def by auto
  show ?thesis
  proof (cases r)
    case None
    then show ?thesis using s assms(1) set_spec.remove_missing [of x "so_abs o'"] by (simp add: set_remove_def)
  next
    case (Some k)
    then have "so_abs (o'\<lparr>so_set := s\<rparr>) = so_abs o' - {denote x}" "so_ok (o'\<lparr>so_set := s\<rparr>)"
      using s by (simp_all add: so_abs_def so_ok_def abs_step_def removes_def)
    then show ?thesis using s(1,4) Some set_spec.remove [of x "so_abs o'"] by (simp add: set_remove_def)
  qed
qed

lemma pop_spec:
  assumes "so_ok o'"
  shows "\<exists>p a. set_step S_pop o' = Some (p, a) \<and> so_ok p \<and> set_spec (so_abs o') S_pop (so_abs p) a"
proof (cases "mp_set_remove_first (so_set o')")
  case (Pair s r)
  have inv: "sinv (so_set o')" using assms by (simp add: so_ok_def)
  note f = obj_keys.set_remove_first [OF inv, unfolded Pair]
  show ?thesis
  proof (cases r)
    case None
    then have "so_abs o' = {}" using f by (simp add: so_abs_def set_abs_def)
    then show ?thesis using None Pair assms set_spec.pop_empty by (simp add: set_pop_def)
  next
    case (Some k)
    then have m: "sinv s" "mset (set_items (so_set o')) = add_mset k (mset (set_items s))" using f by simp_all
    then have "mset (map denote (set_items (so_set o'))) = mset (denote k # map denote (set_items s))" by simp
    then have "distinct (denote k # map denote (set_items s))" using sinv_distinct [OF inv] mset_eq_imp_distinct_iff by blast
    moreover have "so_abs o' = insert (denote k) (set_abs s)" using arg_cong [OF m(2), of set_mset] by (simp add: so_abs_def set_abs_def)
    ultimately have "so_abs (o'\<lparr>so_set := s\<rparr>) = so_abs o' - {denote k}" "denote k \<in> so_abs o'"
      by (auto simp: so_abs_def set_abs_def)
    then show ?thesis using Some Pair m(1) set_spec.pop [of k "so_abs o'"] by (simp add: set_pop_def so_ok_def)
  qed
qed

lemma set_step_refines:
  assumes "so_ok o'" "set_op_ok op"
  shows "\<exists>p a. set_step op o' = Some (p, a) \<and> so_ok p \<and> set_spec (so_abs o') op (so_abs p) a"
proof (cases op)
  case (S_add x)
  then show ?thesis using s_done_spec [OF set_store_correct set_spec.add] assms by (simp add: set_add_store)
next
  case (S_discard x)
  then show ?thesis using s_done_spec [OF discard_correct set_spec.discard] assms by simp
next
  case (S_remove x)
  then show ?thesis using remove_spec assms by simp
next
  case S_pop
  then show ?thesis using pop_spec [OF assms(1)] by simp
next
  case S_clear
  then show ?thesis using set_spec.clear by (simp add: set_clear_def so_ok_def so_abs_def set_abs_def set_inv_clear)
next
  case (S_contains x)
  then show ?thesis using assms set_has_abs [of "so_set o'" x] set_spec.contains [of "so_abs o'" x]
    by (simp add: set_contains_def so_ok_def so_abs_def)
next
  case S_len
  then show ?thesis using assms(1) set_spec.len [of "so_abs o'"] by (simp add: set_len_def so_used)
next
  case (S_update args)
  then show ?thesis using s_done_spec [OF update_correct [OF assms(1), of args], of "S_update args"] assms(2)
      set_spec.update [of "so_abs o'" args] by (simp add: the_arg_abs list_all_iff)
next
  case (S_difference_update args)
  then show ?thesis using s_done_spec [OF diff_correct [OF assms(1), of args True], of "S_difference_update args"] assms(2)
      set_spec.difference_update [of "so_abs o'" args] by (simp add: the_arg_abs list_all_iff set_diff_update_def)
next
  case (S_intersection_update arg)
  have "holds_set (so_type o') (so_abs o' \<inter> arg_abs o' arg) (set_intersect_update o' arg)"
    using intersect_correct [OF assms(1), of arg True] assms(2) S_intersection_update by (simp add: set_intersect_update_def)
  then show ?thesis using s_done_spec set_spec.intersection_update [of "so_abs o'" arg] S_intersection_update by (simp add: the_arg_abs)
next
  case (S_symmetric_difference_update arg)
  then have "odd_abs o' arg = arg_abs o' arg" "arg_ok arg" using odd_abs_distinct assms(2) by simp_all
  then have "holds_set (so_type o') (set_xor (so_abs o') (arg_abs o' arg)) (set_symmetric_difference_update o' arg)"
    using apply_toggle [OF assms(1), of arg] by (simp add: set_symmetric_difference_update_def)
  then show ?thesis using s_done_spec set_spec.symmetric_difference_update [of "so_abs o'" arg] S_symmetric_difference_update
    by (simp add: the_arg_abs)
qed

lemma set_run_refines:
  assumes "so_ok o'" "list_all set_op_ok ops"
  shows "\<exists>p as. set_run ops o' = Some (p, as) \<and> so_ok p \<and> set_spec_run (so_abs o') ops (so_abs p) as"
  using assms
proof (induction ops arbitrary: o')
  case Nil
  then show ?case using run_nil by simp
next
  case (Cons op ops)
  obtain p a where p: "set_step op o' = Some (p, a)" "so_ok p" "set_spec (so_abs o') op (so_abs p) a"
    using set_step_refines [OF Cons.prems(1), of op] Cons.prems(2) by auto
  obtain q as where "set_run ops p = Some (q, as)" "so_ok q" "set_spec_run (so_abs p) ops (so_abs q) as"
    using Cons.IH [OF p(2)] Cons.prems(2) by auto
  then show ?case using p run_cons by auto
qed

section \<open>Operators on sets\<close>

text \<open>The set or the truth value that an operator stands for.\<close>

fun binop_spec :: "set_binop \<Rightarrow> 'a set \<Rightarrow> 'a set \<Rightarrow> 'a set + bool" where
  "binop_spec Binop_or A B = Inl (A \<union> B)"
| "binop_spec Binop_inplace_or A B = Inl (A \<union> B)"
| "binop_spec Binop_xor A B = Inl (set_xor A B)"
| "binop_spec Binop_inplace_xor A B = Inl (set_xor A B)"
| "binop_spec Binop_and A B = Inl (A \<inter> B)"
| "binop_spec Binop_inplace_and A B = Inl (A \<inter> B)"
| "binop_spec Binop_subtract A B = Inl (A - B)"
| "binop_spec Binop_inplace_subtract A B = Inl (A - B)"
| "binop_spec Binop_less A B = Inr (A \<subset> B)"
| "binop_spec Binop_more A B = Inr (B \<subset> A)"
| "binop_spec Binop_equal A B = Inr (A = B)"
| "binop_spec Binop_less_equal A B = Inr (A \<subseteq> B)"
| "binop_spec Binop_more_equal A B = Inr (B \<subseteq> A)"

definition inplace :: "set_binop \<Rightarrow> bool" where
  "inplace op = (op \<in> {Binop_inplace_or, Binop_inplace_xor, Binop_inplace_and, Binop_inplace_subtract})"

definition binop_type :: "set_binop \<Rightarrow> set_type \<Rightarrow> set_arg \<Rightarrow> set_type" where
  "binop_type op t rhs = (if op \<in> {Binop_and, Binop_inplace_and} \<and> rhs \<noteq> Same then Type_set else t)"

definition binop_result_ok :: "set_binop \<Rightarrow> mp_obj_set \<Rightarrow> set_arg \<Rightarrow> binop_result \<Rightarrow> bool" where
  "binop_result_ok op lhs rhs r =
     (case r of
        New p \<Rightarrow> \<not> (inplace op \<and> so_type lhs = Type_set) \<and> so_ok p \<and> so_type p = binop_type op (so_type lhs) rhs
          \<and> binop_spec op (so_abs lhs) (arg_abs lhs rhs) = Inl (so_abs p)
      | Changed p \<Rightarrow> inplace op \<and> so_type lhs = Type_set \<and> so_ok p \<and> so_type p = Type_set
          \<and> binop_spec op (so_abs lhs) (arg_abs lhs rhs) = Inl (so_abs p)
      | Answer b \<Rightarrow> binop_spec op (so_abs lhs) (arg_abs lhs rhs) = Inr b
      | Not_supported \<Rightarrow> False)"

lemma binop_ok:
  assumes "so_ok lhs" "arg_ok rhs" "is_set_or_frozenset rhs"
  shows "\<exists>v. set_binary_op op lhs rhs = Some v \<and> binop_result_ok op lhs rhs v"
proof -
  let ?A = "so_abs lhs" and ?B = "arg_abs lhs rhs"
  have odd: "odd_abs lhs rhs = ?B" using assms(3) by (cases rhs) (simp_all add: odd_abs_def)
  note defs = set_binary_op_def Let_def inplace_def binop_type_def holds_set_def binop_result_ok_def
  have new: ?thesis if "op \<in> {Binop_or, Binop_xor, Binop_subtract, Binop_and}"
  proof -
    have "holds_set (so_type lhs) (?A \<union> ?B) (set_union lhs rhs)" "holds_set (so_type lhs) (set_xor ?A ?B) (set_symmetric_difference lhs rhs)"
      "holds_set (so_type lhs) (?A - ?B) (set_diff lhs [rhs])"
      "holds_set (if rhs = Same then so_type lhs else Type_set) (?A \<inter> ?B) (set_intersect lhs rhs)"
      using union_correct [OF assms(1,2)] symmetric_difference_correct [OF assms(1,2)] diff_correct [OF assms(1), of "[rhs]" False]
        intersect_correct [OF assms(1,2), of False] assms(2) odd by (simp_all add: set_diff_def set_intersect_def)
    then show ?thesis using that assms(3) by (elim insertE emptyE) (auto simp: defs)
  qed
  have frozen: ?thesis if "inplace op" "so_type lhs = Type_frozenset"
  proof -
    have "holds_set Type_frozenset (?A \<union> ?B) (set_union lhs rhs)" "holds_set Type_frozenset (set_xor ?A ?B) (set_symmetric_difference lhs rhs)"
      "holds_set Type_frozenset (?A - ?B) (set_diff_int lhs [rhs] False)"
      "holds_set (if rhs = Same then so_type lhs else Type_set) (?A \<inter> ?B) (set_intersect_int lhs rhs False)"
      using union_correct [OF assms(1,2)] symmetric_difference_correct [OF assms(1,2)] diff_correct [OF assms(1), of "[rhs]" False]
        intersect_correct [OF assms(1,2), of False] assms(2) odd that(2) by simp_all
    then show ?thesis using that assms(3) unfolding inplace_def by (elim insertE emptyE) (auto simp: defs)
  qed
  have changed: ?thesis if "inplace op" "so_type lhs = Type_set"
  proof -
    have "holds_set Type_set (?A \<union> ?B) (set_update lhs [rhs])" "holds_set Type_set (set_xor ?A ?B) (set_symmetric_difference_update lhs rhs)"
      "holds_set Type_set (?A - ?B) (set_diff_int lhs [rhs] True)" "holds_set Type_set (?A \<inter> ?B) (set_intersect_int lhs rhs True)"
      using update_correct [OF assms(1), of "[rhs]"] apply_toggle [OF assms(1,2)] diff_correct [OF assms(1), of "[rhs]" True]
        intersect_correct [OF assms(1,2), of True] assms(2) odd that(2) by (simp_all add: set_symmetric_difference_update_def)
    then show ?thesis using that assms(3) unfolding inplace_def by (elim insertE emptyE) (auto simp: defs)
  qed
  have tests: ?thesis if "op \<in> {Binop_less, Binop_more, Binop_equal, Binop_less_equal, Binop_more_equal}"
    using that assms by (elim insertE emptyE) (simp_all add: defs subset_correct equal_correct)
  show ?thesis using new frozen changed tests by (cases op; cases "so_type lhs") (simp_all add: inplace_def)
qed

section \<open>Properties of sets\<close>

definition one_set :: "set_type \<Rightarrow> mp_obj_set" where
  "one_set t = \<lparr>so_type = t, so_set = \<lparr>s_used = 1, s_table = [Key (Small_int 1)]\<rparr>\<rparr>"

definition one_set' :: "set_type \<Rightarrow> mp_obj_set" where
  "one_set' t = \<lparr>so_type = t, so_set = \<lparr>s_used = 1, s_table = [Null, Key (Bool True)]\<rparr>\<rparr>"

lemma one_set_ok: "so_ok (one_set t)" "so_ok (one_set' t)"
proof -
  have "reached mp_obj_ops [Key (Small_int 1)] 0 (Small_int 1)"
    unfolding reached_def search_order_def probe_order_def hash_start_def by (intro exI [of _ "[]"] exI [of _ "[]"]) simp
  then show "so_ok (one_set t)"
    by (simp add: so_ok_def one_set_def set_inv_def table_inv_def set_items_def map_filter_simps)
  have "probe_order (hash_start mp_obj_ops (Bool True) (Suc (Suc 0))) (Suc (Suc 0)) = [] @ Suc 0 # [0]"
    by (simp add: probe_order_def hash_start_def upt_rec)
  then have "reached mp_obj_ops [Null, Key (Bool True)] (Suc 0) (Bool True)"
    unfolding reached_def search_order_def by - (rule exI [of _ "[]"], rule exI [of _ "[0]"], simp)
  then show "so_ok (one_set' t)"
    by (auto simp: so_ok_def one_set'_def set_inv_def table_inv_def set_items_def map_filter_simps less_Suc_eq)
qed

lemma one_set_abs: "so_abs (one_set t) = {Number 1}" "so_abs (one_set' t) = {Number 1}"
  by (simp_all add: so_abs_def set_abs_def set_items_def one_set_def one_set'_def map_filter_simps)

text \<open>C9: Any sequence of calls of the methods of a set (\<open>add\<close>, \<open>discard\<close>, \<open>remove\<close>, \<open>pop\<close>, \<open>clear\<close>,
  \<open>in\<close>, \<open>len\<close>, and the four update methods, whose arguments may be the set itself) returns, keeps the
  table invariant, and gives the replies and exceptions of a mathematical set of what the
  elements stand for. The elements are valid objects, and an iterable given to
  \<open>symmetric_difference_update\<close> has no repeated items: repeated ones are toggled once for each.\<close>

theorem set_refines_finite_set:
  assumes "so_ok o'" "list_all set_op_ok ops"
  shows "\<exists>p as. set_run ops o' = Some (p, as) \<and> so_ok p \<and> set_spec_run (so_abs o') ops (so_abs p) as"
  using set_run_refines [OF assms] .

inductive_cases set_spec_run_ConsE: "set_spec_run A (op # ops) C as"
inductive_cases set_spec_run_NilE: "set_spec_run A [] C as"
inductive_cases set_spec_addE: "set_spec A (S_add x) B a"
inductive_cases set_spec_lenE: "set_spec A S_len B a"
inductive_cases set_spec_toggleE: "set_spec A (S_symmetric_difference_update arg) B a"

lemmas set_spec_elims = set_spec_run_ConsE set_spec_run_NilE set_spec_addE set_spec_lenE set_spec_toggleE

theorem set_refines_finite_set_witness:
  "map_option snd (set_run [S_add (Bool True), S_add (Small_int 2), S_len, S_symmetric_difference_update Same, S_len] (one_set Type_set))
     = Some [S_none, S_none, S_count 2, S_none, S_count 0]"
proof -
  let ?ops = "[S_add (Bool True), S_add (Small_int 2), S_len, S_symmetric_difference_update Same, S_len]"
  obtain p as where p: "set_run ?ops (one_set Type_set) = Some (p, as)" "set_spec_run {Number 1} ?ops (so_abs p) as"
    using set_refines_finite_set [OF one_set_ok(1), of ?ops Type_set] unfolding one_set_abs by auto
  have "as = [S_none, S_none, S_count 2, S_none, S_count 0]"
    using p(2) by (elim set_spec_elims) (simp_all add: set_xor_def)
  then show ?thesis using p(1) by simp
qed

text \<open>C10: The binary operators on sets and frozen sets return, and compute union, symmetric
  difference, intersection, difference, inclusion and equality of the sets of what the elements stand
  for, also when both operands are the same object; the result keeps the table invariant.\<close>

theorem set_binary_op_correct:
  assumes "so_ok lhs" "arg_ok rhs" "is_set_or_frozenset rhs"
  shows "\<exists>v. set_binary_op op lhs rhs = Some v
    \<and> (case v of
         New p \<Rightarrow> so_ok p \<and> binop_spec op (so_abs lhs) (arg_abs lhs rhs) = Inl (so_abs p)
       | Changed p \<Rightarrow> so_ok p \<and> binop_spec op (so_abs lhs) (arg_abs lhs rhs) = Inl (so_abs p)
       | Answer b \<Rightarrow> binop_spec op (so_abs lhs) (arg_abs lhs rhs) = Inr b
       | Not_supported \<Rightarrow> False)"
  using binop_ok [OF assms, of op] by (auto simp: binop_result_ok_def split: binop_result.splits)

theorem set_binary_op_correct_witness:
  "set_binary_op Binop_equal (one_set Type_set) (Other (one_set' Type_frozenset)) = Some (Answer True)"
proof -
  let ?r = "set_binary_op Binop_equal (one_set Type_set) (Other (one_set' Type_frozenset))"
  obtain v where "?r = Some v" "case v of New p \<Rightarrow> False | Changed p \<Rightarrow> False | Answer b \<Rightarrow> b | Not_supported \<Rightarrow> False"
    using set_binary_op_correct [OF one_set_ok(1), of "Other (one_set' Type_frozenset)" Binop_equal Type_set] one_set_ok(2) [of Type_frozenset]
    by (auto simp: one_set_abs cong: binop_result.case_cong)
  then show ?thesis by (cases v) simp_all
qed

text \<open>C20: The types of the operators: an in-place operator changes its left operand only if that is a
  \<open>set\<close>, so a frozen set is never changed; a new object has the type of the left operand, except that
  the intersection of two different objects is always a \<open>set\<close>.\<close>

theorem set_binary_op_types:
  assumes "so_ok lhs" "arg_ok rhs" "is_set_or_frozenset rhs"
  shows "\<exists>v. set_binary_op op lhs rhs = Some v
    \<and> (case v of
         New p \<Rightarrow> \<not> (inplace op \<and> so_type lhs = Type_set)
           \<and> so_type p = (if op \<in> {Binop_and, Binop_inplace_and} \<and> rhs \<noteq> Same then Type_set else so_type lhs)
       | Changed p \<Rightarrow> inplace op \<and> so_type lhs = Type_set \<and> so_type p = Type_set
       | _ \<Rightarrow> True)"
  using binop_ok [OF assms, of op] by (auto simp: binop_result_ok_def binop_type_def split: binop_result.splits)

theorem set_binary_op_types_witness:
  "\<exists>p. set_binary_op Binop_inplace_and (one_set Type_frozenset) (Other (one_set' Type_frozenset)) = Some (New p) \<and> so_type p = Type_set"
proof -
  let ?r = "set_binary_op Binop_inplace_and (one_set Type_frozenset) (Other (one_set' Type_frozenset))"
  obtain v where "?r = Some v" "case v of
      New p \<Rightarrow> (inplace Binop_inplace_and \<longrightarrow> so_type (one_set Type_frozenset) \<noteq> Type_set) \<and> so_type p = Type_set
    | Changed p \<Rightarrow> inplace Binop_inplace_and \<and> so_type (one_set Type_frozenset) = Type_set \<and> so_type p = Type_set | _ \<Rightarrow> True"
    using set_binary_op_types [OF one_set_ok(1), of "Other (one_set' Type_frozenset)" Binop_inplace_and Type_frozenset] one_set_ok(2) [of Type_frozenset]
    by (auto cong: binop_result.case_cong)
  moreover obtain q where "?r = map_option New q" by (auto simp: set_binary_op_def one_set_def)
  ultimately show ?thesis by (cases v) auto
qed

text \<open>C21: Frozen sets that are equal have equal hashes, whatever the layout of their tables and the
  representation of their elements.\<close>

theorem frozenset_hash_equal:
  assumes "so_ok a" "so_ok b" "so_type a = Type_frozenset" "so_type b = Type_frozenset"
    and "set_equal a (Other b) = Some True"
  shows "\<exists>h. set_hash start a = Some h \<and> set_hash start b = Some h"
  using hash_correct [OF assms(1,3)] hash_correct [OF assms(2,4)] equal_correct [of a "Other b"] assms(1,2,5) by simp

theorem frozenset_hash_equal_witness:
  "set_hash 0x3F40A5C8 (one_set Type_frozenset) = set_hash 0x3F40A5C8 (one_set' Type_frozenset)"
  using frozenset_hash_equal [OF one_set_ok(1) one_set_ok(2), of Type_frozenset Type_frozenset "0x3F40A5C8"]
    equal_correct [OF one_set_ok(1), of "Other (one_set' Type_frozenset)" Type_frozenset] one_set_ok(2) one_set_abs
  by (simp add: one_set_def one_set'_def) auto

text \<open>C36: The symmetric difference with an iterable that gives an element twice leaves the element as it
  was: a repeated item is toggled twice instead of once.\<close>

theorem symmetric_difference_repeated_item:
  assumes "so_ok o'" "mp_obj_valid x" "denote x \<notin> so_abs o'"
  shows "\<exists>p q. set_symmetric_difference o' (Iterable [x]) = Some p \<and> denote x \<in> so_abs p
    \<and> set_symmetric_difference o' (Iterable [x, x]) = Some q \<and> denote x \<notin> so_abs q"
  using symmetric_difference_correct [OF assms(1), of "Iterable [x]"] symmetric_difference_correct [OF assms(1), of "Iterable [x, x]"] assms(2,3)
  by (auto simp: holds_set_def set_xor_def odd_abs_def)

theorem symmetric_difference_repeated_item_witness:
  "\<exists>p q. set_symmetric_difference (one_set Type_set) (Iterable [Qstr []]) = Some p \<and> Text [] \<in> so_abs p
    \<and> set_symmetric_difference (one_set Type_set) (Iterable [Qstr [], Qstr []]) = Some q \<and> Text [] \<notin> so_abs q"
  using symmetric_difference_repeated_item [OF one_set_ok(1), of "Qstr []" Type_set] by (simp add: one_set_abs)

end
