(* ===== verification/Mp_Int.thy ===== *)
theory Mp_Int
  imports Mp_Obj Mpz_Div "HOL-Library.Signed_Division"
begin

text \<open>
  The integers of the language: small integers of 31 bits inside the object word, big integers on the
  heap, and booleans. The theory models the arithmetic of small integers (\<open>src/py/smallint.c\<close>), the
  integer cases of \<open>mp_unary_op\<close> and \<open>mp_binary_op\<close> (\<open>src/py/runtime.c\<close>), the operations on big integers
  (\<open>src/py/objint_mpz.c\<close>) and the conversions between the representations. Machine integers are
  values of \<open>int\<close> with the wrap-around written out. The in-place operators take the same branches as the
  others. A result that is a float is \<open>To_float\<close>: of the float arithmetic the theory has the conversion from
  integers, on which the exception of a negative power depends.
\<close>

section \<open>Small integers\<close>

text \<open>An integer kept in a machine word, and in the object word above the tag bit.\<close>

abbreviation mp_int :: "int \<Rightarrow> int" where
  "mp_int \<equiv> signed_take_bit 31"

definition MP_OBJ_NEW_SMALL_INT :: "int \<Rightarrow> mp_obj" where
  "MP_OBJ_NEW_SMALL_INT i = Small_int (signed_take_bit 30 i)"

abbreviation (input) MP_SMALL_INT_MIN :: int where
  "MP_SMALL_INT_MIN \<equiv> - 1073741824"

abbreviation (input) MP_SMALL_INT_MAX :: int where
  "MP_SMALL_INT_MAX \<equiv> 1073741823"

definition MP_SMALL_INT_FITS :: "int \<Rightarrow> bool" where
  "MP_SMALL_INT_FITS n = ((let w = word_of_int n :: mp_uint_t in (w XOR push_bit 1 w) AND 0x80000000) = 0)"

definition mp_small_int_mul_overflow :: "int \<Rightarrow> int \<Rightarrow> bool" where
  "mp_small_int_mul_overflow x y =
     (if x > 0 then
        if y > 0 then x > MP_SMALL_INT_MAX sdiv y
        else y < MP_SMALL_INT_MIN sdiv x
      else
        if y > 0 then x < MP_SMALL_INT_MIN sdiv y
        else x \<noteq> 0 \<and> y < MP_SMALL_INT_MAX sdiv x)"

definition mp_small_int_modulo :: "int \<Rightarrow> int \<Rightarrow> int" where
  "mp_small_int_modulo dividend divisor =
     (let dividend = dividend smod divisor
      in if dividend < 0 \<and> divisor > 0 \<or> dividend > 0 \<and> divisor < 0 then mp_int (dividend + divisor) else dividend)"

definition mp_small_int_floor_divide :: "int \<Rightarrow> int \<Rightarrow> int" where
  "mp_small_int_floor_divide num denom =
     (let num = (if num \<ge> 0 then if denom < 0 then mp_int (num + (- denom - 1)) else num
                 else if denom \<ge> 0 then mp_int (num + (- denom + 1)) else num)
      in mp_int (num sdiv denom))"

section \<open>New integers\<close>

text \<open>
  New objects take the addresses from \<open>fresh\<close> on; \<open>jk\<close> is what a new buffer holds. \<open>None\<close> is an access out
  of bounds or not returning.
\<close>

definition mp_obj_new_int_from_ll :: "junk \<Rightarrow> nat \<Rightarrow> u64 \<Rightarrow> mp_obj option" where
  "mp_obj_new_int_from_ll jk fresh val = map_option (Big_int fresh) (mpz_set_from_ll jk val True mpz_init_zero)"

definition mp_obj_new_int_from_ull :: "junk \<Rightarrow> nat \<Rightarrow> u64 \<Rightarrow> mp_obj option" where
  "mp_obj_new_int_from_ull jk fresh val = map_option (Big_int fresh) (mpz_set_from_ll jk val False mpz_init_zero)"

definition mp_obj_new_int :: "junk \<Rightarrow> nat \<Rightarrow> int \<Rightarrow> mp_obj option" where
  "mp_obj_new_int jk fresh value =
     (if MP_SMALL_INT_FITS value then Some (MP_OBJ_NEW_SMALL_INT value)
      else mp_obj_new_int_from_ll jk fresh (word_of_int value))"

definition mp_obj_new_int_from_uint :: "junk \<Rightarrow> nat \<Rightarrow> mp_uint_t \<Rightarrow> mp_obj option" where
  "mp_obj_new_int_from_uint jk fresh value =
     (if value AND NOT 0x3FFFFFFF = 0 then Some (MP_OBJ_NEW_SMALL_INT (uint value))
      else mp_obj_new_int_from_ull jk fresh (ucast value))"

definition mp_obj_new_int_from_str_len :: "junk \<Rightarrow> nat \<Rightarrow> u8 list \<Rightarrow> bool \<Rightarrow> u32 \<Rightarrow> (mp_obj \<times> nat) option" where
  "mp_obj_new_int_from_str_len jk fresh str neg base =
     map_option (\<lambda>(z, n). (Big_int fresh z, n)) (mpz_set_from_str jk str neg base mpz_init_zero)"

text \<open>Reading a machine word; \<open>Inl ()\<close> is \<open>OverflowError\<close>.\<close>

fun mp_obj_int_get_truncated :: "mp_obj \<Rightarrow> mp_uint_t" where
  "mp_obj_int_get_truncated (Big_int a z) = mpz_hash z"
| "mp_obj_int_get_truncated (Small_int i) = word_of_int i"
| "mp_obj_int_get_truncated _ = 0"

fun mp_obj_int_get_checked :: "mp_obj \<Rightarrow> unit + int" where
  "mp_obj_int_get_checked (Big_int a z) = (case mpz_as_int_checked z of Some v \<Rightarrow> Inr (sint v) | None \<Rightarrow> Inl ())"
| "mp_obj_int_get_checked (Small_int i) = Inr i"
| "mp_obj_int_get_checked _ = Inl ()"

fun mp_obj_int_sign :: "mp_obj \<Rightarrow> int" where
  "mp_obj_int_sign (Small_int val) = (if val < 0 then -1 else if val > 0 then 1 else 0)"
| "mp_obj_int_sign (Big_int a z) = (if z_len z = 0 then 0 else if \<not> z_neg z then 1 else -1)"
| "mp_obj_int_sign _ = 0"

section \<open>Unary operators\<close>

datatype int_unop = Op_bool | Op_positive | Op_negative | Op_invert | Op_abs | Op_not

text \<open>A store with the destination and the operand, or the two operands, of an operation on big integers.\<close>

definition int_store :: "mpz \<Rightarrow> mpz \<Rightarrow> mpz_store" where
  "int_store l r = (\<lambda>_. mpz_init_zero)(Obj 1 := l, Obj 2 := r)"

text \<open>The new object, with the contents of the destination.\<close>

definition int_dest :: "nat \<Rightarrow> mpz_store option \<Rightarrow> mp_obj option" where
  "int_dest fresh st = map_option (\<lambda>st. Big_int fresh (st (Obj 0))) st"

definition mp_obj_int_unary_op :: "junk \<Rightarrow> nat \<Rightarrow> int_unop \<Rightarrow> nat \<Rightarrow> mpz \<Rightarrow> mp_obj option" where
  "mp_obj_int_unary_op jk fresh op a z =
     (case op of
        Op_bool \<Rightarrow> Some (Bool (\<not> mpz_is_zero z))
      | Op_positive \<Rightarrow> Some (Big_int a z)
      | Op_negative \<Rightarrow> int_dest fresh (mpz_neg_inpl jk (Obj 0) (Obj 1) (int_store z z))
      | Op_invert \<Rightarrow> int_dest fresh (mpz_not_inpl jk (Obj 0) (Obj 1) (int_store z z))
      | Op_abs \<Rightarrow>
          if \<not> z_neg z then Some (Big_int a z)
          else int_dest fresh (mpz_abs_inpl jk (Obj 0) (Obj 1) (int_store z z))
      | Op_not \<Rightarrow> None)"

text \<open>\<open>mp_obj_is_true\<close> on integers.\<close>

fun mp_obj_is_true :: "mp_obj \<Rightarrow> bool" where
  "mp_obj_is_true (Bool b) = b"
| "mp_obj_is_true (Small_int i) = (i \<noteq> 0)"
| "mp_obj_is_true (Big_int a z) = (\<not> mpz_is_zero z)"
| "mp_obj_is_true _ = True"

definition small_int_unary_op :: "junk \<Rightarrow> nat \<Rightarrow> int_unop \<Rightarrow> int \<Rightarrow> mp_obj option" where
  "small_int_unary_op jk fresh op val =
     (case op of
        Op_bool \<Rightarrow> Some (Bool (val \<noteq> 0))
      | Op_positive \<Rightarrow> Some (Small_int val)
      | Op_negative \<Rightarrow>
          if val = MP_SMALL_INT_MIN then mp_obj_new_int jk fresh (- val) else Some (MP_OBJ_NEW_SMALL_INT (- val))
      | Op_abs \<Rightarrow>
          if val \<ge> 0 then Some (Small_int val)
          else if val = MP_SMALL_INT_MIN then mp_obj_new_int jk fresh (- val) else Some (MP_OBJ_NEW_SMALL_INT (- val))
      | Op_invert \<Rightarrow> Some (MP_OBJ_NEW_SMALL_INT (NOT val))
      | Op_not \<Rightarrow> None)"

definition mp_unary_op :: "junk \<Rightarrow> nat \<Rightarrow> int_unop \<Rightarrow> mp_obj \<Rightarrow> mp_obj option" where
  "mp_unary_op jk fresh op arg =
     (if op = Op_not then Some (Bool (\<not> mp_obj_is_true arg))
      else case arg of
          Small_int val \<Rightarrow> small_int_unary_op jk fresh op val
        | Big_int a z \<Rightarrow> mp_obj_int_unary_op jk fresh op a z
        | Bool b \<Rightarrow> small_int_unary_op jk fresh op (of_bool b)
        | _ \<Rightarrow> None)"

section \<open>Binary operators\<close>

datatype int_op =
    Op_or | Op_xor | Op_and | Op_lshift | Op_rshift | Op_add | Op_subtract | Op_multiply | Op_floor_divide | Op_modulo
  | Op_true_divide | Op_power | Op_divmod | Op_less | Op_more | Op_less_equal | Op_more_equal | Op_equal | Op_not_equal

datatype int_error = ZeroDivisionError | Negative_shift | OverflowError

datatype int_value = Whole mp_obj | Truth bool | Two mp_obj mp_obj | To_float

text \<open>
  The single precision floats that integers are converted to: the whole numbers of at most 24
  significant bits, and the infinities beyond \<open>2 ^ 128\<close>. A whole number is rounded to the nearest of
  them, and to the even one of two.
\<close>

datatype mp_float = Finite int | Infinite bool

fun single_shift :: "nat \<Rightarrow> nat" where
  "single_shift n = (if n < 2 ^ 24 then 0 else Suc (single_shift (n div 2)))"

declare single_shift.simps [simp del]

definition round_single :: "nat \<Rightarrow> nat option" where
  "round_single n =
     (let u = 2 ^ single_shift n; q = n div u; r = n mod u;
          q = (if 2 * r > u \<or> 2 * r = u \<and> odd q then q + 1 else q)
      in if q * u < 2 ^ 128 then Some (q * u) else None)"

definition signed_float :: "bool \<Rightarrow> nat option \<Rightarrow> mp_float" where
  "signed_float neg v = (case v of None \<Rightarrow> Infinite neg | Some n \<Rightarrow> Finite (if neg then - int n else int n))"

definition float_of_int :: "int \<Rightarrow> mp_float" where
  "float_of_int i = signed_float (i < 0) (round_single (nat \<bar>i\<bar>))"

text \<open>\<open>val = val * DIG_BASE + *d\<close>, from the highest digit on, with the product and the sum rounded.\<close>

definition mpz_as_float :: "mpz \<Rightarrow> mp_float" where
  "mpz_as_float i = signed_float (z_neg i)
     (fold (\<lambda>d val. Option.bind (Option.bind val (\<lambda>v. round_single (v * DIG_BASE))) (\<lambda>p. round_single (p + unat d)))
        (rev (z_digits i)) (Some 0))"

fun mp_obj_get_float_maybe :: "mp_obj \<Rightarrow> mp_float option" where
  "mp_obj_get_float_maybe (Bool b) = Some (Finite (of_bool b))"
| "mp_obj_get_float_maybe (Small_int i) = Some (float_of_int i)"
| "mp_obj_get_float_maybe (Big_int a z) = Some (mpz_as_float z)"
| "mp_obj_get_float_maybe _ = None"

fun isinf :: "mp_float \<Rightarrow> bool" where
  "isinf (Finite i) = False"
| "isinf (Infinite neg) = True"

fun float_less_zero :: "mp_float \<Rightarrow> bool" where
  "float_less_zero (Finite i) = (i < 0)"
| "float_less_zero (Infinite neg) = neg"

text \<open>The power of \<open>mp_obj_float_binary_op\<close> on whole numbers, for which the test for a complex result fails.\<close>

definition float_power :: "mp_float \<Rightarrow> mp_float \<Rightarrow> int_error + int_value" where
  "float_power lhs_val rhs_val =
     (if lhs_val = Finite 0 \<and> float_less_zero rhs_val \<and> \<not> isinf rhs_val then Inl ZeroDivisionError else Inr To_float)"

type_synonym int_result = "(int_error + int_value) option"

abbreviation int_result :: "mp_obj option \<Rightarrow> int_result" where
  "int_result r \<equiv> map_option (\<lambda>v. Inr (Whole v)) r"

definition big_shift :: "junk \<Rightarrow> nat \<Rightarrow> int_op \<Rightarrow> mpz \<Rightarrow> mp_obj \<Rightarrow> mpz_ref \<Rightarrow> mpz_store \<Rightarrow> int_result" where
  "big_shift jk fresh op zl rhs r st =
     (case mp_obj_int_get_checked rhs of
        Inl _ \<Rightarrow> Some (Inl OverflowError)
      | Inr irhs \<Rightarrow>
          if irhs < 0 then Some (Inl Negative_shift)
          else if op = Op_lshift then int_result (int_dest fresh (mpz_shl_inpl jk (Obj 0) (Obj 1) (nat irhs) st))
          else int_result (int_dest fresh (mpz_shr_inpl jk (Obj 0) (Obj 1) (nat irhs) st)))"

definition big_compare :: "int_op \<Rightarrow> mpz \<Rightarrow> mpz \<Rightarrow> int_result" where
  "big_compare op zl zr =
     (let cmp = mpz_cmp zl zr
      in case op of
           Op_less \<Rightarrow> Some (Inr (Truth (cmp < 0)))
         | Op_more \<Rightarrow> Some (Inr (Truth (cmp > 0)))
         | Op_less_equal \<Rightarrow> Some (Inr (Truth (cmp \<le> 0)))
         | Op_more_equal \<Rightarrow> Some (Inr (Truth (cmp \<ge> 0)))
         | Op_equal \<Rightarrow> Some (Inr (Truth (cmp = 0)))
         | _ \<Rightarrow> None)"

text \<open>
  \<open>mp_obj_int_binary_op\<close> on the operands \<open>zl\<close> and \<open>zr\<close>. The destination is \<open>Obj 0\<close>, the operands are \<open>Obj 1\<close>
  and \<open>Obj 2\<close>, or both \<open>Obj 1\<close> when they are one object; \<open>Obj 3\<close> is the second result of a division.
\<close>

definition big_binary_op :: "junk \<Rightarrow> nat \<Rightarrow> int_op \<Rightarrow> bool \<Rightarrow> mpz \<Rightarrow> mpz \<Rightarrow> mp_obj \<Rightarrow> int_result" where
  "big_binary_op jk fresh op same zl zr rhs =
     (let st = int_store zl zr; l = Obj 1; r = (if same then Obj 1 else Obj 2)
      in case op of
           Op_true_divide \<Rightarrow> Some (if mpz_is_zero zr then Inl ZeroDivisionError else Inr To_float)
         | Op_add \<Rightarrow> int_result (int_dest fresh (mpz_add_inpl jk (Obj 0) l r st))
         | Op_subtract \<Rightarrow> int_result (int_dest fresh (mpz_sub_inpl jk (Obj 0) l r st))
         | Op_multiply \<Rightarrow> int_result (int_dest fresh (mpz_mul_inpl jk (Obj 0) l r st))
         | Op_floor_divide \<Rightarrow>
             if mpz_is_zero zr then Some (Inl ZeroDivisionError)
             else int_result (int_dest fresh (mpz_divmod_inpl jk (Obj 0) (Obj 3) l r st))
         | Op_modulo \<Rightarrow>
             if mpz_is_zero zr then Some (Inl ZeroDivisionError)
             else int_result (int_dest fresh (mpz_divmod_inpl jk (Obj 3) (Obj 0) l r st))
         | Op_and \<Rightarrow> int_result (int_dest fresh (mpz_and_inpl jk (Obj 0) l r st))
         | Op_or \<Rightarrow> int_result (int_dest fresh (mpz_or_inpl jk (Obj 0) l r st))
         | Op_xor \<Rightarrow> int_result (int_dest fresh (mpz_xor_inpl jk (Obj 0) l r st))
         | Op_lshift \<Rightarrow> big_shift jk fresh op zl rhs r st
         | Op_rshift \<Rightarrow> big_shift jk fresh op zl rhs r st
         | Op_power \<Rightarrow>
             if mpz_is_neg zr then map_option (float_power (mpz_as_float zl)) (mp_obj_get_float_maybe rhs)
             else int_result (int_dest fresh (mpz_pow_inpl jk (Obj 0) l r st))
         | Op_divmod \<Rightarrow>
             if mpz_is_zero zr then Some (Inl ZeroDivisionError)
             else map_option (\<lambda>st. Inr (Two (Big_int (fresh + 1) (st (Obj 3))) (Big_int fresh (st (Obj 0)))))
                    (mpz_divmod_inpl jk (Obj 3) (Obj 0) l r st)
         | _ \<Rightarrow> big_compare op zl zr)"

text \<open>The operands: a small integer goes into two digits on the stack.\<close>

fun int_operand :: "mp_obj \<Rightarrow> mpz option" where
  "int_operand (Small_int i) = small_int_mpz i"
| "int_operand (Big_int a z) = Some z"
| "int_operand _ = None"

fun same_object :: "mp_obj \<Rightarrow> mp_obj \<Rightarrow> bool" where
  "same_object (Big_int a z) (Big_int b y) = (a = b)"
| "same_object _ _ = False"

text \<open>A boolean on the right acts as a small integer.\<close>

definition mp_obj_int_binary_op :: "junk \<Rightarrow> nat \<Rightarrow> int_op \<Rightarrow> mp_obj \<Rightarrow> mp_obj \<Rightarrow> int_result" where
  "mp_obj_int_binary_op jk fresh op lhs rhs =
     Option.bind (int_operand lhs) (\<lambda>zl. Option.bind (int_operand rhs) (\<lambda>zr.
       big_binary_op jk fresh op (same_object lhs rhs) zl zr rhs))"

text \<open>The power of small integers, \<open>None\<close> when a product does not fit.\<close>

function small_int_power :: "int \<Rightarrow> int \<Rightarrow> int \<Rightarrow> int option" where
  "small_int_power ans lhs_val rhs_val =
     (if rhs_val > 0 then
        if odd rhs_val \<and> mp_small_int_mul_overflow ans lhs_val then None
        else let ans = (if odd rhs_val then mp_int (ans * lhs_val) else ans)
             in if rhs_val = 1 then Some ans
                else if mp_small_int_mul_overflow lhs_val lhs_val then None
                else small_int_power ans (mp_int (lhs_val * lhs_val)) (rhs_val sdiv 2)
      else Some ans)"
  by pat_completeness auto
termination
  by (relation "measure (\<lambda>(ans, l, r). nat r)") (auto simp: signed_divide_int_def)

declare small_int_power.simps [simp del]

text \<open>
  The switch on two small integers. \<open>Fits v\<close> leads to the check after the switch, \<open>Generic\<close> to the
  operation on big integers with \<open>lhs\<close> converted.
\<close>

datatype small_result = Fits int | Generic | Return "int_error + int_value"

definition small_int_binary_op :: "int_op \<Rightarrow> int \<Rightarrow> int \<Rightarrow> small_result" where
  "small_int_binary_op op lhs_val rhs_val =
     (case op of
        Op_or \<Rightarrow> Fits (lhs_val OR rhs_val)
      | Op_xor \<Rightarrow> Fits (lhs_val XOR rhs_val)
      | Op_and \<Rightarrow> Fits (lhs_val AND rhs_val)
      | Op_lshift \<Rightarrow>
          if rhs_val < 0 then Return (Inl Negative_shift)
          else if rhs_val \<ge> 32 \<or> lhs_val > drop_bit (nat rhs_val) MP_SMALL_INT_MAX \<or> lhs_val < drop_bit (nat rhs_val) MP_SMALL_INT_MIN
          then Generic
          else Fits (mp_int (push_bit (nat rhs_val) lhs_val))
      | Op_rshift \<Rightarrow>
          if rhs_val < 0 then Return (Inl Negative_shift)
          else Fits (drop_bit (nat (if rhs_val \<ge> 32 then 31 else rhs_val)) lhs_val)
      | Op_add \<Rightarrow> Fits (mp_int (lhs_val + rhs_val))
      | Op_subtract \<Rightarrow> Fits (mp_int (lhs_val - rhs_val))
      | Op_multiply \<Rightarrow>
          if mp_small_int_mul_overflow lhs_val rhs_val then Generic
          else Return (Inr (Whole (MP_OBJ_NEW_SMALL_INT (mp_int (lhs_val * rhs_val)))))
      | Op_floor_divide \<Rightarrow>
          if rhs_val = 0 then Return (Inl ZeroDivisionError) else Fits (mp_small_int_floor_divide lhs_val rhs_val)
      | Op_true_divide \<Rightarrow> Return (if rhs_val = 0 then Inl ZeroDivisionError else Inr To_float)
      | Op_modulo \<Rightarrow>
          if rhs_val = 0 then Return (Inl ZeroDivisionError) else Fits (mp_small_int_modulo lhs_val rhs_val)
      | Op_power \<Rightarrow>
          if rhs_val < 0 then Return (float_power (float_of_int lhs_val) (float_of_int rhs_val))
          else (case small_int_power 1 lhs_val rhs_val of None \<Rightarrow> Generic | Some ans \<Rightarrow> Fits ans)
      | Op_divmod \<Rightarrow>
          Return (if rhs_val = 0 then Inl ZeroDivisionError
                  else Inr (Two (MP_OBJ_NEW_SMALL_INT (mp_small_int_floor_divide lhs_val rhs_val))
                                (MP_OBJ_NEW_SMALL_INT (mp_small_int_modulo lhs_val rhs_val))))
      | Op_less \<Rightarrow> Return (Inr (Truth (lhs_val < rhs_val)))
      | Op_more \<Rightarrow> Return (Inr (Truth (lhs_val > rhs_val)))
      | Op_less_equal \<Rightarrow> Return (Inr (Truth (lhs_val \<le> rhs_val)))
      | Op_more_equal \<Rightarrow> Return (Inr (Truth (lhs_val \<ge> rhs_val)))
      | Op_equal \<Rightarrow> Return (Inr (Truth (lhs_val = rhs_val)))
      | Op_not_equal \<Rightarrow> Return (Inr (Truth (lhs_val \<noteq> rhs_val))))"

text \<open>A boolean operand, by \<open>bool_binary_op\<close> and \<open>mp_obj_int_binary_op_extra_cases\<close>.\<close>

fun bool_as_int :: "mp_obj \<Rightarrow> mp_obj" where
  "bool_as_int (Bool b) = Small_int (of_bool b)"
| "bool_as_int x = x"

text \<open>\<open>mp_binary_op\<close> on integers.\<close>

definition mp_binary_op :: "junk \<Rightarrow> nat \<Rightarrow> int_op \<Rightarrow> mp_obj \<Rightarrow> mp_obj \<Rightarrow> int_result" where
  "mp_binary_op jk fresh op lhs rhs =
     (if op = Op_equal then Some (Inr (Truth (mp_obj_equal lhs rhs)))
      else if op = Op_not_equal then Some (Inr (Truth (\<not> mp_obj_equal lhs rhs)))
      else case (bool_as_int lhs, bool_as_int rhs) of
          (Small_int i, Small_int j) \<Rightarrow>
            (case small_int_binary_op op i j of
               Return v \<Rightarrow> Some v
             | Fits v \<Rightarrow> int_result (mp_obj_new_int jk fresh v)
             | Generic \<Rightarrow>
                 Option.bind (mp_obj_new_int_from_ll jk (fresh + 2) (word_of_int i)) (\<lambda>lhs.
                   mp_obj_int_binary_op jk fresh op lhs (Small_int j)))
        | (l, r) \<Rightarrow> mp_obj_int_binary_op jk fresh op l r)"

section \<open>Small integers are exact\<close>

definition small :: "int \<Rightarrow> bool" where
  "small i \<longleftrightarrow> - 1073741824 \<le> i \<and> i \<le> 1073741823"

definition word_sized :: "int \<Rightarrow> bool" where
  "word_sized i \<longleftrightarrow> - 2147483648 \<le> i \<and> i \<le> 2147483647"

lemma mp_int_id: "word_sized i \<Longrightarrow> mp_int i = i"
  by (simp add: signed_take_bit_int_eq_self_iff word_sized_def)

lemma NEW_SMALL_INT_id: "small i \<Longrightarrow> MP_OBJ_NEW_SMALL_INT i = Small_int i"
  by (simp add: signed_take_bit_int_eq_self_iff small_def MP_OBJ_NEW_SMALL_INT_def)

lemma small_word_sized: "small i \<Longrightarrow> word_sized i"
  by (simp add: small_def word_sized_def)

lemma FITS_iff:
  assumes "word_sized n"
  shows "MP_SMALL_INT_FITS n \<longleftrightarrow> small n"
proof -
  have "(w XOR push_bit 1 w) AND 0x80000000 = 0 \<longleftrightarrow> bit w 31 = bit w 30" for w :: mp_uint_t
  proof -
    have "(0x80000000 :: mp_uint_t) = 2 ^ 31" by simp
    then show ?thesis by (simp only: and_exp_eq_0_iff_not_bit bit_xor_iff bit_push_bit_iff) simp
  qed
  then have "MP_SMALL_INT_FITS n \<longleftrightarrow> bit n 31 = bit n 30" by (simp add: MP_SMALL_INT_FITS_def Let_def bit_word_of_int_iff)
  moreover have "bit n 31 \<longleftrightarrow> n < 0"
  proof -
    have "n div 2147483648 = (if n < 0 then -1 else 0)" using assms unfolding word_sized_def by (auto simp: int_div_pos_eq)
    then show ?thesis by (simp add: bit_iff_odd)
  qed
  moreover have "bit n 30 \<longleftrightarrow> n < - 1073741824 \<and> False \<or> - 1073741824 \<le> n \<and> n < 0 \<or> 1073741824 \<le> n"
  proof -
    have "n div 1073741824 = (if n < - 1073741824 then -2 else if n < 0 then -1 else if n < 1073741824 then 0 else 1)"
      using assms unfolding word_sized_def by (auto simp: int_div_pos_eq)
    then show ?thesis by (simp add: bit_iff_odd)
  qed
  ultimately show ?thesis using assms by (auto simp: small_def word_sized_def)
qed

lemma div_less_iff:
  fixes m :: int
  assumes "0 < b"
  shows "m div b < x \<longleftrightarrow> m < x * b"
proof
  assume "m div b < x"
  then have "(m div b + 1) * b \<le> x * b" using assms by (intro mult_right_mono) simp_all
  moreover have "(m div b + 1) * b = m div b * b + b" by (simp add: distrib_right)
  moreover have "m < m div b * b + b" using div_mult_mod_eq [of m b] pos_mod_bound [OF assms, of m] by linarith
  ultimately show "m < x * b" by simp
next
  assume "m < x * b"
  moreover have "m div b * b \<le> m" using div_mult_mod_eq [of m b] pos_mod_sign [OF assms, of m] by linarith
  ultimately have "m div b * b < x * b" by simp
  then show "m div b < x" using assms by simp
qed

lemma mul_overflow_iff: "mp_small_int_mul_overflow x y \<longleftrightarrow> \<not> small (x * y)"
proof -
  consider (pp) "x > 0" "y > 0" | (pn) "x > 0" "y \<le> 0" | (np) "x \<le> 0" "y > 0" | (zero) "x = 0" "y \<le> 0" | (nn) "x < 0" "y \<le> 0"
    by linarith
  then show ?thesis
  proof cases
    case pp
    then have "- 1073741824 \<le> x * y" using mult_pos_pos [of x y] by linarith
    moreover have "MP_SMALL_INT_MAX div y < x \<longleftrightarrow> MP_SMALL_INT_MAX < x * y" by (rule div_less_iff [OF pp(2)])
    ultimately show ?thesis using pp by (simp add: mp_small_int_mul_overflow_def signed_divide_int_def small_def) linarith
  next
    case pn
    then have "x * y \<le> 0" by (simp add: mult_nonneg_nonpos)
    moreover have "1073741824 div x < - y \<longleftrightarrow> 1073741824 < - y * x" by (rule div_less_iff [OF pn(1)])
    ultimately show ?thesis using pn by (simp add: mp_small_int_mul_overflow_def signed_divide_int_def small_def mult.commute) linarith
  next
    case np
    then have "x * y \<le> 0" by (simp add: mult_nonpos_nonneg)
    moreover have "1073741824 div y < - x \<longleftrightarrow> 1073741824 < - x * y" by (rule div_less_iff [OF np(2)])
    ultimately show ?thesis using np by (simp add: mp_small_int_mul_overflow_def signed_divide_int_def small_def) linarith
  next
    case zero
    then show ?thesis by (simp add: mp_small_int_mul_overflow_def small_def)
  next
    case nn
    then have "0 \<le> x * y" by (simp add: mult_nonpos_nonpos)
    moreover have "MP_SMALL_INT_MAX div (- x) < - y \<longleftrightarrow> MP_SMALL_INT_MAX < - y * (- x)" by (rule div_less_iff) (use nn in simp)
    ultimately show ?thesis using nn by (simp add: mp_small_int_mul_overflow_def signed_divide_int_def small_def mult.commute) linarith
  qed
qed

lemma ceil_div:
  fixes n :: int
  assumes "0 < e"
  shows "(n + e - 1) div e = - ((- n) div e)"
proof (rule int_div_pos_eq)
  show "n + e - 1 = e * - ((- n) div e) + (e - 1 - (- n) mod e)" 
    using mult_div_mod_eq [of e "- n"] by (simp add: algebra_simps)
  show "0 \<le> e - 1 - (- n) mod e" "e - 1 - (- n) mod e < e" using pos_mod_bound [OF assms, of "- n"] pos_mod_sign [OF assms, of "- n"] by simp_all
qed

lemma sdiv_cases:
  fixes a :: int
  shows "0 \<le> a \<Longrightarrow> 0 < b \<Longrightarrow> a sdiv b = a div b" "0 \<le> a \<Longrightarrow> b < 0 \<Longrightarrow> a sdiv b = - (a div (- b))"
    "a \<le> 0 \<Longrightarrow> 0 < b \<Longrightarrow> a sdiv b = - ((- a) div b)" "a \<le> 0 \<Longrightarrow> b < 0 \<Longrightarrow> a sdiv b = (- a) div (- b)"
  by (auto simp: signed_divide_int_def sgn_if)

lemma div_bounds:
  fixes a :: int
  assumes "0 \<le> a" "0 < b"
  shows "0 \<le> a div b" "a div b \<le> a"
proof -
  have "a + 1 \<le> (a + 1) * b" using assms mult_left_mono [of 1 b "a + 1"] by simp
  then have "a div b < a + 1" using div_less_iff [OF assms(2), of a "a + 1"] by simp
  then show "a div b \<le> a" by simp
qed (use assms in \<open>simp add: pos_imp_zdiv_nonneg_iff\<close>)

lemma floor_divide_exact:
  assumes "small n" "small d" "d \<noteq> 0"
  shows "mp_small_int_floor_divide n d = n div d \<and> word_sized (n div d)"
proof -
  consider (pp) "0 \<le> n" "0 < d" | (pn) "0 \<le> n" "d < 0" | (np) "n < 0" "0 < d" | (nn) "n < 0" "d < 0" using assms(3) by linarith
  then show ?thesis
  proof cases
    case pp
    then have "word_sized (n div d)" using div_bounds [OF pp] assms(1) by (simp add: word_sized_def small_def)
    then show ?thesis using pp by (simp add: mp_small_int_floor_divide_def signed_divide_int_def mp_int_id sgn_if)
  next
    case pn
    have "n div d = (- n) div (- d)" by simp
    also have "\<dots> = - ((n + - d - 1) div (- d))" using ceil_div [of "- d" n] pn by simp
    finally have q: "- ((n - d - 1) div (- d)) = n div d" by simp
    have b: "0 \<le> (n - d - 1) div (- d)" "(n - d - 1) div (- d) \<le> n - d - 1" using div_bounds [of "n - d - 1" "- d"] pn by simp_all
    then have "word_sized (n div d)" using q assms(1,2) pn unfolding word_sized_def small_def by linarith
    moreover have "word_sized (n + (- d - 1))" using assms(1,2) pn unfolding word_sized_def small_def by linarith
    ultimately have "mp_small_int_floor_divide n d = mp_int ((n + (- d - 1)) sdiv d)"
      using pn by (simp add: mp_small_int_floor_divide_def mp_int_id)
    moreover have "n + (- d - 1) = n - d - 1" by simp
    ultimately show ?thesis using \<open>word_sized (n div d)\<close> sdiv_cases(2) [of "n - d - 1" d] pn q by (simp add: mp_int_id)
  next
    case np
    have q: "- ((- n + d - 1) div d) = n div d" using ceil_div [of d "- n"] np by simp
    have b: "0 \<le> (- n + d - 1) div d" "(- n + d - 1) div d \<le> - n + d - 1" using div_bounds [of "- n + d - 1" d] np by simp_all
    then have "word_sized (n div d)" using q assms(1,2) np unfolding word_sized_def small_def by linarith
    moreover have "word_sized (n + (- d + 1))" using assms(1,2) np unfolding word_sized_def small_def by linarith
    ultimately have "mp_small_int_floor_divide n d = mp_int ((n + (- d + 1)) sdiv d)"
      using np by (simp add: mp_small_int_floor_divide_def mp_int_id)
    moreover have "- (n + (- d + 1)) = - n + d - 1" by simp
    ultimately show ?thesis using \<open>word_sized (n div d)\<close> sdiv_cases(3) [of "n + (- d + 1)" d] np q by (simp only: mp_int_id)
  next
    case nn
    have b: "0 \<le> n div d" "n div d \<le> - n" using div_bounds [of "- n" "- d"] nn by simp_all
    then have "word_sized (n div d)" using assms(1) unfolding word_sized_def small_def by linarith
    then show ?thesis using nn by (simp add: mp_small_int_floor_divide_def signed_divide_int_def mp_int_id sgn_if Let_def)
  qed
qed

lemma smod_cases:
  fixes n :: int
  assumes "d \<noteq> 0"
  shows "0 \<le> n \<Longrightarrow> n smod d = n mod \<bar>d\<bar>" "n \<le> 0 \<Longrightarrow> n smod d = - ((- n) mod \<bar>d\<bar>)"
  by (auto simp: signed_modulo_int_def sgn_if)

lemma modulo_exact:
  assumes "small n" "small d" "d \<noteq> 0"
  shows "mp_small_int_modulo n d = n mod d \<and> small (n mod d)"
proof -
  have s: "small (n mod d)"
    using pos_mod_bound [of d n] pos_mod_sign [of d n] neg_mod_bound [of d n] neg_mod_sign [of d n] assms(2,3) unfolding small_def by linarith
  have ws: "mp_int (n mod d) = n mod d" using mp_int_id [OF small_word_sized [OF s]] .
  consider (pp) "0 \<le> n" "0 < d" | (pn) "0 \<le> n" "d < 0" | (np) "n \<le> 0" "0 < d" | (nn) "n \<le> 0" "d < 0" using assms(3) by linarith
  then have "mp_small_int_modulo n d = n mod d"
  proof cases
    case pp
    then show ?thesis using smod_cases(1) [OF assms(3) pp(1)] pos_mod_sign [OF pp(2), of n]
      by (simp add: mp_small_int_modulo_def Let_def del: pos_mod_sign)
  next
    case pn
    obtain r where r: "r = n mod (- d)" "0 \<le> r" using pos_mod_sign [of "- d" n] pn by simp
    have m: "n mod d = (if r = 0 then 0 else r + d)" using zmod_zminus2_eq_if [of n "- d"] r(1) by simp
    have "n smod d = r" using smod_cases(1) [OF assms(3) pn(1)] pn r(1) by simp
    then show ?thesis using pn r(2) ws m by (cases "r = 0") (simp_all add: mp_small_int_modulo_def Let_def)
  next
    case np
    obtain r where r: "r = (- n) mod d" "0 \<le> r" using pos_mod_sign [of d "- n"] np by simp
    have m: "n mod d = (if r = 0 then 0 else d - r)" using zmod_zminus1_eq_if [of "- n" d] r(1) by simp
    have "n smod d = - r" using smod_cases(2) [OF assms(3) np(1)] np r(1) by simp
    then show ?thesis using np r(2) ws m by (cases "r = 0") (simp_all add: mp_small_int_modulo_def Let_def)
  next
    case nn
    obtain r where r: "r = (- n) mod (- d)" "0 \<le> r" using pos_mod_sign [of "- d" "- n"] nn by simp
    have "n mod d = - r" using r(1) by simp
    moreover have "n smod d = - r" using smod_cases(2) [OF assms(3) nn(1)] nn r(1) by simp
    ultimately show ?thesis using nn r(2) by (simp add: mp_small_int_modulo_def Let_def)
  qed
  then show ?thesis using s by simp
qed

lemma small_int_power_unfold:
  assumes "0 < r"
  shows "small_int_power ans l r =
    (if odd r \<and> \<not> small (ans * l) then None
     else if r = 1 then Some (ans * l)
     else if \<not> small (l * l) then None
     else small_int_power (if odd r then ans * l else ans) (l * l) (r div 2))"
proof -
  have "r sdiv 2 = r div 2" using assms by (simp add: sdiv_cases(1))
  moreover have "mp_int (x * y) = x * y" if "small (x * y)" for x y using that by (simp add: mp_int_id small_word_sized)
  ultimately show ?thesis using assms by (subst small_int_power.simps) (simp add: mul_overflow_iff Let_def)
qed

lemma small_int_power_exact:
  assumes "small ans" "small l" "0 \<le> r" "small_int_power ans l r = Some v"
  shows "v = ans * l ^ nat r \<and> small v"
  using assms
proof (induction "nat r" arbitrary: ans l r rule: less_induct)
  case less
  show ?case
  proof (cases "r = 0 \<or> r = 1")
    case True
    then show ?thesis using less.prems small_int_power.simps [of ans l 0] by (auto simp: small_int_power_unfold split: if_splits)
  next
    case False
    then have r: "1 < r" using less.prems(3) by linarith
    let ?ans = "if odd r then ans * l else ans"
    have u: "\<not> (odd r \<and> \<not> small (ans * l))" "small (l * l)" "small_int_power ?ans (l * l) (r div 2) = Some v"
      using less.prems(4) r by (auto simp: small_int_power_unfold [of r ans l] split: if_splits)
    have "small ?ans" using u(1) less.prems(1) by auto
    moreover have "nat (r div 2) < nat r" "0 \<le> r div 2" using r by simp_all
    ultimately have v: "v = ?ans * (l * l) ^ nat (r div 2)" "small v" using less.hyps [OF _ _ u(2) _ u(3)] by blast+
    have "nat r = 2 * nat (r div 2) + (if odd r then 1 else 0)"
      using r by (cases "odd r") (auto elim!: oddE evenE simp: nat_add_distrib nat_mult_distrib)
    then have "l ^ nat r = (if odd r then l else 1) * (l * l) ^ nat (r div 2)" by (simp add: power_add power_mult power2_eq_square)
    then have "ans * l ^ nat r = v" using v(1) by simp
    then show ?thesis using v(2) by simp
  qed
qed

section \<open>Integers as objects\<close>

fun int_ok :: "mp_obj \<Rightarrow> bool" where
  "int_ok (Small_int i) = small i"
| "int_ok (Bool b) = True"
| "int_ok (Big_int a z) = mpz_ok z"
| "int_ok _ = False"

fun int_val :: "mp_obj \<Rightarrow> int" where
  "int_val (Small_int i) = i"
| "int_val (Bool b) = of_bool b"
| "int_val (Big_int a z) = mpz_val z"
| "int_val _ = 0"

text \<open>No negative zero.\<close>

fun canonical :: "mp_obj \<Rightarrow> bool" where
  "canonical (Big_int a z) = mpz_canonical z"
| "canonical _ = True"

lemma int_ok_valid: "int_ok x \<Longrightarrow> mp_obj_valid x \<and> denote x = Number (int_val x)"
  by (cases x) (simp_all add: small_def)

lemma init_zero_growable [simp]: "mpz_growable mpz_init_zero"
  by (simp add: mpz_growable_def mpz_ok_def mpz_init_zero_def)

lemma nonzero_canonical: "mpz_ok z \<Longrightarrow> mpz_val z \<noteq> 0 \<Longrightarrow> mpz_canonical z"
  by (auto simp: mpz_canonical_def mpz_val_def sval_def)

lemma new_int_from_ll:
  assumes "word_sized v"
  shows "\<exists>z. mp_obj_new_int_from_ll jk fresh (word_of_int v) = Some (Big_int fresh z) \<and> mpz_ok z \<and> mpz_val z = v"
proof -
  have "sint (word_of_int v :: u64) = v" using assms by (simp add: signed_of_int signed_take_bit_int_eq_self_iff word_sized_def)
  then show ?thesis using mpz_set_from_ll_val [OF init_zero_growable, of jk "word_of_int v" True]
    by (auto simp: mp_obj_new_int_from_ll_def mpz_growable_def)
qed

lemma new_int:
  assumes "word_sized v"
  shows "\<exists>x. mp_obj_new_int jk fresh v = Some x \<and> int_ok x \<and> int_val x = v"
  using new_int_from_ll [OF assms, of jk fresh] FITS_iff [OF assms] NEW_SMALL_INT_id by (auto simp: mp_obj_new_int_def)

lemma new_int_from_uint: "\<exists>x. mp_obj_new_int_from_uint jk fresh w = Some x \<and> int_ok x \<and> int_val x = uint w"
proof (cases "w AND NOT 0x3FFFFFFF = 0")
  case True
  have "w = (w AND 0x3FFFFFFF) OR (w AND NOT 0x3FFFFFFF)" by (simp add: bit.conj_disj_distrib [symmetric])
  then have "w = w AND 0x3FFFFFFF" using True by simp
  then have "w \<le> 0x3FFFFFFF" by (metis word_and_le1)
  then have "small (uint w)" using order_trans [OF _ uint_ge_0 [of w], of "- 1073741824"] unfolding small_def by (simp add: word_le_def)
  then show ?thesis using True NEW_SMALL_INT_id by (auto simp: mp_obj_new_int_from_uint_def)
next
  case False
  then show ?thesis using mpz_set_from_ll_val [OF init_zero_growable, of jk "ucast w" False]
    by (auto simp: mp_obj_new_int_from_uint_def mp_obj_new_int_from_ull_def mpz_growable_def uint_up_ucast is_up)
qed

section \<open>Operations on big integers\<close>

lemma int_store_simps [simp]:
  "int_store l r (Obj 0) = mpz_init_zero" "int_store l r (Obj (Suc 0)) = l" "int_store l r (Obj 1) = l" "int_store l r (Obj 2) = r"
  "int_store l r (Obj 3) = mpz_init_zero"
  by (simp_all add: int_store_def)

text \<open>A result that is the integer \<open>v\<close>.\<close>

definition gives :: "int_result \<Rightarrow> int \<Rightarrow> bool" where
  "gives r v \<longleftrightarrow> (\<exists>x. r = Some (Inr (Whole x)) \<and> int_ok x \<and> int_val x = v)"

lemma int_dest_gives: "mpz_result st (Obj 0) v r \<Longrightarrow> gives (int_result (int_dest fresh r)) v"
  by (auto simp: mpz_result_def int_dest_def gives_def)

lemma divmod_gives:
  assumes "mpz_ok zl" "mpz_ok zr" "z_len zr \<noteq> 0" "z_len zr \<le> 2 \<or> mpn_div_tie_free (z_digits zl) (z_digits zr)" "same \<longrightarrow> zr = zl"
  defines "r \<equiv> if same then Obj 1 else Obj 2"
  shows "\<exists>st. mpz_divmod_inpl jk (Obj 0) (Obj 3) (Obj 1) r (int_store zl zr) = Some st
      \<and> mpz_ok (st (Obj 0)) \<and> mpz_val (st (Obj 0)) = mpz_val zl div mpz_val zr"
    "\<exists>st. mpz_divmod_inpl jk (Obj 3) (Obj 0) (Obj 1) r (int_store zl zr) = Some st
      \<and> mpz_ok (st (Obj 0)) \<and> mpz_val (st (Obj 0)) = mpz_val zl mod mpz_val zr
      \<and> mpz_ok (st (Obj 3)) \<and> mpz_val (st (Obj 3)) = mpz_val zl div mpz_val zr"
proof -
  have st: "int_store zl zr r = zr" using assms(5) by (simp add: r_def)
  have sgn: "\<not> z_neg mpz_init_zero" by (simp add: mpz_init_zero_def)
  have a: "divmod_args (Obj 0) (Obj 3) (Obj 1) r" "divmod_args (Obj 3) (Obj 0) (Obj 1) r" by (auto simp: divmod_args_def r_def)
  show "\<exists>st. mpz_divmod_inpl jk (Obj 0) (Obj 3) (Obj 1) r (int_store zl zr) = Some st
      \<and> mpz_ok (st (Obj 0)) \<and> mpz_val (st (Obj 0)) = mpz_val zl div mpz_val zr"
    using mpz_divmod_inpl_result [OF a(1), of "int_store zl zr" jk] assms(1-4) sgn
    by (auto simp: st mpz_divmod_done_def divmod_stale_sign_def growable_ok)
  show "\<exists>st. mpz_divmod_inpl jk (Obj 3) (Obj 0) (Obj 1) r (int_store zl zr) = Some st
      \<and> mpz_ok (st (Obj 0)) \<and> mpz_val (st (Obj 0)) = mpz_val zl mod mpz_val zr
      \<and> mpz_ok (st (Obj 3)) \<and> mpz_val (st (Obj 3)) = mpz_val zl div mpz_val zr"
    using mpz_divmod_inpl_result [OF a(2), of "int_store zl zr" jk] assms(1-4) sgn
    by (auto simp: st mpz_divmod_done_def divmod_stale_sign_def growable_ok)
qed

text \<open>
  What the operators mean. A shift count that does not fit in a machine word is an error, and so is
  a negative power of zero.
\<close>

datatype int_meaning = M_int int | M_truth bool | M_two int int | M_float

definition shift_meaning :: "int \<Rightarrow> int \<Rightarrow> int_error + int_meaning" where
  "shift_meaning v j = (if \<bar>j\<bar> \<ge> 2 ^ 31 then Inl OverflowError else if j < 0 then Inl Negative_shift else Inr (M_int v))"

definition division_meaning :: "int_meaning \<Rightarrow> int \<Rightarrow> int_error + int_meaning" where
  "division_meaning v j = (if j = 0 then Inl ZeroDivisionError else Inr v)"

fun int_op_meaning :: "int_op \<Rightarrow> int \<Rightarrow> int \<Rightarrow> int_error + int_meaning" where
  "int_op_meaning Op_or i j = Inr (M_int (i OR j))"
| "int_op_meaning Op_xor i j = Inr (M_int (i XOR j))"
| "int_op_meaning Op_and i j = Inr (M_int (i AND j))"
| "int_op_meaning Op_lshift i j = shift_meaning (i * 2 ^ nat j) j"
| "int_op_meaning Op_rshift i j = shift_meaning (i div 2 ^ nat j) j"
| "int_op_meaning Op_add i j = Inr (M_int (i + j))"
| "int_op_meaning Op_subtract i j = Inr (M_int (i - j))"
| "int_op_meaning Op_multiply i j = Inr (M_int (i * j))"
| "int_op_meaning Op_floor_divide i j = division_meaning (M_int (i div j)) j"
| "int_op_meaning Op_modulo i j = division_meaning (M_int (i mod j)) j"
| "int_op_meaning Op_true_divide i j = division_meaning M_float j"
| "int_op_meaning Op_power i j = (if 0 \<le> j then Inr (M_int (i ^ nat j)) else division_meaning M_float i)"
| "int_op_meaning Op_divmod i j = division_meaning (M_two (i div j) (i mod j)) j"
| "int_op_meaning Op_less i j = Inr (M_truth (i < j))"
| "int_op_meaning Op_more i j = Inr (M_truth (i > j))"
| "int_op_meaning Op_less_equal i j = Inr (M_truth (i \<le> j))"
| "int_op_meaning Op_more_equal i j = Inr (M_truth (i \<ge> j))"
| "int_op_meaning Op_equal i j = Inr (M_truth (i = j))"
| "int_op_meaning Op_not_equal i j = Inr (M_truth (i \<noteq> j))"

fun value_means :: "int_value \<Rightarrow> int_meaning \<Rightarrow> bool" where
  "value_means (Whole x) (M_int i) = (int_ok x \<and> int_val x = i)"
| "value_means (Truth b) (M_truth c) = (b = c)"
| "value_means (Two x y) (M_two i j) = (int_ok x \<and> int_val x = i \<and> int_ok y \<and> int_val y = j)"
| "value_means To_float M_float = True"
| "value_means _ _ = False"

text \<open>The operation returns, with a result that means \<open>m\<close>.\<close>

definition result_means :: "int_result \<Rightarrow> int_error + int_meaning \<Rightarrow> bool" where
  "result_means r m \<longleftrightarrow>
     (case m of Inl e \<Rightarrow> r = Some (Inl e) | Inr w \<Rightarrow> \<exists>v. r = Some (Inr v) \<and> value_means v w)"

lemma gives_means: "gives r v \<Longrightarrow> result_means r (Inr (M_int v))"
  by (auto simp: gives_def result_means_def)

lemma result_means_simps [simp]:
  "result_means (Some (Inr (Truth b))) (Inr (M_truth c)) = (b = c)"
  "result_means (Some (Inl e)) (Inl e)" "result_means (Some (Inr To_float)) (Inr M_float)"
  by (auto simp: result_means_def)

text \<open>The conversion to floats keeps zero and the sign.\<close>

lemma single_shift_le: "0 < n \<Longrightarrow> 2 ^ single_shift n \<le> n"
proof (induction n rule: single_shift.induct)
  case (1 n)
  then show ?case by (cases "n < 2 ^ 24") (auto simp: single_shift.simps [of n])
qed

lemma round_single_cases:
  obtains q where "round_single n = (if q * 2 ^ single_shift n < 2 ^ 128 then Some (q * 2 ^ single_shift n) else None)"
    "q = n div 2 ^ single_shift n \<or> q = n div 2 ^ single_shift n + 1"
  by (rule that [of "if 2 * (n mod 2 ^ single_shift n) > 2 ^ single_shift n
      \<or> 2 * (n mod 2 ^ single_shift n) = 2 ^ single_shift n \<and> odd (n div 2 ^ single_shift n)
      then n div 2 ^ single_shift n + 1 else n div 2 ^ single_shift n"])
    (simp_all only: round_single_def Let_def split: if_split, simp_all)

lemma round_single_zero: "round_single 0 = Some 0"
  by (simp add: round_single_def single_shift.simps [of 0])

lemma round_single_0:
  assumes "round_single n = Some v"
  shows "v = 0 \<longleftrightarrow> n = 0"
proof (cases "n = 0")
  case False
  then have "0 < n div 2 ^ single_shift n" using single_shift_le [of n] by (simp add: div_greater_zero_iff)
  then show ?thesis using assms False by (cases n rule: round_single_cases) (auto split: if_splits)
qed (use assms round_single_zero in simp)

lemma round_single_finite:
  assumes "n < 2 ^ 31"
  shows "round_single n \<noteq> None"
proof (cases "n = 0")
  case False
  define u where "u = (2 :: nat) ^ single_shift n"
  obtain q where q: "round_single n = (if q * u < 2 ^ 128 then Some (q * u) else None)" "q = n div u \<or> q = n div u + 1"
    unfolding u_def by (rule round_single_cases)
  have u: "u \<le> n" using False single_shift_le [of n] by (simp add: u_def)
  have "q * u \<le> n div u * u + u" using q(2) by auto
  also have "\<dots> \<le> n + n" by (rule add_mono [OF div_times_less_eq_dividend u])
  finally have "q * u \<le> n + n" .
  then have "q * u < 2 ^ 128" using assms by (intro le_less_trans [of "q * u" "n + n"]) simp_all
  then show ?thesis by (simp add: q(1))
qed (simp add: round_single_zero)

lemma signed_float:
  "signed_float neg v = Finite 0 \<longleftrightarrow> v = Some 0" "isinf (signed_float neg v) \<longleftrightarrow> v = None"
  "float_less_zero (signed_float neg v) \<longleftrightarrow> neg \<and> v \<noteq> Some 0"
  by (auto simp: signed_float_def split: option.splits)

lemma float_of_int:
  assumes "small i"
  shows "float_of_int i = Finite 0 \<longleftrightarrow> i = 0" "\<not> isinf (float_of_int i)" "float_less_zero (float_of_int i) \<longleftrightarrow> i < 0"
proof -
  have "round_single (nat \<bar>i\<bar>) \<noteq> None" using assms by (intro round_single_finite) (auto simp: small_def)
  then obtain v where v: "round_single (nat \<bar>i\<bar>) = Some v" by auto
  show "float_of_int i = Finite 0 \<longleftrightarrow> i = 0" "\<not> isinf (float_of_int i)" "float_less_zero (float_of_int i) \<longleftrightarrow> i < 0"
    using round_single_0 [OF v] v by (auto simp: float_of_int_def signed_float)
qed

lemma mpz_as_float:
  "mpz_as_float z = Finite 0 \<longleftrightarrow> mpz_val z = 0" "\<not> isinf (mpz_as_float z) \<Longrightarrow> float_less_zero (mpz_as_float z) \<longleftrightarrow> mpz_val z < 0"
proof -
  let ?f = "\<lambda>ds. fold (\<lambda>d val. Option.bind (Option.bind val (\<lambda>v. round_single (v * DIG_BASE))) (\<lambda>p. round_single (p + unat d))) (rev ds) (Some 0)"
  have v: "?f ds = Some v \<Longrightarrow> v = 0 \<longleftrightarrow> mpn_val ds = 0" for ds v
  proof (induction ds arbitrary: v)
    case (Cons d ds)
    then obtain a b where ab: "?f ds = Some a" "round_single (a * DIG_BASE) = Some b" "round_single (b + unat d) = Some v"
      by (auto split: bind_splits)
    have "v = 0 \<longleftrightarrow> b = 0 \<and> unat d = 0" "b = 0 \<longleftrightarrow> a = 0" "a = 0 \<longleftrightarrow> mpn_val ds = 0"
      using round_single_0 [OF ab(3)] round_single_0 [OF ab(2)] Cons.IH [OF ab(1)] by simp_all
    then show ?case by auto
  qed simp
  have z: "?f ds = Some 0" if "mpn_val ds = 0" for ds
    using that
  proof (induction ds)
    case (Cons d ds)
    then show ?case using round_single_zero by simp
  qed simp
  have 0: "?f (z_digits z) = Some 0 \<longleftrightarrow> mpn_val (z_digits z) = 0" using v [of "z_digits z" 0] z [of "z_digits z"] by blast
  show "mpz_as_float z = Finite 0 \<longleftrightarrow> mpz_val z = 0" using 0 by (simp add: mpz_as_float_def signed_float mpz_val_def sval_def)
  show "\<not> isinf (mpz_as_float z) \<Longrightarrow> float_less_zero (mpz_as_float z) \<longleftrightarrow> mpz_val z < 0"
    using 0 by (simp add: mpz_as_float_def signed_float mpz_val_def sval_def)
qed

text \<open>The exponent stays finite as a float.\<close>

fun finite_exponent :: "mp_obj \<Rightarrow> bool" where
  "finite_exponent (Big_int a z) = (\<not> isinf (mpz_as_float z))"
| "finite_exponent _ = True"

lemma float_power_small:
  "small i \<Longrightarrow> small j \<Longrightarrow> j < 0 \<Longrightarrow> float_power (float_of_int i) (float_of_int j) = (if i = 0 then Inl ZeroDivisionError else Inr To_float)"
  by (simp add: float_power_def float_of_int)

lemma float_power_big:
  assumes "int_ok y" "int_val y < 0" "mpz_val zl = 0 \<longrightarrow> finite_exponent y"
  shows "map_option (float_power (mpz_as_float zl)) (mp_obj_get_float_maybe y)
    = Some (if mpz_val zl = 0 then Inl ZeroDivisionError else Inr To_float)"
  using assms by (cases y) (auto simp: float_power_def float_of_int mpz_as_float)

lemma is_zero_val: "mpz_ok z \<Longrightarrow> mpz_is_zero z \<longleftrightarrow> mpz_val z = 0" "mpz_ok z \<Longrightarrow> z_len z = 0 \<longleftrightarrow> mpz_val z = 0"
  using mpn_val_normalised_0 [of "z_digits z"] by (auto simp: mpz_is_zero_def mpz_ok_def mpz_val_def sval_def)

lemma is_neg_val: "mpz_canonical z \<Longrightarrow> mpz_is_neg z \<longleftrightarrow> mpz_val z < 0"
  using mpn_val_normalised_0 [of "z_digits z"] by (auto simp: mpz_is_neg_def mpz_canonical_def mpz_ok_def mpz_val_def sval_def)

lemma get_checked_val:
  assumes "int_ok x" "\<nexists>b. x = Bool b"
  shows "mp_obj_int_get_checked x = (if \<bar>int_val x\<bar> \<ge> 2 ^ 31 then Inl () else Inr (int_val x))"
proof (cases x)
  case (Big_int a z)
  have "sint (word_of_int (mpz_val z) :: mp_uint_t) = mpz_val z" if "\<bar>mpz_val z\<bar> < 2147483648"
    by (rule sint_word_of_int_u32) (use that in auto)
  then show ?thesis using Big_int by (simp add: mpz_as_int_checked_val)
qed (use assms in \<open>auto simp: small_def\<close>)

text \<open>The operands of an operation on big integers.\<close>

definition operands :: "bool \<Rightarrow> mpz \<Rightarrow> mpz \<Rightarrow> mp_obj \<Rightarrow> bool" where
  "operands same zl zr rhs \<longleftrightarrow> mpz_ok zl \<and> mpz_ok zr \<and> (same \<longrightarrow> zr = zl) \<and> int_ok rhs \<and> int_val rhs = mpz_val zr \<and> (\<nexists>b. rhs = Bool b)"

lemma operandsD:
  assumes "operands same zl zr rhs"
  defines "st \<equiv> int_store zl zr" and "r \<equiv> if same then Obj 1 else Obj 2"
  shows "mpz_growable (st (Obj 0))" "mpz_ok (st (Obj 1))" "mpz_ok (st r)" "st (Obj 1) = zl" "st r = zr"
  using assms by (auto simp: operands_def)

lemma big_arith:
  assumes "operands same zl zr rhs"
  shows "result_means (big_binary_op jk fresh Op_add same zl zr rhs) (Inr (M_int (mpz_val zl + mpz_val zr)))"
    "result_means (big_binary_op jk fresh Op_subtract same zl zr rhs) (Inr (M_int (mpz_val zl - mpz_val zr)))"
    "result_means (big_binary_op jk fresh Op_multiply same zl zr rhs) (Inr (M_int (mpz_val zl * mpz_val zr)))"
proof -
  note o = operandsD [OF assms]
  show "result_means (big_binary_op jk fresh Op_add same zl zr rhs) (Inr (M_int (mpz_val zl + mpz_val zr)))"
    using gives_means [OF int_dest_gives [OF mpz_add_inpl_result [OF o(1-3)]]] o(4,5) by (simp add: big_binary_op_def Let_def)
  show "result_means (big_binary_op jk fresh Op_subtract same zl zr rhs) (Inr (M_int (mpz_val zl - mpz_val zr)))"
    using gives_means [OF int_dest_gives [OF mpz_sub_inpl_result [OF o(1-3)]]] o(4,5) by (simp add: big_binary_op_def Let_def)
  show "result_means (big_binary_op jk fresh Op_multiply same zl zr rhs) (Inr (M_int (mpz_val zl * mpz_val zr)))"
    using gives_means [OF int_dest_gives [OF mpz_mul_inpl_result [OF o(1-3)]]] o(4,5) by (simp add: big_binary_op_def Let_def)
qed

lemma big_bitwise:
  assumes "operands same zl zr rhs" "mpz_canonical zl" "mpz_canonical zr"
  shows "result_means (big_binary_op jk fresh Op_and same zl zr rhs) (Inr (M_int (mpz_val zl AND mpz_val zr)))"
    "result_means (big_binary_op jk fresh Op_or same zl zr rhs) (Inr (M_int (mpz_val zl OR mpz_val zr)))"
    "result_means (big_binary_op jk fresh Op_xor same zl zr rhs) (Inr (M_int (mpz_val zl XOR mpz_val zr)))"
proof -
  note o = operandsD [OF assms(1)]
  have c: "mpz_canonical (int_store zl zr (Obj 1))" "mpz_canonical (int_store zl zr (if same then Obj 1 else Obj 2))"
    using o(4,5) assms(2,3) by simp_all
  show "result_means (big_binary_op jk fresh Op_and same zl zr rhs) (Inr (M_int (mpz_val zl AND mpz_val zr)))"
    using gives_means [OF int_dest_gives [OF mpz_and_inpl_result [OF o(1) c]]] o(4,5) by (simp add: big_binary_op_def Let_def)
  show "result_means (big_binary_op jk fresh Op_or same zl zr rhs) (Inr (M_int (mpz_val zl OR mpz_val zr)))"
    using gives_means [OF int_dest_gives [OF mpz_or_inpl_result [OF o(1) c]]] o(4,5) by (simp add: big_binary_op_def Let_def)
  show "result_means (big_binary_op jk fresh Op_xor same zl zr rhs) (Inr (M_int (mpz_val zl XOR mpz_val zr)))"
    using gives_means [OF int_dest_gives [OF mpz_xor_inpl_result [OF o(1) c]]] o(4,5) by (simp add: big_binary_op_def Let_def)
qed

lemma big_shift:
  assumes "operands same zl zr rhs"
  shows "result_means (big_binary_op jk fresh Op_lshift same zl zr rhs) (shift_meaning (mpz_val zl * 2 ^ nat (mpz_val zr)) (mpz_val zr))"
    "result_means (big_binary_op jk fresh Op_rshift same zl zr rhs) (shift_meaning (mpz_val zl div 2 ^ nat (mpz_val zr)) (mpz_val zr))"
proof -
  note o = operandsD [OF assms]
  have g: "mp_obj_int_get_checked rhs = (if \<bar>mpz_val zr\<bar> \<ge> 2 ^ 31 then Inl () else Inr (mpz_val zr))"
    using get_checked_val [of rhs] assms by (simp add: operands_def)
  have "nat (mpz_val zr) + 15 < 2 ^ 32" if "\<bar>mpz_val zr\<bar> < 2 ^ 31" using that by simp
  note l = gives_means [OF int_dest_gives [OF mpz_shl_inpl_result [OF o(1,2) this]]]
    and r = gives_means [OF int_dest_gives [OF mpz_shr_inpl_result [OF o(1,2)]]]
  show "result_means (big_binary_op jk fresh Op_lshift same zl zr rhs) (shift_meaning (mpz_val zl * 2 ^ nat (mpz_val zr)) (mpz_val zr))"
    using l o(4) by (auto simp: big_binary_op_def big_shift_def Let_def g shift_meaning_def)
  show "result_means (big_binary_op jk fresh Op_rshift same zl zr rhs) (shift_meaning (mpz_val zl div 2 ^ nat (mpz_val zr)) (mpz_val zr))"
    using r o(4) by (auto simp: big_binary_op_def big_shift_def Let_def g shift_meaning_def)
qed

lemma big_division:
  assumes "operands same zl zr rhs" "z_len zr \<le> 2 \<or> mpn_div_tie_free (z_digits zl) (z_digits zr)"
  shows "result_means (big_binary_op jk fresh Op_floor_divide same zl zr rhs) (division_meaning (M_int (mpz_val zl div mpz_val zr)) (mpz_val zr))"
    "result_means (big_binary_op jk fresh Op_modulo same zl zr rhs) (division_meaning (M_int (mpz_val zl mod mpz_val zr)) (mpz_val zr))"
    "result_means (big_binary_op jk fresh Op_divmod same zl zr rhs)
       (division_meaning (M_two (mpz_val zl div mpz_val zr) (mpz_val zl mod mpz_val zr)) (mpz_val zr))"
proof -
  have ok: "mpz_ok zl" "mpz_ok zr" "same \<longrightarrow> zr = zl" using assms(1) by (auto simp: operands_def)
  have "z_len zr \<noteq> 0" if "mpz_val zr \<noteq> 0" using that is_zero_val(2) [OF ok(2)] by simp
  note d = divmod_gives [OF ok(1,2) this assms(2) ok(3), of jk]
  note defs = big_binary_op_def Let_def division_meaning_def result_means_def int_dest_def is_zero_val(1) [OF ok(2)]
  show "result_means (big_binary_op jk fresh Op_floor_divide same zl zr rhs) (division_meaning (M_int (mpz_val zl div mpz_val zr)) (mpz_val zr))"
    using d(1) by (cases "mpz_val zr = 0") (auto simp: defs)
  show "result_means (big_binary_op jk fresh Op_modulo same zl zr rhs) (division_meaning (M_int (mpz_val zl mod mpz_val zr)) (mpz_val zr))"
    using d(2) by (cases "mpz_val zr = 0") (auto simp: defs)
  show "result_means (big_binary_op jk fresh Op_divmod same zl zr rhs)
       (division_meaning (M_two (mpz_val zl div mpz_val zr) (mpz_val zl mod mpz_val zr)) (mpz_val zr))"
    using d(2) by (cases "mpz_val zr = 0") (auto simp: defs)
qed

lemma big_power:
  assumes "operands same zl zr rhs" "mpz_canonical zr" "mpz_val zl \<noteq> 0 \<or> mpz_val zr \<noteq> 0"
    "mpz_val zl = 0 \<and> mpz_val zr < 0 \<longrightarrow> finite_exponent rhs"
  shows "result_means (big_binary_op jk fresh Op_power same zl zr rhs) (int_op_meaning Op_power (mpz_val zl) (mpz_val zr))"
proof -
  note o = operandsD [OF assms(1)]
  have "\<exists>st'. mpz_pow_inpl jk (Obj 0) (Obj 1) (if same then Obj 1 else Obj 2) (int_store zl zr) = Some st' \<and> mpz_growable (st' (Obj 0))
    \<and> mpz_val (st' (Obj 0)) = (if mpz_val zr < 0 then 0 else mpz_val zl ^ nat (mpz_val zr))"
    using mpz_pow_inpl_result [of "Obj 0" "Obj 1" "if same then Obj 1 else Obj 2" "int_store zl zr" jk] o assms(2,3) by auto
  moreover have "map_option (float_power (mpz_as_float zl)) (mp_obj_get_float_maybe rhs)
      = Some (if mpz_val zl = 0 then Inl ZeroDivisionError else Inr To_float)" if "mpz_val zr < 0"
    by (rule float_power_big) (use assms(1,4) that in \<open>auto simp: operands_def\<close>)
  ultimately show ?thesis using is_neg_val [OF assms(2)]
    by (auto simp: big_binary_op_def Let_def result_means_def int_dest_def growable_ok division_meaning_def)
qed

lemma big_compare:
  assumes "operands same zl zr rhs" "op \<in> {Op_less, Op_more, Op_less_equal, Op_more_equal, Op_true_divide}"
  shows "result_means (big_binary_op jk fresh op same zl zr rhs) (int_op_meaning op (mpz_val zl) (mpz_val zr))"
proof -
  have ok: "mpz_ok zl" "mpz_ok zr" using assms(1) by (auto simp: operands_def)
  have c: "mpz_cmp zl zr = sgn (mpz_val zl - mpz_val zr)" by (rule mpz_cmp_sgn [OF ok])
  show ?thesis using assms(2)
    by (auto simp: big_binary_op_def big_compare_def Let_def c is_zero_val(1) [OF ok(2)] division_meaning_def sgn_if)
qed

section \<open>Operators on integers\<close>

lemma normalised_two_digits:
  assumes "normalised ds" "mpn_val ds < 4294967296"
  shows "length ds \<le> 2"
proof (rule ccontr)
  assume l: "\<not> length ds \<le> 2"
  then have "ds \<noteq> []" by auto
  then have "DIG_BASE ^ (length ds - 1) \<le> mpn_val ds" using mpn_val_ge [of ds] assms(1) by (simp add: normalised_def)
  moreover have "DIG_BASE ^ 2 \<le> DIG_BASE ^ (length ds - 1)" by (rule power_increasing) (use l in simp_all)
  ultimately show False using assms(2) by simp
qed

lemma int_operand_ok:
  assumes "int_ok x" "\<nexists>b. x = Bool b"
  shows "\<exists>z. int_operand x = Some z \<and> mpz_ok z \<and> mpz_val z = int_val x \<and> (canonical x \<longrightarrow> mpz_canonical z)
    \<and> ((\<exists>i. x = Small_int i) \<longrightarrow> z_len z \<le> 2)"
proof (cases x)
  case (Small_int i)
  then obtain z where z: "small_int_mpz i = Some z" "mpz_ok z" "mpz_val z = i"
    using small_int_mpz_val [of i] assms(1) by (auto simp: small_def)
  have "mpz_canonical z"
  proof (cases "i = 0")
    case True
    then show ?thesis using z(1)
      by (auto simp: small_int_mpz_def mpz_init_fixed_from_int_def mpz_set_from_int_def mpz_canonical_def mpz_ok_def)
  qed (use nonzero_canonical [OF z(2)] z(3) in simp)
  moreover have "z_len z \<le> 2"
  proof -
    have "int (mpn_val (z_digits z)) = \<bar>i\<bar>" using z(3) by (auto simp: mpz_val_def sval_def)
    then have "mpn_val (z_digits z) < 4294967296" using assms(1) Small_int by (auto simp: small_def)
    then show ?thesis using normalised_two_digits [of "z_digits z"] z(2) by (simp add: mpz_ok_def)
  qed
  ultimately show ?thesis using z Small_int by simp
qed (use assms in auto)

text \<open>
  When the meaning is exact: an address holds one object; no operand of a bitwise operator is the negative
  zero, and neither is an exponent; a division meets no tie in \<open>mpn_div\<close>; zero to the power zero and the
  quotient by \<open>-1\<close> are not in the cases that the code gets wrong; and a negative exponent of zero is not so
  large that it becomes infinite as a float, when the code returns a float instead of the exception.
\<close>

fun is_big :: "mp_obj \<Rightarrow> bool" where
  "is_big (Big_int a z) = True"
| "is_big _ = False"

fun division_ok :: "mp_obj \<Rightarrow> mp_obj \<Rightarrow> bool" where
  "division_ok x (Big_int b zr) =
     (z_len zr \<le> 2 \<or> (case int_operand (bool_as_int x) of Some zl \<Rightarrow> mpn_div_tie_free (z_digits zl) (z_digits zr) | None \<Rightarrow> False))"
| "division_ok x _ = True"

definition int_op_ok :: "int_op \<Rightarrow> mp_obj \<Rightarrow> mp_obj \<Rightarrow> bool" where
  "int_op_ok op x y \<longleftrightarrow>
     (same_object x y \<longrightarrow> x = y)
     \<and> (op \<in> {Op_and, Op_or, Op_xor} \<longrightarrow> canonical x \<and> canonical y)
     \<and> (op \<in> {Op_floor_divide, Op_modulo, Op_divmod} \<longrightarrow> division_ok x y)
     \<and> (op = Op_power \<longrightarrow> canonical y \<and> (is_big x \<or> is_big y \<longrightarrow> int_val x \<noteq> 0 \<or> int_val y \<noteq> 0)
         \<and> (int_val x = 0 \<and> int_val y < 0 \<longrightarrow> finite_exponent y))
     \<and> (op = Op_divmod \<and> \<not> is_big x \<and> \<not> is_big y \<longrightarrow> \<not> (int_val x = - (2 ^ 30) \<and> int_val y = -1))"

lemma big_means:
  assumes x: "int_ok x" "\<nexists>b. x = Bool b" and y: "int_ok y" "\<nexists>b. y = Bool b"
    and op: "op \<noteq> Op_equal" "op \<noteq> Op_not_equal" and ok: "int_op_ok op x y"
    and pow: "op = Op_power \<longrightarrow> int_val x \<noteq> 0 \<or> int_val y \<noteq> 0"
  shows "result_means (mp_obj_int_binary_op jk fresh op x y) (int_op_meaning op (int_val x) (int_val y))"
proof -
  obtain zl where l: "int_operand x = Some zl" "mpz_ok zl" "mpz_val zl = int_val x" "canonical x \<longrightarrow> mpz_canonical zl"
    using int_operand_ok [OF x] by blast
  obtain zr where r: "int_operand y = Some zr" "mpz_ok zr" "mpz_val zr = int_val y" "canonical y \<longrightarrow> mpz_canonical zr"
    "(\<exists>i. y = Small_int i) \<longrightarrow> z_len zr \<le> 2" using int_operand_ok [OF y] by blast
  have eq: "mp_obj_int_binary_op jk fresh op x y = big_binary_op jk fresh op (same_object x y) zl zr y"
    by (simp add: mp_obj_int_binary_op_def l(1) r(1))
  have "zr = zl" if "same_object x y"
  proof -
    have "x = y" using that ok unfolding int_op_ok_def by blast
    then show ?thesis using l(1) r(1) by simp
  qed
  then have o: "operands (same_object x y) zl zr y"
    using l(2) r(2,3) y by (simp add: operands_def)
  have tie: "z_len zr \<le> 2 \<or> mpn_div_tie_free (z_digits zl) (z_digits zr)" if "op \<in> {Op_floor_divide, Op_modulo, Op_divmod}"
  proof (cases y)
    case (Big_int b z)
    have "division_ok x y" using that ok unfolding int_op_ok_def by blast
    moreover have "bool_as_int x = x" using x(2) by (cases x) simp_all
    ultimately show ?thesis using Big_int l(1) r(1) by simp
  qed (use r(5) y in simp_all)
  have c: "op \<in> {Op_and, Op_or, Op_xor, Op_power} \<Longrightarrow> mpz_canonical zr" "op \<in> {Op_and, Op_or, Op_xor} \<Longrightarrow> mpz_canonical zl"
    using ok l(4) r(4) unfolding int_op_ok_def by blast+
  consider (arith) "op \<in> {Op_add, Op_subtract, Op_multiply}" | (bits) "op \<in> {Op_and, Op_or, Op_xor}" | (shift) "op \<in> {Op_lshift, Op_rshift}"
    | (division) "op \<in> {Op_floor_divide, Op_modulo, Op_divmod}" | (power) "op = Op_power"
    | (compare) "op \<in> {Op_less, Op_more, Op_less_equal, Op_more_equal, Op_true_divide}"
    using op by (cases op) simp_all
  then show ?thesis unfolding eq l(3) [symmetric] r(3) [symmetric]
  proof cases
    case arith
    then show "result_means (big_binary_op jk fresh op (same_object x y) zl zr y) (int_op_meaning op (mpz_val zl) (mpz_val zr))"
      using big_arith [OF o, of jk fresh] by (elim insertE emptyE) simp_all
  next
    case bits
    then show "result_means (big_binary_op jk fresh op (same_object x y) zl zr y) (int_op_meaning op (mpz_val zl) (mpz_val zr))"
      using big_bitwise [OF o c(2) c(1), of jk fresh] by (elim insertE emptyE) simp_all
  next
    case shift
    then show "result_means (big_binary_op jk fresh op (same_object x y) zl zr y) (int_op_meaning op (mpz_val zl) (mpz_val zr))"
      using big_shift [OF o, of jk fresh] by (elim insertE emptyE) simp_all
  next
    case division
    then show "result_means (big_binary_op jk fresh op (same_object x y) zl zr y) (int_op_meaning op (mpz_val zl) (mpz_val zr))"
      using big_division [OF o tie, of jk fresh] by (elim insertE emptyE) simp_all
  next
    case power
    then show "result_means (big_binary_op jk fresh op (same_object x y) zl zr y) (int_op_meaning op (mpz_val zl) (mpz_val zr))"
      using big_power [OF o c(1), of jk fresh] pow l(3) r(3) ok by (simp add: int_op_ok_def)
  next
    case compare
    then show "result_means (big_binary_op jk fresh op (same_object x y) zl zr y) (int_op_meaning op (mpz_val zl) (mpz_val zr))"
      by (rule big_compare [OF o])
  qed
qed

text \<open>The switch on small integers.\<close>

lemma small_bits:
  assumes "small i" "small j"
  shows "small (i AND j)" "small (i OR j)" "small (i XOR j)" "small (NOT i)"
proof -
  have "small v \<longleftrightarrow> signed_take_bit 30 v = v" for v by (auto simp: small_def signed_take_bit_int_eq_self_iff)
  then have iff: "small v \<longleftrightarrow> (\<forall>n. bit v (min 30 n) = bit v n)" for v by (simp add: bit_eq_iff bit_signed_take_bit_iff)
  show "small (i AND j)" "small (i OR j)" "small (i XOR j)" "small (NOT i)"
    using assms by (simp_all only: iff bit_and_iff bit_or_iff bit_xor_iff bit_not_int_iff simp_thms)
qed

lemma neg_div_bounds:
  fixes a :: int
  assumes "a < 0" "0 < b"
  shows "a \<le> a div b" "a div b < 0"
proof -
  have "a * b \<le> a * 1" using assms by (intro mult_left_mono_neg) simp_all
  then show "a \<le> a div b" using div_less_iff [OF assms(2), of a a] by linarith
  show "a div b < 0" using div_less_iff [OF assms(2), of a 0] assms(1) by simp
qed

lemma small_div:
  assumes "small i" "j \<noteq> 0" "\<not> (i = - 1073741824 \<and> j = -1)"
  shows "small (i div j)"
proof -
  consider "0 \<le> i" "0 < j" | "i < 0" "0 < j" | "i \<le> 0" "j < 0" | "0 < i" "j < 0" using assms(2) by linarith
  then show ?thesis
  proof cases
    case 1
    then show ?thesis using div_bounds [OF 1] assms(1) unfolding small_def by linarith
  next
    case 2
    then show ?thesis using neg_div_bounds [OF 2] assms(1) unfolding small_def by linarith
  next
    case 3
    have "- i < 1073741824 * - j" using assms(1,3) 3 unfolding small_def by linarith
    then have "(- i) div (- j) < 1073741824" using div_less_iff [of "- j" "- i" 1073741824] 3 by simp
    then show ?thesis using div_bounds [of "- i" "- j"] 3 unfolding small_def by simp
  next
    case 4
    then show ?thesis using neg_div_bounds [of "- i" "- j"] assms(1) unfolding small_def by simp
  qed
qed

lemma small_div_power:
  assumes "small i"
  shows "small (i div 2 ^ n)" "31 \<le> n \<Longrightarrow> i div 2 ^ n = i div 2 ^ 31"
proof -
  have b: "(0::int) < 2 ^ n" by simp
  have "i \<le> i div 2 ^ n \<and> i div 2 ^ n < 0" if "i < 0" using neg_div_bounds [OF that b] by simp
  moreover have "0 \<le> i div 2 ^ n \<and> i div 2 ^ n \<le> i" if "0 \<le> i" using div_bounds [OF that b] by simp
  ultimately show "small (i div 2 ^ n)" using assms unfolding small_def by linarith
  assume n: "31 \<le> n"
  have "i div 2 ^ m = (if i < 0 then -1 else 0)" if "31 \<le> m" for m
  proof -
    have "(2::int) ^ 31 \<le> 2 ^ m" using that by (intro power_increasing) simp_all
    then have m: "(2147483648::int) \<le> 2 ^ m" by simp
    show ?thesis
    proof (cases "i < 0")
      case True
      then show ?thesis using assms m int_div_pos_eq [of i "2 ^ m" "-1" "i + 2 ^ m"] unfolding small_def by simp
    next
      case False
      then show ?thesis using assms m unfolding small_def by (simp add: div_pos_pos_trivial)
    qed
  qed
  from this [OF n] this [of 31] show "i div 2 ^ n = i div 2 ^ 31" by simp
qed

lemma shl_check:
  assumes "n < 32" "i \<le> drop_bit n MP_SMALL_INT_MAX" "drop_bit n MP_SMALL_INT_MIN \<le> i"
  shows "word_sized (i * 2 ^ n)"
proof -
  have b: "(0::int) < 2 ^ n" by simp
  have up: "i * 2 ^ n \<le> MP_SMALL_INT_MAX"
    using assms(2) div_less_iff [OF b, of MP_SMALL_INT_MAX i] by (simp add: drop_bit_eq_div not_less)
  have "- 2147483648 \<le> (MP_SMALL_INT_MIN div 2 ^ n) * 2 ^ n"
  proof (cases "n = 31")
    case False
    then have "MP_SMALL_INT_MIN = - (2 ^ (30 - n)) * 2 ^ n" using assms(1) by (simp flip: power_add)
    then have "MP_SMALL_INT_MIN div 2 ^ n = - (2 ^ (30 - n))" by (metis b less_irrefl nonzero_mult_div_cancel_right)
    then show ?thesis using False assms(1) by (simp flip: power_add)
  qed simp
  moreover have "(MP_SMALL_INT_MIN div 2 ^ n) * 2 ^ n \<le> i * 2 ^ n"
    using assms(3) by (intro mult_right_mono) (simp_all add: drop_bit_eq_div)
  ultimately show ?thesis using up unfolding word_sized_def by linarith
qed

lemma small_means:
  assumes i: "small i" and j: "small j" and op: "op \<noteq> Op_divmod \<or> \<not> (i = - (2 ^ 30) \<and> j = -1)"
  shows "case small_int_binary_op op i j of
      Return v \<Rightarrow> result_means (Some v) (int_op_meaning op i j)
    | Fits v \<Rightarrow> word_sized v \<and> int_op_meaning op i j = Inr (M_int v)
    | Generic \<Rightarrow> op \<in> {Op_lshift, Op_multiply, Op_power} \<and> (op = Op_power \<longrightarrow> i \<noteq> 0 \<or> j \<noteq> 0)"
proof -
  have ws: "small v \<Longrightarrow> word_sized v" for v by (rule small_word_sized)
  have sum: "word_sized (i + j)" "word_sized (i - j)" using i j by (simp_all add: small_def word_sized_def)
  show ?thesis
  proof (cases op)
    case Op_lshift
    have "push_bit (nat j) i = i * 2 ^ nat j" by (simp add: push_bit_eq_mult)
    then show ?thesis using Op_lshift j shl_check [of "nat j" i] mp_int_id [of "i * 2 ^ nat j"]
      by (auto simp: small_int_binary_op_def shift_meaning_def small_def not_less)
  next
    case Op_rshift
    have "drop_bit (nat (if 32 \<le> j then 31 else j)) i = i div 2 ^ nat j" if "0 \<le> j"
      using small_div_power(2) [OF i, of "nat j"] that by (auto simp: drop_bit_eq_div)
    then show ?thesis using Op_rshift j small_div_power(1) [OF i, of "nat j"] ws
      by (auto simp: small_int_binary_op_def shift_meaning_def small_def)
  next
    case Op_floor_divide
    then show ?thesis using floor_divide_exact [OF i j] by (auto simp: small_int_binary_op_def division_meaning_def)
  next
    case Op_modulo
    then show ?thesis using modulo_exact [OF i j] ws by (auto simp: small_int_binary_op_def division_meaning_def)
  next
    case Op_multiply
    then show ?thesis using NEW_SMALL_INT_id [of "i * j"] mp_int_id [OF ws, of "i * j"]
      by (auto simp: small_int_binary_op_def mul_overflow_iff result_means_def)
  next
    case Op_power
    note float_power_small [OF i j, simp]
    show ?thesis
    proof (cases "small_int_power 1 i j")
      case None
      then have "j \<noteq> 0" by (auto simp: small_int_power.simps [of 1 i 0])
      then show ?thesis using Op_power None by (auto simp: small_int_binary_op_def division_meaning_def)
    next
      case (Some v)
      then have "v = i ^ nat j \<and> small v" if "0 \<le> j" using small_int_power_exact [of 1 i j v] i that by (simp add: small_def)
      then show ?thesis using Op_power Some ws by (auto simp: small_int_binary_op_def division_meaning_def)
    qed
  next
    case Op_divmod
    have "small (i div j)" if "j \<noteq> 0" using small_div [OF i that] op Op_divmod by simp
    then show ?thesis using Op_divmod floor_divide_exact [OF i j] modulo_exact [OF i j] NEW_SMALL_INT_id
      by (auto simp: small_int_binary_op_def division_meaning_def result_means_def)
  qed (use small_bits [OF i j] sum ws in \<open>simp_all add: small_int_binary_op_def mp_int_id division_meaning_def\<close>)
qed

lemma bool_as_int:
  assumes "int_ok x"
  shows "int_ok (bool_as_int x)" "int_val (bool_as_int x) = int_val x" "\<nexists>b. bool_as_int x = Bool b"
    "is_big (bool_as_int x) = is_big x" "canonical (bool_as_int x) = canonical x" "is_big x \<or> (\<exists>i. bool_as_int x = Small_int i)"
  using assms by (cases x; simp add: small_def)+

lemma bool_as_int_ok:
  assumes "int_ok x" "int_ok y" "int_op_ok op x y"
  shows "int_op_ok op (bool_as_int x) (bool_as_int y)"
proof -
  have "same_object (bool_as_int x) (bool_as_int y) = same_object x y" by (cases x; cases y) simp_all
  moreover have "same_object x y \<Longrightarrow> bool_as_int x = x \<and> bool_as_int y = y" by (cases x; cases y) simp_all
  moreover have "division_ok (bool_as_int x) (bool_as_int y) = division_ok x y" by (cases x; cases y) simp_all
  moreover have "finite_exponent (bool_as_int y) = finite_exponent y" by (cases y) simp_all
  ultimately show ?thesis using assms(3) bool_as_int(2,4,5) [OF assms(1)] bool_as_int(2,4,5) [OF assms(2)] unfolding int_op_ok_def by simp
qed

lemma equal_means:
  assumes "int_ok x" "int_ok y"
  shows "mp_obj_equal x y \<longleftrightarrow> int_val x = int_val y"
  using mp_obj_equal_denote [of x y] int_ok_valid [OF assms(1)] int_ok_valid [OF assms(2)] by simp

lemma binary_op_small:
  assumes "small i" "small j" "int_op_ok op (Small_int i) (Small_int j)" "op \<noteq> Op_equal" "op \<noteq> Op_not_equal"
  shows "result_means (case small_int_binary_op op i j of
      Return v \<Rightarrow> Some v
    | Fits v \<Rightarrow> int_result (mp_obj_new_int jk fresh v)
    | Generic \<Rightarrow> Option.bind (mp_obj_new_int_from_ll jk (fresh + 2) (word_of_int i)) (\<lambda>lhs. mp_obj_int_binary_op jk fresh op lhs (Small_int j)))
    (int_op_meaning op i j)"
proof -
  have "op \<noteq> Op_divmod \<or> \<not> (i = - (2 ^ 30) \<and> j = -1)" using assms(3) by (auto simp: int_op_ok_def)
  note m = small_means [OF assms(1,2) this]
  show ?thesis
  proof (cases "small_int_binary_op op i j")
    case (Return v)
    then show ?thesis using m by simp
  next
    case (Fits v)
    then have "word_sized v" "int_op_meaning op i j = Inr (M_int v)" using m by simp_all
    then show ?thesis using Fits new_int [of v jk fresh] by (auto simp: result_means_def)
  next
    case Generic
    then have g: "op \<in> {Op_lshift, Op_multiply, Op_power}" "op = Op_power \<longrightarrow> i \<noteq> 0 \<or> j \<noteq> 0" using m by simp_all
    obtain z where z: "mp_obj_new_int_from_ll jk (fresh + 2) (word_of_int i) = Some (Big_int (fresh + 2) z)" "mpz_ok z" "mpz_val z = i"
      using new_int_from_ll [OF small_word_sized [OF assms(1)]] by blast
    have "int_op_ok op (Big_int (fresh + 2) z) (Small_int j)" using g z(3) by (auto simp: int_op_ok_def)
    then show ?thesis using Generic z big_means [of "Big_int (fresh + 2) z" "Small_int j" op jk fresh] g(2) assms(2,4,5) by simp
  qed
qed

lemma binary_op_means:
  assumes "int_ok x" "int_ok y" "int_op_ok op x y"
  shows "result_means (mp_binary_op jk fresh op x y) (int_op_meaning op (int_val x) (int_val y))"
proof -
  let ?x = "bool_as_int x" and ?y = "bool_as_int y"
  note bx = bool_as_int [OF assms(1)] and b_y = bool_as_int [OF assms(2)] and ok = bool_as_int_ok [OF assms]
  consider "op = Op_equal" | "op = Op_not_equal" | (small) i j where "?x = Small_int i" "?y = Small_int j" "op \<noteq> Op_equal" "op \<noteq> Op_not_equal"
    | (big) "is_big ?x \<or> is_big ?y" "op \<noteq> Op_equal" "op \<noteq> Op_not_equal" using bx(4,6) b_y(4,6) by blast
  then show ?thesis
  proof cases
    case small
    then have ij: "int_val x = i" "int_val y = j" using bx(2) b_y(2) by simp_all
    show ?thesis unfolding ij using binary_op_small [of i j op jk fresh] small bx(1) b_y(1) ok by (simp add: mp_binary_op_def)
  next
    case big
    have "mp_binary_op jk fresh op x y = mp_obj_int_binary_op jk fresh op ?x ?y"
      using big by (cases ?x; cases ?y) (simp_all add: mp_binary_op_def)
    moreover have "op = Op_power \<longrightarrow> int_val ?x \<noteq> 0 \<or> int_val ?y \<noteq> 0" using ok big(1) unfolding int_op_ok_def by blast
    ultimately show ?thesis using big_means [OF bx(1,3) b_y(1,3) big(2,3) ok] bx(2) b_y(2) by simp
  qed (use equal_means [OF assms(1,2)] in \<open>simp_all add: mp_binary_op_def\<close>)
qed

text \<open>The unary operators.\<close>

fun int_unop_meaning :: "int_unop \<Rightarrow> int \<Rightarrow> int" where
  "int_unop_meaning Op_bool i = of_bool (i \<noteq> 0)"
| "int_unop_meaning Op_positive i = i"
| "int_unop_meaning Op_negative i = - i"
| "int_unop_meaning Op_invert i = NOT i"
| "int_unop_meaning Op_abs i = \<bar>i\<bar>"
| "int_unop_meaning Op_not i = of_bool (i = 0)"

definition yields :: "mp_obj option \<Rightarrow> int \<Rightarrow> bool" where
  "yields r i \<longleftrightarrow> (\<exists>x. r = Some x \<and> int_ok x \<and> int_val x = i)"

lemma int_dest_yields: "mpz_result st (Obj 0) v r \<Longrightarrow> yields (int_dest fresh r) v"
  by (auto simp: mpz_result_def int_dest_def yields_def)

lemma small_unary_means:
  assumes "small i" "op \<noteq> Op_not"
  shows "yields (small_int_unary_op jk fresh op i) (int_unop_meaning op i)"
proof -
  have "yields (if i = - 1073741824 then mp_obj_new_int jk fresh (- i) else Some (MP_OBJ_NEW_SMALL_INT (- i))) (- i)"
    using assms(1) new_int [of "- i" jk fresh] NEW_SMALL_INT_id [of "- i"] by (auto simp: yields_def word_sized_def small_def)
  then show ?thesis using assms small_bits(4) [OF assms(1)] NEW_SMALL_INT_id [of "NOT i"]
    by (cases op) (auto simp: small_int_unary_op_def yields_def)
qed

lemma big_unary_means:
  assumes "mpz_ok z" "op \<noteq> Op_not"
  shows "yields (mp_obj_int_unary_op jk fresh op a z) (int_unop_meaning op (mpz_val z))"
proof -
  have g: "mpz_growable (int_store z z (Obj 0))" "mpz_ok (int_store z z (Obj 1))" using assms(1) by simp_all
  have "\<not> z_neg z \<Longrightarrow> \<bar>mpz_val z\<bar> = mpz_val z" by (simp add: mpz_val_def sval_def)
  then show ?thesis
    using assms is_zero_val(1) [OF assms(1)] int_dest_yields [OF mpz_neg_inpl_result [OF g, of jk], of fresh]
      int_dest_yields [OF mpz_abs_inpl_result [OF g, of jk], of fresh] int_dest_yields [OF mpz_not_inpl_result [OF g, of jk], of fresh]
    by (cases op) (auto simp: mp_obj_int_unary_op_def yields_def)
qed

lemma unary_op_means:
  assumes "int_ok x"
  shows "yields (mp_unary_op jk fresh op x) (int_unop_meaning op (int_val x))"
proof (cases "op = Op_not")
  case True
  have "mp_obj_is_true x \<longleftrightarrow> int_val x \<noteq> 0" using assms is_zero_val(1) by (cases x) auto
  then show ?thesis using True by (auto simp: mp_unary_op_def yields_def)
next
  case False
  then show ?thesis using assms small_unary_means [of "int_val x" op jk fresh] big_unary_means [OF _ False]
    by (cases x) (auto simp: mp_unary_op_def small_def)
qed

end
