(* ===== verification/Mp_Int_Props.thy ===== *)
theory Mp_Int_Props
  imports Mp_Int
begin

text \<open>
  The properties of the integers of the language, over the three representations: small integers,
  big integers and booleans.
\<close>

text \<open>C7: The binary operators on integers return the exact result of the operation on unbounded
  integers, or the exception that goes with it, whatever the representation of the operands: a result
  that does not fit in a small integer becomes a big one, and booleans act as zero and one. A division
  by zero and a negative power of zero raise \<open>ZeroDivisionError\<close>; other negative powers and true divisions
  give a float, whose value is not part of the statement. The hypothesis \<open>int_op_ok\<close> leaves out the
  negative zero in bitwise operators and as an exponent, the ties of the division of big integers, zero
  to the power zero on big integers, zero to a negative power that is infinite as a float, and one
  call of \<open>divmod\<close>.\<close>

theorem int_binary_op_exact:
  assumes "int_ok x" "int_ok y" "int_op_ok op x y"
  shows "case int_op_meaning op (int_val x) (int_val y) of
      Inl e \<Rightarrow> mp_binary_op jk fresh op x y = Some (Inl e)
    | Inr m \<Rightarrow> \<exists>v. mp_binary_op jk fresh op x y = Some (Inr v) \<and> value_means v m"
  using binary_op_means [OF assms, of jk fresh] by (simp add: result_means_def)

theorem int_binary_op_exact_witness:
  "\<exists>x. mp_binary_op (\<lambda>_. 0) 0 Op_multiply (Small_int 1000000) (Small_int (- 1000000)) = Some (Inr (Whole x))
     \<and> int_ok x \<and> int_val x = - 1000000000000"
proof -
  obtain v where "mp_binary_op (\<lambda>_. 0) 0 Op_multiply (Small_int 1000000) (Small_int (- 1000000)) = Some (Inr v)"
    "value_means v (M_int (- 1000000000000))"
    using int_binary_op_exact [of "Small_int 1000000" "Small_int (- 1000000)" Op_multiply "\<lambda>_. 0" 0]
    by (auto simp: small_def int_op_ok_def)
  then show ?thesis by (cases v) simp_all
qed

text \<open>The unary operators on integers return the exact result, also at the least small integer, whose
  negation and absolute value are big.\<close>

theorem int_unary_op_exact:
  assumes "int_ok x"
  shows "\<exists>v. mp_unary_op jk fresh op x = Some v \<and> int_ok v \<and> int_val v = int_unop_meaning op (int_val x)"
  using unary_op_means [OF assms, of jk fresh op] by (simp add: yields_def)

theorem int_unary_op_exact_witness:
  "\<exists>v. mp_unary_op (\<lambda>_. 0) 0 Op_abs (Small_int (- 1073741824)) = Some v \<and> int_ok v \<and> int_val v = 1073741824"
  using int_unary_op_exact [of "Small_int (- 1073741824)" "\<lambda>_. 0" 0 Op_abs] by (simp add: small_def)

text \<open>C22: A machine integer goes into an object and comes back: the object has its value and sign, and
  reading it truncated or checked gives it again, except that the checked read reports the least
  machine integer as an overflow.\<close>

theorem int_new_get_round_trip:
  assumes "- (2 ^ 31) \<le> v" "v < 2 ^ 31"
  shows "\<exists>x. mp_obj_new_int jk fresh v = Some x \<and> int_val x = v \<and> mp_obj_int_get_truncated x = word_of_int v
    \<and> mp_obj_int_get_checked x = (if v = - (2 ^ 31) then Inl () else Inr v) \<and> mp_obj_int_sign x = sgn v"
proof -
  have w: "word_sized v" using assms by (simp add: word_sized_def)
  obtain x where x: "mp_obj_new_int jk fresh v = Some x" "int_ok x" "int_val x = v" using new_int [OF w] by blast
  have nb: "\<nexists>b. x = Bool b" using x(1) by (auto simp: mp_obj_new_int_def MP_OBJ_NEW_SMALL_INT_def mp_obj_new_int_from_ll_def split: if_splits)
  have "mp_obj_int_get_truncated x = word_of_int v" using x(2,3) nb by (cases x) (auto simp: mpz_hash_val)
  moreover have "mp_obj_int_get_checked x = (if v = - (2 ^ 31) then Inl () else Inr v)"
    using get_checked_val [OF x(2) nb] x(3) assms by auto
  moreover have "mp_obj_int_sign x = sgn v"
  proof (cases x)
    case (Big_int a z)
    then show ?thesis using x(2,3) is_zero_val(2) [of z] by (auto simp: sgn_if mpz_val_def sval_def)
  qed (use x(2,3) nb in \<open>auto simp: sgn_if\<close>)
  ultimately show ?thesis using x by blast
qed

theorem int_new_get_round_trip_witness:
  "\<exists>x. mp_obj_new_int (\<lambda>_. 0) 0 (- 2147483648) = Some x \<and> int_val x = - 2147483648 \<and> mp_obj_int_get_checked x = Inl ()"
  using int_new_get_round_trip [of "- 2147483648" "\<lambda>_. 0" 0] by auto

text \<open>C35: \<open>divmod\<close> of the least small integer by \<open>-1\<close> gives a wrong quotient: the quotient does not fit in
  a small integer and its top bit is lost, while the floor division of the same operands is
  exact.\<close>

theorem divmod_least_small_int_wraps:
  "mp_binary_op jk fresh Op_divmod (Small_int (- 1073741824)) (Small_int (- 1))
     = Some (Inr (Two (Small_int (- 1073741824)) (Small_int 0)))
   \<and> gives (mp_binary_op jk fresh Op_floor_divide (Small_int (- 1073741824)) (Small_int (- 1))) 1073741824"
proof
  show "mp_binary_op jk fresh Op_divmod (Small_int (- 1073741824)) (Small_int (- 1))
     = Some (Inr (Two (Small_int (- 1073741824)) (Small_int 0)))"
    by (simp add: mp_binary_op_def small_int_binary_op_def mp_small_int_floor_divide_def mp_small_int_modulo_def MP_OBJ_NEW_SMALL_INT_def signed_modulo_int_def)
  have "result_means (mp_binary_op jk fresh Op_floor_divide (Small_int (- 1073741824)) (Small_int (- 1))) (Inr (M_int 1073741824))"
    using binary_op_means [of "Small_int (- 1073741824)" "Small_int (- 1)" Op_floor_divide jk fresh]
    by (simp add: small_def int_op_ok_def division_meaning_def)
  then obtain v where "mp_binary_op jk fresh Op_floor_divide (Small_int (- 1073741824)) (Small_int (- 1)) = Some (Inr v)"
    "value_means v (M_int 1073741824)" by (auto simp: result_means_def)
  then show "gives (mp_binary_op jk fresh Op_floor_divide (Small_int (- 1073741824)) (Small_int (- 1))) 1073741824"
    by (cases v) (simp_all add: gives_def)
qed

end
