(* ===== verification/Gc_Table.thy ===== *)
theory Gc_Table
  imports Mp_Prelude
begin

text \<open>
  The heap of the garbage collector (\<open>src/py/gc.c\<close>) and the bit-level access to its two tables. The
  allocation table has two bits per block of 16 bytes, the finaliser table one bit per block. The
  two tables lie next to each other in memory, the allocation table first, so \<open>gc_table\<close> is one
  array of bytes. \<open>gc_mem\<close> is the pool, word by word. The lemmas reduce the bit operations of the
  macros to updates of one entry.
\<close>

section \<open>The heap\<close>

record gc =
  gc_table :: "u8 list"
  gc_alloc_table_byte_len :: nat
  gc_pool_start :: nat
  gc_pool_end :: nat
  gc_mem :: "nat \<Rightarrow> mp_uint_t"
  gc_stack_overflow :: bool
  gc_last_free_atb_index :: nat
  gc_lock_depth :: u16
  gc_auto_collect_enabled :: bool
  gc_alloc_threshold :: mp_uint_t
  gc_alloc_amount :: mp_uint_t

abbreviation (input) BYTES_PER_BLOCK :: nat where "BYTES_PER_BLOCK \<equiv> 16"
abbreviation (input) WORDS_PER_BLOCK :: nat where "WORDS_PER_BLOCK \<equiv> 4"
abbreviation (input) BLOCKS_PER_ATB :: nat where "BLOCKS_PER_ATB \<equiv> 4"
abbreviation (input) BLOCKS_PER_FTB :: nat where "BLOCKS_PER_FTB \<equiv> 8"

abbreviation (input) AT_FREE :: u8 where "AT_FREE \<equiv> 0"
abbreviation (input) AT_HEAD :: u8 where "AT_HEAD \<equiv> 1"
abbreviation (input) AT_TAIL :: u8 where "AT_TAIL \<equiv> 2"
abbreviation (input) AT_MARK :: u8 where "AT_MARK \<equiv> 3"

text \<open>The number of blocks of the pool.\<close>

abbreviation gc_blocks :: "gc \<Rightarrow> nat" where
  "gc_blocks gc \<equiv> gc_alloc_table_byte_len gc * BLOCKS_PER_ATB"

section \<open>The macros\<close>

definition BLOCK_SHIFT :: "nat \<Rightarrow> nat" where
  "BLOCK_SHIFT block = 2 * (block mod BLOCKS_PER_ATB)"

definition ATB_GET_KIND :: "gc \<Rightarrow> nat \<Rightarrow> u8" where
  "ATB_GET_KIND gc block = drop_bit (BLOCK_SHIFT block) (gc_table gc ! (block div BLOCKS_PER_ATB)) AND 3"

definition atb_or :: "u8 \<Rightarrow> nat \<Rightarrow> gc \<Rightarrow> gc" where
  "atb_or kind block gc =
     gc\<lparr>gc_table := (gc_table gc)[block div BLOCKS_PER_ATB :=
       gc_table gc ! (block div BLOCKS_PER_ATB) OR push_bit (BLOCK_SHIFT block) kind]\<rparr>"

definition atb_and_not :: "u8 \<Rightarrow> nat \<Rightarrow> gc \<Rightarrow> gc" where
  "atb_and_not kind block gc =
     gc\<lparr>gc_table := (gc_table gc)[block div BLOCKS_PER_ATB :=
       gc_table gc ! (block div BLOCKS_PER_ATB) AND NOT (push_bit (BLOCK_SHIFT block) kind)]\<rparr>"

definition ATB_ANY_TO_FREE :: "nat \<Rightarrow> gc \<Rightarrow> gc" where "ATB_ANY_TO_FREE = atb_and_not AT_MARK"
definition ATB_FREE_TO_HEAD :: "nat \<Rightarrow> gc \<Rightarrow> gc" where "ATB_FREE_TO_HEAD = atb_or AT_HEAD"
definition ATB_FREE_TO_TAIL :: "nat \<Rightarrow> gc \<Rightarrow> gc" where "ATB_FREE_TO_TAIL = atb_or AT_TAIL"
definition ATB_HEAD_TO_MARK :: "nat \<Rightarrow> gc \<Rightarrow> gc" where "ATB_HEAD_TO_MARK = atb_or AT_MARK"
definition ATB_MARK_TO_HEAD :: "nat \<Rightarrow> gc \<Rightarrow> gc" where "ATB_MARK_TO_HEAD = atb_and_not AT_TAIL"

text \<open>The finaliser table starts where the allocation table ends.\<close>

definition FTB_GET :: "gc \<Rightarrow> nat \<Rightarrow> bool" where
  "FTB_GET gc block = (drop_bit (block mod 8) (gc_table gc ! (gc_alloc_table_byte_len gc + block div BLOCKS_PER_FTB)) AND 1 \<noteq> 0)"

definition FTB_SET :: "nat \<Rightarrow> gc \<Rightarrow> gc" where
  "FTB_SET block gc =
     (let i = gc_alloc_table_byte_len gc + block div BLOCKS_PER_FTB
      in gc\<lparr>gc_table := (gc_table gc)[i := gc_table gc ! i OR push_bit (block mod 8) 1]\<rparr>)"

definition FTB_CLEAR :: "nat \<Rightarrow> gc \<Rightarrow> gc" where
  "FTB_CLEAR block gc =
     (let i = gc_alloc_table_byte_len gc + block div BLOCKS_PER_FTB
      in gc\<lparr>gc_table := (gc_table gc)[i := gc_table gc ! i AND NOT (push_bit (block mod 8) 1)]\<rparr>)"

definition BLOCK_FROM_PTR :: "gc \<Rightarrow> mp_uint_t \<Rightarrow> nat" where
  "BLOCK_FROM_PTR gc ptr = (unat ptr - gc_pool_start gc) div BYTES_PER_BLOCK"

definition PTR_FROM_BLOCK :: "gc \<Rightarrow> nat \<Rightarrow> mp_uint_t" where
  "PTR_FROM_BLOCK gc block = of_nat (block * BYTES_PER_BLOCK + gc_pool_start gc)"

definition VERIFY_PTR :: "gc \<Rightarrow> mp_uint_t \<Rightarrow> bool" where
  "VERIFY_PTR gc ptr = (ptr AND 15 = 0 \<and> gc_pool_start gc \<le> unat ptr \<and> unat ptr < gc_pool_end gc)"

section \<open>Two bits in a byte\<close>

lemma three_mask: "(3 :: u8) = mask 2"
  by (simp add: mask_eq_exp_minus_1)

lemma lane_bits:
  assumes "v AND 3 = (v :: u8)"
  shows "bit v k \<Longrightarrow> k < 2" "n < 2 \<Longrightarrow> i \<noteq> j \<Longrightarrow> 2 * i \<le> 2 * j + n \<Longrightarrow> \<not> bit v (2 * j + n - 2 * i)"
proof -
  have v: "bit v k \<Longrightarrow> k < 2" for k using arg_cong [OF assms, of "\<lambda>v. bit v k"] by (simp add: three_mask bit_simps)
  show "bit v k \<Longrightarrow> k < 2" by (rule v)
  show "\<not> bit v (2 * j + n - 2 * i)" if "n < 2" "i \<noteq> j" "2 * i \<le> 2 * j + n"
    using v [of "2 * j + n - 2 * i"] that by linarith
qed

lemma lane_or:
  assumes "v AND 3 = (v :: u8)" "i < 4" "j < 4"
  shows "drop_bit (2 * j) (x OR push_bit (2 * i) v) AND 3 = (drop_bit (2 * j) x AND 3) OR (if i = j then v else 0)"
proof (rule bit_word_eqI)
  fix n assume "n < LENGTH(8)"
  have "2 * j + n < 8" if "n < 2" using that assms(3) by simp
  then show "bit (drop_bit (2 * j) (x OR push_bit (2 * i) v) AND 3) n = bit ((drop_bit (2 * j) x AND 3) OR (if i = j then v else 0)) n"
    using lane_bits [OF assms(1), of n] lane_bits(2) [OF assms(1), of n i j] by (auto simp: three_mask bit_simps simp del: mult_le_cancel1)
qed

lemma lane_and_not:
  assumes "v AND 3 = (v :: u8)" "i < 4" "j < 4"
  shows "drop_bit (2 * j) (x AND NOT (push_bit (2 * i) v)) AND 3 = (drop_bit (2 * j) x AND 3) AND NOT (if i = j then v else 0)"
proof (rule bit_word_eqI)
  fix n assume "n < LENGTH(8)"
  have "2 * j + n < 8" if "n < 2" using that assms(3) by simp
  then show "bit (drop_bit (2 * j) (x AND NOT (push_bit (2 * i) v)) AND 3) n = bit ((drop_bit (2 * j) x AND 3) AND NOT (if i = j then v else 0)) n"
    using lane_bits [OF assms(1), of n] lane_bits(2) [OF assms(1), of n i j] by (auto simp: three_mask bit_simps simp del: mult_le_cancel1)
qed

lemma kind_cases: "ATB_GET_KIND gc b = 0 \<or> ATB_GET_KIND gc b = 1 \<or> ATB_GET_KIND gc b = 2 \<or> ATB_GET_KIND gc b = 3"
proof -
  have "x AND 3 = 0 \<or> x AND 3 = 1 \<or> x AND 3 = 2 \<or> x AND 3 = 3" for x :: u8
  proof -
    have "x AND 3 = take_bit 2 x" by (simp only: three_mask take_bit_eq_mask)
    then have "unat (x AND 3) = take_bit 2 (unat x)" by (simp only: unsigned_take_bit_eq)
    then have "unat (x AND 3) < 4" by (simp add: take_bit_eq_mod)
    moreover have "x AND 3 = of_nat (unat (x AND 3))" by simp
    ultimately show ?thesis by (cases "unat (x AND 3)" rule: nat.exhaust) (auto simp: numeral_eq_Suc less_Suc_eq)
  qed
  then show ?thesis unfolding ATB_GET_KIND_def by blast
qed

section \<open>What the macros do\<close>

text \<open>
  The shape of the heap: the tables are long enough, the pool has one block per entry and is
  aligned, and addresses fit a word.
\<close>

definition gc_shape :: "gc \<Rightarrow> bool" where
  "gc_shape gc \<longleftrightarrow> gc_alloc_table_byte_len gc + (gc_blocks gc + 7) div BLOCKS_PER_FTB \<le> length (gc_table gc)
     \<and> gc_pool_end gc = gc_pool_start gc + gc_blocks gc * BYTES_PER_BLOCK \<and> gc_pool_start gc mod BYTES_PER_BLOCK = 0
     \<and> 0 < gc_pool_start gc \<and> gc_pool_end gc < 2 ^ 32"

lemma lane_lt: "block mod 4 < (4 :: nat)" by simp

lemma kind_or:
  assumes "v AND 3 = v" "b < 4 * length (gc_table gc)"
  shows "ATB_GET_KIND (atb_or v b gc) c = ATB_GET_KIND gc c OR (if c = b then v else 0)"
proof (cases "c div 4 = b div 4")
  case True
  then have "(b mod 4 = c mod 4) = (c = b)" by (metis div_mod_decomp)
  then show ?thesis using assms True lane_or [OF assms(1) lane_lt [of b] lane_lt [of c]]
    by (simp add: ATB_GET_KIND_def atb_or_def BLOCK_SHIFT_def div_less_iff_less_mult mult.commute)
qed (use assms in \<open>auto simp: ATB_GET_KIND_def atb_or_def\<close>)

lemma kind_and_not:
  assumes "v AND 3 = v" "b < 4 * length (gc_table gc)"
  shows "ATB_GET_KIND (atb_and_not v b gc) c = ATB_GET_KIND gc c AND NOT (if c = b then v else 0)"
proof (cases "c div 4 = b div 4")
  case True
  then have "(b mod 4 = c mod 4) = (c = b)" by (metis div_mod_decomp)
  then show ?thesis using assms True lane_and_not [OF assms(1) lane_lt [of b] lane_lt [of c]]
    by (simp add: ATB_GET_KIND_def atb_and_not_def BLOCK_SHIFT_def div_less_iff_less_mult mult.commute)
qed (use assms in \<open>auto simp: ATB_GET_KIND_def atb_and_not_def\<close>)

lemma shape_table:
  assumes "gc_shape gc" "b < gc_blocks gc"
  shows "b < 4 * length (gc_table gc)" "b div 4 < gc_alloc_table_byte_len gc" "b div 4 < length (gc_table gc)"
    "gc_alloc_table_byte_len gc + b div 8 < length (gc_table gc)"
  using assms by (auto simp: gc_shape_def)

lemma atb_frame [simp]:
  "gc_alloc_table_byte_len (atb_or v b gc) = gc_alloc_table_byte_len gc" "gc_alloc_table_byte_len (atb_and_not v b gc) = gc_alloc_table_byte_len gc"
  "gc_pool_start (atb_or v b gc) = gc_pool_start gc" "gc_pool_start (atb_and_not v b gc) = gc_pool_start gc"
  "gc_pool_end (atb_or v b gc) = gc_pool_end gc" "gc_pool_end (atb_and_not v b gc) = gc_pool_end gc"
  "gc_mem (atb_or v b gc) = gc_mem gc" "gc_mem (atb_and_not v b gc) = gc_mem gc"
  "gc_stack_overflow (atb_or v b gc) = gc_stack_overflow gc" "gc_stack_overflow (atb_and_not v b gc) = gc_stack_overflow gc"
  "gc_last_free_atb_index (atb_or v b gc) = gc_last_free_atb_index gc" "gc_last_free_atb_index (atb_and_not v b gc) = gc_last_free_atb_index gc"
  "gc_lock_depth (atb_or v b gc) = gc_lock_depth gc" "gc_lock_depth (atb_and_not v b gc) = gc_lock_depth gc"
  "gc_auto_collect_enabled (atb_or v b gc) = gc_auto_collect_enabled gc"
  "gc_auto_collect_enabled (atb_and_not v b gc) = gc_auto_collect_enabled gc"
  "gc_alloc_threshold (atb_or v b gc) = gc_alloc_threshold gc" "gc_alloc_threshold (atb_and_not v b gc) = gc_alloc_threshold gc"
  "gc_alloc_amount (atb_or v b gc) = gc_alloc_amount gc" "gc_alloc_amount (atb_and_not v b gc) = gc_alloc_amount gc"
  "length (gc_table (atb_or v b gc)) = length (gc_table gc)" "length (gc_table (atb_and_not v b gc)) = length (gc_table gc)"
  by (simp_all add: atb_or_def atb_and_not_def)

lemmas atb_defs = ATB_ANY_TO_FREE_def ATB_FREE_TO_HEAD_def ATB_FREE_TO_TAIL_def ATB_HEAD_TO_MARK_def ATB_MARK_TO_HEAD_def

lemma kind_step:
  assumes "gc_shape gc" "b < gc_blocks gc"
  shows "ATB_GET_KIND (ATB_ANY_TO_FREE b gc) c = (if c = b then AT_FREE else ATB_GET_KIND gc c)"
    "ATB_GET_KIND gc b = AT_FREE \<Longrightarrow> ATB_GET_KIND (ATB_FREE_TO_HEAD b gc) c = (if c = b then AT_HEAD else ATB_GET_KIND gc c)"
    "ATB_GET_KIND gc b = AT_FREE \<Longrightarrow> ATB_GET_KIND (ATB_FREE_TO_TAIL b gc) c = (if c = b then AT_TAIL else ATB_GET_KIND gc c)"
    "ATB_GET_KIND gc b = AT_HEAD \<Longrightarrow> ATB_GET_KIND (ATB_HEAD_TO_MARK b gc) c = (if c = b then AT_MARK else ATB_GET_KIND gc c)"
    "ATB_GET_KIND gc b = AT_MARK \<Longrightarrow> ATB_GET_KIND (ATB_MARK_TO_HEAD b gc) c = (if c = b then AT_HEAD else ATB_GET_KIND gc c)"
  using kind_cases [of gc b] by (auto simp: atb_defs kind_or kind_and_not shape_table [OF assms])

lemma kind_step_overrun:
  assumes "b < 4 * length (gc_table gc)"
  shows "ATB_GET_KIND (ATB_ANY_TO_FREE b gc) c = (if c = b then AT_FREE else ATB_GET_KIND gc c)"
  using kind_cases [of gc b] assms by (auto simp: atb_defs kind_and_not)

lemma shape_atb [simp]: "gc_shape (atb_or v b gc) = gc_shape gc" "gc_shape (atb_and_not v b gc) = gc_shape gc"
  by (simp_all add: gc_shape_def)

lemma FTB_atb:
  assumes "b < gc_blocks gc"
  shows "FTB_GET (atb_or v b gc) c = FTB_GET gc c" "FTB_GET (atb_and_not v b gc) c = FTB_GET gc c"
  using assms by (auto simp: FTB_GET_def atb_or_def atb_and_not_def)

text \<open>The finaliser table.\<close>

lemma and_1_bit: "(drop_bit n (x :: u8) AND 1 \<noteq> 0) = bit x n"
  by (simp add: and_one_eq odd_iff_mod_2_eq_one [symmetric] bit_iff_odd_drop_bit)

lemma FTB_GET_bit: "FTB_GET gc block = bit (gc_table gc ! (gc_alloc_table_byte_len gc + block div 8)) (block mod 8)"
  by (simp only: FTB_GET_def and_1_bit)

lemma FTB_step:
  assumes "gc_shape gc" "b < gc_blocks gc"
  shows "FTB_GET (FTB_SET b gc) c = (c = b \<or> FTB_GET gc c)" "FTB_GET (FTB_CLEAR b gc) c = (c \<noteq> b \<and> FTB_GET gc c)"
proof -
  have "(c div 8 = b div 8 \<and> b mod 8 = c mod 8) = (c = b)" by (metis div_mod_decomp)
  moreover have "c mod 8 < 8" by simp
  ultimately show "FTB_GET (FTB_SET b gc) c = (c = b \<or> FTB_GET gc c)" "FTB_GET (FTB_CLEAR b gc) c = (c \<noteq> b \<and> FTB_GET gc c)"
    using shape_table(4) [OF assms] by (auto simp: FTB_GET_bit FTB_SET_def FTB_CLEAR_def Let_def nth_list_update bit_simps)
qed

lemma FTB_frame [simp]:
  "gc_alloc_table_byte_len (FTB_SET b gc) = gc_alloc_table_byte_len gc" "gc_alloc_table_byte_len (FTB_CLEAR b gc) = gc_alloc_table_byte_len gc"
  "gc_pool_start (FTB_SET b gc) = gc_pool_start gc" "gc_pool_start (FTB_CLEAR b gc) = gc_pool_start gc"
  "gc_pool_end (FTB_SET b gc) = gc_pool_end gc" "gc_pool_end (FTB_CLEAR b gc) = gc_pool_end gc"
  "gc_mem (FTB_SET b gc) = gc_mem gc" "gc_mem (FTB_CLEAR b gc) = gc_mem gc"
  "gc_last_free_atb_index (FTB_SET b gc) = gc_last_free_atb_index gc" "gc_last_free_atb_index (FTB_CLEAR b gc) = gc_last_free_atb_index gc"
  "gc_lock_depth (FTB_SET b gc) = gc_lock_depth gc" "gc_lock_depth (FTB_CLEAR b gc) = gc_lock_depth gc"
  "gc_auto_collect_enabled (FTB_SET b gc) = gc_auto_collect_enabled gc" "gc_auto_collect_enabled (FTB_CLEAR b gc) = gc_auto_collect_enabled gc"
  "length (gc_table (FTB_SET b gc)) = length (gc_table gc)" "length (gc_table (FTB_CLEAR b gc)) = length (gc_table gc)"
  by (simp_all add: FTB_SET_def FTB_CLEAR_def Let_def)

lemma shape_FTB [simp]: "gc_shape (FTB_SET b gc) = gc_shape gc" "gc_shape (FTB_CLEAR b gc) = gc_shape gc"
  by (simp_all add: gc_shape_def)

lemma kind_FTB:
  assumes "c < gc_blocks gc"
  shows "ATB_GET_KIND (FTB_SET b gc) c = ATB_GET_KIND gc c" "ATB_GET_KIND (FTB_CLEAR b gc) c = ATB_GET_KIND gc c"
  using assms by (auto simp: ATB_GET_KIND_def FTB_SET_def FTB_CLEAR_def Let_def nth_list_update)

end
