(* ===== verification/Gc.thy ===== *)
theory Gc
  imports Gc_Table "HOL-Library.Monad_Syntax"
begin

text \<open>
  The operations of the garbage collector, \<open>src/py/gc.c\<close>: initialisation, marking with a bounded
  stack and its overflow, sweeping with finalisers, allocation, freeing and reallocation. The
  roots of a collection, which the port collects from registers and stacks, are an argument, as is
  the effect \<open>del\<close> that loading and calling the finaliser of an object has on the memory: while a
  collection holds the lock, a finaliser can neither allocate nor free.

  A loop over a chain of blocks reads the allocation table until an entry is not a tail; reading
  beyond the two tables is \<open>None\<close>.
\<close>

section \<open>Initialisation and locking\<close>

text \<open>
  \<open>gc_init\<close>, with the memory that the tables have afterwards: both cleared, and what lies between
  the tables and the pool (\<open>gap\<close>). The assertion on the layout is the option.
\<close>

definition gc_init_alloc_table_byte_len :: "nat \<Rightarrow> nat" where
  "gc_init_alloc_table_byte_len total_byte_len =
     total_byte_len * 8 mod 2 ^ 32 div (8 + 8 * BLOCKS_PER_ATB div BLOCKS_PER_FTB + 8 * BLOCKS_PER_ATB * BYTES_PER_BLOCK)"

definition gc_init :: "u8 list \<Rightarrow> (nat \<Rightarrow> mp_uint_t) \<Rightarrow> nat \<Rightarrow> nat \<Rightarrow> gc option" where
  "gc_init gap mem start end =
     (let end = end div BYTES_PER_BLOCK * BYTES_PER_BLOCK;
          total_byte_len = end - start;
          alloc_table_byte_len = gc_init_alloc_table_byte_len total_byte_len;
          finaliser_table_byte_len = (alloc_table_byte_len * BLOCKS_PER_ATB + BLOCKS_PER_FTB - 1) div BLOCKS_PER_FTB;
          pool_block_len = alloc_table_byte_len * BLOCKS_PER_ATB;
          pool_start = end - pool_block_len * BYTES_PER_BLOCK
      in if start + alloc_table_byte_len + finaliser_table_byte_len \<le> pool_start
         then Some \<lparr>gc_table = replicate alloc_table_byte_len 0 @ replicate finaliser_table_byte_len 0 @ gap,
           gc_alloc_table_byte_len = alloc_table_byte_len, gc_pool_start = pool_start, gc_pool_end = end, gc_mem = mem,
           gc_stack_overflow = False, gc_last_free_atb_index = 0, gc_lock_depth = 0, gc_auto_collect_enabled = True,
           gc_alloc_threshold = - 1, gc_alloc_amount = 0\<rparr>
         else None)"

definition gc_lock :: "gc \<Rightarrow> gc" where
  "gc_lock gc = gc\<lparr>gc_lock_depth := gc_lock_depth gc + 1\<rparr>"

definition gc_unlock :: "gc \<Rightarrow> gc" where
  "gc_unlock gc = gc\<lparr>gc_lock_depth := gc_lock_depth gc - 1\<rparr>"

definition gc_is_locked :: "gc \<Rightarrow> bool" where
  "gc_is_locked gc = (gc_lock_depth gc \<noteq> 0)"

section \<open>Marking\<close>

text \<open>The number of tails from a block on, and the length of the chain that a head starts.\<close>

function gc_tails :: "gc \<Rightarrow> nat \<Rightarrow> nat option" where
  "gc_tails gc block =
     (if length (gc_table gc) \<le> block div BLOCKS_PER_ATB then None
      else if ATB_GET_KIND gc block = AT_TAIL then map_option Suc (gc_tails gc (block + 1))
      else Some 0)"
  by pat_completeness auto
termination
  by (relation "measure (\<lambda>(gc, block). 4 * length (gc_table gc) - block)") auto

declare gc_tails.simps [simp del]

definition gc_n_blocks :: "gc \<Rightarrow> nat \<Rightarrow> nat option" where
  "gc_n_blocks gc block = map_option Suc (gc_tails gc (block + 1))"

definition MICROPY_ALLOC_GC_STACK_SIZE :: nat where
  "MICROPY_ALLOC_GC_STACK_SIZE = 64"

text \<open>One word of the block on top of the stack; the head of the list is the top of the stack.\<close>

definition gc_mark_child :: "mp_uint_t \<Rightarrow> gc \<times> nat list \<Rightarrow> gc \<times> nat list" where
  "gc_mark_child ptr = (\<lambda>(gc, stack).
     if VERIFY_PTR gc ptr then
       let childblock = BLOCK_FROM_PTR gc ptr
       in if ATB_GET_KIND gc childblock = AT_HEAD then
            let gc = ATB_HEAD_TO_MARK childblock gc
            in if length stack < MICROPY_ALLOC_GC_STACK_SIZE then (gc, childblock # stack)
               else (gc\<lparr>gc_stack_overflow := True\<rparr>, stack)
          else (gc, stack)
     else (gc, stack))"

text \<open>The words of a chain of blocks.\<close>

definition gc_words :: "gc \<Rightarrow> nat \<Rightarrow> nat \<Rightarrow> mp_uint_t list" where
  "gc_words gc block n_blocks = map (gc_mem gc) [block * WORDS_PER_BLOCK..<(block + n_blocks) * WORDS_PER_BLOCK]"

partial_function (option) gc_mark_subtree_loop :: "gc \<Rightarrow> nat \<Rightarrow> nat list \<Rightarrow> gc option" where
  "gc_mark_subtree_loop gc block stack =
     Option.bind (gc_n_blocks gc block)
       (\<lambda>n_blocks.
          let (gc, stack) = fold gc_mark_child (gc_words gc block n_blocks) (gc, stack)
          in case stack of
               [] \<Rightarrow> Some gc
             | block # stack \<Rightarrow> gc_mark_subtree_loop gc block stack)"

definition gc_mark_subtree :: "nat \<Rightarrow> gc \<Rightarrow> gc option" where
  "gc_mark_subtree block gc = gc_mark_subtree_loop gc block []"

text \<open>Iteration over a list with steps that may fail.\<close>

fun fold_bind :: "('a \<Rightarrow> 's \<Rightarrow> 's option) \<Rightarrow> 'a list \<Rightarrow> 's \<Rightarrow> 's option" where
  "fold_bind f [] s = Some s"
| "fold_bind f (x # xs) s = Option.bind (f x s) (fold_bind f xs)"

definition gc_rescan_block :: "nat \<Rightarrow> gc \<Rightarrow> gc option" where
  "gc_rescan_block block gc = (if ATB_GET_KIND gc block = AT_MARK then gc_mark_subtree block gc else Some gc)"

definition gc_rescan :: "gc \<Rightarrow> gc option" where
  "gc_rescan gc = fold_bind gc_rescan_block [0..<gc_blocks gc] (gc\<lparr>gc_stack_overflow := False\<rparr>)"

partial_function (option) gc_deal_with_stack_overflow :: "gc \<Rightarrow> gc option" where
  "gc_deal_with_stack_overflow gc =
     (if gc_stack_overflow gc then Option.bind (gc_rescan gc) gc_deal_with_stack_overflow
      else Some gc)"

definition gc_collect_root_ptr :: "mp_uint_t \<Rightarrow> gc \<Rightarrow> gc option" where
  "gc_collect_root_ptr ptr gc =
     (if VERIFY_PTR gc ptr then
        let block = BLOCK_FROM_PTR gc ptr
        in if ATB_GET_KIND gc block = AT_HEAD then gc_mark_subtree block (ATB_HEAD_TO_MARK block gc) else Some gc
      else Some gc)"

definition gc_collect_root :: "mp_uint_t list \<Rightarrow> gc \<Rightarrow> gc option" where
  "gc_collect_root = fold_bind gc_collect_root_ptr"

section \<open>Sweeping\<close>

text \<open>
  The state of the sweep is the heap, the flag \<open>free_tail\<close>, and the blocks whose finaliser has been
  looked up and called.
\<close>

definition gc_finalise :: "(nat \<Rightarrow> (nat \<Rightarrow> mp_uint_t) \<Rightarrow> nat \<Rightarrow> mp_uint_t) \<Rightarrow> nat \<Rightarrow> gc \<times> nat list \<Rightarrow> gc \<times> nat list" where
  "gc_finalise del block = (\<lambda>(gc, log).
     if FTB_GET gc block then
       (if gc_mem gc (block * WORDS_PER_BLOCK) \<noteq> 0
        then (FTB_CLEAR block (gc\<lparr>gc_mem := del block (gc_mem gc)\<rparr>), log @ [block])
        else (FTB_CLEAR block gc, log))
     else (gc, log))"

definition gc_sweep_block ::
  "(nat \<Rightarrow> (nat \<Rightarrow> mp_uint_t) \<Rightarrow> nat \<Rightarrow> mp_uint_t) \<Rightarrow> nat \<Rightarrow> gc \<times> bool \<times> nat list \<Rightarrow> gc \<times> bool \<times> nat list" where
  "gc_sweep_block del block = (\<lambda>(gc, free_tail, log).
     if ATB_GET_KIND gc block = AT_HEAD then
       let (gc, log) = gc_finalise del block (gc, log) in (ATB_ANY_TO_FREE block gc, True, log)
     else if ATB_GET_KIND gc block = AT_TAIL then
       (if free_tail then ATB_ANY_TO_FREE block gc else gc, free_tail, log)
     else if ATB_GET_KIND gc block = AT_MARK then (ATB_MARK_TO_HEAD block gc, False, log)
     else (gc, free_tail, log))"

definition gc_sweep :: "(nat \<Rightarrow> (nat \<Rightarrow> mp_uint_t) \<Rightarrow> nat \<Rightarrow> mp_uint_t) \<Rightarrow> gc \<Rightarrow> gc \<times> nat list" where
  "gc_sweep del gc = (let (gc, free_tail, log) = fold (gc_sweep_block del) [0..<gc_blocks gc] (gc, False, []) in (gc, log))"

definition gc_collect_start :: "mp_uint_t list \<Rightarrow> gc \<Rightarrow> gc option" where
  "gc_collect_start roots gc =
     gc_collect_root roots (gc\<lparr>gc_lock_depth := gc_lock_depth gc + 1, gc_alloc_amount := 0, gc_stack_overflow := False\<rparr>)"

definition gc_collect_end :: "(nat \<Rightarrow> (nat \<Rightarrow> mp_uint_t) \<Rightarrow> nat \<Rightarrow> mp_uint_t) \<Rightarrow> gc \<Rightarrow> (gc \<times> nat list) option" where
  "gc_collect_end del gc = do {
     gc \<leftarrow> gc_deal_with_stack_overflow gc;
     let (gc, log) = gc_sweep del gc;
     Some (gc\<lparr>gc_last_free_atb_index := 0, gc_lock_depth := gc_lock_depth gc - 1\<rparr>, log) }"

definition gc_sweep_all :: "(nat \<Rightarrow> (nat \<Rightarrow> mp_uint_t) \<Rightarrow> nat \<Rightarrow> mp_uint_t) \<Rightarrow> gc \<Rightarrow> (gc \<times> nat list) option" where
  "gc_sweep_all del gc = gc_collect_end del (gc\<lparr>gc_lock_depth := gc_lock_depth gc + 1, gc_stack_overflow := False\<rparr>)"

text \<open>\<open>gc_collect\<close> of a port: the roots of the interpreter state, then the registers and the stacks.\<close>

definition gc_collect ::
  "(nat \<Rightarrow> (nat \<Rightarrow> mp_uint_t) \<Rightarrow> nat \<Rightarrow> mp_uint_t) \<Rightarrow> mp_uint_t list \<Rightarrow> mp_uint_t list \<Rightarrow> gc \<Rightarrow> (gc \<times> nat list) option" where
  "gc_collect del state_roots stack_roots gc = do {
     gc \<leftarrow> gc_collect_start state_roots gc;
     gc \<leftarrow> gc_collect_root stack_roots gc;
     gc_collect_end del gc }"

section \<open>Allocation\<close>

text \<open>
  The search for a run of free blocks: the four blocks of a byte of the allocation table in turn,
  with the number of free blocks just before. \<open>Inl\<close> is the block where a long enough run ends.
\<close>

definition ATB_IS_FREE :: "nat \<Rightarrow> u8 \<Rightarrow> bool" where
  "ATB_IS_FREE lane a = (a AND [0x03, 0x0c, 0x30, 0xc0] ! lane = 0)"

fun gc_scan_byte :: "nat \<Rightarrow> nat \<Rightarrow> u8 \<Rightarrow> nat list \<Rightarrow> nat \<Rightarrow> nat \<times> nat + nat" where
  "gc_scan_byte n_blocks i a [] n_free = Inr n_free"
| "gc_scan_byte n_blocks i a (lane # lanes) n_free =
     (if ATB_IS_FREE lane a then
        (if n_free + 1 \<ge> n_blocks then Inl (i * BLOCKS_PER_ATB + lane, n_free + 1)
         else gc_scan_byte n_blocks i a lanes (n_free + 1))
      else gc_scan_byte n_blocks i a lanes 0)"

fun gc_find_run :: "gc \<Rightarrow> nat \<Rightarrow> nat list \<Rightarrow> nat \<Rightarrow> (nat \<times> nat) option" where
  "gc_find_run gc n_blocks [] n_free = None"
| "gc_find_run gc n_blocks (i # is) n_free =
     (case gc_scan_byte n_blocks i (gc_table gc ! i) [0, 1, 2, 3] n_free of
        Inl found \<Rightarrow> Some found
      | Inr n_free \<Rightarrow> gc_find_run gc n_blocks is n_free)"

definition gc_search :: "gc \<Rightarrow> nat \<Rightarrow> (nat \<times> nat) option" where
  "gc_search gc n_blocks = gc_find_run gc n_blocks [gc_last_free_atb_index gc..<gc_alloc_table_byte_len gc] 0"

text \<open>
  The rest of \<open>gc_alloc\<close> once a run of \<open>n_free\<close> blocks that ends in block \<open>i\<close> is found. The start
  \<open>i - n_free + 1\<close> is computed modulo the word size in the code, so the order of the two operations
  does not matter there.
\<close>

definition gc_zero :: "nat \<Rightarrow> nat \<Rightarrow> gc \<Rightarrow> gc" where
  "gc_zero block n_blocks gc =
     gc\<lparr>gc_mem := (\<lambda>w. if block * WORDS_PER_BLOCK \<le> w \<and> w < (block + n_blocks) * WORDS_PER_BLOCK then 0 else gc_mem gc w)\<rparr>"

definition gc_take :: "nat \<Rightarrow> bool \<Rightarrow> nat \<Rightarrow> nat \<Rightarrow> gc \<Rightarrow> gc \<times> mp_uint_t" where
  "gc_take n_blocks has_finaliser i n_free gc =
     (let end_block = i;
          start_block = i + 1 - n_free;
          gc = (if n_free = 1 then gc\<lparr>gc_last_free_atb_index := (i + 1) div BLOCKS_PER_ATB\<rparr> else gc);
          gc = ATB_FREE_TO_HEAD start_block gc;
          gc = fold ATB_FREE_TO_TAIL [start_block + 1..<end_block + 1] gc;
          ret_ptr = PTR_FROM_BLOCK gc start_block;
          gc = gc\<lparr>gc_alloc_amount := gc_alloc_amount gc + of_nat n_blocks\<rparr>;
          gc = gc_zero start_block (end_block - start_block + 1) gc;
          gc = (if has_finaliser then FTB_SET start_block (gc\<lparr>gc_mem := (gc_mem gc)(start_block * WORDS_PER_BLOCK := 0)\<rparr>) else gc)
      in (gc, ret_ptr))"

text \<open>
  \<open>gc_alloc\<close>: at most one collection, by the threshold or because no run was found. The result is
  the heap, the pointer or \<open>None\<close> for \<open>NULL\<close>, and the finalisers that ran.
\<close>

definition gc_alloc_n_blocks :: "mp_uint_t \<Rightarrow> nat" where
  "gc_alloc_n_blocks n_bytes = unat (((n_bytes + 15) AND NOT 15) div 16)"

definition gc_alloc_after ::
  "nat \<Rightarrow> bool \<Rightarrow> gc \<Rightarrow> gc \<times> mp_uint_t option" where
  "gc_alloc_after n_blocks has_finaliser gc =
     (case gc_search gc n_blocks of
        None \<Rightarrow> (gc, None)
      | Some (i, n_free) \<Rightarrow> map_prod id Some (gc_take n_blocks has_finaliser i n_free gc))"

definition gc_alloc ::
  "(gc \<Rightarrow> (gc \<times> nat list) option) \<Rightarrow> mp_uint_t \<Rightarrow> bool \<Rightarrow> gc \<Rightarrow> (gc \<times> mp_uint_t option \<times> nat list) option" where
  "gc_alloc collect n_bytes has_finaliser gc =
     (let n_blocks = gc_alloc_n_blocks n_bytes
      in if n_blocks = 0 then Some (gc, None, [])
         else if gc_lock_depth gc > 0 then Some (gc, None, [])
         else do {
           (gc, collected, log) \<leftarrow>
             (if gc_auto_collect_enabled gc \<and> gc_alloc_amount gc \<ge> gc_alloc_threshold gc
              then map_option (\<lambda>(gc, log). (gc, True, log)) (collect gc)
              else Some (gc, \<not> gc_auto_collect_enabled gc, []));
           case gc_search gc n_blocks of
             Some (i, n_free) \<Rightarrow> let (gc, p) = gc_take n_blocks has_finaliser i n_free gc in Some (gc, Some p, log)
           | None \<Rightarrow>
               if collected then Some (gc, None, log)
               else map_option (\<lambda>(gc, log). let (gc, p) = gc_alloc_after n_blocks has_finaliser gc in (gc, p, log)) (collect gc) })"

section \<open>Freeing and resizing\<close>

text \<open>The loop that frees a head and its tails; \<open>None\<close> in the option is a failed assertion.\<close>

function gc_free_chain :: "nat \<Rightarrow> gc \<Rightarrow> gc option" where
  "gc_free_chain block gc =
     (let gc = ATB_ANY_TO_FREE block gc
      in if length (gc_table gc) \<le> (block + 1) div BLOCKS_PER_ATB then None
         else if ATB_GET_KIND gc (block + 1) = AT_TAIL then gc_free_chain (block + 1) gc
         else Some gc)"
  by pat_completeness auto
termination
  by (relation "measure (\<lambda>(block, gc). 4 * length (gc_table gc) - block)") (auto simp: ATB_ANY_TO_FREE_def)

declare gc_free_chain.simps [simp del]

definition gc_free :: "mp_uint_t \<Rightarrow> gc \<Rightarrow> gc option" where
  "gc_free ptr gc =
     (if gc_lock_depth gc > 0 then Some gc
      else if ptr = 0 then Some gc
      else if \<not> VERIFY_PTR gc ptr then None
      else
        let block = BLOCK_FROM_PTR gc ptr
        in if ATB_GET_KIND gc block \<noteq> AT_HEAD then None
           else
             let gc = FTB_CLEAR block gc;
                 gc = (if block div BLOCKS_PER_ATB < gc_last_free_atb_index gc
                       then gc\<lparr>gc_last_free_atb_index := block div BLOCKS_PER_ATB\<rparr> else gc)
             in gc_free_chain block gc)"

definition gc_nbytes :: "mp_uint_t \<Rightarrow> gc \<Rightarrow> nat option" where
  "gc_nbytes ptr gc =
     (if VERIFY_PTR gc ptr \<and> ATB_GET_KIND gc (BLOCK_FROM_PTR gc ptr) = AT_HEAD
      then map_option (\<lambda>n_blocks. n_blocks * BYTES_PER_BLOCK) (gc_n_blocks gc (BLOCK_FROM_PTR gc ptr))
      else Some 0)"

text \<open>
  The count of \<open>gc_realloc\<close>: the tails of the chunk, then the free blocks behind it, until enough are
  found. A tail behind a free block, which a well-formed table does not have, is counted too.
\<close>

fun gc_realloc_count :: "gc \<Rightarrow> nat \<Rightarrow> nat list \<Rightarrow> nat \<Rightarrow> nat \<Rightarrow> nat \<times> nat" where
  "gc_realloc_count gc new_blocks [] n_blocks n_free = (n_blocks, n_free)"
| "gc_realloc_count gc new_blocks (bl # bls) n_blocks n_free =
     (if ATB_GET_KIND gc bl = AT_TAIL then gc_realloc_count gc new_blocks bls (n_blocks + 1) n_free
      else if ATB_GET_KIND gc bl = AT_FREE then
        (if n_blocks + (n_free + 1) \<ge> new_blocks then (n_blocks, n_free + 1)
         else gc_realloc_count gc new_blocks bls n_blocks (n_free + 1))
      else (n_blocks, n_free))"

definition gc_copy :: "mp_uint_t \<Rightarrow> mp_uint_t \<Rightarrow> nat \<Rightarrow> gc \<Rightarrow> gc" where
  "gc_copy dest src n_blocks gc =
     (let d = BLOCK_FROM_PTR gc dest * WORDS_PER_BLOCK; s = BLOCK_FROM_PTR gc src * WORDS_PER_BLOCK
      in gc\<lparr>gc_mem := (\<lambda>w. if d \<le> w \<and> w < d + n_blocks * WORDS_PER_BLOCK then gc_mem gc (s + (w - d)) else gc_mem gc w)\<rparr>)"

definition gc_realloc ::
  "(gc \<Rightarrow> (gc \<times> nat list) option) \<Rightarrow> mp_uint_t \<Rightarrow> mp_uint_t \<Rightarrow> bool \<Rightarrow> gc \<Rightarrow> (gc \<times> mp_uint_t option \<times> nat list) option" where
  "gc_realloc collect ptr_in n_bytes allow_move gc =
     (if ptr_in = 0 then gc_alloc collect n_bytes False gc
      else if n_bytes = 0 then map_option (\<lambda>gc. (gc, None, [])) (gc_free ptr_in gc)
      else if gc_lock_depth gc > 0 then Some (gc, None, [])
      else if \<not> VERIFY_PTR gc ptr_in \<or> ATB_GET_KIND gc (BLOCK_FROM_PTR gc ptr_in) \<noteq> AT_HEAD then None
      else
        let block = BLOCK_FROM_PTR gc ptr_in;
            new_blocks = unat ((n_bytes + 15) div 16);
            (n_blocks, n_free) = gc_realloc_count gc new_blocks [block + 1..<gc_blocks gc] 1 0
        in if new_blocks = n_blocks then Some (gc, Some ptr_in, [])
           else if new_blocks < n_blocks then
             let gc = fold ATB_ANY_TO_FREE [block + new_blocks..<block + n_blocks] gc;
                 gc = (if (block + new_blocks) div BLOCKS_PER_ATB < gc_last_free_atb_index gc
                       then gc\<lparr>gc_last_free_atb_index := (block + new_blocks) div BLOCKS_PER_ATB\<rparr> else gc)
             in Some (gc, Some ptr_in, [])
           else if new_blocks \<le> n_blocks + n_free then
             if \<not> list_all (\<lambda>bl. ATB_GET_KIND gc bl = AT_FREE) [block + n_blocks..<block + new_blocks] then None
             else
               let gc = fold ATB_FREE_TO_TAIL [block + n_blocks..<block + new_blocks] gc
               in Some (gc_zero (block + n_blocks) (new_blocks - n_blocks) gc, Some ptr_in, [])
           else if \<not> allow_move then Some (gc, None, [])
           else do {
             (gc, ptr_out, log) \<leftarrow> gc_alloc collect n_bytes (FTB_GET gc block) gc;
             case ptr_out of
               None \<Rightarrow> Some (gc, None, log)
             | Some p \<Rightarrow> map_option (\<lambda>gc. (gc, Some p, log)) (gc_free ptr_in (gc_copy p ptr_in n_blocks gc)) })"

section \<open>Statistics\<close>

text \<open>
  \<open>gc_info\<close>: the counts in blocks (\<open>used\<close> and \<open>free\<close> are multiplied by the block size at the end),
  updated block by block with the kind of the next block, for a pool of at least one block (the
  source's loop tests its end only after a block).
\<close>

record gc_info_t =
  info_total :: nat
  info_used :: nat
  info_free :: nat
  info_max_free :: nat
  info_num_1block :: nat
  info_num_2block :: nat
  info_max_block :: nat

definition gc_info_block :: "gc \<Rightarrow> nat \<Rightarrow> gc_info_t \<times> nat \<times> nat \<Rightarrow> gc_info_t \<times> nat \<times> nat" where
  "gc_info_block gc block = (\<lambda>(info, len, len_free).
     let kind = ATB_GET_KIND gc block;
         (info, len, len_free) =
           (if kind = AT_FREE then (info\<lparr>info_free := info_free info + 1\<rparr>, 0, len_free + 1)
            else if kind = AT_HEAD then (info\<lparr>info_used := info_used info + 1\<rparr>, 1, len_free)
            else if kind = AT_TAIL then (info\<lparr>info_used := info_used info + 1\<rparr>, len + 1, len_free)
            else (info, len, len_free));
         finish = (block + 1 = gc_blocks gc);
         kind = (if finish then kind else ATB_GET_KIND gc (block + 1))
     in if finish \<or> kind = AT_FREE \<or> kind = AT_HEAD then
          let info = (if len = 1 then info\<lparr>info_num_1block := info_num_1block info + 1\<rparr>
                      else if len = 2 then info\<lparr>info_num_2block := info_num_2block info + 1\<rparr> else info);
              info = (if len > info_max_block info then info\<lparr>info_max_block := len\<rparr> else info)
          in if finish \<or> kind = AT_HEAD then
               (if len_free > info_max_free info then info\<lparr>info_max_free := len_free\<rparr> else info, len, 0)
             else (info, len, len_free)
        else (info, len, len_free))"

definition gc_info :: "gc \<Rightarrow> gc_info_t" where
  "gc_info gc =
     (let (info, len, len_free) = fold (gc_info_block gc) [0..<gc_blocks gc]
        (\<lparr>info_total = gc_pool_end gc - gc_pool_start gc, info_used = 0, info_free = 0, info_max_free = 0, info_num_1block = 0, info_num_2block = 0, info_max_block = 0\<rparr>, 0, 0)
      in info\<lparr>info_used := info_used info * BYTES_PER_BLOCK, info_free := info_free info * BYTES_PER_BLOCK\<rparr>)"

end
