(* ===== verification/Gc_Mark.thy ===== *)
theory Gc_Mark
  imports Gc
begin

text \<open>
  Marking terminates and, however often the stack overflows, marks exactly what is reachable from
  the roots.
\<close>

section \<open>Chains of blocks\<close>

text \<open>
  The entry behind the allocation table, which the loops over a chain read when the chain ends with
  the last block, is the beginning of the finaliser table. It must not look like a tail.
\<close>

definition table_end_ok :: "gc \<Rightarrow> bool" where
  "table_end_ok gc \<longleftrightarrow> gc_alloc_table_byte_len gc < length (gc_table gc) \<and> ATB_GET_KIND gc (gc_blocks gc) \<noteq> AT_TAIL"

lemma gc_tails_bound:
  assumes "table_end_ok gc" "b \<le> gc_blocks gc"
  shows "\<exists>n. gc_tails gc b = Some n \<and> b + n \<le> gc_blocks gc \<and> (\<forall>c. b \<le> c \<and> c < b + n \<longrightarrow> ATB_GET_KIND gc c = AT_TAIL)
    \<and> ATB_GET_KIND gc (b + n) \<noteq> AT_TAIL"
  using assms
proof (induction "gc_blocks gc - b" arbitrary: b)
  case 0
  then have b: "b = gc_blocks gc" by simp
  then have "gc_tails gc b = Some 0" using 0 by (simp add: gc_tails.simps [of gc "gc_blocks gc"] table_end_ok_def)
  then show ?case using 0 b by (intro exI [of _ 0]) (auto simp: table_end_ok_def)
next
  case (Suc d)
  have "b div 4 < length (gc_table gc)" using Suc.prems Suc.hyps(2) by (auto simp: table_end_ok_def)
  note step = gc_tails.simps [of gc b] this
  show ?case
  proof (cases "ATB_GET_KIND gc b = AT_TAIL")
    case True
    obtain n where n: "gc_tails gc (b + 1) = Some n" "b + 1 + n \<le> gc_blocks gc"
      "\<forall>c. b + 1 \<le> c \<and> c < b + 1 + n \<longrightarrow> ATB_GET_KIND gc c = AT_TAIL" "ATB_GET_KIND gc (b + 1 + n) \<noteq> AT_TAIL"
      using Suc.hyps(1) [of "b + 1"] Suc.hyps(2) Suc.prems(1) by fastforce
    have "ATB_GET_KIND gc c = AT_TAIL" if "b \<le> c" "c < b + Suc n" for c
      using n(3) that True by (cases "c = b") auto
    then show ?thesis using n(1,2,4) True step by (intro exI [of _ "Suc n"]) auto
  next
    case False
    then show ?thesis using step Suc.prems(2) by (intro exI [of _ 0]) auto
  qed
qed

text \<open>The length of the chain of a head, and the blocks that a chain points to.\<close>

definition chain_len :: "gc \<Rightarrow> nat \<Rightarrow> nat" where
  "chain_len gc b = the (gc_n_blocks gc b)"

lemma chain_len_Some:
  assumes "table_end_ok gc" "b < gc_blocks gc"
  shows "gc_n_blocks gc b = Some (chain_len gc b)" "0 < chain_len gc b" "b + chain_len gc b \<le> gc_blocks gc"
    "b < c \<Longrightarrow> c < b + chain_len gc b \<Longrightarrow> ATB_GET_KIND gc c = AT_TAIL" "ATB_GET_KIND gc (b + chain_len gc b) \<noteq> AT_TAIL"
  using gc_tails_bound [OF assms(1), of "b + 1"] assms(2) by (auto simp: gc_n_blocks_def chain_len_def)

definition is_head :: "gc \<Rightarrow> nat \<Rightarrow> bool" where
  "is_head gc b \<longleftrightarrow> b < gc_blocks gc \<and> (ATB_GET_KIND gc b = AT_HEAD \<or> ATB_GET_KIND gc b = AT_MARK)"

definition marked :: "gc \<Rightarrow> nat \<Rightarrow> bool" where
  "marked gc b \<longleftrightarrow> b < gc_blocks gc \<and> ATB_GET_KIND gc b = AT_MARK"

definition points_to :: "gc \<Rightarrow> mp_uint_t list \<Rightarrow> nat \<Rightarrow> bool" where
  "points_to gc ws c \<longleftrightarrow> is_head gc c \<and> (\<exists>w \<in> set ws. VERIFY_PTR gc w \<and> BLOCK_FROM_PTR gc w = c)"

definition gc_child :: "gc \<Rightarrow> nat \<Rightarrow> nat \<Rightarrow> bool" where
  "gc_child gc b = points_to gc (gc_words gc b (chain_len gc b))"

text \<open>The blocks that are heads and not marked.\<close>

definition unmarked :: "gc \<Rightarrow> nat set" where
  "unmarked gc = {b. b < gc_blocks gc \<and> ATB_GET_KIND gc b = AT_HEAD}"

lemma finite_unmarked [simp]: "finite (unmarked gc)"
  by (simp add: unmarked_def)

section \<open>What marking changes\<close>

definition marking :: "gc \<Rightarrow> gc \<Rightarrow> bool" where
  "marking gc gc' \<longleftrightarrow>
     (\<forall>b. ATB_GET_KIND gc' b = ATB_GET_KIND gc b \<or> (b < gc_blocks gc \<and> ATB_GET_KIND gc b = AT_HEAD \<and> ATB_GET_KIND gc' b = AT_MARK))
     \<and> (\<forall>b. FTB_GET gc' b = FTB_GET gc b) \<and> length (gc_table gc') = length (gc_table gc)
     \<and> gc_alloc_table_byte_len gc' = gc_alloc_table_byte_len gc \<and> gc_pool_start gc' = gc_pool_start gc
     \<and> gc_pool_end gc' = gc_pool_end gc \<and> gc_mem gc' = gc_mem gc \<and> gc_lock_depth gc' = gc_lock_depth gc
     \<and> gc_auto_collect_enabled gc' = gc_auto_collect_enabled gc"

lemma marking_refl [simp]: "marking gc gc"
  by (simp add: marking_def)

lemma marking_trans:
  assumes "marking a b" "marking b c"
  shows "marking a c"
  using assms unfolding marking_def by (intro conjI allI) (metis, (metis | simp)+)

lemma markingD:
  assumes "marking gc gc'"
  shows "gc_blocks gc' = gc_blocks gc" "gc_mem gc' = gc_mem gc" "is_head gc' = is_head gc" "marked gc b \<Longrightarrow> marked gc' b"
    "gc_shape gc' = gc_shape gc" "table_end_ok gc' = table_end_ok gc" "VERIFY_PTR gc' = VERIFY_PTR gc" "BLOCK_FROM_PTR gc' = BLOCK_FROM_PTR gc"
    "unmarked gc' = unmarked gc - Collect (marked gc')" "gc_alloc_table_byte_len gc' = gc_alloc_table_byte_len gc"
proof -
  have k: "ATB_GET_KIND gc' b = ATB_GET_KIND gc b \<or> (b < gc_blocks gc \<and> ATB_GET_KIND gc b = AT_HEAD \<and> ATB_GET_KIND gc' b = AT_MARK)" for b
    using assms unfolding marking_def by blast
  have f: "length (gc_table gc') = length (gc_table gc)" "gc_alloc_table_byte_len gc' = gc_alloc_table_byte_len gc"
    "gc_pool_start gc' = gc_pool_start gc" "gc_pool_end gc' = gc_pool_end gc" "gc_mem gc' = gc_mem gc"
    using assms unfolding marking_def by blast+
  show "gc_blocks gc' = gc_blocks gc" "gc_mem gc' = gc_mem gc" "gc_shape gc' = gc_shape gc" "VERIFY_PTR gc' = VERIFY_PTR gc"
    "BLOCK_FROM_PTR gc' = BLOCK_FROM_PTR gc" "gc_alloc_table_byte_len gc' = gc_alloc_table_byte_len gc"
    using f by (simp_all add: gc_shape_def VERIFY_PTR_def BLOCK_FROM_PTR_def fun_eq_iff)
  show "is_head gc' = is_head gc"
  proof
    fix b show "is_head gc' b = is_head gc b" using f(2) k [of b] by (auto simp: is_head_def)
  qed
  show "marked gc b \<Longrightarrow> marked gc' b" using f(2) k [of b] by (auto simp: marked_def)
  show "table_end_ok gc' = table_end_ok gc" using f(1,2) k [of "gc_blocks gc"] by (auto simp: table_end_ok_def)
  show "unmarked gc' = unmarked gc - Collect (marked gc')"
  proof (rule set_eqI)
    fix b show "b \<in> unmarked gc' \<longleftrightarrow> b \<in> unmarked gc - Collect (marked gc')" using f(2) k [of b] by (auto simp: unmarked_def marked_def)
  qed
qed

lemma gc_tails_cong:
  assumes "length (gc_table gc') = length (gc_table gc)" "\<And>b. (ATB_GET_KIND gc' b = AT_TAIL) = (ATB_GET_KIND gc b = AT_TAIL)"
  shows "gc_tails gc' b = gc_tails gc b"
  using assms
proof (induction gc b rule: gc_tails.induct)
  case (1 gc b)
  then show ?case unfolding gc_tails.simps [of gc' b] gc_tails.simps [of gc b] by simp
qed

lemma gc_tails_marking:
  assumes "marking gc gc'"
  shows "gc_tails gc' b = gc_tails gc b"
proof (rule gc_tails_cong)
  show "(ATB_GET_KIND gc' b = AT_TAIL) = (ATB_GET_KIND gc b = AT_TAIL)" for b
    using assms [unfolded marking_def, THEN conjunct1, THEN spec, of b] by auto
qed (use assms in \<open>simp add: marking_def\<close>)

lemma marking_child:
  assumes "marking gc gc'"
  shows "chain_len gc' = chain_len gc" "gc_child gc' = gc_child gc" "points_to gc' = points_to gc" "gc_words gc' = gc_words gc" "gc_n_blocks gc' = gc_n_blocks gc"
proof -
  note d = markingD [OF assms]
  show n: "gc_n_blocks gc' = gc_n_blocks gc" using gc_tails_marking [OF assms] by (simp add: fun_eq_iff gc_n_blocks_def)
  then show c: "chain_len gc' = chain_len gc" by (simp add: fun_eq_iff chain_len_def)
  show p: "points_to gc' = points_to gc" using d by (simp add: fun_eq_iff points_to_def)
  show w: "gc_words gc' = gc_words gc" using d by (simp add: fun_eq_iff gc_words_def)
  show "gc_child gc' = gc_child gc" by (simp add: fun_eq_iff gc_child_def c p w)
qed

section \<open>Marking steps\<close>

text \<open>
  What a part of the marking achieves, given the blocks \<open>S\<close> whose children it looks at: unless the
  stack overflowed, the children of these blocks and of all newly marked blocks are marked; what is
  newly marked is reachable from \<open>S\<close>; an overflow means progress.
\<close>

definition newly :: "gc \<Rightarrow> gc \<Rightarrow> nat set" where
  "newly gc gc' = {b. marked gc' b \<and> \<not> marked gc b}"

definition mark_step :: "gc \<Rightarrow> gc \<Rightarrow> nat set \<Rightarrow> bool" where
  "mark_step gc gc' S \<longleftrightarrow> marking gc gc' \<and> (gc_stack_overflow gc \<longrightarrow> gc_stack_overflow gc')
     \<and> (\<not> gc_stack_overflow gc' \<longrightarrow> (\<forall>b \<in> S \<union> newly gc gc'. \<forall>c. gc_child gc b c \<longrightarrow> marked gc' c))
     \<and> (\<forall>b \<in> newly gc gc'. \<exists>g \<in> S. (gc_child gc)\<^sup>*\<^sup>* g b)
     \<and> (gc_stack_overflow gc' \<and> \<not> gc_stack_overflow gc \<longrightarrow> card (unmarked gc') < card (unmarked gc))"

lemma mark_stepD:
  assumes "mark_step gc gc' S"
  shows "marking gc gc'" "gc_stack_overflow gc \<Longrightarrow> gc_stack_overflow gc'"
    "\<not> gc_stack_overflow gc' \<Longrightarrow> b \<in> S \<or> b \<in> newly gc gc' \<Longrightarrow> gc_child gc b c \<Longrightarrow> marked gc' c"
    "b \<in> newly gc gc' \<Longrightarrow> \<exists>g \<in> S. (gc_child gc)\<^sup>*\<^sup>* g b"
    "gc_stack_overflow gc' \<Longrightarrow> \<not> gc_stack_overflow gc \<Longrightarrow> card (unmarked gc') < card (unmarked gc)"
  using assms unfolding mark_step_def by blast+

lemma marking_card:
  assumes "marking gc gc'"
  shows "card (unmarked gc') \<le> card (unmarked gc)" "newly gc gc' \<subseteq> unmarked gc"
    "card (unmarked gc') + card (newly gc gc') = card (unmarked gc)"
proof -
  show "card (unmarked gc') \<le> card (unmarked gc)" unfolding markingD(9) [OF assms] by (intro card_mono) auto
  have k: "ATB_GET_KIND gc' b = ATB_GET_KIND gc b \<or> ATB_GET_KIND gc b = AT_HEAD" for b using assms unfolding marking_def by blast
  show n: "newly gc gc' \<subseteq> unmarked gc"
  proof
    fix b assume "b \<in> newly gc gc'"
    then show "b \<in> unmarked gc" using k [of b] markingD(1) [OF assms] by (auto simp: newly_def unmarked_def marked_def)
  qed
  have "unmarked gc' = unmarked gc - newly gc gc'"
    unfolding markingD(9) [OF assms] by (auto simp: newly_def unmarked_def marked_def)
  then show "card (unmarked gc') + card (newly gc gc') = card (unmarked gc)"
    using n card_Diff_subset [OF finite_subset [OF n] n] card_mono [OF _ n] by simp
qed

lemma newly_trans:
  assumes "marking a b" "marking b c"
  shows "newly a c = newly a b \<union> newly b c"
  using markingD(4) [OF assms(1)] markingD(4) [OF assms(2)] by (auto simp: newly_def)

lemma mark_step_refl: "(\<And>b c. b \<in> S \<Longrightarrow> gc_child gc b c \<Longrightarrow> marked gc c) \<Longrightarrow> mark_step gc gc S"
  by (auto simp: mark_step_def newly_def)

lemma mark_step_trans:
  assumes "mark_step a b S" "mark_step b c T" "\<And>x. x \<in> T \<Longrightarrow> \<exists>g \<in> R. (gc_child a)\<^sup>*\<^sup>* g x" "S \<subseteq> R" "R \<subseteq> S \<union> T \<union> newly a c"
  shows "mark_step a c R"
proof -
  have m: "marking a b" "marking b c" using assms(1,2) by (auto simp: mark_step_def)
  note ch = marking_child(2) [OF m(1)] and nt = newly_trans [OF m]
  have "marked c y" if "\<not> gc_stack_overflow c" "x \<in> R \<union> newly a c" "gc_child a x y" for x y
  proof -
    have "\<not> gc_stack_overflow b" using that(1) assms(2) by (auto simp: mark_step_def)
    moreover have "x \<in> S \<union> newly a b \<or> x \<in> T \<union> newly b c" using that(2) assms(5) nt by auto
    ultimately have "marked b y \<or> marked c y"
      using mark_stepD(3) [OF assms(1), of x y] mark_stepD(3) [OF assms(2) that(1), of x y] that(3) unfolding ch by blast
    then show ?thesis using markingD(4) [OF m(2)] by blast
  qed
  moreover have "\<exists>g \<in> R. (gc_child a)\<^sup>*\<^sup>* g x" if "x \<in> newly a c" for x
  proof (cases "x \<in> newly a b")
    case True
    then show ?thesis using assms(1,4) unfolding mark_step_def by blast
  next
    case False
    then have "x \<in> newly b c" using that nt by auto
    then obtain t where "t \<in> T" "(gc_child a)\<^sup>*\<^sup>* t x" using mark_stepD(4) [OF assms(2)] unfolding ch by blast
    then show ?thesis using assms(3) rtranclp_trans by metis
  qed
  moreover have "card (unmarked c) < card (unmarked a)" if "gc_stack_overflow c" "\<not> gc_stack_overflow a"
    using that assms(1,2) marking_card(1) [OF m(1)] marking_card(1) [OF m(2)] unfolding mark_step_def by (cases "gc_stack_overflow b") auto
  ultimately show ?thesis using assms(1,2) marking_trans [OF m] unfolding mark_step_def by blast
qed

text \<open>Setting a mark.\<close>

lemma HEAD_TO_MARK:
  assumes "gc_shape gc" "b < gc_blocks gc" "ATB_GET_KIND gc b = AT_HEAD"
  shows "marking gc (ATB_HEAD_TO_MARK b gc)" "marked (ATB_HEAD_TO_MARK b gc) c \<longleftrightarrow> marked gc c \<or> c = b"
    "gc_stack_overflow (ATB_HEAD_TO_MARK b gc) = gc_stack_overflow gc"
proof -
  note k = kind_step(4) [OF assms]
  show "marking gc (ATB_HEAD_TO_MARK b gc)"
    unfolding marking_def k using assms(2,3) by (simp add: atb_defs FTB_atb)
  show "marked (ATB_HEAD_TO_MARK b gc) c \<longleftrightarrow> marked gc c \<or> c = b" using assms(2) by (simp add: marked_def k) (simp add: atb_defs)
  show "gc_stack_overflow (ATB_HEAD_TO_MARK b gc) = gc_stack_overflow gc" by (simp add: atb_defs)
qed

lemma VERIFY_block:
  assumes "gc_shape gc" "VERIFY_PTR gc w"
  shows "BLOCK_FROM_PTR gc w < gc_blocks gc"
  using assms by (auto simp: gc_shape_def VERIFY_PTR_def BLOCK_FROM_PTR_def)

lemma overflow_marking: "marking gc (gc'\<lparr>gc_stack_overflow := v\<rparr>) = marking gc gc'" "marked (gc\<lparr>gc_stack_overflow := v\<rparr>) = marked gc"
  "marking (gc\<lparr>gc_stack_overflow := v\<rparr>) gc' = marking gc gc'"
  by (simp_all add: marking_def marked_def ATB_GET_KIND_def FTB_GET_def fun_eq_iff)

text \<open>The words of a chain.\<close>

lemma mark_children:
  assumes "gc_shape gc" "fold gc_mark_child ws (gc, stack) = (gc', stack')"
  shows "\<exists>new. stack' = new @ stack \<and> set new \<subseteq> newly gc gc' \<and> distinct new \<and> marking gc gc'
    \<and> newly gc gc' \<subseteq> Collect (points_to gc ws) \<and> Collect (points_to gc ws) \<subseteq> Collect (marked gc')
    \<and> (gc_stack_overflow gc \<longrightarrow> gc_stack_overflow gc') \<and> (\<not> gc_stack_overflow gc' \<longrightarrow> set new = newly gc gc')
    \<and> (gc_stack_overflow gc' \<and> \<not> gc_stack_overflow gc \<longrightarrow> newly gc gc' \<noteq> {})"
  using assms
proof (induction ws arbitrary: gc stack)
  case Nil
  then show ?case by (auto simp: newly_def points_to_def)
next
  case (Cons w ws)
  obtain gc1 stack1 where step: "gc_mark_child w (gc, stack) = (gc1, stack1)" by fastforce
  have one: "marking gc gc1 \<and> newly gc gc1 \<subseteq> Collect (points_to gc [w]) \<and> Collect (points_to gc [w]) \<subseteq> Collect (marked gc1)
    \<and> (gc_stack_overflow gc \<longrightarrow> gc_stack_overflow gc1) \<and> (\<exists>new. stack1 = new @ stack \<and> set new \<subseteq> newly gc gc1 \<and> distinct new
      \<and> (\<not> gc_stack_overflow gc1 \<longrightarrow> set new = newly gc gc1))
    \<and> (gc_stack_overflow gc1 \<and> \<not> gc_stack_overflow gc \<longrightarrow> newly gc gc1 \<noteq> {})"
  proof (cases "VERIFY_PTR gc w \<and> ATB_GET_KIND gc (BLOCK_FROM_PTR gc w) = AT_HEAD")
    case True
    let ?b = "BLOCK_FROM_PTR gc w"
    have b: "?b < gc_blocks gc" using VERIFY_block Cons.prems(1) True by blast
    note hm = HEAD_TO_MARK [OF Cons.prems(1) b conjunct2 [OF True]]
    have n: "newly gc (ATB_HEAD_TO_MARK ?b gc) = {?b}" using hm(2) b True by (auto simp: newly_def) (auto simp: marked_def)
    have p: "points_to gc [w] c \<longleftrightarrow> c = ?b" for c using True b by (auto simp: points_to_def is_head_def)
    show ?thesis
    proof (cases "length stack < MICROPY_ALLOC_GC_STACK_SIZE")
      case l: True
      then have "gc1 = ATB_HEAD_TO_MARK ?b gc" "stack1 = [?b] @ stack" using step True by (auto simp: gc_mark_child_def Let_def)
      then show ?thesis using hm n p by auto
    next
      case l: False
      then have "gc1 = (ATB_HEAD_TO_MARK ?b gc)\<lparr>gc_stack_overflow := True\<rparr>" "stack1 = stack" using step True by (auto simp: gc_mark_child_def Let_def)
      moreover from this(1) have "newly gc gc1 = {?b}" using n by (simp add: newly_def overflow_marking)
      ultimately show ?thesis using hm p by (auto simp: overflow_marking)
    qed
  next
    case False
    then have "gc1 = gc" "stack1 = stack" using step by (auto simp: gc_mark_child_def Let_def split: if_splits)
    moreover have "marked gc c" if "points_to gc [w] c" for c using that False by (auto simp: points_to_def is_head_def marked_def)
    ultimately show ?thesis by (auto simp: newly_def)
  qed
  then obtain new1 where new1: "stack1 = new1 @ stack" "set new1 \<subseteq> newly gc gc1" "distinct new1" "\<not> gc_stack_overflow gc1 \<longrightarrow> set new1 = newly gc gc1" by blast
  have m1: "marking gc gc1" using one by blast
  have "fold gc_mark_child ws (gc1, stack1) = (gc', stack')" using Cons.prems(2) step by simp
  then obtain new where new: "stack' = new @ stack1" "set new \<subseteq> newly gc1 gc'" "distinct new" "marking gc1 gc'"
    "newly gc1 gc' \<subseteq> Collect (points_to gc1 ws)" "Collect (points_to gc1 ws) \<subseteq> Collect (marked gc')"
    "gc_stack_overflow gc1 \<longrightarrow> gc_stack_overflow gc'" "\<not> gc_stack_overflow gc' \<longrightarrow> set new = newly gc1 gc'"
    "gc_stack_overflow gc' \<and> \<not> gc_stack_overflow gc1 \<longrightarrow> newly gc1 gc' \<noteq> {}"
    using Cons.IH [of gc1 stack1] Cons.prems(1) markingD(5) [OF m1] by blast
  note nt = newly_trans [OF m1 new(4)]
  have pt: "points_to gc1 = points_to gc" by (rule marking_child(3) [OF m1])
  have cons: "Collect (points_to gc (w # ws)) = Collect (points_to gc [w]) \<union> Collect (points_to gc ws)" by (auto simp: points_to_def)
  have disj: "newly gc gc1 \<inter> newly gc1 gc' = {}" by (auto simp: newly_def)
  have mm: "Collect (marked gc1) \<subseteq> Collect (marked gc')" using markingD(4) [OF new(4)] by blast
  have o: "newly gc gc1 \<subseteq> Collect (points_to gc [w])" "Collect (points_to gc [w]) \<subseteq> Collect (marked gc1)"
    "gc_stack_overflow gc \<longrightarrow> gc_stack_overflow gc1" "gc_stack_overflow gc1 \<and> \<not> gc_stack_overflow gc \<longrightarrow> newly gc gc1 \<noteq> {}"
    using one by simp_all
  show ?case
  proof (intro exI [of _ "new @ new1"] conjI)
    show "stack' = (new @ new1) @ stack" using new(1) new1(1) by simp
    show "distinct (new @ new1)" using new(2,3) new1(2,3) disj by auto
    show "marking gc gc'" by (rule marking_trans [OF m1 new(4)])
    show "Collect (points_to gc (w # ws)) \<subseteq> Collect (marked gc')" unfolding cons using subset_trans [OF o(2) mm] new(6) [unfolded pt] by (rule Un_least)
    show "gc_stack_overflow gc' \<and> \<not> gc_stack_overflow gc \<longrightarrow> newly gc gc' \<noteq> {}" unfolding nt using new(9) o(4) by auto
    show "set (new @ new1) \<subseteq> newly gc gc'" using nt new(2) new1(2) by auto
    show "newly gc gc' \<subseteq> Collect (points_to gc (w # ws))" unfolding nt cons using o(1) new(5) [unfolded pt] by (rule Un_mono)
    show "gc_stack_overflow gc \<longrightarrow> gc_stack_overflow gc'" using new(7) o(3) by blast
    show "\<not> gc_stack_overflow gc' \<longrightarrow> set (new @ new1) = newly gc gc'" using nt new(7,8) new1(4) by auto
  qed
qed

section \<open>Marking terminates\<close>

text \<open>
  Each round of the loop takes one block off the stack and pushes at most as many as it marks, so the
  number of unmarked heads and the height of the stack together decrease.
\<close>

lemma mark_round:
  assumes m: "marking gc gc1" and st: "mark_step gc1 gc' G" and G: "G = set new \<union> S"
    and new: "set new \<subseteq> newly gc gc1" "newly gc gc1 \<subseteq> Collect (gc_child gc block)" "Collect (gc_child gc block) \<subseteq> Collect (marked gc1)"
    and ovf: "gc_stack_overflow gc \<longrightarrow> gc_stack_overflow gc1" "\<not> gc_stack_overflow gc1 \<longrightarrow> set new = newly gc gc1"
    and card: "gc_stack_overflow gc1 \<Longrightarrow> \<not> gc_stack_overflow gc \<Longrightarrow> card (unmarked gc1) < card (unmarked gc)"
  shows "mark_step gc gc' (insert block S)"
proof -
  note d = mark_stepD [OF st] and ch = marking_child(2) [OF m]
  note nt = newly_trans [OF m d(1)]
  have "marked gc' c" if "\<not> gc_stack_overflow gc'" "b \<in> insert block S \<union> newly gc gc'" "gc_child gc b c" for b c
  proof (cases "b = block")
    case True
    then show ?thesis using that(3) new(3) markingD(4) [OF d(1)] by blast
  next
    case False
    have "\<not> gc_stack_overflow gc1" using that(1) d(2) by blast
    then have "b \<in> G \<or> b \<in> newly gc1 gc'" using False that(2) ovf(2) unfolding G nt by auto
    then show ?thesis using d(3) that(1,3) unfolding ch by blast
  qed
  moreover have "\<exists>g \<in> insert block S. (gc_child gc)\<^sup>*\<^sup>* g b" if "b \<in> newly gc gc'" for b
  proof (cases "b \<in> newly gc gc1")
    case True
    then show ?thesis using new(2) by blast
  next
    case False
    then have "b \<in> newly gc1 gc'" using that unfolding nt by simp
    then obtain g where g: "g \<in> G" "(gc_child gc)\<^sup>*\<^sup>* g b" using d(4) unfolding ch by blast
    show ?thesis
    proof (cases "g \<in> S")
      case False
      then have "gc_child gc block g" using g(1) new(1,2) unfolding G by blast
      from converse_rtranclp_into_rtranclp [OF this g(2)] show ?thesis by blast
    qed (use g(2) in blast)
  qed
  moreover have "card (unmarked gc') < card (unmarked gc)" if "gc_stack_overflow gc'" "\<not> gc_stack_overflow gc"
    using that card d(5) marking_card(1) [OF m] marking_card(1) [OF d(1)] by (cases "gc_stack_overflow gc1") auto
  ultimately show ?thesis using marking_trans [OF m d(1)] ovf(1) d(2) unfolding mark_step_def by blast
qed

lemma mark_loop:
  assumes "gc_shape gc" "table_end_ok gc" "block < gc_blocks gc" "set stack \<subseteq> {..<gc_blocks gc}"
  shows "\<exists>gc'. gc_mark_subtree_loop gc block stack = Some gc' \<and> mark_step gc gc' (insert block (set stack))"
  using assms
proof (induction "card (unmarked gc) + length stack" arbitrary: gc block stack rule: less_induct)
  case less
  let ?ws = "gc_words gc block (chain_len gc block)"
  obtain gc1 stack1 where f: "fold gc_mark_child ?ws (gc, stack) = (gc1, stack1)" by fastforce
  note n = chain_len_Some(1) [OF less.prems(2,3)]
  obtain new where new: "stack1 = new @ stack" "set new \<subseteq> newly gc gc1" "distinct new" "marking gc gc1"
    "newly gc gc1 \<subseteq> Collect (gc_child gc block)" "Collect (gc_child gc block) \<subseteq> Collect (marked gc1)"
    "gc_stack_overflow gc \<longrightarrow> gc_stack_overflow gc1" "\<not> gc_stack_overflow gc1 \<longrightarrow> set new = newly gc gc1"
    "gc_stack_overflow gc1 \<and> \<not> gc_stack_overflow gc \<longrightarrow> newly gc gc1 \<noteq> {}"
    using mark_children [OF less.prems(1) f] unfolding gc_child_def [symmetric] by blast
  note c = marking_card [OF new(4)]
  have fin: "finite (newly gc gc1)" using c(2) by (rule finite_subset) simp
  have len: "length new \<le> card (newly gc gc1)"
    using card_mono [OF fin new(2)] distinct_card [OF new(3)] by simp
  have less_card: "card (unmarked gc1) < card (unmarked gc)" if "gc_stack_overflow gc1" "\<not> gc_stack_overflow gc"
  proof -
    have "0 < card (newly gc gc1)" using new(9) that fin by (simp add: card_gt_0_iff)
    then show ?thesis using c(3) by linarith
  qed
  show ?case
  proof (cases stack1)
    case Nil
    then have "gc_mark_subtree_loop gc block stack = Some gc1"
      by (subst gc_mark_subtree_loop.simps) (simp add: n f)
    moreover have "mark_step gc gc1 (insert block (set stack))"
    proof -
      have "set new = {}" "stack = []" using new(1) Nil by auto
      then have "mark_step gc1 gc1 (set new \<union> set stack)" by (intro mark_step_refl) simp
      then show ?thesis by (rule mark_round [OF new(4) _ refl new(2,5,6,7,8) less_card])
    qed
    ultimately show ?thesis by blast
  next
    case (Cons b bs)
    have nb: "newly gc gc1 \<subseteq> {..<gc_blocks gc}" using c(2) by (auto simp: unmarked_def)
    have bs: "insert b (set bs) = set new \<union> set stack" using arg_cong [OF new(1), of set] Cons by simp
    then have bs2: "insert b (set bs) \<subseteq> {..<gc_blocks gc1}" using nb new(2) less.prems(4) unfolding markingD(1) [OF new(4)] by blast
    have dec: "card (unmarked gc1) + length bs < card (unmarked gc) + length stack"
      using c(3) len arg_cong [OF new(1), of length] Cons by simp
    have pre: "gc_shape gc1" "table_end_ok gc1" "b < gc_blocks gc1" "set bs \<subseteq> {..<gc_blocks gc1}"
      using less.prems(1,2) bs2 unfolding markingD(5,6) [OF new(4)] by blast+
    obtain gc' where gc': "gc_mark_subtree_loop gc1 b bs = Some gc'" "mark_step gc1 gc' (insert b (set bs))"
      using less.hyps [OF dec pre] by blast
    have "gc_mark_subtree_loop gc block stack = Some gc'"
      by (subst gc_mark_subtree_loop.simps) (simp add: n f Cons gc'(1))
    moreover have "mark_step gc gc' (insert block (set stack))"
      by (rule mark_round [OF new(4) gc'(2) bs new(2,5,6,7,8) less_card])
    ultimately show ?thesis by blast
  qed
qed

lemma mark_subtree:
  assumes "gc_shape gc" "table_end_ok gc" "block < gc_blocks gc"
  shows "\<exists>gc'. gc_mark_subtree block gc = Some gc' \<and> mark_step gc gc' {block}"
  using mark_loop [OF assms, of "[]"] by (simp add: gc_mark_subtree_def)

section \<open>Roots\<close>

definition root_blocks :: "gc \<Rightarrow> mp_uint_t list \<Rightarrow> nat set" where
  "root_blocks gc roots = Collect (points_to gc roots)"

lemma collect_root_ptr:
  assumes "gc_shape gc" "table_end_ok gc"
  shows "\<exists>gc'. gc_collect_root_ptr w gc = Some gc' \<and> root_blocks gc [w] \<subseteq> Collect (marked gc')
    \<and> (\<exists>S \<subseteq> root_blocks gc [w]. mark_step gc gc' S)"
proof (cases "VERIFY_PTR gc w \<and> ATB_GET_KIND gc (BLOCK_FROM_PTR gc w) = AT_HEAD")
  case False
  then have "gc_collect_root_ptr w gc = Some gc" by (auto simp: gc_collect_root_ptr_def Let_def)
  moreover have "marked gc c" if "points_to gc [w] c" for c using that False by (auto simp: points_to_def is_head_def marked_def)
  moreover have "mark_step gc gc {}" by (rule mark_step_refl) simp
  ultimately show ?thesis by (intro exI [of _ gc]) (auto simp: root_blocks_def)
next
  case True
  let ?b = "BLOCK_FROM_PTR gc w"
  let ?gc = "ATB_HEAD_TO_MARK ?b gc"
  have b: "?b < gc_blocks gc" using VERIFY_block assms(1) True by blast
  note hm = HEAD_TO_MARK [OF assms(1) b conjunct2 [OF True]]
  note md = markingD [OF hm(1)]
  obtain gc' where gc': "gc_mark_subtree ?b ?gc = Some gc'" "mark_step ?gc gc' {?b}"
    using mark_subtree [of ?gc ?b] assms b unfolding md(1,5,6) by blast
  note d = mark_stepD [OF gc'(2)] and ch = marking_child(2) [OF hm(1)]
  have n: "newly gc ?gc = {?b}" using hm(2) b True by (auto simp: newly_def) (auto simp: marked_def)
  note nt = newly_trans [OF hm(1) d(1)]
  have r: "root_blocks gc [w] = {?b}" using True b by (auto simp: root_blocks_def points_to_def is_head_def)
  have "mark_step gc gc' {?b}" unfolding mark_step_def
  proof (intro conjI ballI impI allI)
    show "marking gc gc'" by (rule marking_trans [OF hm(1) d(1)])
    show "gc_stack_overflow gc \<Longrightarrow> gc_stack_overflow gc'" using d(2) hm(3) by blast
    show "marked gc' c" if "\<not> gc_stack_overflow gc'" "b \<in> {?b} \<union> newly gc gc'" "gc_child gc b c" for b c
      using d(3) [OF that(1), of b c] that(2,3) n unfolding nt ch by auto
    show "\<exists>g \<in> {?b}. (gc_child gc)\<^sup>*\<^sup>* g b" if "b \<in> newly gc gc'" for b
      using d(4) [of b] that n unfolding nt ch by auto
    show "card (unmarked gc') < card (unmarked gc)" if "gc_stack_overflow gc' \<and> \<not> gc_stack_overflow gc"
      using d(5) that hm(3) marking_card(1) [OF hm(1)] by linarith
  qed
  moreover have "marked gc' ?b" using markingD(4) [OF d(1)] hm(2) by blast
  ultimately show ?thesis using gc'(1) True r by (intro exI [of _ gc']) (auto simp: gc_collect_root_ptr_def Let_def)
qed

lemma collect_root:
  assumes "gc_shape gc" "table_end_ok gc"
  shows "\<exists>gc'. gc_collect_root ws gc = Some gc' \<and> root_blocks gc ws \<subseteq> Collect (marked gc')
    \<and> (\<exists>S \<subseteq> root_blocks gc ws. mark_step gc gc' S)"
  using assms unfolding gc_collect_root_def
proof (induction ws arbitrary: gc)
  case Nil
  have "mark_step gc gc {}" by (rule mark_step_refl) simp
  then show ?case by (auto simp: root_blocks_def points_to_def)
next
  case (Cons w ws)
  obtain gc1 S where 1: "gc_collect_root_ptr w gc = Some gc1" "root_blocks gc [w] \<subseteq> Collect (marked gc1)"
    "S \<subseteq> root_blocks gc [w]" "mark_step gc gc1 S" using collect_root_ptr [OF Cons.prems] by blast
  note m1 = mark_stepD(1) [OF 1(4)]
  have rb: "root_blocks gc1 = root_blocks gc" by (simp add: root_blocks_def fun_eq_iff marking_child(3) [OF m1])
  obtain gc' T where 2: "fold_bind gc_collect_root_ptr ws gc1 = Some gc'" "root_blocks gc ws \<subseteq> Collect (marked gc')"
    "T \<subseteq> root_blocks gc ws" "mark_step gc1 gc' T"
    using Cons.IH [of gc1] Cons.prems unfolding rb markingD(5,6) [OF m1] by blast
  have cons: "root_blocks gc (w # ws) = root_blocks gc [w] \<union> root_blocks gc ws" by (auto simp: root_blocks_def points_to_def)
  have "root_blocks gc [w] \<subseteq> Collect (marked gc')" using 1(2) markingD(4) [OF mark_stepD(1) [OF 2(4)]] by blast
  moreover have "mark_step gc gc' (S \<union> T)" by (rule mark_step_trans [OF 1(4) 2(4)]) auto
  moreover from this have "\<exists>S \<subseteq> root_blocks gc (w # ws). mark_step gc gc' S" unfolding cons using 1(3) 2(3) by (intro exI [of _ "S \<union> T"]) blast
  ultimately show ?case using 1(1) 2(1,2) unfolding cons by (intro exI [of _ gc']) auto
qed

section \<open>Overflow of the stack\<close>

text \<open>All children of marked blocks are marked.\<close>

definition mark_closed :: "gc \<Rightarrow> bool" where
  "mark_closed gc \<longleftrightarrow> (\<forall>b c. marked gc b \<longrightarrow> gc_child gc b c \<longrightarrow> marked gc c)"

lemma rescan_blocks:
  assumes "gc_shape gc" "table_end_ok gc" "set bs \<subseteq> {..<gc_blocks gc}"
  shows "\<exists>gc' S. fold_bind gc_rescan_block bs gc = Some gc'
    \<and> mark_step gc gc' S \<and> set bs \<inter> Collect (marked gc) \<subseteq> S \<and> S \<subseteq> Collect (marked gc')
    \<and> (\<forall>x \<in> S. \<exists>g. marked gc g \<and> (gc_child gc)\<^sup>*\<^sup>* g x)"
  using assms
proof (induction bs arbitrary: gc)
  case Nil
  have "mark_step gc gc {}" by (rule mark_step_refl) simp
  then show ?case by (intro exI [of _ gc] exI [of _ "{}"]) simp
next
  case (Cons b bs)
  let ?S = "if marked gc b then {b} else {}"
  obtain gc1 where 1: "gc_rescan_block b gc = Some gc1" "mark_step gc gc1 ?S"
  proof (cases "ATB_GET_KIND gc b = AT_MARK")
    case True
    then obtain gc1 where "gc_mark_subtree b gc = Some gc1" "mark_step gc gc1 {b}" using mark_subtree [of gc b] Cons.prems by auto
    then show ?thesis using that True Cons.prems(3) by (auto simp: marked_def gc_rescan_block_def)
  next
    case False
    have "mark_step gc gc {}" by (rule mark_step_refl) simp
    then show ?thesis using that False by (auto simp: marked_def gc_rescan_block_def)
  qed
  note m1 = mark_stepD(1) [OF 1(2)] and ch = marking_child(2) [OF mark_stepD(1) [OF 1(2)]]
  have "gc_shape gc1" "table_end_ok gc1" "set bs \<subseteq> {..<gc_blocks gc1}" using Cons.prems markingD(1,5,6) [OF m1] by simp_all
  note IH = Cons.IH [OF this, unfolded ch]
  obtain gc' T where 2: "fold_bind gc_rescan_block bs gc1 = Some gc'"
    "mark_step gc1 gc' T" "set bs \<inter> Collect (marked gc1) \<subseteq> T" "T \<subseteq> Collect (marked gc')"
    "\<forall>x \<in> T. \<exists>g. marked gc1 g \<and> (gc_child gc)\<^sup>*\<^sup>* g x"
    using IH by auto
  note m2 = mark_stepD(1) [OF 2(2)]
  have reach: "\<exists>g. marked gc g \<and> (gc_child gc)\<^sup>*\<^sup>* g x" if x: "x \<in> T" for x
  proof -
    obtain g where g: "marked gc1 g" "(gc_child gc)\<^sup>*\<^sup>* g x" using bspec [OF 2(5) x] by blast
    show ?thesis
    proof (cases "marked gc g")
      case False
      then have "g \<in> newly gc gc1" using g(1) by (simp add: newly_def)
      then obtain h where "h \<in> ?S" "(gc_child gc)\<^sup>*\<^sup>* h g" using mark_stepD(4) [OF 1(2)] by blast
      then have "marked gc b" and bg: "(gc_child gc)\<^sup>*\<^sup>* b g" by (auto split: if_splits)
      then show ?thesis using rtranclp_trans [OF bg g(2)] by blast
    qed (use g(2) in blast)
  qed
  have step: "mark_step gc gc' (?S \<union> T)"
  proof (rule mark_step_trans [OF 1(2) 2(2)])
    fix x assume "x \<in> T" then show "\<exists>g \<in> ?S \<union> T. (gc_child gc)\<^sup>*\<^sup>* g x" by blast
  qed simp_all
  show ?case
  proof (intro exI [of _ gc'] exI [of _ "?S \<union> T"] conjI)
    show "set (b # bs) \<inter> Collect (marked gc) \<subseteq> ?S \<union> T" using 2(3) markingD(4) [OF m1] by auto
    show "?S \<union> T \<subseteq> Collect (marked gc')" using 2(4) markingD(4) [OF m1] markingD(4) [OF m2] by auto
    show "\<forall>x \<in> ?S \<union> T. \<exists>g. marked gc g \<and> (gc_child gc)\<^sup>*\<^sup>* g x" using reach by auto
  qed (use 1(1) 2(1) step in simp_all)
qed

lemma rescan:
  assumes "gc_shape gc" "table_end_ok gc"
  shows "\<exists>gc'. gc_rescan gc = Some gc' \<and> marking gc gc' \<and> (\<forall>b. marked gc' b \<longrightarrow> (\<exists>g. marked gc g \<and> (gc_child gc)\<^sup>*\<^sup>* g b))
    \<and> (\<not> gc_stack_overflow gc' \<longrightarrow> mark_closed gc') \<and> (gc_stack_overflow gc' \<longrightarrow> card (unmarked gc') < card (unmarked gc))"
proof -
  let ?gc = "gc\<lparr>gc_stack_overflow := False\<rparr>"
  have m: "marking gc ?gc" by (simp add: overflow_marking)
  note md = markingD [OF m] and ch = marking_child(2) [OF m]
  have mk: "marked ?gc = marked gc" by (rule overflow_marking)
  have um: "unmarked ?gc = unmarked gc" unfolding md(9) by (auto simp: unmarked_def marked_def ATB_GET_KIND_def)
  have pre: "gc_shape ?gc" "table_end_ok ?gc" "set [0..<gc_blocks gc] \<subseteq> {..<gc_blocks ?gc}" using assms md(1,5,6) by auto
  obtain gc' S where gc': "fold_bind gc_rescan_block [0..<gc_blocks gc] ?gc = Some gc'" "mark_step ?gc gc' S"
    "set [0..<gc_blocks gc] \<inter> Collect (marked gc) \<subseteq> S" "S \<subseteq> Collect (marked gc')" "\<forall>x \<in> S. \<exists>g. marked gc g \<and> (gc_child gc)\<^sup>*\<^sup>* g x"
    using rescan_blocks [OF pre] unfolding mk ch by blast
  note d = mark_stepD [OF gc'(2), unfolded mk ch um]
  have m': "marking gc gc'" by (rule marking_trans [OF m d(1)])
  have "mark_closed gc'" if "\<not> gc_stack_overflow gc'"
    unfolding mark_closed_def
  proof (intro allI impI)
    fix b c assume b: "marked gc' b" and c: "gc_child gc' b c"
    have "b \<in> S \<or> b \<in> newly ?gc gc'"
    proof (cases "marked gc b")
      case True
      then show ?thesis using gc'(3) by (auto simp: marked_def)
    qed (use b in \<open>simp add: newly_def mk\<close>)
    then show "marked gc' c" using d(3) [OF that] c unfolding marking_child(2) [OF m'] by blast
  qed
  moreover have "\<exists>g. marked gc g \<and> (gc_child gc)\<^sup>*\<^sup>* g b" if "marked gc' b" for b
  proof (cases "marked gc b")
    case False
    then have "b \<in> newly ?gc gc'" using that by (simp add: newly_def mk)
    then obtain s where s: "s \<in> S" "(gc_child gc)\<^sup>*\<^sup>* s b" using d(4) by blast
    obtain g where g: "marked gc g" "(gc_child gc)\<^sup>*\<^sup>* g s" using bspec [OF gc'(5) s(1)] by blast
    show ?thesis using g(1) rtranclp_trans [OF g(2) s(2)] by blast
  qed blast
  ultimately show ?thesis using gc'(1) m' d(5) by (auto simp: gc_rescan_def)
qed

lemma deal_with_stack_overflow:
  assumes "gc_shape gc" "table_end_ok gc" "\<not> gc_stack_overflow gc \<longrightarrow> mark_closed gc"
  shows "\<exists>gc'. gc_deal_with_stack_overflow gc = Some gc' \<and> marking gc gc' \<and> mark_closed gc'
    \<and> (\<forall>b. marked gc' b \<longrightarrow> (\<exists>g. marked gc g \<and> (gc_child gc)\<^sup>*\<^sup>* g b))"
  using assms
proof (induction "card (unmarked gc)" arbitrary: gc rule: less_induct)
  case less
  show ?case
  proof (cases "gc_stack_overflow gc")
    case False
    then have "gc_deal_with_stack_overflow gc = Some gc" by (subst gc_deal_with_stack_overflow.simps) simp
    then show ?thesis using less.prems(3) False by (intro exI [of _ gc]) auto
  next
    case True
    obtain gc1 where 1: "gc_rescan gc = Some gc1" "marking gc gc1" "\<forall>b. marked gc1 b \<longrightarrow> (\<exists>g. marked gc g \<and> (gc_child gc)\<^sup>*\<^sup>* g b)"
      "\<not> gc_stack_overflow gc1 \<longrightarrow> mark_closed gc1" "gc_stack_overflow gc1 \<longrightarrow> card (unmarked gc1) < card (unmarked gc)"
      using rescan [OF less.prems(1,2)] by blast
    note ch = marking_child(2) [OF 1(2)]
    have eq: "gc_deal_with_stack_overflow gc = gc_deal_with_stack_overflow gc1"
      by (subst gc_deal_with_stack_overflow.simps) (simp add: True 1(1))
    have "\<exists>gc'. gc_deal_with_stack_overflow gc1 = Some gc' \<and> marking gc1 gc' \<and> mark_closed gc'
      \<and> (\<forall>b. marked gc' b \<longrightarrow> (\<exists>g. marked gc1 g \<and> (gc_child gc)\<^sup>*\<^sup>* g b))"
    proof (cases "gc_stack_overflow gc1")
      case True
      then show ?thesis using less.hyps [of gc1] 1(4,5) less.prems(1,2) unfolding ch markingD(5,6) [OF 1(2)] by blast
    next
      case False
      then have "gc_deal_with_stack_overflow gc1 = Some gc1" by (subst gc_deal_with_stack_overflow.simps) simp
      then show ?thesis using 1(4) False by (intro exI [of _ gc1]) auto
    qed
    then obtain gc' where 2: "gc_deal_with_stack_overflow gc1 = Some gc'" "marking gc1 gc'" "mark_closed gc'"
      "\<forall>b. marked gc' b \<longrightarrow> (\<exists>g. marked gc1 g \<and> (gc_child gc)\<^sup>*\<^sup>* g b)" by blast
    have "\<exists>g. marked gc g \<and> (gc_child gc)\<^sup>*\<^sup>* g b" if b: "marked gc' b" for b
    proof -
      obtain h where h: "marked gc1 h" "(gc_child gc)\<^sup>*\<^sup>* h b" using 2(4) b by blast
      obtain g where g: "marked gc g" "(gc_child gc)\<^sup>*\<^sup>* g h" using 1(3) h(1) by blast
      show ?thesis using g(1) rtranclp_trans [OF g(2) h(2)] by blast
    qed
    then show ?thesis using 2(1,3) marking_trans [OF 1(2) 2(2)] eq by auto
  qed
qed

section \<open>Marking finds exactly the reachable blocks\<close>

definition reachable :: "gc \<Rightarrow> mp_uint_t list \<Rightarrow> nat set" where
  "reachable gc roots = {b. \<exists>r \<in> root_blocks gc roots. (gc_child gc)\<^sup>*\<^sup>* r b}"

lemma mark_all:
  assumes "gc_shape gc" "table_end_ok gc" "\<nexists>b. marked gc b" "\<not> gc_stack_overflow gc"
  shows "\<exists>gc1 gc2. gc_collect_root roots gc = Some gc1 \<and> gc_deal_with_stack_overflow gc1 = Some gc2 \<and> marking gc gc2
    \<and> Collect (marked gc2) = reachable gc roots"
proof -
  obtain gc1 S where 1: "gc_collect_root roots gc = Some gc1" "root_blocks gc roots \<subseteq> Collect (marked gc1)"
    "S \<subseteq> root_blocks gc roots" "mark_step gc gc1 S" using collect_root [OF assms(1,2)] by blast
  note d = mark_stepD [OF 1(4)] and ch = marking_child(2) [OF mark_stepD(1) [OF 1(4)]]
  have n: "newly gc gc1 = Collect (marked gc1)" using assms(3) by (auto simp: newly_def)
  have "\<not> gc_stack_overflow gc1 \<longrightarrow> mark_closed gc1" using d(3) n unfolding mark_closed_def ch by blast
  moreover have "gc_shape gc1" "table_end_ok gc1" using assms(1,2) markingD(5,6) [OF d(1)] by simp_all
  ultimately obtain gc2 where 2: "gc_deal_with_stack_overflow gc1 = Some gc2" "marking gc1 gc2" "mark_closed gc2"
    "\<forall>b. marked gc2 b \<longrightarrow> (\<exists>g. marked gc1 g \<and> (gc_child gc)\<^sup>*\<^sup>* g b)"
    using deal_with_stack_overflow [of gc1] unfolding ch by blast
  have ch2: "gc_child gc2 = gc_child gc" using marking_child(2) [OF 2(2)] ch by simp
  have "marked gc2 b" if "r \<in> root_blocks gc roots" "(gc_child gc)\<^sup>*\<^sup>* r b" for r b
    using that(2)
  proof induction
    case base
    show ?case using that(1) 1(2) markingD(4) [OF 2(2)] by blast
  next
    case (step b c)
    then show ?case using 2(3) unfolding mark_closed_def ch2 by blast
  qed
  moreover have "b \<in> reachable gc roots" if b: "marked gc2 b" for b
  proof -
    obtain h where h: "marked gc1 h" "(gc_child gc)\<^sup>*\<^sup>* h b" using 2(4) b by blast
    obtain g where g: "g \<in> S" "(gc_child gc)\<^sup>*\<^sup>* g h" using d(4) [of h] h(1) n by blast
    show ?thesis using g(1) 1(3) rtranclp_trans [OF g(2) h(2)] unfolding reachable_def by blast
  qed
  ultimately have "Collect (marked gc2) = reachable gc roots" unfolding reachable_def by blast
  then show ?thesis using 1(1) 2(1) marking_trans [OF d(1) 2(2)] by blast
qed

text \<open>Reachability depends on the tables and the memory only.\<close>

lemma heap_cong:
  assumes "gc_table gc' = gc_table gc" "gc_alloc_table_byte_len gc' = gc_alloc_table_byte_len gc"
    "gc_pool_start gc' = gc_pool_start gc" "gc_pool_end gc' = gc_pool_end gc" "gc_mem gc' = gc_mem gc"
  shows "ATB_GET_KIND gc' = ATB_GET_KIND gc" "FTB_GET gc' = FTB_GET gc" "gc_shape gc' = gc_shape gc" "table_end_ok gc' = table_end_ok gc"
    "marked gc' = marked gc" "reachable gc' = reachable gc"
proof -
  show k: "ATB_GET_KIND gc' = ATB_GET_KIND gc" "FTB_GET gc' = FTB_GET gc"
    using assms by (simp_all add: fun_eq_iff ATB_GET_KIND_def FTB_GET_def)
  show "gc_shape gc' = gc_shape gc" "table_end_ok gc' = table_end_ok gc" "marked gc' = marked gc"
    using assms k by (simp_all add: gc_shape_def table_end_ok_def marked_def fun_eq_iff)
  have "gc_tails gc' b = gc_tails gc b" for b using assms(1) k(1) by (intro gc_tails_cong) simp_all
  then have "chain_len gc' = chain_len gc" by (simp add: fun_eq_iff chain_len_def gc_n_blocks_def)
  moreover have "points_to gc' = points_to gc" "gc_words gc' = gc_words gc"
    using assms k(1) by (simp_all add: fun_eq_iff points_to_def is_head_def VERIFY_PTR_def BLOCK_FROM_PTR_def gc_words_def)
  moreover from calculation have "gc_child gc' = gc_child gc" by (intro ext) (simp add: gc_child_def)
  ultimately show "reachable gc' = reachable gc" by (intro ext) (simp add: reachable_def root_blocks_def)
qed

end
