(* ===== verification/Gc_Collect.thy ===== *)
theory Gc_Collect
  imports Gc_Mark
begin

text \<open>
  Sweeping, and the collection as a whole: what the roots reach stays as it is, everything else
  becomes free, and the invariant of the heap is kept.
\<close>

section \<open>The invariant of the heap\<close>

text \<open>
  A tail continues a chain, only heads have a finaliser, and below the index where the search for
  free blocks starts no block is free.
\<close>

definition gc_inv :: "gc \<Rightarrow> bool" where
  "gc_inv gc \<longleftrightarrow> gc_shape gc
     \<and> (\<forall>b < gc_blocks gc. ATB_GET_KIND gc b = AT_TAIL \<longrightarrow> 0 < b \<and> ATB_GET_KIND gc (b - 1) \<noteq> AT_FREE)
     \<and> (\<forall>b < gc_blocks gc. FTB_GET gc b \<longrightarrow> is_head gc b)
     \<and> (\<forall>b < gc_blocks gc. b < gc_last_free_atb_index gc * BLOCKS_PER_ATB \<longrightarrow> ATB_GET_KIND gc b \<noteq> AT_FREE)
     \<and> (\<forall>b < gc_blocks gc. ATB_GET_KIND gc b \<noteq> AT_MARK)"

lemma gc_invD:
  assumes "gc_inv gc"
  shows "gc_shape gc" "b < gc_blocks gc \<Longrightarrow> ATB_GET_KIND gc b = AT_TAIL \<Longrightarrow> 0 < b \<and> ATB_GET_KIND gc (b - 1) \<noteq> AT_FREE"
    "b < gc_blocks gc \<Longrightarrow> FTB_GET gc b \<Longrightarrow> ATB_GET_KIND gc b = AT_HEAD"
    "b < gc_blocks gc \<Longrightarrow> b < gc_last_free_atb_index gc * BLOCKS_PER_ATB \<Longrightarrow> ATB_GET_KIND gc b \<noteq> AT_FREE"
    "b < gc_blocks gc \<Longrightarrow> ATB_GET_KIND gc b \<noteq> AT_MARK"
  using assms unfolding gc_inv_def is_head_def by blast+

text \<open>The head of the chain that a block belongs to.\<close>

fun gc_owner :: "gc \<Rightarrow> nat \<Rightarrow> nat" where
  "gc_owner gc 0 = 0"
| "gc_owner gc (Suc b) = (if ATB_GET_KIND gc (Suc b) = AT_TAIL then gc_owner gc b else Suc b)"

lemma gc_owner_head: "ATB_GET_KIND gc b \<noteq> AT_TAIL \<Longrightarrow> gc_owner gc b = b"
  by (cases b) simp_all

lemma gc_owner_tail: "ATB_GET_KIND gc b = AT_TAIL \<Longrightarrow> 0 < b \<Longrightarrow> gc_owner gc b = gc_owner gc (b - 1)"
  by (cases b) simp_all

lemma gc_owner_le: "gc_owner gc b \<le> b"
  by (induction b) auto

lemma gc_owner_cong:
  assumes "\<And>c. c \<le> b \<Longrightarrow> (ATB_GET_KIND gc c = AT_TAIL) = (ATB_GET_KIND gc' c = AT_TAIL)"
  shows "gc_owner gc b = gc_owner gc' b"
  using assms by (induction b) (auto simp: le_Suc_eq)

lemma gc_owner_kind:
  assumes "\<And>c. c \<le> b \<Longrightarrow> ATB_GET_KIND gc c = AT_TAIL \<Longrightarrow> 0 < c \<and> ATB_GET_KIND gc (c - 1) \<noteq> AT_FREE" "ATB_GET_KIND gc b \<noteq> AT_FREE"
  shows "ATB_GET_KIND gc (gc_owner gc b) = AT_HEAD \<or> ATB_GET_KIND gc (gc_owner gc b) = AT_MARK"
  using assms
proof (induction b)
  case 0
  then show ?case using kind_cases [of gc 0] by auto
next
  case (Suc b)
  show ?case
  proof (cases "ATB_GET_KIND gc (Suc b) = AT_TAIL")
    case True
    have "ATB_GET_KIND gc b \<noteq> AT_FREE" using Suc.prems(1) [OF order_refl True] by simp
    then show ?thesis using Suc.IH Suc.prems(1) True by simp
  next
    case False
    then show ?thesis using kind_cases [of gc "Suc b"] Suc.prems(2) by auto
  qed
qed

section \<open>Sweeping\<close>

text \<open>The kind that the sweep gives to a block.\<close>

definition swept :: "gc \<Rightarrow> nat \<Rightarrow> u8" where
  "swept gc b =
     (if ATB_GET_KIND gc b = AT_FREE \<or> ATB_GET_KIND gc (gc_owner gc b) = AT_HEAD then AT_FREE
      else if ATB_GET_KIND gc b = AT_MARK then AT_HEAD else ATB_GET_KIND gc b)"

definition sweep_inv :: "(nat \<Rightarrow> (nat \<Rightarrow> mp_uint_t) \<Rightarrow> nat \<Rightarrow> mp_uint_t) \<Rightarrow> gc \<Rightarrow> nat \<Rightarrow> gc \<times> bool \<times> nat list \<Rightarrow> bool" where
  "sweep_inv del gc k = (\<lambda>(gc', free_tail, log).
     gc_shape gc' \<and> gc_alloc_table_byte_len gc' = gc_alloc_table_byte_len gc \<and> gc_pool_start gc' = gc_pool_start gc
     \<and> gc_lock_depth gc' = gc_lock_depth gc \<and> gc_auto_collect_enabled gc' = gc_auto_collect_enabled gc
     \<and> length (gc_table gc') = length (gc_table gc)
     \<and> (\<forall>b < gc_blocks gc. ATB_GET_KIND gc' b = (if b < k then swept gc b else ATB_GET_KIND gc b))
     \<and> (\<forall>b < gc_blocks gc. FTB_GET gc' b = (FTB_GET gc b \<and> \<not> (b < k \<and> ATB_GET_KIND gc b = AT_HEAD)))
     \<and> (k < gc_blocks gc \<longrightarrow> ATB_GET_KIND gc k = AT_TAIL \<longrightarrow> free_tail = (ATB_GET_KIND gc (gc_owner gc (k - 1)) = AT_HEAD))
     \<and> set log \<subseteq> {b. b < k \<and> ATB_GET_KIND gc b = AT_HEAD \<and> FTB_GET gc b} \<and> sorted_wrt (<) log
     \<and> gc_mem gc' = fold del log (gc_mem gc))"

lemma finalise:
  assumes "gc_shape gc" "b < gc_blocks gc" "gc_finalise del b (gc, log) = (gc', log')"
  shows "gc_shape gc'" "gc_alloc_table_byte_len gc' = gc_alloc_table_byte_len gc" "gc_pool_start gc' = gc_pool_start gc"
    "gc_lock_depth gc' = gc_lock_depth gc" "gc_auto_collect_enabled gc' = gc_auto_collect_enabled gc" "length (gc_table gc') = length (gc_table gc)"
    "c < gc_blocks gc \<Longrightarrow> ATB_GET_KIND gc' c = ATB_GET_KIND gc c" "c < gc_blocks gc \<Longrightarrow> FTB_GET gc' c = (FTB_GET gc c \<and> c \<noteq> b)"
    "log' = log \<and> gc_mem gc' = gc_mem gc \<or> (log' = log @ [b] \<and> FTB_GET gc b \<and> gc_mem gc' = del b (gc_mem gc))"
proof -
  let ?g = "gc\<lparr>gc_mem := del b (gc_mem gc)\<rparr>"
  have g: "gc_shape ?g" "ATB_GET_KIND ?g = ATB_GET_KIND gc" "FTB_GET ?g = FTB_GET gc" "b < gc_blocks ?g"
    using assms(1,2) by (simp_all add: gc_shape_def fun_eq_iff ATB_GET_KIND_def FTB_GET_def)
  have cases: "gc' = gc \<and> \<not> FTB_GET gc b \<or> gc' = FTB_CLEAR b gc \<or> gc' = FTB_CLEAR b ?g"
    using assms(3) by (auto simp: gc_finalise_def split: if_splits)
  show "log' = log \<and> gc_mem gc' = gc_mem gc \<or> (log' = log @ [b] \<and> FTB_GET gc b \<and> gc_mem gc' = del b (gc_mem gc))"
    using assms(3) by (auto simp: gc_finalise_def split: if_splits)
  show "gc_shape gc'" "gc_alloc_table_byte_len gc' = gc_alloc_table_byte_len gc" "gc_pool_start gc' = gc_pool_start gc"
    "gc_lock_depth gc' = gc_lock_depth gc" "gc_auto_collect_enabled gc' = gc_auto_collect_enabled gc" "length (gc_table gc') = length (gc_table gc)"
    using cases assms(1) g(1) by auto
  show "ATB_GET_KIND gc' c = ATB_GET_KIND gc c" if "c < gc_blocks gc"
    using cases that kind_FTB(2) [of c gc b] kind_FTB(2) [of c ?g b] g(2) by auto
  show "FTB_GET gc' c = (FTB_GET gc c \<and> c \<noteq> b)"
    using cases FTB_step(2) [OF assms(1,2), of c] FTB_step(2) [OF g(1,4), of c] g(3) by auto
qed

lemma swept_cases:
  assumes "\<And>c. c \<le> b \<Longrightarrow> ATB_GET_KIND gc c = AT_TAIL \<Longrightarrow> 0 < c \<and> ATB_GET_KIND gc (c - 1) \<noteq> AT_FREE"
  shows "ATB_GET_KIND gc b = AT_HEAD \<Longrightarrow> swept gc b = AT_FREE" "ATB_GET_KIND gc b = AT_FREE \<Longrightarrow> swept gc b = AT_FREE"
    "ATB_GET_KIND gc b = AT_MARK \<Longrightarrow> swept gc b = AT_HEAD"
    "ATB_GET_KIND gc b = AT_TAIL \<Longrightarrow> swept gc b = (if ATB_GET_KIND gc (gc_owner gc (b - 1)) = AT_HEAD then AT_FREE else AT_TAIL)"
  using assms [OF order_refl] by (simp_all add: swept_def gc_owner_head gc_owner_tail)

lemma sweep_inv_step:
  assumes inv: "sweep_inv del gc k (gc1, ft, log)" and k: "k < gc_blocks gc"
    and shape: "gc_shape gc'" "gc_alloc_table_byte_len gc' = gc_alloc_table_byte_len gc1" "gc_pool_start gc' = gc_pool_start gc1"
      "gc_lock_depth gc' = gc_lock_depth gc1" "gc_auto_collect_enabled gc' = gc_auto_collect_enabled gc1" "length (gc_table gc') = length (gc_table gc1)"
    and kind: "\<And>b. b < gc_blocks gc \<Longrightarrow> ATB_GET_KIND gc' b = (if b = k then swept gc k else ATB_GET_KIND gc1 b)"
    and ftb: "\<And>b. b < gc_blocks gc \<Longrightarrow> FTB_GET gc' b = (FTB_GET gc1 b \<and> \<not> (b = k \<and> ATB_GET_KIND gc k = AT_HEAD))"
    and tail: "Suc k < gc_blocks gc \<Longrightarrow> ATB_GET_KIND gc (Suc k) = AT_TAIL \<Longrightarrow> ft' = (ATB_GET_KIND gc (gc_owner gc k) = AT_HEAD)"
    and log: "log' = log \<and> gc_mem gc' = gc_mem gc1
      \<or> (log' = log @ [k] \<and> ATB_GET_KIND gc k = AT_HEAD \<and> FTB_GET gc k \<and> gc_mem gc' = del k (gc_mem gc1))"
  shows "sweep_inv del gc (Suc k) (gc', ft', log')"
proof -
  have i: "\<And>b. b < gc_blocks gc \<Longrightarrow> ATB_GET_KIND gc1 b = (if b < k then swept gc b else ATB_GET_KIND gc b)"
    "\<And>b. b < gc_blocks gc \<Longrightarrow> FTB_GET gc1 b = (FTB_GET gc b \<and> \<not> (b < k \<and> ATB_GET_KIND gc b = AT_HEAD))"
    "set log \<subseteq> {b. b < k \<and> ATB_GET_KIND gc b = AT_HEAD \<and> FTB_GET gc b}" "sorted_wrt (<) log"
    using inv k by (auto simp: sweep_inv_def)
  have "set log' \<subseteq> {b. b < Suc k \<and> ATB_GET_KIND gc b = AT_HEAD \<and> FTB_GET gc b}" using log i(3) by auto
  moreover have "sorted_wrt (<) log'" using log i(3,4) by (auto simp: sorted_wrt_append)
  moreover have "ATB_GET_KIND gc' b = (if b < Suc k then swept gc b else ATB_GET_KIND gc b)" if "b < gc_blocks gc" for b
    using kind [OF that] i(1) [OF that] by auto
  moreover have "FTB_GET gc' b = (FTB_GET gc b \<and> \<not> (b < Suc k \<and> ATB_GET_KIND gc b = AT_HEAD))" if "b < gc_blocks gc" for b
    using ftb [OF that] i(2) [OF that] by (auto simp: less_Suc_eq)
  moreover have "gc_mem gc' = fold del log' (gc_mem gc)" using inv log by (auto simp: sweep_inv_def)
  ultimately show ?thesis using shape inv tail by (simp add: sweep_inv_def)
qed

lemma sweep_block:
  assumes tails: "\<And>c. c < gc_blocks gc \<Longrightarrow> ATB_GET_KIND gc c = AT_TAIL \<Longrightarrow> 0 < c \<and> ATB_GET_KIND gc (c - 1) \<noteq> AT_FREE"
    and inv: "sweep_inv del gc k (gc1, ft, log)" and k: "k < gc_blocks gc"
  shows "sweep_inv del gc (Suc k) (gc_sweep_block del k (gc1, ft, log))"
proof -
  have i: "gc_shape gc1" "gc_alloc_table_byte_len gc1 = gc_alloc_table_byte_len gc"
    "\<And>b. b < gc_blocks gc \<Longrightarrow> ATB_GET_KIND gc1 b = (if b < k then swept gc b else ATB_GET_KIND gc b)"
    "\<And>b. b < gc_blocks gc \<Longrightarrow> FTB_GET gc1 b = (FTB_GET gc b \<and> \<not> (b < k \<and> ATB_GET_KIND gc b = AT_HEAD))"
    "ATB_GET_KIND gc k = AT_TAIL \<Longrightarrow> ft = (ATB_GET_KIND gc (gc_owner gc (k - 1)) = AT_HEAD)"
    "set log \<subseteq> {b. b < k \<and> ATB_GET_KIND gc b = AT_HEAD \<and> FTB_GET gc b}" "sorted_wrt (<) log"
    using inv k by (auto simp: sweep_inv_def)
  have k1: "k < gc_blocks gc1" "ATB_GET_KIND gc1 k = ATB_GET_KIND gc k" using k i(2,3) by auto
  have sw: "ATB_GET_KIND gc k = AT_HEAD \<Longrightarrow> swept gc k = AT_FREE" "ATB_GET_KIND gc k = AT_FREE \<Longrightarrow> swept gc k = AT_FREE"
    "ATB_GET_KIND gc k = AT_MARK \<Longrightarrow> swept gc k = AT_HEAD"
    "ATB_GET_KIND gc k = AT_TAIL \<Longrightarrow> swept gc k = (if ATB_GET_KIND gc (gc_owner gc (k - 1)) = AT_HEAD then AT_FREE else AT_TAIL)"
    by (rule swept_cases; use tails k in auto)+
  consider "ATB_GET_KIND gc k = AT_HEAD" | "ATB_GET_KIND gc k = AT_TAIL" | "ATB_GET_KIND gc k = AT_MARK" | "ATB_GET_KIND gc k = AT_FREE"
    using kind_cases [of gc k] by blast
  then show ?thesis
  proof cases
    case 1
    obtain gc2 log2 where f: "gc_finalise del k (gc1, log) = (gc2, log2)" by fastforce
    note fin = finalise [OF i(1) k1(1) f]
    have k2: "k < gc_blocks gc2" using fin(2) k1(1) by simp
    have eq: "gc_sweep_block del k (gc1, ft, log) = (ATB_ANY_TO_FREE k gc2, True, log2)" using 1 k1(2) f by (simp add: gc_sweep_block_def)
    show ?thesis unfolding eq
    proof (rule sweep_inv_step [OF inv k])
      show "ATB_GET_KIND (ATB_ANY_TO_FREE k gc2) b = (if b = k then swept gc k else ATB_GET_KIND gc1 b)" if "b < gc_blocks gc" for b
        using kind_step(1) [OF fin(1) k2] fin(7) [of b] that i(2) sw(1) 1 by simp
      show "FTB_GET (ATB_ANY_TO_FREE k gc2) b = (FTB_GET gc1 b \<and> \<not> (b = k \<and> ATB_GET_KIND gc k = AT_HEAD))" if "b < gc_blocks gc" for b
        using FTB_atb(2) [OF k2] fin(8) [of b] that i(2) 1 by (auto simp: atb_defs)
      show "True = (ATB_GET_KIND gc (gc_owner gc k) = AT_HEAD)" using 1 by (simp add: gc_owner_head)
      show "log2 = log \<and> gc_mem (ATB_ANY_TO_FREE k gc2) = gc_mem gc1
          \<or> (log2 = log @ [k] \<and> ATB_GET_KIND gc k = AT_HEAD \<and> FTB_GET gc k
            \<and> gc_mem (ATB_ANY_TO_FREE k gc2) = del k (gc_mem gc1))"
        using fin(9) 1 i(4) [OF k] by (auto simp: atb_defs)
    qed (use fin in \<open>simp_all add: atb_defs\<close>)
  next
    case 2
    have eq: "gc_sweep_block del k (gc1, ft, log) = (if ft then ATB_ANY_TO_FREE k gc1 else gc1, ft, log)"
      using 2 k1(2) by (simp add: gc_sweep_block_def)
    show ?thesis unfolding eq
    proof (rule sweep_inv_step [OF inv k])
      show "ATB_GET_KIND (if ft then ATB_ANY_TO_FREE k gc1 else gc1) b = (if b = k then swept gc k else ATB_GET_KIND gc1 b)"
        if "b < gc_blocks gc" for b
        using kind_step(1) [OF i(1) k1(1)] sw(4) i(5) 2 k1(2) by auto
      show "ft = (ATB_GET_KIND gc (gc_owner gc k) = AT_HEAD)" using 2 i(5) tails [OF k] by (simp add: gc_owner_tail)
    qed (use i(1) 2 in \<open>auto simp: atb_defs FTB_atb [OF k1(1)]\<close>)
  next
    case 3
    have eq: "gc_sweep_block del k (gc1, ft, log) = (ATB_MARK_TO_HEAD k gc1, False, log)" using 3 k1(2) by (simp add: gc_sweep_block_def)
    show ?thesis unfolding eq
    proof (rule sweep_inv_step [OF inv k])
      show "ATB_GET_KIND (ATB_MARK_TO_HEAD k gc1) b = (if b = k then swept gc k else ATB_GET_KIND gc1 b)" if "b < gc_blocks gc" for b
        using kind_step(5) [OF i(1) k1(1)] sw(3) 3 k1(2) by simp
      show "False = (ATB_GET_KIND gc (gc_owner gc k) = AT_HEAD)" using 3 by (simp add: gc_owner_head)
    qed (use i(1) 3 in \<open>auto simp: atb_defs FTB_atb [OF k1(1)]\<close>)
  next
    case 4
    have eq: "gc_sweep_block del k (gc1, ft, log) = (gc1, ft, log)" using 4 k1(2) by (simp add: gc_sweep_block_def)
    show ?thesis unfolding eq
    proof (rule sweep_inv_step [OF inv k])
      show "ft = (ATB_GET_KIND gc (gc_owner gc k) = AT_HEAD)" if "Suc k < gc_blocks gc" "ATB_GET_KIND gc (Suc k) = AT_TAIL"
        using tails [OF that] 4 by simp
    qed (use i(1) 4 sw(2) k1(2) in auto)
  qed
qed

lemma sweep:
  assumes "gc_shape gc" "\<And>c. c < gc_blocks gc \<Longrightarrow> ATB_GET_KIND gc c = AT_TAIL \<Longrightarrow> 0 < c \<and> ATB_GET_KIND gc (c - 1) \<noteq> AT_FREE"
  shows "\<exists>ft. sweep_inv del gc (gc_blocks gc) (fst (gc_sweep del gc), ft, snd (gc_sweep del gc))"
proof -
  have 0: "sweep_inv del gc 0 (gc, False, [])" using assms by (auto simp: sweep_inv_def)
  have "k \<le> gc_blocks gc \<Longrightarrow> sweep_inv del gc k (fold (gc_sweep_block del) [0..<k] (gc, False, []))" for k
  proof (induction k)
    case (Suc k)
    obtain gc1 ft log where f: "fold (gc_sweep_block del) [0..<k] (gc, False, []) = (gc1, ft, log)" by (metis prod.exhaust)
    then have "sweep_inv del gc k (gc1, ft, log)" using Suc by simp
    then show ?case using sweep_block [OF assms(2) _ , of del k gc1 ft log] Suc.prems f by simp
  qed (use 0 in simp)
  from this [OF order_refl] show ?thesis by (auto simp: gc_sweep_def split: prod.splits)
qed

section \<open>Collection\<close>

lemma fold_bind_append: "fold_bind f (xs @ ys) s = Option.bind (fold_bind f xs s) (fold_bind f ys)"
proof (induction xs arbitrary: s)
  case (Cons x xs)
  then show ?case by (cases "f x s") simp_all
qed simp

text \<open>The kind of a block after a collection that finds the heads \<open>R\<close> alive.\<close>

definition kept :: "gc \<Rightarrow> nat set \<Rightarrow> nat \<Rightarrow> u8" where
  "kept gc R b = (if gc_owner gc b \<in> R then ATB_GET_KIND gc b else AT_FREE)"

definition same_frame :: "gc \<Rightarrow> gc \<Rightarrow> bool" where
  "same_frame gc gc' \<longleftrightarrow> gc_alloc_table_byte_len gc' = gc_alloc_table_byte_len gc \<and> gc_pool_start gc' = gc_pool_start gc
     \<and> gc_pool_end gc' = gc_pool_end gc \<and> gc_lock_depth gc' = gc_lock_depth gc
     \<and> gc_auto_collect_enabled gc' = gc_auto_collect_enabled gc \<and> length (gc_table gc') = length (gc_table gc)"

lemma reachable_head: "b \<in> reachable gc roots \<Longrightarrow> is_head gc b"
proof -
  assume "b \<in> reachable gc roots"
  then obtain r where r: "is_head gc r" "(gc_child gc)\<^sup>*\<^sup>* r b" by (auto simp: reachable_def root_blocks_def points_to_def)
  from r(2,1) show ?thesis by (induction rule: rtranclp_induct) (auto simp: gc_child_def points_to_def)
qed

lemma sweep_marked:
  assumes inv: "gc_inv gc" and m: "marking gc gc2" and R: "Collect (marked gc2) = R" and b: "b < gc_blocks gc"
  shows "swept gc2 b = kept gc R b"
proof -
  have k: "ATB_GET_KIND gc2 c = (if c \<in> R then AT_MARK else ATB_GET_KIND gc c)" if "c < gc_blocks gc" for c
  proof -
    have "ATB_GET_KIND gc2 c = ATB_GET_KIND gc c \<or> ATB_GET_KIND gc2 c = AT_MARK" using m unfolding marking_def by blast
    moreover have "c \<in> R \<longleftrightarrow> ATB_GET_KIND gc2 c = AT_MARK" using R that markingD(1) [OF m] by (auto simp: marked_def)
    ultimately show ?thesis by auto
  qed
  have R1: "ATB_GET_KIND gc c = AT_HEAD" if "c \<in> R" for c
  proof -
    have "is_head gc2 c" using that R by (auto simp: marked_def is_head_def)
    then have "is_head gc c" unfolding markingD(3) [OF m] .
    then show ?thesis using gc_invD(5) [OF inv, of c] by (auto simp: is_head_def)
  qed
  have ow: "gc_owner gc2 b = gc_owner gc b" using b R1 k by (intro gc_owner_cong) auto
  have owb: "gc_owner gc b < gc_blocks gc" using gc_owner_le [of gc b] b by simp
  have tails: "\<And>c. c \<le> b \<Longrightarrow> ATB_GET_KIND gc c = AT_TAIL \<Longrightarrow> 0 < c \<and> ATB_GET_KIND gc (c - 1) \<noteq> AT_FREE"
    using gc_invD(2) [OF inv] b by simp
  show ?thesis
  proof (cases "ATB_GET_KIND gc b = AT_FREE")
    case True
    then have "gc_owner gc b = b" "b \<notin> R" using R1 [of b] by (auto intro: gc_owner_head)
    then show ?thesis using k [OF b] True by (simp add: swept_def kept_def)
  next
    case False
    then have h: "ATB_GET_KIND gc (gc_owner gc b) = AT_HEAD"
      using gc_owner_kind [OF tails] gc_invD(5) [OF inv owb] by auto
    have nm: "ATB_GET_KIND gc b \<noteq> AT_MARK" by (rule gc_invD(5) [OF inv b])
    show ?thesis unfolding swept_def kept_def ow k [OF b] k [OF owb] using h nm False R1 [of b] by simp
  qed
qed

lemma kept_inv:
  assumes inv: "gc_inv gc" and R: "R \<subseteq> Collect (is_head gc)" and f: "same_frame gc gc'" "gc_shape gc'"
    and k: "\<And>b. b < gc_blocks gc \<Longrightarrow> ATB_GET_KIND gc' b = kept gc R b" and ftb: "\<And>b. b < gc_blocks gc \<Longrightarrow> FTB_GET gc' b = (FTB_GET gc b \<and> b \<in> R)"
    and l: "gc_last_free_atb_index gc' = 0"
  shows "gc_inv gc'"
proof -
  have n: "gc_blocks gc' = gc_blocks gc" using f(1) by (simp add: same_frame_def)
  have "0 < b \<and> ATB_GET_KIND gc' (b - 1) \<noteq> AT_FREE" if b: "b < gc_blocks gc" "ATB_GET_KIND gc' b = AT_TAIL" for b
  proof -
    have t: "gc_owner gc b \<in> R" "ATB_GET_KIND gc b = AT_TAIL" using b k by (auto simp: kept_def split: if_splits)
    then have "0 < b" "ATB_GET_KIND gc (b - 1) \<noteq> AT_FREE" using gc_invD(2) [OF inv b(1)] by auto
    then show ?thesis using k [of "b - 1"] b(1) t gc_owner_tail [OF t(2)] by (simp add: kept_def)
  qed
  moreover have "is_head gc' b" if "b < gc_blocks gc" "FTB_GET gc' b" for b
  proof -
    have "b \<in> R" "is_head gc b" using ftb that R by auto
    then have "ATB_GET_KIND gc b = AT_HEAD" using gc_invD(5) [OF inv that(1)] by (auto simp: is_head_def)
    then show ?thesis using k [OF that(1)] \<open>b \<in> R\<close> that(1) n by (simp add: kept_def is_head_def gc_owner_head)
  qed
  moreover have "ATB_GET_KIND gc' b \<noteq> AT_MARK" if "b < gc_blocks gc" for b
    using k [OF that] gc_invD(5) [OF inv that] by (simp add: kept_def)
  ultimately show ?thesis using f(2) l n by (simp add: gc_inv_def)
qed

lemma collect:
  assumes inv: "gc_inv gc" and e: "table_end_ok gc" and R: "R = reachable gc (state_roots @ stack_roots)"
  shows "\<exists>gc' log. gc_collect del state_roots stack_roots gc = Some (gc', log) \<and> gc_inv gc' \<and> same_frame gc gc'
    \<and> (\<forall>b < gc_blocks gc. ATB_GET_KIND gc' b = kept gc R b) \<and> (\<forall>b < gc_blocks gc. FTB_GET gc' b = (FTB_GET gc b \<and> b \<in> R))
    \<and> set log \<subseteq> {b. b < gc_blocks gc \<and> b \<notin> R \<and> FTB_GET gc b} \<and> distinct log \<and> gc_last_free_atb_index gc' = 0
    \<and> gc_mem gc' = fold del log (gc_mem gc)"
proof -
  let ?gc = "gc\<lparr>gc_lock_depth := gc_lock_depth gc + 1, gc_alloc_amount := 0, gc_stack_overflow := False\<rparr>"
  note hc = heap_cong [of ?gc gc, simplified]
  have pre: "gc_shape ?gc" "table_end_ok ?gc" "\<nexists>b. marked ?gc b" "\<not> gc_stack_overflow ?gc"
    using gc_invD(1,5) [OF inv] e hc by (auto simp: marked_def)
  obtain gc1 gc2 where m: "gc_collect_root (state_roots @ stack_roots) ?gc = Some gc1" "gc_deal_with_stack_overflow gc1 = Some gc2"
    "marking ?gc gc2" "Collect (marked gc2) = R"
    using mark_all [OF pre, of "state_roots @ stack_roots"] hc(6) R by auto
  obtain gc3 log where sw: "gc_sweep del gc2 = (gc3, log)" by fastforce
  let ?gc' = "gc3\<lparr>gc_last_free_atb_index := 0, gc_lock_depth := gc_lock_depth gc3 - 1\<rparr>"
  have inv': "gc_inv ?gc" using inv unfolding gc_inv_def is_head_def hc(1-3) by auto
  have run: "gc_collect del state_roots stack_roots gc = Some (?gc', log)"
    using m(1,2) sw by (auto simp: gc_collect_def gc_collect_start_def gc_collect_end_def gc_collect_root_def fold_bind_append bind_eq_Some_conv)
  note md = markingD [OF m(3)]
  have n: "gc_blocks gc2 = gc_blocks gc" using md(1) by simp
  have k2: "ATB_GET_KIND gc2 b = ATB_GET_KIND gc b \<or> (ATB_GET_KIND gc b = AT_HEAD \<and> ATB_GET_KIND gc2 b = AT_MARK)" for b
    using m(3) hc(1) unfolding marking_def by auto
  have "0 < c \<and> ATB_GET_KIND gc2 (c - 1) \<noteq> AT_FREE" if "c < gc_blocks gc2" "ATB_GET_KIND gc2 c = AT_TAIL" for c
    using gc_invD(2) [OF inv, of c] that k2 [of c] k2 [of "c - 1"] n by auto
  then obtain ft where si: "sweep_inv del gc2 (gc_blocks gc2) (gc3, ft, log)"
    using sweep [of gc2 del] md(5) pre(1) sw by auto
  have si': "gc_shape gc3" "gc_alloc_table_byte_len gc3 = gc_alloc_table_byte_len gc" "gc_pool_start gc3 = gc_pool_start gc2"
    "gc_lock_depth gc3 = gc_lock_depth gc2" "gc_auto_collect_enabled gc3 = gc_auto_collect_enabled gc2" "length (gc_table gc3) = length (gc_table gc2)"
    "\<And>b. b < gc_blocks gc \<Longrightarrow> ATB_GET_KIND gc3 b = swept gc2 b"
    "\<And>b. b < gc_blocks gc \<Longrightarrow> FTB_GET gc3 b = (FTB_GET gc2 b \<and> ATB_GET_KIND gc2 b \<noteq> AT_HEAD)"
    "set log \<subseteq> {b. b < gc_blocks gc \<and> ATB_GET_KIND gc2 b = AT_HEAD \<and> FTB_GET gc2 b}" "sorted_wrt (<) log" "gc_mem gc3 = fold del log (gc_mem gc2)"
    using si n md(10) by (auto simp: sweep_inv_def)
  have mk: "gc_pool_start gc2 = gc_pool_start gc" "gc_lock_depth gc2 = gc_lock_depth gc + 1"
    "gc_auto_collect_enabled gc2 = gc_auto_collect_enabled gc" "length (gc_table gc2) = length (gc_table gc)" "FTB_GET gc2 b = FTB_GET gc b" for b
    using m(3) hc(2) by (auto simp: marking_def)
  have sh: "gc_shape gc" "gc_shape ?gc'" using gc_invD(1) [OF inv] si'(1) by (simp_all add: gc_shape_def)
  have frame: "same_frame gc ?gc'" using si'(1-6) mk sh by (auto simp: same_frame_def gc_shape_def)
  have R1: "ATB_GET_KIND gc2 b = AT_HEAD \<longleftrightarrow> ATB_GET_KIND gc b = AT_HEAD \<and> b \<notin> R" if "b < gc_blocks gc" for b
    using k2 [of b] m(4) n that by (auto simp: marked_def)
  have kinds: "ATB_GET_KIND ?gc' b = kept gc R b" if "b < gc_blocks gc" for b
  proof -
    have "ATB_GET_KIND ?gc' b = swept gc2 b" using si'(7) [OF that] by (simp add: ATB_GET_KIND_def)
    also have "\<dots> = kept ?gc R b" using sweep_marked [OF inv' m(3,4), of b] that by simp
    also have "\<dots> = kept gc R b" using gc_owner_cong [of b ?gc gc] by (simp add: kept_def hc(1))
    finally show ?thesis .
  qed
  have ftb: "FTB_GET ?gc' b = (FTB_GET gc b \<and> b \<in> R)" if "b < gc_blocks gc" for b
    using si'(8) [OF that] mk(5) R1 [OF that] gc_invD(3) [OF inv that] by (auto simp: FTB_GET_def)
  have Rh: "R \<subseteq> Collect (is_head gc)" using reachable_head R by blast
  have "set log \<subseteq> {b. b < gc_blocks gc \<and> b \<notin> R \<and> FTB_GET gc b}" using si'(9) R1 mk(5) by auto
  moreover have "distinct log" using si'(10) strict_sorted_iff by blast
  moreover have "gc_inv ?gc'" by (rule kept_inv [OF inv Rh frame sh(2) kinds ftb]) simp_all
  moreover have "gc_mem ?gc' = fold del log (gc_mem gc)" using si'(11) md(2) by simp
  ultimately show ?thesis using run frame kinds ftb
    by (intro exI [of _ ?gc'] exI [of _ log] conjI allI impI) simp_all
qed

end
