(* ===== verification/Gc_Alloc.thy ===== *)
theory Gc_Alloc
  imports Gc_Collect
begin

text \<open>
  Allocation, freeing and resizing keep the invariant of the heap: the search finds a run of free
  blocks if there is one, and the operations change the kinds of exactly the blocks they are about.
\<close>

section \<open>The search for free blocks\<close>

lemma ATB_IS_FREE_kind:
  assumes "lane < 4"
  shows "ATB_IS_FREE lane (gc_table gc ! i) \<longleftrightarrow> ATB_GET_KIND gc (i * 4 + lane) = AT_FREE"
proof -
  have m: "[0x03, 0x0c, 0x30, 0xc0] ! lane = (push_bit (2 * lane) 3 :: u8)"
  proof -
    consider "lane = 0" | "lane = 1" | "lane = 2" | "lane = 3" using assms by linarith
    then show ?thesis by cases simp_all
  qed
  have "(a AND push_bit (2 * lane) 3 = 0) = (drop_bit (2 * lane) a AND 3 = 0)" for a :: u8
  proof
    assume l: "a AND push_bit (2 * lane) 3 = 0"
    show "drop_bit (2 * lane) a AND 3 = 0"
    proof (rule bit_word_eqI)
      fix n assume "n < LENGTH(8)"
      show "bit (drop_bit (2 * lane) a AND 3) n = bit (0 :: u8) n"
        using arg_cong [OF l, of "\<lambda>w. bit w (2 * lane + n)"] assms by (auto simp: three_mask bit_simps)
    qed
  next
    assume r: "drop_bit (2 * lane) a AND 3 = 0"
    show "a AND push_bit (2 * lane) 3 = 0"
    proof (rule bit_word_eqI)
      fix n assume n: "n < LENGTH(8)"
      show "bit (a AND push_bit (2 * lane) 3) n = bit (0 :: u8) n"
        using arg_cong [OF r, of "\<lambda>w. bit w (n - 2 * lane)"] n by (auto simp: three_mask bit_simps)
    qed
  qed
  then show ?thesis using assms by (simp add: ATB_IS_FREE_def m ATB_GET_KIND_def BLOCK_SHIFT_def)
qed

text \<open>The search, one block at a time.\<close>

fun scan_blocks :: "gc \<Rightarrow> nat \<Rightarrow> nat list \<Rightarrow> nat \<Rightarrow> nat \<times> nat + nat" where
  "scan_blocks gc n [] n_free = Inr n_free"
| "scan_blocks gc n (b # bs) n_free =
     (if ATB_GET_KIND gc b = AT_FREE then
        (if n_free + 1 \<ge> n then Inl (b, n_free + 1) else scan_blocks gc n bs (n_free + 1))
      else scan_blocks gc n bs 0)"

lemma scan_blocks_append:
  "scan_blocks gc n (bs @ cs) f = (case scan_blocks gc n bs f of Inl r \<Rightarrow> Inl r | Inr f \<Rightarrow> scan_blocks gc n cs f)"
  by (induction bs arbitrary: f) auto

lemma scan_byte_blocks:
  assumes "set lanes \<subseteq> {..<4}"
  shows "gc_scan_byte n i (gc_table gc ! i) lanes f = scan_blocks gc n (map (\<lambda>l. i * 4 + l) lanes) f"
  using assms by (induction lanes arbitrary: f) (auto simp: ATB_IS_FREE_kind)

lemma find_run_blocks:
  assumes "l \<le> k"
  shows "gc_find_run gc n [l..<k] f = (case scan_blocks gc n [l * 4..<k * 4] f of Inl r \<Rightarrow> Some r | Inr f \<Rightarrow> None)"
  using assms
proof (induction "k - l" arbitrary: l f)
  case (Suc d)
  then have l: "l < k" by simp
  have "[l * 4..<k * 4] = map (\<lambda>i. l * 4 + i) [0, 1, 2, 3] @ [Suc l * 4..<k * 4]"
  proof -
    have "[l * 4..<k * 4] = [l * 4..<l * 4 + 4] @ [l * 4 + 4..<k * 4]" using l upt_add_eq_append [of "l * 4" "l * 4 + 4" "k * 4 - (l * 4 + 4)"] by simp
    moreover have "[l * 4..<l * 4 + 4] = map (\<lambda>i. l * 4 + i) [0, 1, 2, 3]" by (simp add: upt_rec)
    ultimately show ?thesis by (simp add: add.commute)
  qed
  moreover have "gc_find_run gc n [Suc l..<k] f = (case scan_blocks gc n [Suc l * 4..<k * 4] f of Inl r \<Rightarrow> Some r | Inr f \<Rightarrow> None)" for f
    using Suc.hyps(1) [of "Suc l" f] Suc.hyps(2) l by simp
  ultimately show ?case using scan_byte_blocks [of "[0, 1, 2, 3]" n l gc f] l
    by (simp only: upt_conv_Cons [OF l] gc_find_run.simps scan_blocks_append) (auto split: sum.splits)
qed simp

text \<open>First fit.\<close>

definition free_run :: "gc \<Rightarrow> nat \<Rightarrow> nat \<Rightarrow> bool" where
  "free_run gc s n \<longleftrightarrow> (\<forall>c. s \<le> c \<and> c < s + n \<longrightarrow> ATB_GET_KIND gc c = AT_FREE)"

lemma free_run_0 [simp]: "free_run gc s 0"
  by (auto simp: free_run_def)

definition scan_result :: "gc \<Rightarrow> nat \<Rightarrow> nat \<Rightarrow> nat \<Rightarrow> nat \<Rightarrow> nat \<times> nat + nat \<Rightarrow> bool" where
  "scan_result gc n lo b k r \<longleftrightarrow> (case r of
      Inl (i, m) \<Rightarrow> m = n \<and> b \<le> i \<and> i < k \<and> n \<le> i + 1 \<and> free_run gc (i + 1 - n) n \<and> (\<forall>s. lo \<le> s \<and> s + n \<le> i \<longrightarrow> \<not> free_run gc s n)
    | Inr _ \<Rightarrow> \<forall>s. lo \<le> s \<and> s + n \<le> k \<longrightarrow> \<not> free_run gc s n)"

lemma scan_result_mono:
  assumes "scan_result gc n lo' b' k r" "b \<le> b'" "\<And>s. lo \<le> s \<Longrightarrow> s < lo' \<Longrightarrow> \<not> free_run gc s n"
  shows "scan_result gc n lo b k r"
  using assms unfolding scan_result_def
  by (cases r) (auto, metis leI, metis leI)

lemma scan_blocks_correct:
  assumes "b \<le> k" "f < n" "f \<le> b" "free_run gc (b - f) f"
  shows "scan_result gc n (b - f) b k (scan_blocks gc n [b..<k] f)"
  using assms
proof (induction "k - b" arbitrary: b f)
  case 0
  then show ?case by (auto simp: scan_result_def)
next
  case (Suc d)
  then have b: "b < k" by simp
  have d: "d = k - Suc b" using Suc.hyps(2) by simp
  note up = upt_conv_Cons [OF b]
  show ?case
  proof (cases "ATB_GET_KIND gc b = AT_FREE")
    case True
    have run: "free_run gc (b - f) (Suc f)" using Suc.prems(3,4) True by (auto simp: free_run_def less_Suc_eq)
    show ?thesis
    proof (cases "f + 1 \<ge> n")
      case n: True
      then have "b + 1 - n = b - f" "n = Suc f" using Suc.prems(2) by auto
      then show ?thesis using True n run b Suc.prems(3) by (auto simp: up scan_result_def)
    next
      case n: False
      have "scan_result gc n (b - f) (Suc b) k (scan_blocks gc n [Suc b..<k] (f + 1))"
        using Suc.hyps(1) [OF d, of "f + 1"] b n run Suc.prems(3) by simp
      then show ?thesis using scan_result_mono [of gc n "b - f" "Suc b" k _ b "b - f"] n True by (simp add: up)
    qed
  next
    case False
    have hit: "\<not> free_run gc s n" if "b - f \<le> s" "s < Suc b" for s
    proof -
      have "b < s + n" "s \<le> b" using that Suc.prems(2,3) by linarith+
      then show ?thesis using False unfolding free_run_def by blast
    qed
    have "scan_result gc n (Suc b) (Suc b) k (scan_blocks gc n [Suc b..<k] 0)"
      using Suc.hyps(1) [OF d, of 0] b Suc.prems(2) by simp
    then show ?thesis using scan_result_mono [of gc n "Suc b" "Suc b" k _ b "b - f"] hit False by (simp add: up)
  qed
qed

text \<open>Together with the invariant, the search finds a run whenever there is one.\<close>

lemma search:
  assumes inv: "gc_inv gc" and n: "0 < n"
  shows "case gc_search gc n of
      Some (i, m) \<Rightarrow> m = n \<and> n \<le> i + 1 \<and> i < gc_blocks gc \<and> free_run gc (i + 1 - n) n \<and> (\<forall>s. s + n \<le> i \<longrightarrow> \<not> free_run gc s n)
    | None \<Rightarrow> \<forall>s. s + n \<le> gc_blocks gc \<longrightarrow> \<not> free_run gc s n"
proof (cases "gc_last_free_atb_index gc \<le> gc_alloc_table_byte_len gc")
  case l: True
  let ?l = "gc_last_free_atb_index gc * 4"
  have "scan_result gc n (?l - 0) ?l (gc_blocks gc) (scan_blocks gc n [?l..<gc_blocks gc] 0)"
    using n l by (intro scan_blocks_correct) auto
  moreover have low: "\<not> free_run gc s n" if "s < ?l" for s
  proof -
    have "s < gc_blocks gc" using that l by linarith
    then show ?thesis using gc_invD(4) [OF inv, of s] that n unfolding free_run_def by auto
  qed
  ultimately have "scan_result gc n 0 ?l (gc_blocks gc) (scan_blocks gc n [?l..<gc_blocks gc] 0)"
    by (intro scan_result_mono [of gc n "?l" ?l "gc_blocks gc" _ ?l 0]) auto
  then show ?thesis using find_run_blocks [OF l, of gc n 0]
    by (auto simp: gc_search_def scan_result_def split: sum.splits)
next
  case False
  then have "gc_search gc n = None" by (simp add: gc_search_def)
  moreover have "\<not> free_run gc s n" if "s + n \<le> gc_blocks gc" for s
    using gc_invD(4) [OF inv, of s] that n False unfolding free_run_def by auto
  ultimately show ?thesis by simp
qed

section \<open>Taking a run\<close>

lemma FREE_TO_TAIL_fold:
  assumes "gc_shape gc" "free_run gc b n" "b + n \<le> gc_blocks gc"
  shows "ATB_GET_KIND (fold ATB_FREE_TO_TAIL [b..<b + n] gc) c = (if b \<le> c \<and> c < b + n then AT_TAIL else ATB_GET_KIND gc c)"
    "gc_shape (fold ATB_FREE_TO_TAIL [b..<b + n] gc)" "same_frame gc (fold ATB_FREE_TO_TAIL [b..<b + n] gc)"
    "FTB_GET (fold ATB_FREE_TO_TAIL [b..<b + n] gc) c = FTB_GET gc c"
    "gc_mem (fold ATB_FREE_TO_TAIL [b..<b + n] gc) = gc_mem gc"
    "gc_last_free_atb_index (fold ATB_FREE_TO_TAIL [b..<b + n] gc) = gc_last_free_atb_index gc"
  using assms
proof (induction n arbitrary: c)
  case 0
  { case 1 then show ?case by auto next case 2 then show ?case by simp next case 3 then show ?case by (simp add: same_frame_def)
  next case 4 then show ?case by simp next case 5 then show ?case by simp next case 6 then show ?case by simp }
next
  case (Suc n)
  let ?g = "fold ATB_FREE_TO_TAIL [b..<b + n] gc"
  have fr: "free_run gc b n" "b + n \<le> gc_blocks gc" "b + n < gc_blocks gc" "ATB_GET_KIND gc (b + n) = AT_FREE" if "free_run gc b (Suc n)" "b + Suc n \<le> gc_blocks gc"
    using that by (auto simp: free_run_def)
  have step: "fold ATB_FREE_TO_TAIL [b..<b + Suc n] gc = ATB_FREE_TO_TAIL (b + n) ?g" by simp
  note IH = Suc.IH
  { case 1 show ?case unfolding step
      using kind_step(3) [OF IH(2) [OF 1(1) fr(1,2) [OF 1(2,3)]], of "b + n" c] IH(1,3) [OF 1(1) fr(1,2) [OF 1(2,3)]] fr(3,4) [OF 1(2,3)]
      by (auto simp: same_frame_def)
  next case 2 show ?case unfolding step using IH(2) [OF 2(1) fr(1,2) [OF 2(2,3)]] by (simp add: atb_defs)
  next case 3 show ?case unfolding step using IH(3) [OF 3(1) fr(1,2) [OF 3(2,3)]] by (simp add: atb_defs same_frame_def)
  next case 4 show ?case unfolding step
      using IH(3,4) [OF 4(1) fr(1,2) [OF 4(2,3)]] fr(3) [OF 4(2,3)] by (simp add: atb_defs FTB_atb same_frame_def)
  next case 5 show ?case unfolding step using IH(5) [OF 5(1) fr(1,2) [OF 5(2,3)]] by (simp add: atb_defs)
  next case 6 show ?case unfolding step using IH(6) [OF 6(1) fr(1,2) [OF 6(2,3)]] by (simp add: atb_defs) }
qed

text \<open>The kinds after a chain of \<open>n\<close> blocks has been made at \<open>s\<close>.\<close>

definition with_chain :: "gc \<Rightarrow> nat \<Rightarrow> nat \<Rightarrow> nat \<Rightarrow> u8" where
  "with_chain gc s n c = (if c = s then AT_HEAD else if s < c \<and> c < s + n then AT_TAIL else ATB_GET_KIND gc c)"

lemma gc_invI:
  assumes "gc_shape gc" "\<And>b. b < gc_blocks gc \<Longrightarrow> ATB_GET_KIND gc b = AT_TAIL \<Longrightarrow> 0 < b \<and> ATB_GET_KIND gc (b - 1) \<noteq> AT_FREE"
    "\<And>b. b < gc_blocks gc \<Longrightarrow> FTB_GET gc b \<Longrightarrow> ATB_GET_KIND gc b = AT_HEAD"
    "\<And>b. b < gc_blocks gc \<Longrightarrow> b < gc_last_free_atb_index gc * BLOCKS_PER_ATB \<Longrightarrow> ATB_GET_KIND gc b \<noteq> AT_FREE"
    "\<And>b. b < gc_blocks gc \<Longrightarrow> ATB_GET_KIND gc b \<noteq> AT_MARK"
  shows "gc_inv gc"
  using assms by (simp add: gc_inv_def is_head_def)

lemma with_chain_inv:
  assumes inv: "gc_inv gc" and run: "free_run gc s n" "0 < n" "s + n \<le> gc_blocks gc"
    and f: "same_frame gc gc'" "gc_shape gc'" and k: "\<And>c. c < gc_blocks gc \<Longrightarrow> ATB_GET_KIND gc' c = with_chain gc s n c"
    and ftb: "\<And>c. c < gc_blocks gc \<Longrightarrow> FTB_GET gc' c = (FTB_GET gc c \<or> fin \<and> c = s)"
    and l: "\<And>c. c < gc_last_free_atb_index gc' * 4 \<Longrightarrow> c < gc_blocks gc \<Longrightarrow> with_chain gc s n c \<noteq> AT_FREE"
  shows "gc_inv gc'"
proof (rule gc_invI)
  have n: "gc_blocks gc' = gc_blocks gc" using f(1) by (simp add: same_frame_def)
  show "gc_shape gc'" by (rule f)
  show "0 < b \<and> ATB_GET_KIND gc' (b - 1) \<noteq> AT_FREE" if "b < gc_blocks gc'" "ATB_GET_KIND gc' b = AT_TAIL" for b
  proof (cases "s < b \<and> b < s + n")
    case True
    then show ?thesis using k [of "b - 1"] that(1) n by (auto simp: with_chain_def)
  next
    case False
    then have t: "ATB_GET_KIND gc b = AT_TAIL" using k [of b] that n by (auto simp: with_chain_def split: if_splits)
    then show ?thesis using gc_invD(2) [OF inv _ t] k [of "b - 1"] that(1) n by (auto simp: with_chain_def)
  qed
  show "ATB_GET_KIND gc' b = AT_HEAD" if "b < gc_blocks gc'" "FTB_GET gc' b" for b
  proof (cases "b = s")
    case False
    then have h: "ATB_GET_KIND gc b = AT_HEAD" using gc_invD(3) [OF inv, of b] ftb that n by auto
    then have "\<not> (s \<le> b \<and> b < s + n)" using run(1) by (auto simp: free_run_def)
    then show ?thesis using k [of b] that(1) n h False by (simp add: with_chain_def)
  qed (use k that n in \<open>simp add: with_chain_def\<close>)
  show "ATB_GET_KIND gc' b \<noteq> AT_FREE" if "b < gc_blocks gc'" "b < gc_last_free_atb_index gc' * 4" for b
    using k l that n by simp
  show "ATB_GET_KIND gc' b \<noteq> AT_MARK" if "b < gc_blocks gc'" for b
    using k that n gc_invD(5) [OF inv, of b] by (simp add: with_chain_def)
qed

lemma mem_frame:
  "ATB_GET_KIND (gc\<lparr>gc_mem := m\<rparr>) = ATB_GET_KIND gc" "FTB_GET (gc\<lparr>gc_mem := m\<rparr>) = FTB_GET gc"
  "ATB_GET_KIND (gc\<lparr>gc_alloc_amount := a\<rparr>) = ATB_GET_KIND gc" "FTB_GET (gc\<lparr>gc_alloc_amount := a\<rparr>) = FTB_GET gc"
  "ATB_GET_KIND (gc\<lparr>gc_last_free_atb_index := x\<rparr>) = ATB_GET_KIND gc" "FTB_GET (gc\<lparr>gc_last_free_atb_index := x\<rparr>) = FTB_GET gc"
  "gc_shape (gc\<lparr>gc_mem := m\<rparr>) = gc_shape gc" "gc_shape (gc\<lparr>gc_alloc_amount := a\<rparr>) = gc_shape gc"
  "gc_shape (gc\<lparr>gc_last_free_atb_index := x\<rparr>) = gc_shape gc"
  by (simp_all add: fun_eq_iff ATB_GET_KIND_def FTB_GET_def gc_shape_def)

lemma take_run:
  assumes inv: "gc_inv gc" and n: "0 < n" "n \<le> i + 1" "i < gc_blocks gc" and run: "free_run gc (i + 1 - n) n"
    and first: "\<And>s. s + n \<le> i \<Longrightarrow> \<not> free_run gc s n" and t: "gc_take n fin i n gc = (gc', p)" and s: "s = i + 1 - n"
  shows "p = PTR_FROM_BLOCK gc s" "gc_inv gc'" "same_frame gc gc'" "c < gc_blocks gc \<Longrightarrow> ATB_GET_KIND gc' c = with_chain gc s n c"
    "c < gc_blocks gc \<Longrightarrow> FTB_GET gc' c = (FTB_GET gc c \<or> fin \<and> c = s)"
    "gc_mem gc' = (\<lambda>w. if s * 4 \<le> w \<and> w < (s + n) * 4 then 0 else gc_mem gc w)"
proof -
  have si: "i + 1 - n = s" "i + 1 = s + n" "s + n \<le> gc_blocks gc" "s < gc_blocks gc" using n s by auto
  define gc0 where "gc0 = (if n = 1 then gc\<lparr>gc_last_free_atb_index := (i + 1) div 4\<rparr> else gc)"
  define gc1 where "gc1 = ATB_FREE_TO_HEAD s gc0"
  define gc2 where "gc2 = fold ATB_FREE_TO_TAIL [s + 1..<i + 1] gc1"
  have g0: "gc_shape gc0" "ATB_GET_KIND gc0 = ATB_GET_KIND gc" "FTB_GET gc0 = FTB_GET gc" "gc_blocks gc0 = gc_blocks gc" "gc_mem gc0 = gc_mem gc" "same_frame gc gc0"
    using gc_invD(1) [OF inv] by (simp_all add: gc0_def mem_frame same_frame_def)
  have run': "free_run gc s n" using run s by simp
  have k1: "ATB_GET_KIND gc1 c = (if c = s then AT_HEAD else ATB_GET_KIND gc c)" for c
    using kind_step(2) [OF g0(1), of s c] g0(2,4) si(4) run' n(1) by (simp add: gc1_def free_run_def)
  have g1: "gc_shape gc1" "gc_blocks gc1 = gc_blocks gc" "gc_mem gc1 = gc_mem gc" "\<And>c. FTB_GET gc1 c = FTB_GET gc c" "same_frame gc gc1" "gc_last_free_atb_index gc1 = gc_last_free_atb_index gc0"
    using g0 si(4) by (simp_all add: gc1_def atb_defs FTB_atb same_frame_def)
  have run1: "free_run gc1 (s + 1) (n - 1)" using run' k1 by (auto simp: free_run_def)
  have up: "[s + 1..<i + 1] = [s + 1..<s + 1 + (n - 1)]" using si(2) n(1) by simp
  note ft = FREE_TO_TAIL_fold [OF g1(1) run1, folded up, folded gc2_def]
  have b1: "s + 1 + (n - 1) \<le> gc_blocks gc1" using si g1(2) n(1) by simp
  have k2: "ATB_GET_KIND gc2 c = with_chain gc s n c" for c using ft(1) [OF b1, of c] k1 n(1) by (auto simp: with_chain_def)
  have g2: "gc_shape gc2" "same_frame gc gc2" "\<And>c. FTB_GET gc2 c = FTB_GET gc c" "gc_mem gc2 = gc_mem gc" "gc_last_free_atb_index gc2 = gc_last_free_atb_index gc0"
    using ft(2-6) [OF b1] g1 by (auto simp: same_frame_def)
  define gc3 where "gc3 = gc_zero s (i - s + 1) (gc2\<lparr>gc_alloc_amount := gc_alloc_amount gc2 + of_nat n\<rparr>)"
  have g': "gc' = (if fin then FTB_SET s (gc3\<lparr>gc_mem := (gc_mem gc3)(s * 4 := 0)\<rparr>) else gc3)" "p = PTR_FROM_BLOCK gc2 s"
    using t unfolding gc_take_def Let_def si(1) gc0_def [symmetric] gc1_def [symmetric] gc2_def [symmetric] gc3_def [symmetric] by simp_all
  show p: "p = PTR_FROM_BLOCK gc s" using g'(2) g2(2) by (simp add: PTR_FROM_BLOCK_def same_frame_def)
  have g3: "gc_shape gc3" "same_frame gc gc3" "ATB_GET_KIND gc3 = ATB_GET_KIND gc2" "FTB_GET gc3 = FTB_GET gc2" "gc_last_free_atb_index gc3 = gc_last_free_atb_index gc0"
    using g2(1,2,5) by (simp_all add: gc3_def gc_zero_def mem_frame same_frame_def)
  let ?h = "gc3\<lparr>gc_mem := (gc_mem gc3)(s * 4 := 0)\<rparr>"
  have h: "gc_shape ?h" "s < gc_blocks ?h" using g3(1,2) si(4) by (simp_all add: mem_frame same_frame_def)
  have nb: "gc_blocks ?h = gc_blocks gc" using g3(2) by (simp add: same_frame_def)
  show sf: "same_frame gc gc'" using g'(1) g3(2) by (simp add: same_frame_def)
  show k: "ATB_GET_KIND gc' c = with_chain gc s n c" if "c < gc_blocks gc" for c
    using g'(1) that kind_FTB(1) [of c ?h s] nb k2 g3(3) by (simp add: mem_frame)
  show ftb: "FTB_GET gc' c = (FTB_GET gc c \<or> fin \<and> c = s)" if "c < gc_blocks gc" for c
    using g'(1) FTB_step(1) [OF h, of c] g3(4) g2(3) by (auto simp: mem_frame)
  have "i - s + 1 = n" using si n by simp
  then show "gc_mem gc' = (\<lambda>w. if s * 4 \<le> w \<and> w < (s + n) * 4 then 0 else gc_mem gc w)"
    using g'(1) g2(4) n(1) by (auto simp: gc3_def gc_zero_def fun_eq_iff)
  have last: "gc_last_free_atb_index gc' = gc_last_free_atb_index gc0" using g'(1) g3(5) by simp
  show "gc_inv gc'"
  proof (rule with_chain_inv [OF inv run' n(1) si(3) sf _ k ftb])
    show "gc_shape gc'" using g'(1) g3(1) by (simp add: mem_frame)
    show "with_chain gc s n c \<noteq> AT_FREE" if c: "c < gc_last_free_atb_index gc' * 4" "c < gc_blocks gc" for c
    proof (cases "c < gc_last_free_atb_index gc * 4")
      case True
      then show ?thesis using gc_invD(4) [OF inv c(2)] by (simp add: with_chain_def)
    next
      case False
      then have "n = 1" "c \<le> i" using c(1) last by (auto simp: gc0_def split: if_splits)
      moreover have "c \<noteq> i \<Longrightarrow> ATB_GET_KIND gc c \<noteq> AT_FREE"
      proof
        assume "c \<noteq> i" "ATB_GET_KIND gc c = AT_FREE"
        moreover from this(2) have "free_run gc c n" using \<open>n = 1\<close> le_antisym by (fastforce simp: free_run_def less_Suc_eq_le)
        ultimately show False using first [of c] \<open>n = 1\<close> \<open>c \<le> i\<close> by simp
      qed
      ultimately show ?thesis using si by (auto simp: with_chain_def)
    qed
  qed
qed

section \<open>Allocation\<close>

text \<open>What the search and the take give on a heap \<open>gc\<close>.\<close>

definition alloc_post :: "gc \<Rightarrow> nat \<Rightarrow> bool \<Rightarrow> gc \<Rightarrow> mp_uint_t option \<Rightarrow> bool" where
  "alloc_post gc n fin gc' r \<longleftrightarrow> gc_inv gc' \<and> same_frame gc gc' \<and> (case r of
      None \<Rightarrow> gc' = gc \<and> (\<forall>s. s + n \<le> gc_blocks gc \<longrightarrow> \<not> free_run gc s n)
    | Some p \<Rightarrow> \<exists>s. p = PTR_FROM_BLOCK gc s \<and> s + n \<le> gc_blocks gc \<and> free_run gc s n
        \<and> (\<forall>c < gc_blocks gc. ATB_GET_KIND gc' c = with_chain gc s n c) \<and> (\<forall>c < gc_blocks gc. FTB_GET gc' c = (FTB_GET gc c \<or> fin \<and> c = s))
        \<and> gc_mem gc' = (\<lambda>w. if s * 4 \<le> w \<and> w < (s + n) * 4 then 0 else gc_mem gc w))"

lemma alloc_after:
  assumes inv: "gc_inv gc" and n: "0 < n"
  shows "alloc_post gc n fin (fst (gc_alloc_after n fin gc)) (snd (gc_alloc_after n fin gc))"
proof (cases "gc_search gc n")
  case None
  then show ?thesis using search [OF assms] inv by (simp add: gc_alloc_after_def alloc_post_def same_frame_def)
next
  case (Some im)
  obtain i where i: "im = (i, n)" "n \<le> i + 1" "i < gc_blocks gc" "free_run gc (i + 1 - n) n" "\<And>s. s + n \<le> i \<Longrightarrow> \<not> free_run gc s n"
    using search [OF assms] Some by (cases im) auto
  obtain gc' p where t: "gc_take n fin i n gc = (gc', p)" by fastforce
  obtain s where s: "s = i + 1 - n" by blast
  note tr = take_run [OF inv n i(2-5) t s]
  have "s + n \<le> gc_blocks gc" "free_run gc s n" using i(2-4) s by auto
  then have "alloc_post gc n fin gc' (Some p)" unfolding alloc_post_def option.case using tr by blast
  then show ?thesis using Some i(1) t by (simp add: gc_alloc_after_def)
qed

lemma alloc:
  assumes n: "0 < gc_alloc_n_blocks n_bytes" and lock: "\<not> gc_is_locked gc" and inv: "gc_inv gc"
    and col: "collect gc = Some (gcc, logc)" "gc_inv gcc"
  shows "\<exists>gc1 gc' r log. gc_alloc collect n_bytes fin gc = Some (gc', r, log) \<and> alloc_post gc1 (gc_alloc_n_blocks n_bytes) fin gc' r
    \<and> (gc1 = gc \<and> log = [] \<or> gc1 = gcc \<and> log = logc)"
proof -
  let ?n = "gc_alloc_n_blocks n_bytes"
  have l: "\<not> gc_lock_depth gc > 0" using lock by (simp add: gc_is_locked_def word_gt_0)
  note aa = alloc_after [OF inv n, of fin] and aac = alloc_after [OF col(2) n, of fin]
  have take: "(case gc_search g ?n of Some (i, n_free) \<Rightarrow> let (g, p) = gc_take ?n fin i n_free g in Some (g, Some p, log) | None \<Rightarrow> Some (g, None, log))
      = Some (fst (gc_alloc_after ?n fin g), snd (gc_alloc_after ?n fin g), log)" for g :: gc and log :: "nat list"
    by (auto simp: gc_alloc_after_def split: option.split prod.split)
  show ?thesis
  proof (cases "gc_auto_collect_enabled gc \<and> gc_alloc_amount gc \<ge> gc_alloc_threshold gc")
    case True
    then have "gc_alloc collect n_bytes fin gc = Some (fst (gc_alloc_after ?n fin gcc), snd (gc_alloc_after ?n fin gcc), logc)"
      using n l col(1) take [of gcc logc] by (simp add: gc_alloc_def Let_def split: option.splits)
    then show ?thesis using aac by blast
  next
    case False
    show ?thesis
    proof (cases "gc_search gc ?n = None \<and> gc_auto_collect_enabled gc")
      case s: True
      then have "gc_alloc collect n_bytes fin gc = Some (fst (gc_alloc_after ?n fin gcc), snd (gc_alloc_after ?n fin gcc), logc)"
        using False n l col(1) by (simp add: gc_alloc_def Let_def case_prod_unfold)
      then show ?thesis using aac by blast
    next
      case s: False
      then have "gc_alloc collect n_bytes fin gc = Some (fst (gc_alloc_after ?n fin gc), snd (gc_alloc_after ?n fin gc), [])"
        using False n l take [of gc "[]"] by (auto simp: gc_alloc_def Let_def split: option.splits)
      then show ?thesis using aa by blast
    qed
  qed
qed

section \<open>Freeing\<close>

text \<open>Freeing blocks that are not reused below.\<close>

definition without :: "gc \<Rightarrow> nat \<Rightarrow> nat \<Rightarrow> nat \<Rightarrow> u8" where
  "without gc b e c = (if b \<le> c \<and> c < e then AT_FREE else ATB_GET_KIND gc c)"

lemma free_chain:
  assumes "gc_shape gc" "b + n < gc_blocks gc" "\<And>c. b < c \<Longrightarrow> c \<le> b + n \<Longrightarrow> ATB_GET_KIND gc c = AT_TAIL"
    "ATB_GET_KIND gc (b + n + 1) \<noteq> AT_TAIL" "(b + n + 1) div 4 < length (gc_table gc)"
  shows "\<exists>gc'. gc_free_chain b gc = Some gc' \<and> gc_shape gc' \<and> same_frame gc gc' \<and> gc_mem gc' = gc_mem gc
    \<and> gc_last_free_atb_index gc' = gc_last_free_atb_index gc \<and> (\<forall>c. FTB_GET gc' c = FTB_GET gc c)
    \<and> (\<forall>c. ATB_GET_KIND gc' c = without gc b (b + n + 1) c)"
  using assms
proof (induction n arbitrary: b gc)
  case 0
  let ?g = "ATB_ANY_TO_FREE b gc"
  have b: "b < gc_blocks gc" using 0(2) by simp
  note k = kind_step(1) [OF 0(1) b]
  have "gc_free_chain b gc = Some ?g" using 0(4,5) k by (subst gc_free_chain.simps) (simp add: Let_def atb_defs)
  then show ?case using 0(1) b k by (auto simp: atb_defs same_frame_def FTB_atb without_def)
next
  case (Suc n)
  let ?g = "ATB_ANY_TO_FREE b gc"
  have b: "b < gc_blocks gc" "b + 1 < gc_blocks gc" using Suc.prems(2) by simp_all
  note k = kind_step(1) [OF Suc.prems(1) b(1)]
  have fr: "gc_shape ?g" "gc_blocks ?g = gc_blocks gc" "length (gc_table ?g) = length (gc_table gc)" using Suc.prems(1) by (simp_all add: atb_defs)
  have "\<exists>gc'. gc_free_chain (Suc b) ?g = Some gc' \<and> gc_shape gc' \<and> same_frame ?g gc' \<and> gc_mem gc' = gc_mem ?g
    \<and> gc_last_free_atb_index gc' = gc_last_free_atb_index ?g \<and> (\<forall>c. FTB_GET gc' c = FTB_GET ?g c)
    \<and> (\<forall>c. ATB_GET_KIND gc' c = without ?g (Suc b) (Suc b + n + 1) c)"
    using Suc.prems(2-5) fr by (intro Suc.IH) (auto simp: k)
  then obtain gc' where gc': "gc_free_chain (Suc b) ?g = Some gc'" "gc_shape gc'" "same_frame ?g gc'" "gc_mem gc' = gc_mem ?g"
    "gc_last_free_atb_index gc' = gc_last_free_atb_index ?g" "\<And>c. FTB_GET gc' c = FTB_GET ?g c"
    "\<And>c. ATB_GET_KIND gc' c = without ?g (Suc b) (Suc b + n + 1) c" by blast
  have "(b + 1) div 4 < length (gc_table gc)" using shape_table(3) [OF Suc.prems(1) b(2)] .
  moreover have "ATB_GET_KIND gc (b + 1) = AT_TAIL" using Suc.prems(3) by simp
  ultimately have "gc_free_chain b gc = Some gc'" using k gc'(1) fr(3) by (subst gc_free_chain.simps) (simp add: Let_def)
  moreover have "without ?g (Suc b) (Suc b + n + 1) c = without gc b (b + Suc n + 1) c" for c by (auto simp: without_def k)
  ultimately show ?case using gc'(2-7) b(1) by (auto simp: atb_defs same_frame_def FTB_atb)
qed

lemma without_inv:
  assumes inv: "gc_inv gc" and e: "b < e" "e \<le> gc_blocks gc" "e < gc_blocks gc \<Longrightarrow> ATB_GET_KIND gc e \<noteq> AT_TAIL"
    and f: "same_frame gc gc'" "gc_shape gc'" and k: "\<And>c. c < gc_blocks gc \<Longrightarrow> ATB_GET_KIND gc' c = without gc b e c"
    and ftb: "\<And>c. c < gc_blocks gc \<Longrightarrow> FTB_GET gc' c \<Longrightarrow> FTB_GET gc c \<and> \<not> (b \<le> c \<and> c < e)"
    and l: "gc_last_free_atb_index gc' \<le> gc_last_free_atb_index gc" "gc_last_free_atb_index gc' * 4 \<le> b"
  shows "gc_inv gc'"
proof (rule gc_invI)
  have n: "gc_blocks gc' = gc_blocks gc" using f(1) by (simp add: same_frame_def)
  show "gc_shape gc'" by (rule f)
  show "0 < c \<and> ATB_GET_KIND gc' (c - 1) \<noteq> AT_FREE" if "c < gc_blocks gc'" "ATB_GET_KIND gc' c = AT_TAIL" for c
  proof -
    have t: "ATB_GET_KIND gc c = AT_TAIL" "\<not> (b \<le> c \<and> c < e)" using k [of c] that n by (auto simp: without_def split: if_splits)
    have p: "0 < c \<and> ATB_GET_KIND gc (c - 1) \<noteq> AT_FREE" using gc_invD(2) [OF inv _ t(1)] that(1) n by simp
    have "c \<noteq> e" using e(3) t(1) that(1) n by auto
    then have "\<not> (b \<le> c - 1 \<and> c - 1 < e)" using t(2) e(1) p by auto
    then show ?thesis using k [of "c - 1"] p that(1) n by (auto simp: without_def)
  qed
  show "ATB_GET_KIND gc' c = AT_HEAD" if "c < gc_blocks gc'" "FTB_GET gc' c" for c
    using ftb [of c] gc_invD(3) [OF inv, of c] k [of c] that n by (auto simp: without_def)
  show "ATB_GET_KIND gc' c \<noteq> AT_FREE" if "c < gc_blocks gc'" "c < gc_last_free_atb_index gc' * 4" for c
  proof -
    have "c < gc_last_free_atb_index gc * 4" "c < b" using that(2) l by linarith+
    then show ?thesis using gc_invD(4) [OF inv, of c] k [of c] that(1) n by (auto simp: without_def)
  qed
  show "ATB_GET_KIND gc' c \<noteq> AT_MARK" if "c < gc_blocks gc'" for c
    using k [of c] that n gc_invD(5) [OF inv, of c] by (auto simp: without_def)
qed

text \<open>
  The entry behind the allocation table is a tail exactly if block 1 has a finaliser and block 0 has
  none.
\<close>

lemma and_3_eq_2: "(t :: u8) AND 3 = 2 \<longleftrightarrow> \<not> bit t 0 \<and> bit t 1"
proof
  assume e: "t AND 3 = 2"
  have "bit (t AND 3) n = bit (2 :: u8) n" for n using e by simp
  from this [of 0] this [of 1] show "\<not> bit t 0 \<and> bit t 1" by (simp_all add: bit_simps)
next
  assume b: "\<not> bit t 0 \<and> bit t 1"
  show "t AND 3 = 2"
  proof (rule bit_word_eqI)
    fix n assume "n < LENGTH(8)"
    show "bit (t AND 3) n = bit (2 :: u8) n"
    proof (cases "n < 2")
      case True
      then have "n = 0 \<or> n = 1" by auto
      then show ?thesis using b by (auto simp: bit_simps)
    next
      case False
      then have "\<not> bit (2 :: u8) n" using bit_exp_iff [of 1 n, where 'a = "8 word"] by simp
      then show ?thesis using False by (simp add: three_mask bit_simps)
    qed
  qed
qed

lemma kind_end: "ATB_GET_KIND gc (gc_blocks gc) = AT_TAIL \<longleftrightarrow> \<not> FTB_GET gc 0 \<and> FTB_GET gc 1"
  using and_3_eq_2 [of "gc_table gc ! gc_alloc_table_byte_len gc"] by (simp add: ATB_GET_KIND_def BLOCK_SHIFT_def FTB_GET_bit)

lemma free_ok:
  assumes inv: "gc_inv gc" and e: "table_end_ok gc" and lock: "\<not> gc_is_locked gc" and p: "VERIFY_PTR gc p" "b = BLOCK_FROM_PTR gc p"
    and h: "ATB_GET_KIND gc b = AT_HEAD"
  shows "\<exists>gc'. gc_free p gc = Some gc' \<and> gc_inv gc' \<and> same_frame gc gc' \<and> gc_mem gc' = gc_mem gc
    \<and> (\<forall>c < gc_blocks gc. ATB_GET_KIND gc' c = without gc b (b + chain_len gc b) c) \<and> (\<forall>c < gc_blocks gc. FTB_GET gc' c = (FTB_GET gc c \<and> c \<noteq> b))"
proof -
  note shape = gc_invD(1) [OF inv]
  have b: "b < gc_blocks gc" using VERIFY_block [OF shape p(1)] p(2) by simp
  note cl = chain_len_Some [OF e b]
  obtain n where n: "chain_len gc b = n + 1" using cl(2) by (metis Suc_eq_plus1 gr0_implies_Suc)
  define g where "g = (let gc = FTB_CLEAR b gc in if b div 4 < gc_last_free_atb_index gc then gc\<lparr>gc_last_free_atb_index := b div 4\<rparr> else gc)"
  have g: "gc_shape g" "same_frame gc g" "gc_mem g = gc_mem gc" "\<And>c. c < gc_blocks gc \<Longrightarrow> ATB_GET_KIND g c = ATB_GET_KIND gc c"
    "\<And>c. FTB_GET g c = (c \<noteq> b \<and> FTB_GET gc c)" "gc_last_free_atb_index g \<le> gc_last_free_atb_index gc" "gc_last_free_atb_index g * 4 \<le> b"
    using shape b kind_FTB(2) [of _ gc b] FTB_step(2) [OF shape b] by (auto simp: g_def Let_def same_frame_def mem_frame)
  have gb: "gc_blocks g = gc_blocks gc" "length (gc_table g) = length (gc_table gc)" using g(2) by (simp_all add: same_frame_def)
  have run: "gc_free p gc = gc_free_chain b g"
    using lock p h shape by (simp add: gc_free_def g_def Let_def gc_is_locked_def word_gt_0) (auto simp: VERIFY_PTR_def gc_shape_def)
  have end_k: "ATB_GET_KIND g (b + n + 1) \<noteq> AT_TAIL"
  proof (cases "b + n + 1 < gc_blocks gc")
    case True
    then show ?thesis using g(4) cl(5) n by (simp add: add.assoc)
  next
    case False
    then have eq: "b + n + 1 = gc_blocks g" using cl(3) n gb(1) by simp
    have "\<not> (\<not> FTB_GET g 0 \<and> FTB_GET g 1)"
    proof (cases "b = 0")
      case True
      have "1 < gc_blocks gc" using b by presburger
      then have "ATB_GET_KIND gc 1 = AT_TAIL" using cl(4) [of 1] eq gb(1) True n by simp
      then have "\<not> FTB_GET gc 1" using gc_invD(3) [OF inv \<open>1 < gc_blocks gc\<close>] by auto
      then show ?thesis using g(5) by simp
    next
      case False
      then show ?thesis using g(5) e kind_end [of gc] by (auto simp: table_end_ok_def)
    qed
    then show ?thesis using kind_end [of g] eq by simp
  qed
  have tails: "ATB_GET_KIND g c = AT_TAIL" if "b < c" "c \<le> b + n" for c
    using g(4) cl(3) cl(4) [of c] that n by simp
  have "(b + n + 1) div 4 < length (gc_table g)"
  proof -
    have "(b + n + 1) div 4 \<le> gc_alloc_table_byte_len gc" using cl(3) n by linarith
    then show ?thesis using e gb(2) by (simp add: table_end_ok_def)
  qed
  then obtain gc' where gc': "gc_free_chain b g = Some gc'" "gc_shape gc'" "same_frame g gc'" "gc_mem gc' = gc_mem g"
    "gc_last_free_atb_index gc' = gc_last_free_atb_index g" "\<And>c. FTB_GET gc' c = FTB_GET g c" "\<And>c. ATB_GET_KIND gc' c = without g b (b + n + 1) c"
    using free_chain [OF g(1), of b n, OF _ tails end_k] gb(1) cl(3) n by fastforce
  have k: "ATB_GET_KIND gc' c = without gc b (b + chain_len gc b) c" if "c < gc_blocks gc" for c
    using gc'(7) g(4) that n by (simp add: without_def add.assoc)
  have ftb: "FTB_GET gc' c = (FTB_GET gc c \<and> c \<noteq> b)" for c using gc'(6) g(5) by auto
  have fr: "same_frame gc gc'" using g(2) gc'(3) by (simp add: same_frame_def)
  have "gc_inv gc'"
  proof (rule without_inv [OF inv _ cl(3) _ fr gc'(2) k])
    show "b < b + chain_len gc b" using cl(2) by simp
    show "FTB_GET gc c \<and> \<not> (b \<le> c \<and> c < b + chain_len gc b)" if "c < gc_blocks gc" "FTB_GET gc' c" for c
      using that ftb [of c] cl(4) [of c] gc_invD(3) [OF inv that(1)] by (cases "c = b") auto
  qed (use cl(5) gc'(5) g(6,7) in simp_all)
  then show ?thesis using run gc'(1,4) g(3) k ftb fr by auto
qed

section \<open>Resizing\<close>

lemma count_free:
  assumes inv: "gc_inv gc" and e: "e \<le> gc_blocks gc" "e < gc_blocks gc \<Longrightarrow> ATB_GET_KIND gc e \<noteq> AT_TAIL" and n: "0 < f \<Longrightarrow> n + f < new"
  shows "\<exists>f'. gc_realloc_count gc new [e..<gc_blocks gc] n f = (n, f + f') \<and> free_run gc e f' \<and> e + f' \<le> gc_blocks gc
    \<and> (new \<le> n + f + f' \<or> e + f' = gc_blocks gc \<or> ATB_GET_KIND gc (e + f') \<noteq> AT_FREE)"
  using e n
proof (induction "gc_blocks gc - e" arbitrary: e f)
  case 0
  then have "[e..<gc_blocks gc] = []" "e = gc_blocks gc" by simp_all
  then show ?case by (intro exI [of _ 0]) simp
next
  case (Suc d)
  then have lt: "e < gc_blocks gc" by simp
  note up = upt_conv_Cons [OF lt]
  have t: "ATB_GET_KIND gc e \<noteq> AT_TAIL" using Suc.prems(2) lt by simp
  show ?case
  proof (cases "ATB_GET_KIND gc e = AT_FREE")
    case True
    have one: "free_run gc e 1" using True le_antisym by (fastforce simp: free_run_def less_Suc_eq_le)
    show ?thesis
    proof (cases "new \<le> n + (f + 1)")
      case enough: True
      then show ?thesis using up True t one lt by (intro exI [of _ 1]) simp
    next
      case False
      have nt: "ATB_GET_KIND gc (Suc e) \<noteq> AT_TAIL" if "Suc e < gc_blocks gc" using gc_invD(2) [OF inv that] True by auto
      obtain f' where f': "gc_realloc_count gc new [Suc e..<gc_blocks gc] n (f + 1) = (n, f + 1 + f')" "free_run gc (Suc e) f'"
        "Suc e + f' \<le> gc_blocks gc" "new \<le> n + (f + 1) + f' \<or> Suc e + f' = gc_blocks gc \<or> ATB_GET_KIND gc (Suc e + f') \<noteq> AT_FREE"
      proof -
        have d: "d = gc_blocks gc - Suc e" using Suc.hyps(2) by simp
        show ?thesis using Suc.hyps(1) [OF d, of "f + 1"] lt nt False that by auto
      qed
      have "free_run gc e (Suc f')" using f'(2) True unfolding free_run_def by (metis Suc_leI add_Suc_shift le_neq_implies_less)
      then show ?thesis using up True t False f' by (intro exI [of _ "Suc f'"]) auto
    qed
  next
    case False
    then show ?thesis using up t lt by (intro exI [of _ 0]) simp
  qed
qed

lemma count_tails:
  assumes "b + k \<le> m" "m \<le> gc_blocks gc" "\<And>c. b + k \<le> c \<Longrightarrow> c < m \<Longrightarrow> ATB_GET_KIND gc c = AT_TAIL"
  shows "gc_realloc_count gc new [b + k..<gc_blocks gc] k f = gc_realloc_count gc new [m..<gc_blocks gc] (m - b) f"
  using assms
proof (induction "m - (b + k)" arbitrary: k)
  case 0
  then show ?case by simp
next
  case (Suc d)
  then have lt: "b + k < gc_blocks gc" "ATB_GET_KIND gc (b + k) = AT_TAIL" by auto
  then show ?case using Suc.hyps(1) [of "Suc k"] Suc.hyps(2) Suc.prems upt_conv_Cons [OF lt(1)] by simp
qed

lemma realloc_count:
  assumes inv: "gc_inv gc" and e: "table_end_ok gc" and b: "b < gc_blocks gc"
  shows "\<exists>f. gc_realloc_count gc new [b + 1..<gc_blocks gc] 1 0 = (chain_len gc b, f) \<and> b + chain_len gc b + f \<le> gc_blocks gc
    \<and> free_run gc (b + chain_len gc b) f
    \<and> (new \<le> chain_len gc b + f \<or> b + chain_len gc b + f = gc_blocks gc \<or> ATB_GET_KIND gc (b + chain_len gc b + f) \<noteq> AT_FREE)"
proof -
  note cl = chain_len_Some [OF e b]
  have "gc_realloc_count gc new [b + 1..<gc_blocks gc] 1 0 =
      gc_realloc_count gc new [b + chain_len gc b..<gc_blocks gc] (chain_len gc b) 0"
    using count_tails [of b 1 "b + chain_len gc b" gc new 0] cl(2-4) by simp
  then show ?thesis using count_free [OF inv cl(3) cl(5), of 0 "chain_len gc b" new] by auto
qed

lemma ANY_TO_FREE_fold:
  assumes "gc_shape gc" "b + n \<le> gc_blocks gc"
  shows "(\<forall>c. ATB_GET_KIND (fold ATB_ANY_TO_FREE [b..<b + n] gc) c = without gc b (b + n) c)
    \<and> gc_shape (fold ATB_ANY_TO_FREE [b..<b + n] gc) \<and> same_frame gc (fold ATB_ANY_TO_FREE [b..<b + n] gc)
    \<and> (\<forall>c. FTB_GET (fold ATB_ANY_TO_FREE [b..<b + n] gc) c = FTB_GET gc c)
    \<and> gc_mem (fold ATB_ANY_TO_FREE [b..<b + n] gc) = gc_mem gc
    \<and> gc_last_free_atb_index (fold ATB_ANY_TO_FREE [b..<b + n] gc) = gc_last_free_atb_index gc"
  using assms
proof (induction n)
  case 0
  then show ?case by (auto simp: same_frame_def without_def)
next
  case (Suc n)
  let ?g = "fold ATB_ANY_TO_FREE [b..<b + n] gc"
  have step: "fold ATB_ANY_TO_FREE [b..<b + Suc n] gc = ATB_ANY_TO_FREE (b + n) ?g" by simp
  have IH: "\<And>c. ATB_GET_KIND ?g c = without gc b (b + n) c" "gc_shape ?g" "same_frame gc ?g" "\<And>c. FTB_GET ?g c = FTB_GET gc c"
    "gc_mem ?g = gc_mem gc" "gc_last_free_atb_index ?g = gc_last_free_atb_index gc" using Suc by simp_all
  have b: "b + n < gc_blocks ?g" using Suc.prems(2) IH(3) by (simp add: same_frame_def)
  note k = kind_step(1) [OF IH(2) b]
  show ?case unfolding step using IH b k by (auto simp: atb_defs same_frame_def FTB_atb without_def)
qed

lemma realloc_blocks:
  assumes "unat n_bytes + 15 < 2 ^ 32"
  shows "unat ((n_bytes + 15) div 16 :: mp_uint_t) = (unat n_bytes + 15) div 16"
  using assms by (simp add: unat_div unat_add_u32)

text \<open>The three outcomes that do not move the chunk.\<close>

definition realloc_post :: "gc \<Rightarrow> nat \<Rightarrow> nat \<Rightarrow> gc \<Rightarrow> bool" where
  "realloc_post gc b m gc' \<longleftrightarrow> gc_inv gc' \<and> same_frame gc gc' \<and> (\<forall>c < gc_blocks gc. FTB_GET gc' c = FTB_GET gc c)
     \<and> (\<forall>c < gc_blocks gc. ATB_GET_KIND gc' c =
          (if b < c \<and> c < b + m then AT_TAIL else if b + m \<le> c \<and> c < b + chain_len gc b then AT_FREE else ATB_GET_KIND gc c))
     \<and> gc_mem gc' = (\<lambda>w. if (b + chain_len gc b) * 4 \<le> w \<and> w < (b + m) * 4 then 0 else gc_mem gc w)"

lemma shrink_post:
  assumes inv: "gc_inv gc" and e: "table_end_ok gc" and b: "b < gc_blocks gc" "ATB_GET_KIND gc b = AT_HEAD" and m: "0 < m" "m < chain_len gc b"
  defines "g \<equiv> fold ATB_ANY_TO_FREE [b + m..<b + chain_len gc b] gc"
  shows "realloc_post gc b m (if (b + m) div 4 < gc_last_free_atb_index g then g\<lparr>gc_last_free_atb_index := (b + m) div 4\<rparr> else g)"
    (is "realloc_post gc b m ?g")
proof -
  note cl = chain_len_Some [OF e b(1)]
  have up: "b + chain_len gc b = b + m + (chain_len gc b - m)" using m by simp
  have le: "b + m + (chain_len gc b - m) \<le> gc_blocks gc" using cl(3) m by simp
  note gf = ANY_TO_FREE_fold [OF gc_invD(1) [OF inv] le, folded up, folded g_def]
  have g: "gc_shape ?g" "same_frame gc ?g" "\<And>c. ATB_GET_KIND ?g c = without gc (b + m) (b + chain_len gc b) c" "\<And>c. FTB_GET ?g c = FTB_GET gc c"
    "gc_mem ?g = gc_mem gc" "gc_last_free_atb_index ?g \<le> gc_last_free_atb_index gc" "gc_last_free_atb_index ?g * 4 \<le> b + m"
    using gf by (auto simp: mem_frame same_frame_def)
  have ftb: "\<not> (b + m \<le> c \<and> c < b + chain_len gc b)" if "c < gc_blocks gc" "FTB_GET gc c" for c
    using gc_invD(3) [OF inv that] cl(4) [of c] m by (cases "c = b") auto
  have "gc_inv ?g"
    by (rule without_inv [OF inv _ cl(3) cl(5) g(2,1,3)]) (use m g(4,6,7) ftb in auto)
  moreover have "ATB_GET_KIND ?g c = (if b < c \<and> c < b + m then AT_TAIL else if b + m \<le> c \<and> c < b + chain_len gc b then AT_FREE else ATB_GET_KIND gc c)" for c
    using g(3) [of c] cl(4) [of c] m by (auto simp: without_def)
  moreover have "gc_mem ?g = (\<lambda>w. if (b + chain_len gc b) * 4 \<le> w \<and> w < (b + m) * 4 then 0 else gc_mem gc w)"
    using g(5) m by (auto simp: fun_eq_iff)
  ultimately show ?thesis using g(2,4) by (simp add: realloc_post_def)
qed

lemma grow_post:
  assumes inv: "gc_inv gc" and e: "table_end_ok gc" and b: "b < gc_blocks gc" "ATB_GET_KIND gc b = AT_HEAD" and m: "chain_len gc b < m" "b + m \<le> gc_blocks gc"
    and run: "free_run gc (b + chain_len gc b) (m - chain_len gc b)"
  shows "realloc_post gc b m (gc_zero (b + chain_len gc b) (m - chain_len gc b) (fold ATB_FREE_TO_TAIL [b + chain_len gc b..<b + m] gc))"
    (is "realloc_post gc b m ?g")
proof -
  note cl = chain_len_Some [OF e b(1)]
  let ?n = "chain_len gc b"
  have up: "b + m = b + ?n + (m - ?n)" using m by simp
  have le: "b + ?n + (m - ?n) \<le> gc_blocks gc" using m by simp
  note ft = FREE_TO_TAIL_fold [OF gc_invD(1) [OF inv] run le, folded up]
  have g: "gc_shape ?g" "same_frame gc ?g" "\<And>c. ATB_GET_KIND ?g c = (if b + ?n \<le> c \<and> c < b + m then AT_TAIL else ATB_GET_KIND gc c)"
    "\<And>c. FTB_GET ?g c = FTB_GET gc c" "gc_last_free_atb_index ?g = gc_last_free_atb_index gc"
    using ft by (simp_all add: gc_zero_def mem_frame same_frame_def)
  have nb: "gc_blocks ?g = gc_blocks gc" using g(2) by (simp add: same_frame_def)
  have nf: "ATB_GET_KIND gc c \<noteq> AT_FREE" if "b \<le> c" "c < b + ?n" for c using that cl(4) [of c] b(2) by (cases "c = b") auto
  have "gc_inv ?g"
  proof (rule gc_invI)
    show "gc_shape ?g" by (rule g)
    show "0 < c \<and> ATB_GET_KIND ?g (c - 1) \<noteq> AT_FREE" if c: "c < gc_blocks ?g" "ATB_GET_KIND ?g c = AT_TAIL" for c
    proof (cases "b + ?n \<le> c \<and> c < b + m")
      case True
      then show ?thesis using g(3) [of "c - 1"] nf [of "c - 1"] cl(2) by (cases "c = b + ?n") auto
    next
      case False
      then have t: "ATB_GET_KIND gc c = AT_TAIL" using g(3) c(2) by auto
      then show ?thesis using gc_invD(2) [OF inv _ t] c(1) nb g(3) [of "c - 1"] by auto
    qed
    show "ATB_GET_KIND ?g c = AT_HEAD" if "c < gc_blocks ?g" "FTB_GET ?g c" for c
      using gc_invD(3) [OF inv, of c] that g(3,4) nb run by (auto simp: free_run_def)
    show "ATB_GET_KIND ?g c \<noteq> AT_FREE" if "c < gc_blocks ?g" "c < gc_last_free_atb_index ?g * 4" for c
      using gc_invD(4) [OF inv, of c] that g(3,5) nb by simp
    show "ATB_GET_KIND ?g c \<noteq> AT_MARK" if "c < gc_blocks ?g" for c using gc_invD(5) [OF inv, of c] that g(3) nb by simp
  qed
  moreover have "ATB_GET_KIND ?g c = (if b < c \<and> c < b + m then AT_TAIL else if b + m \<le> c \<and> c < b + ?n then AT_FREE else ATB_GET_KIND gc c)" for c
    using g(3) [of c] cl(4) [of c] cl(2) m by auto
  moreover have "gc_mem ?g = (\<lambda>w. if (b + ?n) * 4 \<le> w \<and> w < (b + m) * 4 then 0 else gc_mem gc w)"
    using ft(5) m by (auto simp: gc_zero_def fun_eq_iff)
  ultimately show ?thesis using g(2,4) by (simp add: realloc_post_def)
qed

end
