(* ===== verification/Gc_Props.thy ===== *)
theory Gc_Props
  imports Gc_Alloc
begin

text \<open>The properties of the garbage collector.\<close>

section \<open>A new heap\<close>

lemma init_len:
  assumes "(8 :: nat) * t < 2 ^ 32" "a = gc_init_alloc_table_byte_len t"
  shows "a + (a * 4 + 8 - 1) div 8 + a * 4 * 16 \<le> t"
proof -
  have "a = t * 8 div 524" using assms by (simp add: gc_init_alloc_table_byte_len_def)
  then have "524 * a \<le> t * 8" by simp
  moreover obtain f where f: "f = (a * 4 + 8 - 1) div 8" by blast
  then have "8 * f \<le> a * 4 + 7" by simp
  ultimately show ?thesis unfolding f [symmetric] by linarith
qed

text \<open>
  C5: The layout that \<open>gc_init\<close> computes fits for every heap below 512 MiB: the two tables end
  before the pool, the assertion holds, the pool is aligned and covered by the allocation table,
  and the new heap satisfies the invariant, with all blocks free.
\<close>

theorem gc_init_layout:
  assumes "0 < start" "start \<le> finish div 16 * 16" "finish < 2 ^ 32" "8 * (finish div 16 * 16 - start) < 2 ^ 32"
  shows "\<exists>gc. gc_init gap mem start finish = Some gc \<and> gc_inv gc \<and> \<not> gc_is_locked gc \<and> gc_pool_end gc \<le> finish
    \<and> start + gc_alloc_table_byte_len gc + (gc_blocks gc + 7) div 8 \<le> gc_pool_start gc
    \<and> gc_pool_start gc + gc_blocks gc * 16 = gc_pool_end gc \<and> (\<forall>b < gc_blocks gc. ATB_GET_KIND gc b = AT_FREE \<and> \<not> FTB_GET gc b)"
proof -
  define e t a where "e = finish div 16 * 16" and "t = e - start" and "a = gc_init_alloc_table_byte_len t"
  have le: "a + (a * 4 + 8 - 1) div 8 + a * 4 * 16 \<le> t" using init_len [of t a] assms(4) by (simp add: a_def t_def e_def)
  have e: "e mod 16 = 0" "e \<le> finish" "start \<le> e" "e = start + t" using assms(2) by (auto simp: e_def t_def)
  define gc where "gc = \<lparr>gc_table = replicate a 0 @ replicate ((a * 4 + 8 - 1) div 8) 0 @ gap, gc_alloc_table_byte_len = a, gc_pool_start = e - a * 4 * 16,
    gc_pool_end = e, gc_mem = mem, gc_stack_overflow = False, gc_last_free_atb_index = 0, gc_lock_depth = 0, gc_auto_collect_enabled = True,
    gc_alloc_threshold = - 1, gc_alloc_amount = 0\<rparr>"
  have init: "gc_init gap mem start finish = Some gc"
  proof -
    have "start + a + (a * 4 + 8 - 1) div 8 \<le> e - a * 4 * 16" using le e(4) by linarith
    then show ?thesis unfolding gc_init_def Let_def e_def [symmetric] t_def [symmetric] a_def [symmetric] gc_def by (simp only: if_True)
  qed
  have z: "gc_table gc ! i = 0" if "i < a + (a * 4 + 8 - 1) div 8" for i
  proof (cases "i < a")
    case False
    then have "i - a < (a * 4 + 8 - 1) div 8" using that by linarith
    then show ?thesis using False by (simp add: gc_def nth_append)
  qed (simp add: gc_def nth_append)
  have k: "ATB_GET_KIND gc b = AT_FREE" "\<not> FTB_GET gc b" if "b < gc_blocks gc" for b
  proof -
    have "b div 4 < a" "b div 8 < (a * 4 + 8 - 1) div 8" using that by (auto simp: gc_def)
    then show "ATB_GET_KIND gc b = AT_FREE" "\<not> FTB_GET gc b" using z by (simp_all add: ATB_GET_KIND_def FTB_GET_def, simp_all add: gc_def)
  qed
  have "(e - a * 4 * 16) mod 16 = 0"
  proof -
    obtain q where "e = q * 16" using e(1) by (metis div_mod_decomp add.right_neutral)
    then have "e - a * 4 * 16 = (q - a * 4) * 16" by (simp add: diff_mult_distrib)
    then show ?thesis by simp
  qed
  then have "gc_shape gc" using le e assms(1,3) by (auto simp: gc_shape_def gc_def)
  then have "gc_inv gc" using k by (intro gc_invI) (auto, simp add: gc_def)
  then show ?thesis using init k le e by (auto simp: gc_is_locked_def) (auto simp: gc_def)
qed

theorem gc_init_layout_witness:
  "\<exists>gc. gc_init (replicate 14 0) (\<lambda>_. 0) 4080 4160 = Some gc \<and> gc_inv gc"
  using gc_init_layout [of 4080 4160 "replicate 14 0" "\<lambda>_. 0"] by auto

section \<open>Collection\<close>

text \<open>
  C1: A collection keeps exactly what the roots reach. It returns, however deep the structures are
  and however often the mark stack overflows; every chain whose head is reachable from the roots
  through the words of the chains stays allocated as it was, every other block becomes free;
  finalisers run at most once each, only for unreachable objects that have one; and the heap keeps
  its invariant. The hypothesis excludes the case of \<open>gc_table_overrun\<close>.
\<close>

theorem gc_collect_exact:
  assumes "gc_inv gc" "table_end_ok gc" "R = reachable gc (state_roots @ stack_roots)"
  shows "\<exists>gc' finalised. gc_collect del state_roots stack_roots gc = Some (gc', finalised) \<and> gc_inv gc'
    \<and> (\<forall>b < gc_blocks gc. ATB_GET_KIND gc' b = (if gc_owner gc b \<in> R then ATB_GET_KIND gc b else AT_FREE))
    \<and> (\<forall>b < gc_blocks gc. FTB_GET gc' b = (FTB_GET gc b \<and> b \<in> R))
    \<and> distinct finalised \<and> set finalised \<subseteq> {b. b < gc_blocks gc \<and> b \<notin> R \<and> FTB_GET gc b}
    \<and> gc_lock_depth gc' = gc_lock_depth gc"
  using collect [OF assms, of del] unfolding kept_def same_frame_def by blast

text \<open>A heap of four blocks: block 0 points to block 1, block 2 is free, block 3 is garbage.\<close>

definition sample_gc :: gc where
  "sample_gc = \<lparr>gc_table = [0x45, 0x08, 0], gc_alloc_table_byte_len = 1, gc_pool_start = 4096, gc_pool_end = 4160,
     gc_mem = (\<lambda>w. if w = 0 then 4112 else 0), gc_stack_overflow = False, gc_last_free_atb_index = 0, gc_lock_depth = 0,
     gc_auto_collect_enabled = True, gc_alloc_threshold = - 1, gc_alloc_amount = 0\<rparr>"

lemma less_4_cases: "(b :: nat) < 4 \<Longrightarrow> b = 0 \<or> b = 1 \<or> b = 2 \<or> b = 3"
  by linarith

lemma sample_kinds: "ATB_GET_KIND sample_gc 0 = 1" "ATB_GET_KIND sample_gc 1 = 1" "ATB_GET_KIND sample_gc 2 = 0" "ATB_GET_KIND sample_gc 3 = 1"
  "ATB_GET_KIND sample_gc 4 = 0" "gc_blocks sample_gc = 4" "length (gc_table sample_gc) = 3"
  "\<not> FTB_GET sample_gc 0" "\<not> FTB_GET sample_gc 1" "\<not> FTB_GET sample_gc 2" "FTB_GET sample_gc 3" "\<not> gc_is_locked sample_gc"
  by (simp_all add: sample_gc_def ATB_GET_KIND_def BLOCK_SHIFT_def FTB_GET_def gc_is_locked_def)

lemma sample_inv: "gc_inv sample_gc" "table_end_ok sample_gc"
proof -
  have "gc_shape sample_gc" by (simp add: gc_shape_def sample_gc_def)
  moreover have "gc_last_free_atb_index sample_gc = 0" by (simp add: sample_gc_def)
  ultimately show "gc_inv sample_gc" by (intro gc_invI) (auto simp: sample_kinds [simplified] dest!: less_4_cases)
  show "table_end_ok sample_gc" using sample_kinds by (simp add: table_end_ok_def)
qed

theorem gc_collect_exact_witness:
  "\<exists>gc' finalised. gc_collect (\<lambda>b m. m) [4096] [] sample_gc = Some (gc', finalised) \<and> gc_inv gc'"
  using gc_collect_exact [OF sample_inv refl, of "\<lambda>b m. m" "[4096]" "[]"] by blast

section \<open>Allocation\<close>

lemma kept_alive:
  assumes "same_frame gc gc1" "\<forall>c < gc_blocks gc. ATB_GET_KIND gc1 c = kept gc R c"
  shows "c < gc_blocks gc \<Longrightarrow> ATB_GET_KIND gc1 c = AT_FREE \<Longrightarrow> ATB_GET_KIND gc c = AT_FREE \<or> gc_owner gc c \<notin> R"
    "c < gc_blocks gc \<Longrightarrow> gc_owner gc c \<in> R \<Longrightarrow> ATB_GET_KIND gc1 c = ATB_GET_KIND gc c"
  using assms by (auto simp: kept_def split: if_splits)

lemma free_not_owned:
  assumes "gc_inv gc" "R = reachable gc roots" "ATB_GET_KIND gc c = AT_FREE"
  shows "gc_owner gc c \<notin> R"
proof
  assume "gc_owner gc c \<in> R"
  then have "is_head gc c" using reachable_head assms(2,3) by (auto simp: gc_owner_head)
  then show False using assms(3) by (simp add: is_head_def)
qed

text \<open>What an allocation leaves alone: the kind, the finaliser flag and the words of every block of a reachable chain.\<close>

definition untouched :: "gc \<Rightarrow> (nat \<Rightarrow> mp_uint_t) \<Rightarrow> nat \<Rightarrow> gc \<Rightarrow> bool" where
  "untouched gc mem c gc' \<longleftrightarrow> ATB_GET_KIND gc' c = ATB_GET_KIND gc c \<and> FTB_GET gc' c = FTB_GET gc c
     \<and> (\<forall>w. c * 4 \<le> w \<and> w < (c + 1) * 4 \<longrightarrow> gc_mem gc' w = mem w)"

lemma untouched_collect:
  assumes "gc_inv gc" "R = reachable gc roots" "\<forall>c < gc_blocks gc. ATB_GET_KIND gcc c = kept gc R c"
    "\<forall>c < gc_blocks gc. FTB_GET gcc c = (FTB_GET gc c \<and> c \<in> R)" "gc_mem gcc = mem" "c < gc_blocks gc" "gc_owner gc c \<in> R"
  shows "untouched gc mem c gcc"
proof -
  have "c \<in> R" if "FTB_GET gc c" using gc_invD(3) [OF assms(1,6) that] assms(7) by (simp add: gc_owner_head)
  then show ?thesis using assms(3-7) by (auto simp: untouched_def kept_def)
qed

lemma untouched_alloc:
  assumes "alloc_post gc1 n fin gc' r" "untouched gc mem c gc1" "c < gc_blocks gc1" "ATB_GET_KIND gc1 c \<noteq> AT_FREE" "0 < n"
  shows "untouched gc mem c gc'"
proof (cases r)
  case None
  then show ?thesis using assms(1,2) by (simp add: alloc_post_def)
next
  case (Some p)
  then obtain s where s: "free_run gc1 s n" "\<forall>c < gc_blocks gc1. ATB_GET_KIND gc' c = with_chain gc1 s n c"
    "\<forall>c < gc_blocks gc1. FTB_GET gc' c = (FTB_GET gc1 c \<or> fin \<and> c = s)"
    "gc_mem gc' = (\<lambda>w. if s * 4 \<le> w \<and> w < (s + n) * 4 then 0 else gc_mem gc1 w)"
    using assms(1) unfolding alloc_post_def by force
  have c: "\<not> (s \<le> c \<and> c < s + n)" "c \<noteq> s" using s(1) assms(4,5) by (auto simp: free_run_def)
  have w: "\<not> (s * 4 \<le> w \<and> w < (s + n) * 4)" if "c * 4 \<le> w" "w < (c + 1) * 4" for w 
  proof -
    have "c < s \<or> s + n \<le> c" using c(1) by auto
    then show ?thesis using that by auto
  qed
  show ?thesis using assms(2,3) s(2,3) c w unfolding untouched_def s(4) with_chain_def by auto
qed

text \<open>The chain an allocation returns.\<close>

lemma alloc_chain:
  assumes "gc_inv gc1" "alloc_post gc1 n fin gc' (Some p)" "0 < n"
  shows "\<exists>s. p = PTR_FROM_BLOCK gc1 s \<and> s + n \<le> gc_blocks gc1 \<and> (\<forall>c. s \<le> c \<and> c < s + n \<longrightarrow> ATB_GET_KIND gc1 c = AT_FREE)
    \<and> ATB_GET_KIND gc' s = AT_HEAD \<and> (\<forall>c. s < c \<and> c < s + n \<longrightarrow> ATB_GET_KIND gc' c = AT_TAIL)
    \<and> (s + n < gc_blocks gc1 \<longrightarrow> ATB_GET_KIND gc' (s + n) \<noteq> AT_TAIL)
    \<and> (\<forall>w. s * 4 \<le> w \<and> w < (s + n) * 4 \<longrightarrow> gc_mem gc' w = 0) \<and> FTB_GET gc' s = fin"
proof -
  obtain s where s: "p = PTR_FROM_BLOCK gc1 s" "s + n \<le> gc_blocks gc1" "free_run gc1 s n"
    "\<And>c. c < gc_blocks gc1 \<Longrightarrow> ATB_GET_KIND gc' c = with_chain gc1 s n c" "\<And>c. c < gc_blocks gc1 \<Longrightarrow> FTB_GET gc' c = (FTB_GET gc1 c \<or> fin \<and> c = s)"
    "gc_mem gc' = (\<lambda>w. if s * 4 \<le> w \<and> w < (s + n) * 4 then 0 else gc_mem gc1 w)" "gc_inv gc'"
    using assms(2) by (auto simp: alloc_post_def)
  have sb: "s < gc_blocks gc1" "ATB_GET_KIND gc1 s = AT_FREE" using s(2,3) assms(3) by (auto simp: free_run_def)
  have "\<not> FTB_GET gc1 s" using gc_invD(3) [OF assms(1), of s] sb by auto
  then have f: "FTB_GET gc' s = fin" using s(5) [OF sb(1)] by simp
  have nt: "ATB_GET_KIND gc' (s + n) \<noteq> AT_TAIL" if "s + n < gc_blocks gc1"
  proof
    assume "ATB_GET_KIND gc' (s + n) = AT_TAIL"
    then have "ATB_GET_KIND gc1 (s + n) = AT_TAIL" using s(4) [OF that] assms(3) by (simp add: with_chain_def)
    then have "ATB_GET_KIND gc1 (s + n - 1) \<noteq> AT_FREE" using gc_invD(2) [OF assms(1), of "s + n"] that by simp
    then show False using s(3) assms(3) by (auto simp: free_run_def)
  qed
  show ?thesis
    by (intro conjI exI [of _ s] allI impI) (use s f nt sb assms(3) in \<open>auto simp: with_chain_def free_run_def\<close>)
qed

text \<open>
  C2: Allocation returns a chain of exactly the blocks asked for, zeroed, with the finaliser flag
  as asked, made of blocks that were free or held unreachable objects. Every block of a chain that
  the roots reach keeps its kind, its finaliser flag and its words; only the finalisers that a
  collection runs, which \<open>log\<close> lists, may write to its words. It returns \<open>NULL\<close> only when, after the
  collection it may make, no run of free blocks is long enough anywhere in the heap.
\<close>

theorem gc_alloc_correct:
  assumes "gc_inv gc" "table_end_ok gc" "\<not> gc_is_locked gc" "n = gc_alloc_n_blocks n_bytes" "0 < n" "R = reachable gc (state_roots @ stack_roots)"
  shows "\<exists>gc' r log. gc_alloc (gc_collect del state_roots stack_roots) n_bytes fin gc = Some (gc', r, log) \<and> gc_inv gc'
    \<and> (\<forall>c < gc_blocks gc. gc_owner gc c \<in> R \<longrightarrow> ATB_GET_KIND gc' c = ATB_GET_KIND gc c \<and> FTB_GET gc' c = FTB_GET gc c
        \<and> (\<forall>w. c * 4 \<le> w \<and> w < (c + 1) * 4 \<longrightarrow> gc_mem gc' w = fold del log (gc_mem gc) w))
    \<and> set log \<subseteq> {b. b < gc_blocks gc \<and> b \<notin> R \<and> FTB_GET gc b}
    \<and> (case r of
        None \<Rightarrow> \<forall>s. s + n \<le> gc_blocks gc \<longrightarrow> (\<exists>c. s \<le> c \<and> c < s + n \<and> ATB_GET_KIND gc' c \<noteq> AT_FREE)
      | Some p \<Rightarrow> \<exists>s. p = PTR_FROM_BLOCK gc s \<and> s + n \<le> gc_blocks gc
          \<and> (\<forall>c. s \<le> c \<and> c < s + n \<longrightarrow> ATB_GET_KIND gc c = AT_FREE \<or> gc_owner gc c \<notin> R)
          \<and> ATB_GET_KIND gc' s = AT_HEAD \<and> (\<forall>c. s < c \<and> c < s + n \<longrightarrow> ATB_GET_KIND gc' c = AT_TAIL)
          \<and> (s + n < gc_blocks gc \<longrightarrow> ATB_GET_KIND gc' (s + n) \<noteq> AT_TAIL)
          \<and> (\<forall>w. s * 4 \<le> w \<and> w < (s + n) * 4 \<longrightarrow> gc_mem gc' w = 0) \<and> FTB_GET gc' s = fin)"
proof -
  obtain gcc logc where col: "gc_collect del state_roots stack_roots gc = Some (gcc, logc)" "gc_inv gcc" "same_frame gc gcc"
    "\<forall>c < gc_blocks gc. ATB_GET_KIND gcc c = kept gc R c" "\<forall>c < gc_blocks gc. FTB_GET gcc c = (FTB_GET gc c \<and> c \<in> R)"
    "set logc \<subseteq> {b. b < gc_blocks gc \<and> b \<notin> R \<and> FTB_GET gc b}" "gc_mem gcc = fold del logc (gc_mem gc)"
    using collect [OF assms(1,2,6), of del] by blast
  obtain gc1 gc' r log where al: "gc_alloc (gc_collect del state_roots stack_roots) n_bytes fin gc = Some (gc', r, log)"
    "alloc_post gc1 n fin gc' r" "gc1 = gc \<and> log = [] \<or> gc1 = gcc \<and> log = logc"
    using alloc [OF assms(5) [unfolded assms(4)] assms(3,1), of "gc_collect del state_roots stack_roots" gcc logc fin] col(1,2) assms(4) by blast
  have g1: "gc_inv gc1" "same_frame gc gc1" using al(3) assms(1) col(2,3) by (auto simp: same_frame_def)
  have nb: "gc_blocks gc1 = gc_blocks gc" using g1(2) by (simp add: same_frame_def)
  have alive: "c < gc_blocks gc \<Longrightarrow> ATB_GET_KIND gc1 c = AT_FREE \<Longrightarrow> ATB_GET_KIND gc c = AT_FREE \<or> gc_owner gc c \<notin> R" for c
    using al(3) kept_alive [OF col(3,4)] by auto
  have log: "set log \<subseteq> {b. b < gc_blocks gc \<and> b \<notin> R \<and> FTB_GET gc b}" using al(3) col(6) by auto
  have "untouched gc (fold del log (gc_mem gc)) c gc1" if "c < gc_blocks gc" "gc_owner gc c \<in> R" for c
    using al(3) untouched_collect [OF assms(1,6) col(4,5,7) that] by (auto simp: untouched_def)
  then have "untouched gc (fold del log (gc_mem gc)) c gc'" if "c < gc_blocks gc" "gc_owner gc c \<in> R" for c
    using untouched_alloc [OF al(2), of gc "fold del log (gc_mem gc)" c] that nb assms(5) alive [of c] free_not_owned [OF assms(1,6), of c] by auto
  then have keep: "\<forall>c < gc_blocks gc. gc_owner gc c \<in> R \<longrightarrow> ATB_GET_KIND gc' c = ATB_GET_KIND gc c \<and> FTB_GET gc' c = FTB_GET gc c
        \<and> (\<forall>w. c * 4 \<le> w \<and> w < (c + 1) * 4 \<longrightarrow> gc_mem gc' w = fold del log (gc_mem gc) w)"
    unfolding untouched_def by blast
  have inv': "gc_inv gc'" using al(2) by (simp add: alloc_post_def)
  show ?thesis
  proof (cases r)
    case None
    then have "\<forall>s. s + n \<le> gc_blocks gc \<longrightarrow> (\<exists>c. s \<le> c \<and> c < s + n \<and> ATB_GET_KIND gc' c \<noteq> AT_FREE)"
      using al(2) nb unfolding alloc_post_def free_run_def by auto
    then show ?thesis using al(1) inv' keep log None
      by (intro exI [of _ gc'] exI [of _ r] exI [of _ log] conjI) simp_all
  next
    case (Some p)
    obtain s where s: "p = PTR_FROM_BLOCK gc s" "s + n \<le> gc_blocks gc" "\<forall>c. s \<le> c \<and> c < s + n \<longrightarrow> ATB_GET_KIND gc1 c = AT_FREE"
      "ATB_GET_KIND gc' s = AT_HEAD" "\<forall>c. s < c \<and> c < s + n \<longrightarrow> ATB_GET_KIND gc' c = AT_TAIL"
      "s + n < gc_blocks gc \<longrightarrow> ATB_GET_KIND gc' (s + n) \<noteq> AT_TAIL"
      "\<forall>w. s * 4 \<le> w \<and> w < (s + n) * 4 \<longrightarrow> gc_mem gc' w = 0" "FTB_GET gc' s = fin"
      using alloc_chain [OF g1(1) al(2) [unfolded Some] assms(5)] nb g1(2) by (auto simp: PTR_FROM_BLOCK_def same_frame_def)
    have "\<forall>c. s \<le> c \<and> c < s + n \<longrightarrow> ATB_GET_KIND gc c = AT_FREE \<or> gc_owner gc c \<notin> R" using s(2,3) alive by auto
    then show ?thesis
      by (intro exI [of _ gc'] exI [of _ r] exI [of _ log], unfold Some option.case, intro conjI exI [of _ s])
        (use al(1) Some inv' keep log s in simp_all)
  qed
qed

theorem gc_alloc_correct_witness:
  "\<exists>gc' r log. gc_alloc (gc_collect (\<lambda>b m. m) [4096] []) 17 True sample_gc = Some (gc', r, log) \<and> gc_inv gc'
    \<and> ATB_GET_KIND gc' 0 = AT_HEAD \<and> gc_mem gc' 0 = 4112"
proof -
  have "gc_alloc_n_blocks 17 = 2" by (simp add: gc_alloc_n_blocks_def)
  then obtain gc' r log where g: "gc_alloc (gc_collect (\<lambda>b m. m) [4096] []) 17 True sample_gc = Some (gc', r, log)" "gc_inv gc'"
    "\<forall>c < gc_blocks sample_gc. gc_owner sample_gc c \<in> reachable sample_gc [4096] \<longrightarrow> ATB_GET_KIND gc' c = ATB_GET_KIND sample_gc c
      \<and> FTB_GET gc' c = FTB_GET sample_gc c \<and> (\<forall>w. c * 4 \<le> w \<and> w < (c + 1) * 4 \<longrightarrow> gc_mem gc' w = fold (\<lambda>b m. m) log (gc_mem sample_gc) w)"
    using gc_alloc_correct [OF sample_inv sample_kinds(12), of 2 17 "reachable sample_gc [4096]" "[4096]" "[]" "\<lambda>b m. m" True] by auto
  have "points_to sample_gc [4096] 0"
    using sample_kinds(1) by (simp add: points_to_def is_head_def) (simp add: VERIFY_PTR_def BLOCK_FROM_PTR_def sample_gc_def)
  then have "gc_owner sample_gc 0 \<in> reachable sample_gc [4096]" using sample_kinds(1)
    by (auto simp: reachable_def root_blocks_def gc_owner_head)
  moreover have "fold (\<lambda>b m. m) log (gc_mem sample_gc) 0 = 4112" by (induction log) (simp_all add: sample_gc_def)
  moreover have "0 < gc_blocks sample_gc" "(0 :: nat) * 4 \<le> 0 \<and> 0 < (0 + 1) * (4 :: nat)" using sample_kinds(6) by simp_all
  ultimately show ?thesis using g sample_kinds(1) by metis
qed

text \<open>
  C3: Freeing the chunk at a head frees exactly its chain, clears its finaliser flag, leaves
  everything else as it is and keeps the invariant, so that the search still starts below every
  free block.
\<close>

theorem gc_free_correct:
  assumes "gc_inv gc" "table_end_ok gc" "\<not> gc_is_locked gc" "VERIFY_PTR gc p" "b = BLOCK_FROM_PTR gc p" "ATB_GET_KIND gc b = AT_HEAD"
  shows "\<exists>gc'. gc_free p gc = Some gc' \<and> gc_inv gc' \<and> gc_mem gc' = gc_mem gc
    \<and> (\<forall>c < gc_blocks gc. ATB_GET_KIND gc' c = (if b \<le> c \<and> c < b + chain_len gc b then AT_FREE else ATB_GET_KIND gc c))
    \<and> (\<forall>c < gc_blocks gc. FTB_GET gc' c = (FTB_GET gc c \<and> c \<noteq> b))"
  using free_ok [OF assms] unfolding without_def by blast

theorem gc_free_correct_witness: "\<exists>gc'. gc_free 4112 sample_gc = Some gc' \<and> gc_inv gc' \<and> ATB_GET_KIND gc' 1 = AT_FREE"
proof -
  have p: "VERIFY_PTR sample_gc 4112" "1 = BLOCK_FROM_PTR sample_gc 4112"
    by (simp_all add: VERIFY_PTR_def BLOCK_FROM_PTR_def sample_gc_def)
  have "0 < chain_len sample_gc 1" using chain_len_Some(2) [OF sample_inv(2), of 1] sample_kinds(6) by simp
  then show ?thesis using gc_free_correct [OF sample_inv sample_kinds(12) p sample_kinds(2)] sample_kinds(6) by force
qed

section \<open>Resizing\<close>

text \<open>
  C4: \<open>gc_realloc\<close> resizes in place whenever it can. A chunk that is large enough is cut to the
  blocks needed and its tail freed; otherwise it grows into free blocks behind it, which are zeroed;
  otherwise, if it may not move, nothing changes and the result is \<open>NULL\<close>. Contents and finaliser
  flag are kept, and so is the invariant.
\<close>

theorem gc_realloc_in_place:
  assumes "gc_inv gc" "table_end_ok gc" "\<not> gc_is_locked gc" "VERIFY_PTR gc p" "b = BLOCK_FROM_PTR gc p" "ATB_GET_KIND gc b = AT_HEAD"
    and "n_bytes \<noteq> 0" "unat n_bytes + 15 < 2 ^ 32" and m: "m = (unat n_bytes + 15) div 16" and n: "n = chain_len gc b"
  shows "(m \<le> n \<or> (b + m \<le> gc_blocks gc \<and> free_run gc (b + n) (m - n)) \<longrightarrow>
      (\<exists>gc'. gc_realloc collect p n_bytes allow_move gc = Some (gc', Some p, []) \<and> realloc_post gc b m gc'))
    \<and> (\<not> (m \<le> n \<or> (b + m \<le> gc_blocks gc \<and> free_run gc (b + n) (m - n))) \<and> \<not> allow_move \<longrightarrow>
      gc_realloc collect p n_bytes allow_move gc = Some (gc, None, []))"
proof -
  have b: "b < gc_blocks gc" using VERIFY_block [OF gc_invD(1) [OF assms(1)] assms(4)] assms(5) by simp
  obtain f where f: "gc_realloc_count gc m [b + 1..<gc_blocks gc] 1 0 = (n, f)" "b + n + f \<le> gc_blocks gc" "free_run gc (b + n) f"
    "m \<le> n + f \<or> b + n + f = gc_blocks gc \<or> ATB_GET_KIND gc (b + n + f) \<noteq> AT_FREE"
    using realloc_count [OF assms(1,2) b, of m] n by auto
  have p0: "p \<noteq> 0" using assms(4) gc_invD(1) [OF assms(1)] by (auto simp: VERIFY_PTR_def gc_shape_def)
  have m0: "0 < m" using assms(7) m unat_gt_0 [of n_bytes] by simp
  have lock: "\<not> gc_lock_depth gc > 0" using assms(3) by (simp add: gc_is_locked_def word_gt_0)
  note nb = realloc_blocks [OF assms(8), folded m]
  have fits: "m \<le> n + f \<longleftrightarrow> m \<le> n \<or> (b + m \<le> gc_blocks gc \<and> free_run gc (b + n) (m - n))"
  proof
    assume "m \<le> n + f"
    then show "m \<le> n \<or> (b + m \<le> gc_blocks gc \<and> free_run gc (b + n) (m - n))" using f(2,3) by (auto simp: free_run_def)
  next
    assume a: "m \<le> n \<or> (b + m \<le> gc_blocks gc \<and> free_run gc (b + n) (m - n))"
    show "m \<le> n + f"
    proof (rule ccontr)
      assume "\<not> m \<le> n + f"
      then have "b + n + f < b + m" "b + n + f < b + n + (m - n)" by linarith+
      then show False using a f(4) \<open>\<not> m \<le> n + f\<close> unfolding free_run_def by auto
    qed
  qed
  note eq = gc_realloc_def [of collect p n_bytes allow_move gc, unfolded assms(5) [symmetric] nb Let_def f(1) prod.case]
  show ?thesis
  proof (cases "m \<le> n + f")
    case True
    consider "m = n" | "m < n" | "n < m" by linarith
    then have "\<exists>gc'. gc_realloc collect p n_bytes allow_move gc = Some (gc', Some p, []) \<and> realloc_post gc b m gc'"
    proof cases
      case 1
      have "gc_realloc collect p n_bytes allow_move gc = Some (gc, Some p, [])" using eq p0 lock assms(4,6,7) 1 by simp
      moreover have "realloc_post gc b m gc" using assms(1) chain_len_Some(4) [OF assms(2) b] 1 n
        by (auto simp: realloc_post_def same_frame_def fun_eq_iff)
      ultimately show ?thesis by blast
    next
      case 2
      then have "\<not> m = n" "m < chain_len gc b" using n by simp_all
      then show ?thesis unfolding eq using p0 lock assms(4,6,7) 2 shrink_post [OF assms(1,2) b assms(6) m0, folded n]
        by (intro exI conjI) auto
    next
      case 3
      have run: "free_run gc (b + n) (m - n)" "b + m \<le> gc_blocks gc" using True 3 fits by auto
      have "list_all (\<lambda>bl. ATB_GET_KIND gc bl = AT_FREE) [b + n..<b + m]" using run(1) 3 by (auto simp: list_all_iff free_run_def)
      then show ?thesis using eq p0 lock assms(4,6,7) True 3 grow_post [OF assms(1,2) b assms(6), of m] run n by simp
    qed
    then show ?thesis using True fits by blast
  next
    case False
    then have "\<not> allow_move \<Longrightarrow> gc_realloc collect p n_bytes allow_move gc = Some (gc, None, [])" using eq p0 lock assms(4,6,7) by simp
    then show ?thesis using False fits by blast
  qed
qed

theorem gc_realloc_in_place_witness:
  "\<exists>gc'. gc_realloc (\<lambda>gc. None) 4112 30 False sample_gc = Some (gc', Some 4112, []) \<and> gc_inv gc' \<and> ATB_GET_KIND gc' 2 = AT_TAIL"
proof -
  have p: "VERIFY_PTR sample_gc 4112" "1 = BLOCK_FROM_PTR sample_gc 4112"
    by (simp_all add: VERIFY_PTR_def BLOCK_FROM_PTR_def sample_gc_def)
  have "gc_tails sample_gc 2 = Some 0" by (simp add: gc_tails.simps [of sample_gc 2] sample_kinds)
  then have c: "1 = chain_len sample_gc 1" by (simp add: chain_len_def gc_n_blocks_def numeral_2_eq_2 [symmetric])
  have "free_run sample_gc 2 1" using sample_kinds(3) le_antisym by (fastforce simp: free_run_def less_Suc_eq_le)
  then have fits: "(2 :: nat) \<le> 1 \<or> 1 + 2 \<le> gc_blocks sample_gc \<and> free_run sample_gc (1 + 1) (2 - 1)"
    using sample_kinds(6) by (simp add: numeral_2_eq_2)
  have w: "(30 :: mp_uint_t) \<noteq> 0" "unat (30 :: mp_uint_t) + 15 < 2 ^ 32" "2 = (unat (30 :: mp_uint_t) + 15) div 16" by simp_all
  note r = gc_realloc_in_place [OF sample_inv sample_kinds(12) p sample_kinds(2) w c, of "\<lambda>gc. None" False]
  obtain gc' where gc': "gc_realloc (\<lambda>gc. None) 4112 30 False sample_gc = Some (gc', Some 4112, [])" "realloc_post sample_gc 1 2 gc'"
    using mp [OF conjunct1 [OF r] fits] by blast
  have "ATB_GET_KIND gc' 2 = AT_TAIL" using gc'(2) sample_kinds(6) unfolding realloc_post_def by simp
  then show ?thesis using gc' unfolding realloc_post_def by blast
qed

text \<open>
  C31: A size of at least \<open>2 ^ 32 - 15\<close> bytes wraps around in the computation of the number of
  blocks: \<open>gc_realloc\<close> then frees the whole chunk and still returns its address.
\<close>

theorem gc_realloc_size_wraps:
  assumes "gc_inv gc" "table_end_ok gc" "\<not> gc_is_locked gc" "VERIFY_PTR gc p" "b = BLOCK_FROM_PTR gc p" "ATB_GET_KIND gc b = AT_HEAD"
    and "2 ^ 32 \<le> unat n_bytes + 15"
  shows "\<exists>gc'. gc_realloc collect p n_bytes allow_move gc = Some (gc', Some p, []) \<and> ATB_GET_KIND gc' b = AT_FREE"
proof -
  have b: "b < gc_blocks gc" using VERIFY_block [OF gc_invD(1) [OF assms(1)] assms(4)] assms(5) by simp
  note cl = chain_len_Some [OF assms(2) b]
  obtain f where f: "gc_realloc_count gc 0 [b + 1..<gc_blocks gc] 1 0 = (chain_len gc b, f)"
    using realloc_count [OF assms(1,2) b, of 0] by auto
  have P: "(2 :: nat) ^ 32 = 4294967296" by simp
  have lt: "unat n_bytes < 2 ^ 32" unfolding P by (rule unat_u32_less)
  have small: "unat n_bytes + 15 - 2 ^ 32 < 2 ^ 32" unfolding less_diff_conv2 [OF assms(7)] by (rule add_strict_mono [OF lt]) simp
  have "unat (n_bytes + 15) = unat n_bytes + 15 - 2 ^ 32"
  proof -
    have "unat (n_bytes + 15) = (unat n_bytes + 15) mod 2 ^ 32" by (simp add: unat_word_ariths)
    also have "\<dots> = (unat n_bytes + 15 - 2 ^ 32) mod 2 ^ 32" using assms(7) by (rule le_mod_geq)
    also have "\<dots> = unat n_bytes + 15 - 2 ^ 32" by (rule mod_less [OF small])
    finally show ?thesis .
  qed
  also have "\<dots> < 16" unfolding less_diff_conv2 [OF assms(7)] add.commute [of 16] by (rule add_strict_mono [OF lt]) simp
  finally have "unat (n_bytes + 15) < 16" .
  then have nb: "unat ((n_bytes + 15) div 16) = 0" by (simp add: unat_div)
  have "n_bytes \<noteq> 0" using assms(7) by auto
  moreover have "p \<noteq> 0" using assms(4) gc_invD(1) [OF assms(1)] by (auto simp: VERIFY_PTR_def gc_shape_def)
  moreover have "\<not> gc_lock_depth gc > 0" using assms(3) by (simp add: gc_is_locked_def word_gt_0)
  moreover have "ATB_GET_KIND (fold ATB_ANY_TO_FREE [b..<b + chain_len gc b] gc) b = AT_FREE"
    using ANY_TO_FREE_fold [OF gc_invD(1) [OF assms(1)] cl(3)] cl(2) by (simp add: without_def)
  ultimately show ?thesis
    unfolding gc_realloc_def assms(5) [symmetric] nb Let_def f prod.case using assms(4,6) cl(2) by (auto simp: mem_frame)
qed

theorem gc_realloc_size_wraps_witness:
  "\<exists>gc'. gc_realloc (\<lambda>gc. None) 4112 0xFFFFFFF8 False sample_gc = Some (gc', Some 4112, []) \<and> ATB_GET_KIND gc' 1 = AT_FREE"
proof -
  have p: "VERIFY_PTR sample_gc 4112" "1 = BLOCK_FROM_PTR sample_gc 4112"
    by (simp_all add: VERIFY_PTR_def BLOCK_FROM_PTR_def sample_gc_def)
  show ?thesis using gc_realloc_size_wraps [OF sample_inv sample_kinds(12) p sample_kinds(2), of "0xFFFFFFF8" "\<lambda>gc. None" False] by simp
qed

section \<open>Beyond the end of the allocation table\<close>

definition overrun_gc :: gc where
  "overrun_gc = sample_gc\<lparr>gc_table := [0x55, 0x02, 0]\<rparr>"

text \<open>
  C30: The loops over the tails of a chain do not stop at the end of the allocation table, where the
  finaliser table begins. On a heap that satisfies the invariant, with a finaliser on block 1 and none
  on block 0, the last block is taken for a chain of two blocks, and freeing it erases the
  finaliser flag of block 1.
\<close>

theorem gc_table_overrun:
  "gc_inv overrun_gc \<and> gc_nbytes 4144 overrun_gc = Some 32 \<and> FTB_GET overrun_gc 1
   \<and> (\<exists>gc'. gc_free 4144 overrun_gc = Some gc' \<and> ATB_GET_KIND gc' 1 = AT_HEAD \<and> \<not> FTB_GET gc' 1)"
proof -
  let ?g = "overrun_gc"
  have k: "ATB_GET_KIND ?g 0 = 1" "ATB_GET_KIND ?g 1 = 1" "ATB_GET_KIND ?g 2 = 1" "ATB_GET_KIND ?g 3 = 1" "ATB_GET_KIND ?g 4 = 2" "ATB_GET_KIND ?g 5 = 0"
    "gc_blocks ?g = 4" "length (gc_table ?g) = 3" "\<not> FTB_GET ?g 0" "FTB_GET ?g 1" "\<not> FTB_GET ?g 2" "\<not> FTB_GET ?g 3" "gc_lock_depth ?g = 0"
    by (simp_all add: overrun_gc_def sample_gc_def ATB_GET_KIND_def BLOCK_SHIFT_def FTB_GET_def)
  have "gc_shape ?g" "gc_last_free_atb_index ?g = 0" by (simp_all add: gc_shape_def overrun_gc_def sample_gc_def)
  then have inv: "gc_inv ?g" by (intro gc_invI) (auto simp: k [simplified] dest!: less_4_cases)
  have p: "VERIFY_PTR ?g 4144" "BLOCK_FROM_PTR ?g 4144 = 3" by (simp_all add: VERIFY_PTR_def BLOCK_FROM_PTR_def overrun_gc_def sample_gc_def)
  have "gc_tails ?g 5 = Some 0" "gc_tails ?g 4 = Some 1" by (simp_all add: gc_tails.simps [of ?g 5] gc_tails.simps [of ?g 4] k)
  then have "gc_nbytes 4144 ?g = Some 32" using p k by (simp add: gc_nbytes_def gc_n_blocks_def)
  moreover have "gc_free 4144 ?g = Some (?g\<lparr>gc_table := [0x15, 0, 0]\<rparr>)"
    using p k by (simp add: gc_free_def) (simp add: overrun_gc_def sample_gc_def FTB_CLEAR_def gc_free_chain.simps ATB_ANY_TO_FREE_def atb_and_not_def
        BLOCK_SHIFT_def ATB_GET_KIND_def)
  moreover have "ATB_GET_KIND (?g\<lparr>gc_table := [0x15, 0, 0]\<rparr>) 1 = AT_HEAD" "\<not> FTB_GET (?g\<lparr>gc_table := [0x15, 0, 0]\<rparr>) 1"
    by (simp_all add: overrun_gc_def sample_gc_def ATB_GET_KIND_def BLOCK_SHIFT_def FTB_GET_def)
  ultimately show ?thesis using inv k by blast
qed

section \<open>Statistics\<close>

text \<open>The statistics account for every block: used and free bytes add up to the size of the pool.\<close>

theorem gc_info_total:
  assumes "gc_inv gc"
  shows "info_used (gc_info gc) + info_free (gc_info gc) = info_total (gc_info gc)"
proof -
  let ?i = "(\<lparr>info_total = gc_pool_end gc - gc_pool_start gc, info_used = 0, info_free = 0, info_max_free = 0, info_num_1block = 0, info_num_2block = 0, info_max_block = 0\<rparr>, 0, 0)"
  let ?f = "\<lambda>k. fst (fold (gc_info_block gc) [0..<k] ?i)"
  have step: "info_used (fst (gc_info_block gc k s)) + info_free (fst (gc_info_block gc k s)) = Suc (info_used (fst s) + info_free (fst s))"
    "info_total (fst (gc_info_block gc k s)) = info_total (fst s)"
    if "k < gc_blocks gc" for k s
    using gc_invD(5) [OF assms that] kind_cases [of gc k] by (cases s, auto simp: gc_info_block_def Let_def)+
  have "k \<le> gc_blocks gc \<Longrightarrow> info_used (?f k) + info_free (?f k) = k \<and> info_total (?f k) = gc_pool_end gc - gc_pool_start gc" for k
    by (induction k) (simp_all add: step)
  from this [OF order_refl] gc_invD(1) [OF assms] show ?thesis
    by (auto simp: gc_shape_def gc_info_def Let_def case_prod_unfold simp flip: distrib_right)
qed

theorem gc_info_total_witness: "info_used (gc_info sample_gc) + info_free (gc_info sample_gc) = info_total (gc_info sample_gc)"
  using gc_info_total [OF sample_inv(1)] by simp

end
