(* ===== verification/Calendar.thy ===== *)
theory Calendar
  imports Mp_Prelude
begin

text \<open>
  The Gregorian calendar, as the reference the time functions of \<open>src/lib/timeutils\<close> and
  \<open>src/esp32/util\<close> are measured against: a date is advanced one day at a time, and the number of a
  day counts these steps from the first of January of the year 1. Nothing here models a line of the
  sources. The lemmas give the closed form of the day number and show that it determines the date.
\<close>

section \<open>Dates\<close>

type_synonym date = "int \<times> int \<times> int"

definition leap :: "int \<Rightarrow> bool" where
  "leap y = (4 dvd y \<and> (100 dvd y \<longrightarrow> 400 dvd y))"

definition month_len :: "int \<Rightarrow> int \<Rightarrow> int" where
  "month_len y m =
     (if m = 2 then if leap y then 29 else 28
      else if m \<in> {4, 6, 9, 11} then 30 else 31)"

fun valid_date :: "date \<Rightarrow> bool" where
  "valid_date (y, m, d) = (1 \<le> m \<and> m \<le> 12 \<and> 1 \<le> d \<and> d \<le> month_len y m)"

fun next_day :: "date \<Rightarrow> date" where
  "next_day (y, m, d) =
     (if d < month_len y m then (y, m, d + 1)
      else if m < 12 then (y, m + 1, 1)
      else (y + 1, 1, 1))"

text \<open>The date of a day, counted from the first of January of the year 1.\<close>

definition date_of_day :: "nat \<Rightarrow> date" where
  "date_of_day n = (next_day ^^ n) (1, 1, 1)"

section \<open>The number of a day\<close>

definition days_before_year :: "int \<Rightarrow> int" where
  "days_before_year y = 365 * (y - 1) + (y - 1) div 4 - (y - 1) div 100 + (y - 1) div 400"

definition days_before_month :: "int \<Rightarrow> int \<Rightarrow> int" where
  "days_before_month y m =
     [0, 31, 59, 90, 120, 151, 181, 212, 243, 273, 304, 334] ! nat (m - 1)
     + (if 2 < m \<and> leap y then 1 else 0)"

fun ordinal :: "date \<Rightarrow> int" where
  "ordinal (y, m, d) = days_before_year y + days_before_month y m + d - 1"

lemma month_cases:
  assumes "1 \<le> m" and "m \<le> (12 :: int)"
  shows "m = 1 \<or> m = 2 \<or> m = 3 \<or> m = 4 \<or> m = 5 \<or> m = 6 \<or> m = 7 \<or> m = 8 \<or> m = 9 \<or> m = 10
    \<or> m = 11 \<or> m = 12"
  using assms by presburger

lemma month_len_bounds: "28 \<le> month_len y m" "month_len y m \<le> 31"
  by (simp_all add: month_len_def)

lemma days_before_month_step:
  assumes "1 \<le> m" and "m < 12"
  shows "days_before_month y (m + 1) = days_before_month y m + month_len y m"
proof -
  have "m = 1 \<or> m = 2 \<or> m = 3 \<or> m = 4 \<or> m = 5 \<or> m = 6 \<or> m = 7 \<or> m = 8 \<or> m = 9 \<or> m = 10 \<or> m = 11"
    using assms by presburger
  then show ?thesis
    by (elim disjE) (simp_all add: days_before_month_def month_len_def)
qed

lemma days_before_month_January [simp]: "days_before_month y 1 = 0"
  by (simp add: days_before_month_def)

lemma days_before_month_bounds:
  assumes "1 \<le> m" and "m \<le> 12"
  shows "0 \<le> days_before_month y m" "days_before_month y m \<le> 335"
  using month_cases [OF assms] by (elim disjE; simp add: days_before_month_def)+

lemma div_step: "(y :: int) div k = (y - 1) div k + (if k dvd y then 1 else 0)" if "0 < k"
proof (cases "k dvd y")
  case True
  then obtain q where q: "y = k * q" by (elim dvdE)
  have "(y - 1) div k = q - 1"
    using that q by (intro int_div_pos_eq [of _ _ _ "k - 1"]) (simp_all add: algebra_simps)
  then show ?thesis using that q True by simp
next
  case False
  then have "0 < y mod k" using that by (simp add: dvd_eq_mod_eq_0 order_less_le)
  then have "(y - 1) div k = y div k"
    using that pos_mod_bound [of k y] mult_div_mod_eq [of k y]
    by (intro int_div_pos_eq [of _ _ _ "y mod k - 1"]) linarith+
  then show ?thesis using False by simp
qed

lemma leap_count:
  assumes "b \<longrightarrow> a" and "c \<longrightarrow> b"
  shows "(if a \<and> (b \<longrightarrow> c) then 1 else 0 :: int)
    = (if a then 1 else 0) - (if b then 1 else 0) + (if c then 1 else 0)"
  using assms by (cases a; cases b; cases c) simp_all

lemma year_days_sum:
  assumes "l = i - j + k" and "a = a' + i" and "b = b' + j" and "c = c' + (k :: int)"
  shows "365 * y + a - b + c = 365 * (y - 1) + a' - b' + c' + 365 + l"
  using assms by simp

lemma days_before_year_step:
  "days_before_year (y + 1) = days_before_year y + 365 + (if leap y then 1 else 0)"
proof -
  have "100 dvd y \<longrightarrow> 4 dvd y" by (rule impI, rule dvd_trans [of 4 100 y]) simp_all
  moreover have "400 dvd y \<longrightarrow> 100 dvd y" by (rule impI, rule dvd_trans [of 100 400 y]) simp_all
  ultimately have *: "(if leap y then 1 else 0 :: int)
      = (if 4 dvd y then 1 else 0) - (if 100 dvd y then 1 else 0) + (if 400 dvd y then 1 else 0)"
    unfolding leap_def by (rule leap_count)
  show ?thesis
    unfolding days_before_year_def add_diff_cancel_right'
    by (rule year_days_sum [OF *]; rule div_step) simp_all
qed

lemma year_span:
  "days_before_month y 12 + month_len y 12 = 365 + (if leap y then 1 else 0)"
  by (simp add: days_before_month_def month_len_def)

lemma ordinal_next_day:
  assumes "valid_date x"
  shows "ordinal (next_day x) = ordinal x + 1"
proof (cases x)
  case (fields y m d)
  then show ?thesis
    using assms days_before_month_step [of m y] days_before_year_step [of y] year_span [of y]
    by (cases "m < 12") auto
qed

lemma valid_next_day: "valid_date x \<Longrightarrow> valid_date (next_day x)"
  by (cases x) (auto simp: month_len_def)

lemma ordinal_date_of_day: "valid_date (date_of_day n) \<and> ordinal (date_of_day n) = int n"
proof (induction n)
  case 0
  show ?case by (simp add: date_of_day_def days_before_year_def month_len_def)
next
  case (Suc n)
  moreover have "date_of_day (Suc n) = next_day (date_of_day n)" by (simp add: date_of_day_def)
  ultimately show ?case using valid_next_day ordinal_next_day by simp
qed

section \<open>The day number determines the date\<close>

lemma days_before_year_mono: "y \<le> z \<Longrightarrow> days_before_year y \<le> days_before_year z"
  by (induction z rule: int_ge_induct) (simp_all add: days_before_year_step)

lemma days_before_month_mono:
  assumes "m \<le> k" and "1 \<le> m" and "k \<le> 12"
  shows "days_before_month y m \<le> days_before_month y k"
  using assms
proof (induction k rule: int_ge_induct)
  case (step k)
  then show ?case using days_before_month_step [of k y] month_len_bounds [of y k] by simp
qed simp

lemma ordinal_in_year:
  assumes "valid_date (y, m, d)"
  shows "days_before_year y \<le> ordinal (y, m, d)" "ordinal (y, m, d) < days_before_year (y + 1)"
proof -
  have m: "1 \<le> m" "m \<le> 12" and d: "1 \<le> d" "d \<le> month_len y m" using assms by simp_all
  show "days_before_year y \<le> ordinal (y, m, d)"
    using days_before_month_bounds [OF m, of y] d by simp
  have "days_before_month y m + month_len y m \<le> 365 + (if leap y then 1 else 0)"
  proof (cases "m = 12")
    case False
    then have "days_before_month y (m + 1) \<le> days_before_month y 12"
      using m by (intro days_before_month_mono) simp_all
    then show ?thesis
      using days_before_month_step [of m y] m False year_span [of y] month_len_bounds [of y 12] by simp
  qed (use year_span [of y] in simp)
  then show "ordinal (y, m, d) < days_before_year (y + 1)"
    using d by (simp add: days_before_year_step)
qed

lemma ordinal_inj:
  assumes v: "valid_date (y, m, d)" "valid_date (y', m', d')"
    and eq: "ordinal (y, m, d) = ordinal (y', m', d')"
  shows "(y, m, d) = (y', m', d')"
proof -
  have y: "y = y'"
  proof (rule ccontr)
    assume "y \<noteq> y'"
    then have "y + 1 \<le> y' \<or> y' + 1 \<le> y" by linarith
    then show False
      using ordinal_in_year [OF v(1)] ordinal_in_year [OF v(2)] eq
        days_before_year_mono [of "y + 1" y'] days_before_year_mono [of "y' + 1" y] by linarith
  qed
  have later: False if "a < b" "1 \<le> a" "b \<le> 12" "days_before_month y a + c = days_before_month y b + e"
    "c \<le> month_len y a" "1 \<le> e" for a b c e
    using that days_before_month_step [of a y] days_before_month_mono [of "a + 1" b y] by linarith
  have "\<not> m < m'" using later [of m m' d d'] v eq y by auto
  moreover have "\<not> m' < m" using later [of m' m d' d] v eq y by auto
  ultimately have "m = m'" by simp
  then show ?thesis using eq y by simp
qed

lemma date_of_day_unique:
  assumes "valid_date (y, m, d)" and "ordinal (y, m, d) = int n"
  shows "date_of_day n = (y, m, d)"
proof -
  obtain y' m' d' where "date_of_day n = (y', m', d')" by (cases "date_of_day n")
  moreover from this have "(y', m', d') = (y, m, d)"
    using ordinal_date_of_day [of n] assms by (intro ordinal_inj) simp_all
  ultimately show ?thesis by simp
qed

end
