(* ===== verification/C_Int.thy ===== *)
theory C_Int
  imports Mp_Prelude
begin

text \<open>
  Machine integers as integers whose width is written out where a value can leave it: \<open>u8\<close> to
  \<open>u64\<close> take an integer to the unsigned type of that width, \<open>s32\<close> and \<open>s64\<close> to the signed ones.
\<close>

section \<open>Integers of fixed width\<close>

definition u8 :: "int \<Rightarrow> int" where "u8 x = x mod 256"

definition u16 :: "int \<Rightarrow> int" where "u16 x = x mod 65536"

definition u32 :: "int \<Rightarrow> int" where "u32 x = x mod 4294967296"

definition u64 :: "int \<Rightarrow> int" where "u64 x = x mod 18446744073709551616"

definition s32 :: "int \<Rightarrow> int" where "s32 x = (x + 2147483648) mod 4294967296 - 2147483648"

definition s64 :: "int \<Rightarrow> int" where
  "s64 x = (x + 9223372036854775808) mod 18446744073709551616 - 9223372036854775808"

lemma u8_id [simp]: "0 \<le> x \<Longrightarrow> x < 256 \<Longrightarrow> u8 x = x"
  by (simp add: u8_def)

lemma u16_id [simp]: "0 \<le> x \<Longrightarrow> x < 65536 \<Longrightarrow> u16 x = x"
  by (simp add: u16_def)

lemma u32_id [simp]: "0 \<le> x \<Longrightarrow> x < 4294967296 \<Longrightarrow> u32 x = x"
  by (simp add: u32_def)

lemma s32_id [simp]: "- 2147483648 \<le> x \<Longrightarrow> x < 2147483648 \<Longrightarrow> s32 x = x"
  by (simp add: s32_def)

lemma s64_id [simp]:
  "- 9223372036854775808 \<le> x \<Longrightarrow> x < 9223372036854775808 \<Longrightarrow> s64 x = x"
  by (simp add: s64_def)

lemma u32_s32 [simp]: "u32 (s32 x) = u32 x"
  by (simp add: u32_def s32_def mod_simps)

lemma u32_sub: "0 \<le> n \<Longrightarrow> n \<le> u32 x \<Longrightarrow> u32 (u32 x - n) = u32 x - n"
  by (simp add: u32_def)

lemma s32_minus [simp]: "s32 (s32 x - 1) = s32 (x - 1)"
proof -
  have "s32 x - 1 + 2147483648 = (x + 2147483648) mod 4294967296 - 1" by (simp add: s32_def)
  then have "(s32 x - 1 + 2147483648) mod 4294967296 = (x + 2147483648 - 1) mod 4294967296"
    by (simp only: mod_diff_left_eq)
  then show ?thesis by (simp add: s32_def)
qed

lemma u32_minus [simp]: "u32 (u32 x - 1) = u32 (x - 1)"
  by (simp add: u32_def mod_diff_left_eq)

end
