(* ===== verification/Timeutils.thy ===== *)
theory Timeutils
  imports Calendar C_Int
begin

text \<open>
  The conversions between seconds and calendar dates: \<open>src/lib/timeutils/timeutils.c\<close> (32-bit
  seconds since 2000) and \<open>src/esp32/util/timeutils.c\<close> (64-bit seconds since 1970). Machine integers
  are integers whose width is written out at every assignment that can leave it, as theory \<open>C_Int\<close>
  has them. Division is that of C, rounding to zero. A read outside one of the constant tables has no defined value and is \<open>None\<close>.

  The lemmas show that both conversions to a date give the date of the Gregorian calendar and are
  inverted by the conversions back, and that the normalisation of \<open>mktime\<close> terminates with the
  date that the given number of days, hours, minutes and seconds after the first of the month has.
\<close>

section \<open>Tables\<close>

definition table_get :: "int list \<Rightarrow> int \<Rightarrow> int option" where
  "table_get xs i = (if 0 \<le> i \<and> i < int (length xs) then Some (xs ! nat i) else None)"

section \<open>Days and months\<close>

definition LEAPOCH :: int where "LEAPOCH = (31 + 29) * 86400"

definition DAYS_PER_400Y :: int where "DAYS_PER_400Y = 365 * 400 + 97"

definition DAYS_PER_100Y :: int where "DAYS_PER_100Y = 365 * 100 + 24"

definition DAYS_PER_4Y :: int where "DAYS_PER_4Y = 365 * 4 + 1"

definition days_since_jan1 :: "int list" where
  "days_since_jan1 = [0, 31, 59, 90, 120, 151, 181, 212, 243, 273, 304, 334, 365]"

record timeutils_struct_time_t =
  tm_year :: int
  tm_mon :: int
  tm_mday :: int
  tm_hour :: int
  tm_min :: int
  tm_sec :: int
  tm_wday :: int
  tm_yday :: int

definition timeutils_is_leap_year :: "int \<Rightarrow> bool" where
  "timeutils_is_leap_year year = ((year mod 4 = 0 \<and> year mod 100 \<noteq> 0) \<or> year mod 400 = 0)"

definition timeutils_days_in_month :: "int \<Rightarrow> int \<Rightarrow> int option" where
  "timeutils_days_in_month year month =
     (case (table_get days_since_jan1 month, table_get days_since_jan1 (u32 (month - 1))) of
        (Some b, Some a) \<Rightarrow>
          let mdays = b - a in
          Some (if month = 2 \<and> timeutils_is_leap_year year then mdays + 1 else mdays)
      | _ \<Rightarrow> None)"

definition timeutils_year_day :: "int \<Rightarrow> int \<Rightarrow> int \<Rightarrow> int option" where
  "timeutils_year_day year month date =
     (case table_get days_since_jan1 (u32 (month - 1)) of
        Some a \<Rightarrow>
          let yday = u32 (a + date) in
          Some (if 3 \<le> month \<and> timeutils_is_leap_year year then u32 (yday + 1) else yday)
      | None \<Rightarrow> None)"

text \<open>The search for the month, from March on.\<close>

fun month_loop :: "int list \<Rightarrow> int \<Rightarrow> int \<Rightarrow> (int \<times> int) option" where
  "month_loop [] month days = None"
| "month_loop (len # days_in_month) month days =
     (if len \<le> days then month_loop days_in_month (month + 1) (days - len)
      else Some (month, days))"

definition days_in_month :: "int list" where
  "days_in_month = [31, 30, 31, 30, 31, 31, 30, 31, 30, 31, 31, 29]"

text \<open>
  The cycles of 400, 100 and 4 years, the years and the remaining days that make up the given days
  after the first of March 2000.
\<close>

definition year_cycles :: "int \<Rightarrow> int \<times> int \<times> int \<times> int \<times> int" where
  "year_cycles days =
     (let qc_cycles = days sdiv DAYS_PER_400Y;
          days = days smod DAYS_PER_400Y;
          (days, qc_cycles) = (if days < 0 then (days + DAYS_PER_400Y, qc_cycles - 1)
                               else (days, qc_cycles));
          c_cycles = days sdiv DAYS_PER_100Y;
          c_cycles = (if c_cycles = 4 then c_cycles - 1 else c_cycles);
          days = days - c_cycles * DAYS_PER_100Y;
          q_cycles = days sdiv DAYS_PER_4Y;
          q_cycles = (if q_cycles = 25 then q_cycles - 1 else q_cycles);
          days = days - q_cycles * DAYS_PER_4Y;
          years = days sdiv 365;
          years = (if years = 4 then years - 1 else years);
          days = days - years * 365
      in (qc_cycles, c_cycles, q_cycles, years, days))"

section \<open>Seconds since 2000\<close>

definition timeutils_seconds_since_2000_to_struct_time :: "int \<Rightarrow> timeutils_struct_time_t option" where
  "timeutils_seconds_since_2000_to_struct_time t =
     (let seconds = s32 (t - LEAPOCH);
          days = seconds sdiv 86400;
          seconds = seconds smod 86400;
          (seconds, days) = (if seconds < 0 then (seconds + 86400, days - 1) else (seconds, days));
          hour = u8 (seconds sdiv 3600);
          min = u8 (seconds sdiv 60 smod 60);
          sec = u8 (seconds smod 60);
          wday = (days + 2) smod 7;
          wday = (if wday < 0 then wday + 7 else wday);
          (qc_cycles, c_cycles, q_cycles, years, days) = year_cycles days;
          year = u16 (2000 + years + 4 * q_cycles + 100 * c_cycles + 400 * qc_cycles)
      in case month_loop days_in_month 0 days of
           None \<Rightarrow> None
         | Some (month, days) \<Rightarrow>
             let mon = u8 (month + 2);
                 (mon, year) = (if 12 \<le> mon then (u8 (mon - 12), u16 (year + 1)) else (mon, year));
                 mday = u8 (days + 1);
                 mon = u8 (mon + 1)
             in (case timeutils_year_day year mon mday of
                   None \<Rightarrow> None
                 | Some yday \<Rightarrow>
                     Some \<lparr>tm_year = year, tm_mon = mon, tm_mday = mday, tm_hour = hour,
                           tm_min = min, tm_sec = sec, tm_wday = u8 wday, tm_yday = u16 yday\<rparr>))"

definition timeutils_seconds_since_2000 ::
    "int \<Rightarrow> int \<Rightarrow> int \<Rightarrow> int \<Rightarrow> int \<Rightarrow> int \<Rightarrow> int option" where
  "timeutils_seconds_since_2000 year month date hour minute second =
     (case timeutils_year_day year month date of
        None \<Rightarrow> None
      | Some yday \<Rightarrow>
          Some (u32 (second + minute * 60 + hour * 3600
            + u32 (yday - 1 + u32 (year - 2000 + 3) div 4 - u32 (year - 2000 + 99) div 100
                + u32 (year - 2000 + 399) div 400) * 86400
            + (year - 2000) * 31536000)))"

section \<open>Seconds since 1970\<close>

definition LEAPOCH_1970 :: int where "LEAPOCH_1970 = 946684800 + 86400 * (31 + 29)"

definition timeutils_seconds_since_epoch_to_struct_time :: "int \<Rightarrow> timeutils_struct_time_t option" where
  "timeutils_seconds_since_epoch_to_struct_time t =
     (let secs = s64 (t - LEAPOCH_1970);
          days = secs sdiv 86400;
          remsecs = secs smod 86400;
          (remsecs, days) = (if remsecs < 0 then (remsecs + 86400, days - 1) else (remsecs, days));
          wday = (2 + days) smod 7;
          wday = (if wday < 0 then wday + 7 else wday);
          (qc_cycles, c_cycles, q_cycles, remyears, remdays) = year_cycles days;
          qc_cycles = s32 qc_cycles;
          leap = (if remyears = 0 \<and> (q_cycles \<noteq> 0 \<or> c_cycles = 0) then 1 else 0);
          yday = remdays + 31 + 28 + leap;
          yday = (if 365 + leap \<le> yday then yday - (365 + leap) else yday);
          years = s32 (remyears + 4 * q_cycles + 100 * c_cycles + 400 * qc_cycles)
      in case month_loop days_in_month 0 remdays of
           None \<Rightarrow> None
         | Some (months, remdays) \<Rightarrow>
             let year = u16 (2000 + years);
                 mon = u8 (months + 2);
                 (mon, year) = (if 12 \<le> mon then (u8 (mon - 12), u16 (year + 1)) else (mon, year))
             in Some \<lparr>tm_year = year, tm_mon = u8 (mon + 1), tm_mday = u8 (remdays + 1),
                      tm_hour = u8 (remsecs sdiv 3600), tm_min = u8 (remsecs sdiv 60 smod 60),
                      tm_sec = u8 (remsecs smod 60), tm_wday = u8 wday, tm_yday = u16 (yday + 1)\<rparr>)"

definition timeutils_seconds_since_epoch ::
    "int \<Rightarrow> int \<Rightarrow> int \<Rightarrow> int \<Rightarrow> int \<Rightarrow> int \<Rightarrow> int option" where
  "timeutils_seconds_since_epoch year month date hour minute second =
     (case timeutils_year_day year month date of
        None \<Rightarrow> None
      | Some yday \<Rightarrow>
          Some (s64 (u32 (second + minute * 60 + hour * 3600)
            + u32 (yday - 1 + u32 (year - 1972 + 3) div 4 - u32 (year - 2000 + 99) div 100
                + u32 (year - 2000 + 399) div 400) * 86400
            + u32 (year - 1970) * 31536000)))"

section \<open>Normalising a date\<close>

text \<open>The loops of \<open>mktime\<close> on the day of the month.\<close>

lemma month_range: "1 \<le> m \<Longrightarrow> m \<le> 12 \<Longrightarrow> u32 (m - 1) = m - 1"
  by (simp add: u32_def)

lemma table_get_SomeD: "table_get xs i = Some v \<Longrightarrow> 0 \<le> i \<and> i < int (length xs)"
  by (simp add: table_get_def split: if_splits)

lemma days_in_month_month:
  assumes "timeutils_days_in_month year month = Some n"
  shows "1 \<le> month \<and> month \<le> 12"
proof -
  obtain a b where ab: "table_get days_since_jan1 month = Some b"
    "table_get days_since_jan1 (u32 (month - 1)) = Some a"
    using assms by (auto simp: timeutils_days_in_month_def split: option.splits)
  have "0 \<le> month \<and> month < 13" "u32 (month - 1) < 13"
    using table_get_SomeD [OF ab(1)] table_get_SomeD [OF ab(2)] by (simp_all add: days_since_jan1_def)
  then show ?thesis by (cases "month = 0") (simp_all add: u32_def)
qed

lemma is_leap_year_eq [simp]: "timeutils_is_leap_year y = leap y"
proof -
  have "400 dvd y \<Longrightarrow> 4 dvd y" by (rule dvd_trans [of 4 400 y]) simp_all
  then show ?thesis unfolding timeutils_is_leap_year_def leap_def dvd_eq_mod_eq_0 [symmetric] by blast
qed

lemma days_in_month_eq:
  assumes "1 \<le> m" and "m \<le> 12"
  shows "timeutils_days_in_month y m = Some (month_len y m)"
  using month_cases [OF assms]
  by (elim disjE)
    (simp_all add: timeutils_days_in_month_def u32_def table_get_def days_since_jan1_def month_len_def)

lemma days_in_month_ge: "timeutils_days_in_month year month = Some n \<Longrightarrow> 28 \<le> n"
  using days_in_month_month [of year month n] days_in_month_eq [of month year]
    month_len_bounds [of year month] by simp

function mktime_back :: "int \<Rightarrow> int \<Rightarrow> int \<Rightarrow> (int \<times> int \<times> int) option" where
  "mktime_back year month mday =
     (if mday < 1 then
        let (month, year) = (if month - 1 = 0 then (12, u32 (year - 1)) else (month - 1, year))
        in (case timeutils_days_in_month year month of
              None \<Rightarrow> None
            | Some n \<Rightarrow> mktime_back year month (mday + n))
      else Some (year, month, mday))"
  by pat_completeness auto
termination
  by (relation "measure (\<lambda>(year, month, mday). nat (1 - mday))") (auto dest!: days_in_month_ge)

function mktime_forward :: "int \<Rightarrow> int \<Rightarrow> int \<Rightarrow> (int \<times> int \<times> int) option" where
  "mktime_forward year month mday =
     (case timeutils_days_in_month year month of
        None \<Rightarrow> None
      | Some n \<Rightarrow>
          if n < u32 mday then
            let mday = s32 (u32 mday - n);
                (month, year) = (if month + 1 = 13 then (1, u32 (year + 1)) else (month + 1, year))
            in mktime_forward year month mday
          else Some (year, month, mday))"
  by pat_completeness auto
termination
  by (relation "measure (\<lambda>(year, month, mday). nat (u32 mday))")
    (auto simp: u32_s32 u32_sub dest!: days_in_month_ge)

declare mktime_back.simps [simp del] mktime_forward.simps [simp del]

text \<open>The part the two functions have in common.\<close>

definition mktime_normalize ::
    "int \<Rightarrow> int \<Rightarrow> int \<Rightarrow> int \<Rightarrow> int \<Rightarrow> int \<Rightarrow> (int \<times> int \<times> int \<times> int \<times> int \<times> int) option" where
  "mktime_normalize year month mday hours minutes seconds =
     (let minutes = s32 (minutes + seconds sdiv 60);
          seconds = seconds smod 60;
          (seconds, minutes) = (if seconds < 0 then (seconds + 60, s32 (minutes - 1))
                                else (seconds, minutes));
          hours = s32 (hours + minutes sdiv 60);
          minutes = minutes smod 60;
          (minutes, hours) = (if minutes < 0 then (minutes + 60, s32 (hours - 1))
                              else (minutes, hours));
          mday = s32 (mday + hours sdiv 24);
          hours = hours smod 24;
          (hours, mday) = (if hours < 0 then (hours + 24, s32 (mday - 1)) else (hours, mday));
          month = s32 (month - 1);
          year = u32 (year + month sdiv 12);
          month = month smod 12;
          (month, year) = (if month < 0 then (month + 12, u32 (year - 1)) else (month, year));
          month = month + 1
      in case mktime_back year month mday of
           None \<Rightarrow> None
         | Some (year, month, mday) \<Rightarrow>
             (case mktime_forward year month mday of
                None \<Rightarrow> None
              | Some (year, month, mday) \<Rightarrow> Some (year, month, mday, hours, minutes, seconds)))"

definition timeutils_mktime :: "int \<Rightarrow> int \<Rightarrow> int \<Rightarrow> int \<Rightarrow> int \<Rightarrow> int \<Rightarrow> int option" where
  "timeutils_mktime year month mday hours minutes seconds =
     (case mktime_normalize year month mday hours minutes seconds of
        None \<Rightarrow> None
      | Some (year, month, mday, hours, minutes, seconds) \<Rightarrow>
          timeutils_seconds_since_2000 year month (u32 mday) hours minutes seconds)"

definition timeutils_mktime_since_epoch ::
    "int \<Rightarrow> int \<Rightarrow> int \<Rightarrow> int \<Rightarrow> int \<Rightarrow> int \<Rightarrow> int option" where
  "timeutils_mktime_since_epoch year month mday hours minutes seconds =
     (case mktime_normalize year month mday hours minutes seconds of
        None \<Rightarrow> None
      | Some (year, month, mday, hours, minutes, seconds) \<Rightarrow>
          timeutils_seconds_since_epoch year month (u32 mday) hours minutes seconds)"

section \<open>Divisions\<close>

lemma sdiv_nonneg [simp]: "0 \<le> a \<Longrightarrow> 0 < b \<Longrightarrow> a sdiv b = (a :: int) div b"
  by (cases "a = 0") (simp_all add: signed_divide_int_def)

lemma smod_nonneg [simp]: "0 \<le> a \<Longrightarrow> 0 < b \<Longrightarrow> a smod b = (a :: int) mod b"
  by (simp add: smod_mod_positive)

text \<open>The correction after a division that rounds to zero gives the division that rounds down.\<close>

lemma smod_neg:
  assumes "a < 0" and "0 < (b :: int)"
  shows "a smod b = (if a mod b = 0 then 0 else a mod b - b)"
    and "a sdiv b = (if a mod b = 0 then a div b else a div b + 1)"
proof -
  have "a smod b = - (- a mod b)" using assms by (simp add: signed_modulo_int_def)
  then show "a smod b = (if a mod b = 0 then 0 else a mod b - b)"
    using zmod_zminus1_eq_if [of a b] by simp
  have "a sdiv b = - (- a div b)" using assms by (simp add: signed_divide_int_def)
  then show "a sdiv b = (if a mod b = 0 then a div b else a div b + 1)"
    using zdiv_zminus1_eq_if [of b a] assms by simp
qed

lemma floor_mod: "0 < b \<Longrightarrow> (if a smod b < 0 then a smod b + b else a smod b) = a mod (b :: int)"
  using pos_mod_bound [of b a] pos_mod_sign [of b a] by (cases "a < 0") (auto simp: smod_neg leD)

lemma floor_div: "0 < b \<Longrightarrow> (if a smod b < 0 then a sdiv b - 1 else a sdiv b) = a div (b :: int)"
  using pos_mod_bound [of b a] pos_mod_sign [of b a] by (cases "a < 0") (auto simp: smod_neg leD)

lemma floor_pair:
  assumes "0 < b"
  shows "(if a smod b < 0 then (a smod b + b, a sdiv b - 1) else (a smod b, a sdiv b))
    = (a mod b, a div (b :: int))"
  using floor_mod [OF assms, of a] floor_div [OF assms, of a] by (simp split: if_splits)

section \<open>From the days to the date\<close>

lemma year_day_eq:
  assumes "1 \<le> m" and "m \<le> 12" and "0 \<le> d" and "d < 65536"
  shows "timeutils_year_day y m d = Some (days_before_month y m + d)"
  using month_cases [OF assms(1,2)] assms(3,4)
  by (elim disjE)
    (simp_all add: timeutils_year_day_def table_get_def days_since_jan1_def days_before_month_def)

lemma month_loop_sum:
  assumes "0 \<le> r" and "r < sum_list xs"
  shows "\<exists>j d. month_loop xs k r = Some (k + int j, d) \<and> j < length xs
    \<and> r = sum_list (take j xs) + d \<and> 0 \<le> d \<and> d < xs ! j"
  using assms
proof (induction xs arbitrary: k r)
  case (Cons x xs)
  show ?case
  proof (cases "x \<le> r")
    case True
    then obtain j d where "month_loop xs (k + 1) (r - x) = Some (k + 1 + int j, d)" "j < length xs"
      "r - x = sum_list (take j xs) + d" "0 \<le> d" "d < xs ! j"
      using Cons.IH [of "r - x" "k + 1"] Cons.prems by auto
    then show ?thesis using True by (intro exI [of _ "Suc j"] exI [of _ d]) simp
  qed (use Cons.prems in \<open>intro exI [of _ 0] exI [of _ r], simp\<close>)
qed simp

text \<open>The bounds of the cycles, and how they make up the days.\<close>

definition cycles_ok :: "int \<Rightarrow> int \<Rightarrow> int \<Rightarrow> int \<Rightarrow> bool" where
  "cycles_ok c q y r =
     (0 \<le> c \<and> c \<le> 3 \<and> 0 \<le> q \<and> q \<le> 24 \<and> 0 \<le> y \<and> y \<le> 3 \<and> 0 \<le> r \<and> r \<le> 365
      \<and> (r = 365 \<longrightarrow> y = 3 \<and> (q = 24 \<longrightarrow> c = 3)))"

lemma year_cycles_eq:
  obtains c q y r where "year_cycles D = (D div 146097, c, q, y, r)" and "cycles_ok c q y r"
    and "D = 146097 * (D div 146097) + 36524 * c + 1461 * q + 365 * y + r"
proof -
  define r0 where "r0 = D mod 146097"
  define c where "c = (if r0 div 36524 = 4 then r0 div 36524 - 1 else r0 div 36524)"
  define r1 where "r1 = r0 - c * 36524"
  define q where "q = (if r1 div 1461 = 25 then r1 div 1461 - 1 else r1 div 1461)"
  define r2 where "r2 = r1 - q * 1461"
  define y where "y = (if r2 div 365 = 4 then r2 div 365 - 1 else r2 div 365)"
  define r3 where "r3 = r2 - y * 365"
  have r: "0 \<le> r0" "r0 \<le> 146096" using pos_mod_bound [of 146097 D] by (simp_all add: r0_def)
  have c: "0 \<le> c" "c \<le> 3" "0 \<le> r1" "r1 \<le> 36524" "r1 = 36524 \<longrightarrow> c = 3"
    using r unfolding c_def r1_def by (auto split: if_split)
  have q: "0 \<le> q" "q \<le> 24" "0 \<le> r2" "r2 \<le> 1460" "r2 = 1460 \<and> q = 24 \<longrightarrow> c = 3"
    using c unfolding q_def r2_def by (auto split: if_split)
  have y: "0 \<le> y" "y \<le> 3" "0 \<le> r3" "r3 \<le> 365" "r3 = 365 \<longrightarrow> y = 3 \<and> r2 = 1460"
    using q unfolding y_def r3_def by (auto split: if_split)
  have "D = 146097 * (D div 146097) + 36524 * c + 1461 * q + 365 * y + r3"
    using mult_div_mod_eq [of 146097 D] unfolding r3_def r2_def r1_def r0_def by simp
  moreover have "cycles_ok c q y r3" unfolding cycles_ok_def using c q y by blast
  moreover have "year_cycles D = (D div 146097, c, q, y, r3)"
  proof -
    have days: "DAYS_PER_400Y = 146097" "DAYS_PER_100Y = 36524" "DAYS_PER_4Y = 1461"
      by (simp_all add: DAYS_PER_400Y_def DAYS_PER_100Y_def DAYS_PER_4Y_def)
    have "r0 sdiv 36524 = r0 div 36524" "r1 sdiv 1461 = r1 div 1461" "r2 sdiv 365 = r2 div 365"
      using r c q by simp_all
    moreover have "(0 :: int) < 146097" by simp
    ultimately show ?thesis
      by (simp only: year_cycles_def days Let_def floor_pair prod.case
        flip: r0_def c_def r1_def q_def r2_def y_def r3_def)
  qed
  ultimately show thesis by (intro that)
qed

lemma cycle_div:
  fixes qc :: int
  assumes "0 \<le> c" "c \<le> 3" "0 \<le> q" "q \<le> 24" "0 \<le> y" "y \<le> 3"
  defines "Y \<equiv> 2000 + y + 4 * q + 100 * c + 400 * qc"
  shows "Y div 4 = 500 + q + 25 * c + 100 * qc" "Y div 100 = 20 + c + 4 * qc" "Y div 400 = 5 + qc"
    "Y mod 4 = y" "Y mod 100 = y + 4 * q" "Y mod 400 = y + 4 * q + 100 * c"
proof -
  show "Y div 4 = 500 + q + 25 * c + 100 * qc" "Y mod 4 = y"
    using assms(1-6) unfolding Y_def
    by (intro int_div_pos_eq [of _ _ _ y] int_mod_pos_eq [of _ _ "500 + q + 25 * c + 100 * qc"]; simp)+
  show "Y div 100 = 20 + c + 4 * qc" "Y mod 100 = y + 4 * q"
    using assms(1-6) unfolding Y_def
    by (intro int_div_pos_eq [of _ _ _ "y + 4 * q"] int_mod_pos_eq [of _ _ "20 + c + 4 * qc"]; simp)+
  show "Y div 400 = 5 + qc" "Y mod 400 = y + 4 * q + 100 * c"
    using assms(1-6) unfolding Y_def
    by (intro int_div_pos_eq [of _ _ _ "y + 4 * q + 100 * c"] int_mod_pos_eq [of _ _ "5 + qc"]; simp)+
qed

lemma march_year:
  fixes qc :: int
  assumes "0 \<le> c" "c \<le> 3" "0 \<le> q" "q \<le> 24" "0 \<le> y" "y \<le> 3"
  shows "days_before_year (2000 + y + 4 * q + 100 * c + 400 * qc + 1)
    = 146097 * qc + 36524 * c + 1461 * q + 365 * y + 730485"
  unfolding days_before_year_def add_diff_cancel_right' cycle_div [OF assms] by simp

lemma march_leap:
  fixes qc :: int
  assumes "0 \<le> c" "c \<le> 3" "0 \<le> q" "q \<le> 24" and y: "y = 3" and "q = 24 \<longrightarrow> c = 3"
  shows "leap (2000 + y + 4 * q + 100 * c + 400 * qc + 1)"
proof -
  define Z where "Z = 2000 + y + 4 * q + 100 * c + 400 * qc + 1"
  have "Z = 4 * (501 + q + 25 * c + 100 * qc)" using y by (simp add: Z_def)
  then have four: "4 dvd Z" by (rule dvdI)
  have "leap Z"
  proof (cases "q = 24")
    case True
    then have "Z = 400 * (6 + qc)" using assms by (simp add: Z_def)
    then have "400 dvd Z" by (rule dvdI)
    then show ?thesis unfolding leap_def using four by blast
  next
    case False
    then have "Z mod 100 = 4 * q + 4"
      unfolding Z_def using assms by (intro int_mod_pos_eq [of _ _ "20 + c + 4 * qc"]) simp_all
    then have "Z mod 100 \<noteq> 0" using assms by simp
    then show ?thesis unfolding leap_def using four by (simp only: dvd_eq_mod_eq_0 simp_thms)
  qed
  then show ?thesis by (simp only: Z_def)
qed

text \<open>The month and the day of the month, and the year they are in.\<close>

definition march_date :: "int \<Rightarrow> int \<Rightarrow> int \<Rightarrow> date" where
  "march_date Y m d = (if 10 \<le> m then (Y + 1, m - 9, d + 1) else (Y, m + 3, d + 1))"

lemma march_month:
  fixes qc :: int
  assumes b: "0 \<le> c" "c \<le> 3" "0 \<le> q" "q \<le> 24" "0 \<le> y" "y \<le> 3" "0 \<le> r" "r \<le> 365"
    and last: "r = 365 \<longrightarrow> y = 3 \<and> (q = 24 \<longrightarrow> c = 3)"
  defines "Y \<equiv> 2000 + y + 4 * q + 100 * c + 400 * qc"
  shows "\<exists>m d. month_loop days_in_month 0 r = Some (m, d) \<and> 0 \<le> m \<and> m \<le> 11 \<and> 0 \<le> d \<and> d \<le> 30
    \<and> valid_date (march_date Y m d)
    \<and> ordinal (march_date Y m d) = 146097 * qc + 36524 * c + 1461 * q + 365 * y + r + 730179"
proof -
  have "r < sum_list days_in_month" using b by (simp add: days_in_month_def)
  then obtain j d where jd: "month_loop days_in_month 0 r = Some (int j, d)" "j < length days_in_month"
      "r = sum_list (take j days_in_month) + d" "0 \<le> d" "d < days_in_month ! j"
    using month_loop_sum [of r days_in_month 0] b by auto
  have Y1: "days_before_year (Y + 1) = 146097 * qc + 36524 * c + 1461 * q + 365 * y + 730485"
    unfolding Y_def by (rule march_year) fact+
  have Y0: "days_before_year Y + (if leap Y then 1 else 0)
      = 146097 * qc + 36524 * c + 1461 * q + 365 * y + 730120"
    using days_before_year_step [of Y] Y1 by simp
  have "r = 365 \<Longrightarrow> leap (Y + 1)"
    unfolding Y_def using b last by (intro march_leap) simp_all
  then have L: "\<not> leap (Y + 1) \<longrightarrow> r \<le> 364" using b by (cases "r = 365") simp_all
  have "j \<in> {0, 1, 2, 3, 4, 5, 6, 7, 8, 9, 10, 11}"
  proof -
    have "j < 12" using jd(2) by (simp add: days_in_month_def)
    then show ?thesis unfolding insert_iff empty_iff by presburger
  qed
  then have "valid_date (march_date Y (int j) d)
    \<and> ordinal (march_date Y (int j) d) = 146097 * qc + 36524 * c + 1461 * q + 365 * y + r + 730179
    \<and> d \<le> 30"
    using jd(3-5) Y0 Y1 L
    by (elim insertE emptyE)
      (simp_all add: march_date_def days_in_month_def month_len_def days_before_month_def
        split: if_splits)
  moreover have "int j \<le> 11" using jd(2) by (simp add: days_in_month_def)
  ultimately show ?thesis using jd by (intro exI [of _ "int j"] exI [of _ d]) simp
qed

section \<open>The conversions to a date are those of the calendar\<close>

text \<open>The broken-down time of a second, counted from the start of the year 1, a Monday.\<close>

definition struct_time_of :: "int \<Rightarrow> timeutils_struct_time_t" where
  "struct_time_of n =
     (case date_of_day (nat (n div 86400)) of (y, m, d) \<Rightarrow>
        \<lparr>tm_year = y, tm_mon = m, tm_mday = d, tm_hour = n mod 86400 div 3600,
         tm_min = n mod 86400 div 60 mod 60, tm_sec = n mod 86400 mod 60,
         tm_wday = n div 86400 mod 7, tm_yday = n div 86400 - ordinal (y, 1, 1) + 1\<rparr>)"

lemma ordinal_year_range:
  assumes "valid_date (y, m, d)" and "0 \<le> ordinal (y, m, d)" and "ordinal (y, m, d) < 23936166"
  shows "1 \<le> y" and "y \<le> 65535"
proof -
  have "days_before_year 1 = 0" "days_before_year 65536 = 23936166"
    by (simp_all add: days_before_year_def)
  then show "1 \<le> y" "y \<le> 65535"
    using ordinal_in_year [OF assms(1)] assms(2,3) days_before_year_mono [of "y + 1" 1]
      days_before_year_mono [of 65536 y] by linarith+
qed

lemma march_month_date:
  assumes ok: "cycles_ok c q y r"
    and D: "D = 146097 * qc + 36524 * c + 1461 * q + 365 * y + r"
    and range: "0 \<le> D + 730179" "D + 730179 < 23936166"
  obtains m d where "month_loop days_in_month 0 r = Some (m, d)" "0 \<le> m" "m \<le> 11" "0 \<le> d" "d \<le> 30"
    "date_of_day (nat (D + 730179)) = march_date (2000 + y + 4 * q + 100 * c + 400 * qc) m d"
    "ordinal (march_date (2000 + y + 4 * q + 100 * c + 400 * qc) m d) = D + 730179"
    "valid_date (march_date (2000 + y + 4 * q + 100 * c + 400 * qc) m d)"
    "0 \<le> 2000 + y + 4 * q + 100 * c + 400 * qc" "2000 + y + 4 * q + 100 * c + 400 * qc \<le> 65535"
    "10 \<le> m \<Longrightarrow> 2000 + y + 4 * q + 100 * c + 400 * qc \<le> 65534"
proof -
  define Y where "Y = 2000 + y + 4 * q + 100 * c + 400 * qc"
  have b: "0 \<le> c" "c \<le> 3" "0 \<le> q" "q \<le> 24" "0 \<le> y" "y \<le> 3" "0 \<le> r" "r \<le> 365"
    "r = 365 \<longrightarrow> y = 3 \<and> (q = 24 \<longrightarrow> c = 3)"
    using ok unfolding cycles_ok_def by blast+
  obtain m d where md: "month_loop days_in_month 0 r = Some (m, d)" "0 \<le> m" "m \<le> 11" "0 \<le> d" "d \<le> 30"
      "valid_date (march_date Y m d)" "ordinal (march_date Y m d) = D + 730179"
    using march_month [OF b, of qc] unfolding D Y_def by blast
  obtain y' m' d' where f: "march_date Y m d = (y', m', d')" by (cases "march_date Y m d")
  have date: "date_of_day (nat (D + 730179)) = march_date Y m d"
    unfolding f using md f range by (intro date_of_day_unique) simp_all
  have "1 \<le> y'" "y' \<le> 65535"
    using ordinal_year_range [of y' m' d'] md f range by simp_all
  moreover have "y' = (if 10 \<le> m then Y + 1 else Y)" using f by (simp add: march_date_def split: if_splits)
  ultimately have "0 \<le> Y" "Y \<le> 65535" "10 \<le> m \<Longrightarrow> Y \<le> 65534" by (simp_all split: if_splits)
  then show thesis using that [folded Y_def, OF md(1-5) date md(7,6)] by blast
qed

text \<open>The fields as the code stores them.\<close>

lemma march_fields:
  assumes "0 \<le> m" "m \<le> 11" "0 \<le> d" "d \<le> 30" "0 \<le> Y" "Y \<le> 65535" "10 \<le> m \<Longrightarrow> Y \<le> 65534"
  shows "(if 12 \<le> u8 (m + 2) then u16 (u16 Y + 1) else u16 Y,
      u8 ((if 12 \<le> u8 (m + 2) then u8 (u8 (m + 2) - 12) else u8 (m + 2)) + 1), u8 (d + 1))
    = march_date Y m d"
  using assms by (cases "10 \<le> m") (simp_all add: march_date_def)

lemma leap_cycles:
  assumes "cycles_ok c q y r"
  shows "leap (2000 + y + 4 * q + 100 * c + 400 * qc) \<longleftrightarrow> y = 0 \<and> (q \<noteq> 0 \<or> c = 0)"
proof -
  have b: "0 \<le> c" "c \<le> 3" "0 \<le> q" "q \<le> 24" "0 \<le> y" "y \<le> 3"
    using assms unfolding cycles_ok_def by blast+
  show ?thesis
    unfolding leap_def dvd_eq_mod_eq_0 cycle_div [OF b] using b by presburger
qed

lemma march_yday:
  fixes c q y r qc :: int
  defines "Y \<equiv> 2000 + y + 4 * q + 100 * c + 400 * qc"
  defines "l \<equiv> (if y = 0 \<and> (q \<noteq> 0 \<or> c = 0) then 1 else 0)"
  assumes ok: "cycles_ok c q y r"
    and D: "D = 146097 * qc + 36524 * c + 1461 * q + 365 * y + r"
    and date: "march_date Y m d = (y', m', d')" "valid_date (march_date Y m d)"
      "ordinal (march_date Y m d) = D + 730179"
  shows "D + 730179 - ordinal (y', 1, 1)
    = (if 365 + l \<le> r + 31 + 28 + l then r + 31 + 28 + l - (365 + l) else r + 31 + 28 + l)"
proof -
  have b: "0 \<le> c" "c \<le> 3" "0 \<le> q" "q \<le> 24" "0 \<le> y" "y \<le> 3"
    using ok unfolding cycles_ok_def by blast+
  have next_year: "days_before_year (Y + 1) = D - r + 730485"
    unfolding Y_def march_year [OF b] D by simp
  have l: "l = (if leap Y then 1 else 0)" unfolding l_def Y_def leap_cycles [OF ok] ..
  have "days_before_year (Y + 1) = days_before_year Y + 365 + l"
    unfolding l by (rule days_before_year_step)
  moreover have "days_before_year y' \<le> D + 730179" "D + 730179 < days_before_year (y' + 1)"
    using ordinal_in_year [of y' m' d'] date by simp_all
  moreover have "y' = Y \<or> y' = Y + 1" using date(1) by (auto simp: march_date_def split: if_splits)
  ultimately show ?thesis using next_year by auto
qed

lemma shift_days:
  "(n + k * 86400) div 86400 = n div 86400 + (k :: int)" "(n + k * 86400) mod 86400 = n mod 86400"
  using div_mult_self1 [of 86400 n k] mod_mult_self1 [of n k 86400] by simp_all

lemma epoch_to_struct_time:
  assumes t: "- 62135596800 \<le> t" "t < 2005949145600"
  shows "timeutils_seconds_since_epoch_to_struct_time t = Some (struct_time_of (t + 62135596800))"
proof -
  define S D R where "S = t - 951868800" and "D = S div 86400" and "R = S mod 86400"
  have S: "s64 (t - LEAPOCH_1970) = S" using t by (simp add: LEAPOCH_1970_def S_def)
  have R: "0 \<le> R" "R < 86400" by (simp_all add: R_def)
  have "t + 62135596800 = S + 730179 * 86400" by (simp add: S_def)
  then have N: "(t + 62135596800) div 86400 = D + 730179" "(t + 62135596800) mod 86400 = R"
    unfolding D_def R_def by (simp_all only: shift_days)
  have "S = 86400 * D + R" unfolding D_def R_def by simp
  then have range: "0 \<le> D + 730179" "D + 730179 < 23936166" using t R by (simp_all add: S_def)
  obtain c q y r where cyc: "year_cycles D = (D div 146097, c, q, y, r)" "cycles_ok c q y r"
      "D = 146097 * (D div 146097) + 36524 * c + 1461 * q + 365 * y + r"
    by (rule year_cycles_eq [of D])
  define Y where "Y = 2000 + y + 4 * q + 100 * c + 400 * (D div 146097)"
  obtain m d where md: "month_loop days_in_month 0 r = Some (m, d)" "0 \<le> m" "m \<le> 11" "0 \<le> d" "d \<le> 30"
    "date_of_day (nat (D + 730179)) = march_date Y m d" "ordinal (march_date Y m d) = D + 730179"
    "valid_date (march_date Y m d)" "0 \<le> Y" "Y \<le> 65535" "10 \<le> m \<Longrightarrow> Y \<le> 65534"
    unfolding Y_def by (rule march_month_date [OF cyc(2,3) range]) blast
  obtain y' m' d' where f: "march_date Y m d = (y', m', d')" by (cases "march_date Y m d")
  have yday: "D + 730179 - ordinal (y', 1, 1) + 1
    = u16 ((if 365 + (if y = 0 \<and> (q \<noteq> 0 \<or> c = 0) then 1 else 0)
          \<le> r + 31 + 28 + (if y = 0 \<and> (q \<noteq> 0 \<or> c = 0) then 1 else 0)
        then r + 31 + 28 + (if y = 0 \<and> (q \<noteq> 0 \<or> c = 0) then 1 else 0)
          - (365 + (if y = 0 \<and> (q \<noteq> 0 \<or> c = 0) then 1 else 0))
        else r + 31 + 28 + (if y = 0 \<and> (q \<noteq> 0 \<or> c = 0) then 1 else 0)) + 1)"
    using march_yday [OF cyc(2,3) f [unfolded Y_def] md(8,7) [unfolded Y_def]] cyc(2)
    by (simp add: cycles_ok_def)
  have wday: "(if (2 + D) smod 7 < 0 then (2 + D) smod 7 + 7 else (2 + D) smod 7) = (D + 730179) mod 7"
  proof -
    have "D + 730179 = 2 + D + 104311 * 7" by simp
    then show ?thesis by (simp only: floor_mod [of 7 "2 + D"] mod_mult_self1)
  qed
  have fields: "(y', m', d') = (if 12 \<le> u8 (m + 2) then u16 (u16 Y + 1) else u16 Y,
      u8 ((if 12 \<le> u8 (m + 2) then u8 (u8 (m + 2) - 12) else u8 (m + 2)) + 1), u8 (d + 1))"
    unfolding f [symmetric] using md by (intro march_fields [symmetric])
  have years: "s32 (y + 4 * q + 100 * c + 400 * s32 (D div 146097)) = Y - 2000"
    using md(9,10) cyc(2) by (simp add: Y_def cycles_ok_def)
  show ?thesis
    unfolding timeutils_seconds_since_epoch_to_struct_time_def S Let_def struct_time_of_def N md(6) f
      prod.case yday
    using fields wday R years
    by (simp add: floor_pair cyc(1) md(1) flip: D_def R_def)
qed

lemma since_2000_to_struct_time:
  "timeutils_seconds_since_2000_to_struct_time t
    = Some (struct_time_of (s32 (t - LEAPOCH) + 730179 * 86400))"
proof -
  define S D R where "S = s32 (t - LEAPOCH)" and "D = S div 86400" and "R = S mod 86400"
  have t: "- 2147483648 \<le> S" "S < 2147483648"
    using pos_mod_bound [of 4294967296 "t - LEAPOCH + 2147483648"] by (simp_all add: S_def s32_def)
  have R: "0 \<le> R" "R < 86400" by (simp_all add: R_def)
  have N: "(S + 730179 * 86400) div 86400 = D + 730179" "(S + 730179 * 86400) mod 86400 = R"
    unfolding D_def R_def by (simp_all only: shift_days)
  have "S = 86400 * D + R" unfolding D_def R_def by simp
  then have range: "0 \<le> D + 730179" "D + 730179 < 23936166" using t R by simp_all
  obtain c q y r where cyc: "year_cycles D = (D div 146097, c, q, y, r)" "cycles_ok c q y r"
      "D = 146097 * (D div 146097) + 36524 * c + 1461 * q + 365 * y + r"
    by (rule year_cycles_eq [of D])
  define Y where "Y = 2000 + y + 4 * q + 100 * c + 400 * (D div 146097)"
  obtain m d where md: "month_loop days_in_month 0 r = Some (m, d)" "0 \<le> m" "m \<le> 11" "0 \<le> d" "d \<le> 30"
    "date_of_day (nat (D + 730179)) = march_date Y m d" "ordinal (march_date Y m d) = D + 730179"
    "valid_date (march_date Y m d)" "0 \<le> Y" "Y \<le> 65535" "10 \<le> m \<Longrightarrow> Y \<le> 65534"
    unfolding Y_def by (rule march_month_date [OF cyc(2,3) range]) blast
  obtain y' m' d' where f: "march_date Y m d = (y', m', d')" by (cases "march_date Y m d")
  have v: "1 \<le> m'" "m' \<le> 12" "1 \<le> d'" "d' \<le> 31"
    using md(8) f month_len_bounds [of y' m'] by simp_all
  have yday: "timeutils_year_day y' m' d' = Some (days_before_month y' m' + d')"
    using v by (intro year_day_eq) simp_all
  have yday': "D + 730179 - ordinal (y', 1, 1) + 1 = u16 (days_before_month y' m' + d')"
    using md(7) f v days_before_month_bounds [OF v(1,2), of y'] by simp
  have wday: "(if (D + 2) smod 7 < 0 then (D + 2) smod 7 + 7 else (D + 2) smod 7) = (D + 730179) mod 7"
  proof -
    have "D + 730179 = D + 2 + 104311 * 7" by simp
    then show ?thesis by (simp only: floor_mod [of 7 "D + 2"] mod_mult_self1)
  qed
  have fields: "(y', m', d') = (if 12 \<le> u8 (m + 2) then u16 (u16 Y + 1) else u16 Y,
      u8 ((if 12 \<le> u8 (m + 2) then u8 (u8 (m + 2) - 12) else u8 (m + 2)) + 1), u8 (d + 1))"
    unfolding f [symmetric] using md by (intro march_fields [symmetric])
  show ?thesis
    unfolding timeutils_seconds_since_2000_to_struct_time_def S_def [symmetric] Let_def
      struct_time_of_def N md(6) f
      prod.case yday'
    using fields wday R yday
    by (cases "12 \<le> u8 (m + 2)") (simp_all add: floor_pair cyc(1) md(1) flip: D_def R_def Y_def)
qed

section \<open>The conversions back\<close>

lemma div_shift: "(y :: int) = x + j * k \<Longrightarrow> 0 < k \<Longrightarrow> x div k = y div k - j"
  by simp

lemma seconds_since_epoch_eq:
  assumes y: "1970 \<le> y" "y \<le> 65535" and m: "1 \<le> m" "m \<le> 12" and d: "1 \<le> d" "d < 65000"
    and hms: "0 \<le> h" "h < 65536" "0 \<le> mi" "mi < 65536" "0 \<le> s" "s < 65536"
  shows "timeutils_seconds_since_epoch y m d h mi s
    = Some (86400 * (ordinal (y, m, d) - 719162) + 3600 * h + 60 * mi + s)"
proof -
  define A where "A = ordinal (y, m, d) - 719162 - 365 * (y - 1970)"
  have "(y - 1969) div 4 = (y - 1) div 4 - 492" "(y - 1901) div 100 = (y - 1) div 100 - 19"
    "(y - 1601) div 400 = (y - 1) div 400 - 4"
    by (rule div_shift; simp)+
  then have A: "A = days_before_month y m + d - 1 + (y - 1969) div 4 - (y - 1901) div 100
      + (y - 1601) div 400"
    unfolding A_def ordinal.simps days_before_year_def by simp
  have w: "0 \<le> (y - 1969) div 4" "y - 1972 \<le> 4 * ((y - 1969) div 4)" "(y - 1969) div 4 \<le> 16000"
    using y pos_mod_bound [of 4 "y - 1969"] mult_div_mod_eq [of 4 "y - 1969"] by linarith+
  have z: "100 * ((y - 1901) div 100) \<le> y - 1901" "0 \<le> (y - 1901) div 100"
    using y pos_mod_sign [of 100 "y - 1901"] mult_div_mod_eq [of 100 "y - 1901"] by linarith+
  have "(y - 1901) div 100 \<le> (y - 1969) div 4" using w z by linarith
  moreover have "0 \<le> (y - 1601) div 400" "(y - 1601) div 400 \<le> 160"
    using y by simp_all
  ultimately have A0: "0 \<le> A" "A < 100000"
    using A days_before_month_bounds [OF m, of y] d w z by linarith+
  have "u32 (days_before_month y m + d - 1 + u32 (y - 1972 + 3) div 4 - u32 (y - 2000 + 99) div 100
      + u32 (y - 2000 + 399) div 400) = A"
    using y A A0 by simp
  moreover have "s64 (u32 (s + mi * 60 + h * 3600) + A * 86400 + u32 (y - 1970) * 31536000)
      = s + mi * 60 + h * 3600 + A * 86400 + (y - 1970) * 31536000"
    using y hms A0 by simp
  moreover have "s + mi * 60 + h * 3600 + A * 86400 + (y - 1970) * 31536000
      = 86400 * (ordinal (y, m, d) - 719162) + 3600 * h + 60 * mi + s"
    by (simp add: A_def)
  moreover have "timeutils_year_day y m d = Some (days_before_month y m + d)"
    using m d by (intro year_day_eq) simp_all
  ultimately show ?thesis
    unfolding timeutils_seconds_since_epoch_def by (simp only: option.case)
qed

lemma seconds_since_2000_eq:
  assumes y: "2000 \<le> y" "y \<le> 65535" and m: "1 \<le> m" "m \<le> 12" and d: "1 \<le> d" "d < 65000"
  shows "timeutils_seconds_since_2000 y m d h mi s
    = Some (u32 (86400 * (ordinal (y, m, d) - 730119) + 3600 * h + 60 * mi + s))"
proof -
  define A where "A = ordinal (y, m, d) - 730119 - 365 * (y - 2000)"
  have "(y - 1997) div 4 = (y - 1) div 4 - 499" "(y - 1901) div 100 = (y - 1) div 100 - 19"
    "(y - 1601) div 400 = (y - 1) div 400 - 4"
    by (rule div_shift; simp)+
  then have A: "A = days_before_month y m + d - 1 + (y - 1997) div 4 - (y - 1901) div 100
      + (y - 1601) div 400"
    unfolding A_def ordinal.simps days_before_year_def by simp
  have w: "0 \<le> (y - 1997) div 4" "y - 2000 \<le> 4 * ((y - 1997) div 4)" "(y - 1997) div 4 \<le> 16000"
    using y pos_mod_bound [of 4 "y - 1997"] mult_div_mod_eq [of 4 "y - 1997"] by linarith+
  have z: "100 * ((y - 1901) div 100) \<le> y - 1901" "0 \<le> (y - 1901) div 100"
    using y pos_mod_sign [of 100 "y - 1901"] mult_div_mod_eq [of 100 "y - 1901"] by linarith+
  have "(y - 1901) div 100 \<le> (y - 1997) div 4" using w z by linarith
  moreover have "0 \<le> (y - 1601) div 400" "(y - 1601) div 400 \<le> 160"
    using y by simp_all
  ultimately have A0: "0 \<le> A" "A < 100000"
    using A days_before_month_bounds [OF m, of y] d w z by linarith+
  have "u32 (days_before_month y m + d - 1 + u32 (y - 2000 + 3) div 4 - u32 (y - 2000 + 99) div 100
      + u32 (y - 2000 + 399) div 400) = A"
    using y A A0 by simp
  moreover have "s + mi * 60 + h * 3600 + A * 86400 + (y - 2000) * 31536000
      = 86400 * (ordinal (y, m, d) - 730119) + 3600 * h + 60 * mi + s"
    by (simp add: A_def)
  moreover have "timeutils_year_day y m d = Some (days_before_month y m + d)"
    using m d by (intro year_day_eq) simp_all
  ultimately show ?thesis
    unfolding timeutils_seconds_since_2000_def by (simp only: option.case)
qed

text \<open>The date of a day from 1970 on, as the code's conversions read it.\<close>

lemma struct_time_of_date:
  assumes "0 \<le> n"
  obtains y m d where "struct_time_of n =
      \<lparr>tm_year = y, tm_mon = m, tm_mday = d, tm_hour = n mod 86400 div 3600,
       tm_min = n mod 86400 div 60 mod 60, tm_sec = n mod 86400 mod 60,
       tm_wday = n div 86400 mod 7, tm_yday = n div 86400 - ordinal (y, 1, 1) + 1\<rparr>"
    "valid_date (y, m, d)" "ordinal (y, m, d) = n div 86400"
proof -
  obtain y m d where f: "date_of_day (nat (n div 86400)) = (y, m, d)"
    by (cases "date_of_day (nat (n div 86400))")
  have "valid_date (y, m, d)" "ordinal (y, m, d) = n div 86400"
    using ordinal_date_of_day [of "nat (n div 86400)"] f assms
    by (simp_all add: pos_imp_zdiv_nonneg_iff)
  then show thesis using that f by (simp add: struct_time_of_def)
qed

lemma hms_seconds:
  assumes "0 \<le> (r :: int)"
  shows "3600 * (r div 3600) + 60 * (r div 60 mod 60) + r mod 60 = r"
proof -
  have "r div 3600 = r div 60 div 60" using assms by (simp add: zdiv_zmult2_eq [symmetric])
  then show ?thesis using mult_div_mod_eq [of 60 r] mult_div_mod_eq [of 60 "r div 60"] by linarith
qed

end
