(* ===== verification/Mktime.thy ===== *)
theory Mktime
  imports Timeutils
begin

text \<open>
  The normalisation of \<open>mktime\<close> (\<open>src/lib/timeutils/timeutils.c\<close>,
  \<open>src/esp32/util/timeutils.c\<close>): the carries from seconds to months, and the two loops that bring
  the day of the month into its range, which keep the day they denote.
\<close>

section \<open>Carries\<close>

text \<open>The carry from one field into the next.\<close>

lemma carry_s32:
  assumes "0 < b"
  shows "(if a smod b < 0 then (a smod b + b, s32 (s32 (k + a sdiv b) - 1))
      else (a smod b, s32 (k + a sdiv b))) = (a mod b, s32 (k + a div b))"
  using floor_mod [OF assms, of a] floor_div [OF assms, of a]
  by (auto simp: algebra_simps split: if_splits)

lemma carry_u32:
  assumes "0 < b"
  shows "(if a smod b < 0 then (a smod b + b, u32 (u32 (k + a sdiv b) - 1))
      else (a smod b, u32 (k + a sdiv b))) = (a mod b, u32 (k + a div b))"
  using floor_mod [OF assms, of a] floor_div [OF assms, of a]
  by (auto simp: algebra_simps split: if_splits)

section \<open>The loops on the day of the month\<close>

definition previous_month :: "int \<Rightarrow> int \<Rightarrow> int \<times> int" where
  "previous_month y m = (if m = 1 then (y - 1, 12) else (y, m - 1))"

definition next_month :: "int \<Rightarrow> int \<Rightarrow> int \<times> int" where
  "next_month y m = (if m = 12 then (y + 1, 1) else (y, m + 1))"

lemma ordinal_previous_month:
  assumes "1 \<le> m" and "m \<le> 12" and "previous_month y m = (y', m')"
  shows "ordinal (y', m', d + month_len y' m') = ordinal (y, m, d)" and "1 \<le> m'" and "m' \<le> 12"
  using assms days_before_year_step [of "y - 1"] year_span [of "y - 1"] days_before_month_step [of "m - 1" y]
  by (auto simp: previous_month_def split: if_splits)

lemma ordinal_next_month:
  assumes "1 \<le> m" and "m \<le> 12" and "next_month y m = (y', m')"
  shows "ordinal (y', m', d - month_len y m) = ordinal (y, m, d)" and "1 \<le> m'" and "m' \<le> 12"
  using assms days_before_year_step [of y] year_span [of y] days_before_month_step [of m y]
  by (auto simp: next_month_def split: if_splits)

lemma mktime_back_step:
  assumes "d < 1" and "1 \<le> m" and "m \<le> 12" and "1 \<le> y" and "y < 4294967296"
    and p: "previous_month y m = (y', m')"
  shows "mktime_back y m d = mktime_back y' m' (d + month_len y' m')"
proof -
  have "(if m - 1 = 0 then (12, u32 (y - 1)) else (m - 1, y)) = (m', y')"
    using assms by (auto simp: previous_month_def split: if_splits)
  then show ?thesis
    using assms(1) days_in_month_eq [OF ordinal_previous_month(2,3) [OF assms(2,3) p]]
    by (subst mktime_back.simps) (simp only: Let_def prod.case if_True option.case)
qed

lemma mktime_back_eq:
  assumes "1 \<le> m" and "m \<le> 12" and "y < 4294967296" and "1 \<le> y" and "0 \<le> ordinal (y, m, d)"
  shows "\<exists>y' m' d'. mktime_back y m d = Some (y', m', d') \<and> 1 \<le> m' \<and> m' \<le> 12 \<and> 1 \<le> d' \<and> 1 \<le> y'
    \<and> y' \<le> y \<and> (d' \<le> d \<or> d' \<le> 31) \<and> ordinal (y', m', d') = ordinal (y, m, d)"
  using assms
proof (induction "nat (1 - d)" arbitrary: y m d rule: less_induct)
  case less
  show ?case
  proof (cases "d < 1")
    case True
    obtain y' m' where p: "previous_month y m = (y', m')" by (cases "previous_month y m")
    note prev = ordinal_previous_month [OF less.prems(1,2) p]
    have "y \<noteq> 1 \<or> m \<noteq> 1"
      using True less.prems(5) by (auto simp: days_before_year_def)
    then have y': "1 \<le> y'" "y' \<le> y"
      using p less.prems(4) by (auto simp: previous_month_def split: if_splits)
    have "28 \<le> month_len y' m'" "month_len y' m' \<le> 31" by (rule month_len_bounds)+
    then have "\<exists>y'' m'' d''. mktime_back y' m' (d + month_len y' m') = Some (y'', m'', d'') \<and> 1 \<le> m''
        \<and> m'' \<le> 12 \<and> 1 \<le> d'' \<and> 1 \<le> y'' \<and> y'' \<le> y' \<and> (d'' \<le> d + month_len y' m' \<or> d'' \<le> 31)
        \<and> ordinal (y'', m'', d'') = ordinal (y', m', d + month_len y' m')"
      using True prev y' less.prems by (intro less.hyps) simp_all
    then show ?thesis
      unfolding mktime_back_step [OF True less.prems(1,2,4,3) p] prev(1)
      using y' True \<open>month_len y' m' \<le> 31\<close> by fastforce
  next
    case False
    then show ?thesis using less.prems by (subst mktime_back.simps) simp
  qed
qed

lemma mktime_forward_step:
  assumes d: "month_len y m < d" "d < 2147483648" and m: "1 \<le> m" "m \<le> 12"
    and y: "0 \<le> y" "y < 4294967295" and p: "next_month y m = (y', m')"
  shows "mktime_forward y m d = mktime_forward y' m' (d - month_len y m)"
proof -
  have "(if m + 1 = 13 then (1, u32 (y + 1)) else (m + 1, y)) = (m', y')"
    using y p by (auto simp: next_month_def split: if_splits)
  moreover have "u32 d = d" "s32 (d - month_len y m) = d - month_len y m"
    using d month_len_bounds [of y m] by simp_all
  ultimately show ?thesis
    using d(1) days_in_month_eq [OF m, of y]
    by (subst mktime_forward.simps) (simp only: Let_def prod.case if_True option.case)
qed

lemma mktime_forward_eq:
  assumes "1 \<le> m" and "m \<le> 12" and "1 \<le> d" and "d < 2147483648" and "1 \<le> y"
    and "ordinal (y, m, d) < 23936166"
  shows "\<exists>y' m' d'. mktime_forward y m d = Some (y', m', d') \<and> valid_date (y', m', d')
    \<and> ordinal (y', m', d') = ordinal (y, m, d)"
  using assms
proof (induction "nat d" arbitrary: y m d rule: less_induct)
  case less
  show ?case
  proof (cases "month_len y m < d")
    case True
    obtain y' m' where p: "next_month y m = (y', m')" by (cases "next_month y m")
    note nxt = ordinal_next_month [OF less.prems(1,2) p]
    have "days_before_year y \<le> ordinal (y, m, d)"
      using days_before_month_bounds [OF less.prems(1,2), of y] less.prems(3) by simp
    then have "y \<le> 65535"
      using less.prems(6) days_before_year_mono [of 65536 y] by (simp add: days_before_year_def)
    moreover have "28 \<le> month_len y m" by (rule month_len_bounds)
    moreover have "1 \<le> y'" using p less.prems(5) by (auto simp: next_month_def split: if_splits)
    ultimately have "\<exists>y'' m'' d''. mktime_forward y' m' (d - month_len y m) = Some (y'', m'', d'')
        \<and> valid_date (y'', m'', d'') \<and> ordinal (y'', m'', d'') = ordinal (y', m', d - month_len y m)"
      using True nxt less.prems by (intro less.hyps) simp_all
    moreover have "mktime_forward y m d = mktime_forward y' m' (d - month_len y m)"
      using True less.prems p \<open>y \<le> 65535\<close> by (intro mktime_forward_step) simp_all
    ultimately show ?thesis unfolding nxt(1) by simp
  next
    case False
    then show ?thesis
      using less.prems days_in_month_eq [OF less.prems(1,2), of y]
      by (subst mktime_forward.simps) simp
  qed
qed

section \<open>The seconds of a date that is not normal\<close>

text \<open>The number of the day that is \<open>d - 1\<close> days after the first of the month \<open>m\<close> of the year \<open>y\<close>,
  for any number of months and days.\<close>

definition day_number :: "int \<Rightarrow> int \<Rightarrow> int \<Rightarrow> int" where
  "day_number y m d = ordinal (y + (m - 1) div 12, (m - 1) mod 12 + 1, 1) + d - 1"

text \<open>The fields and the sums that the carries make fit a machine integer.\<close>

definition machine_int :: "int \<Rightarrow> bool" where
  "machine_int x = (- 2147483648 \<le> x \<and> x < 2147483648)"

definition carries_fit :: "int \<Rightarrow> int \<Rightarrow> int \<Rightarrow> int \<Rightarrow> int \<Rightarrow> bool" where
  "carries_fit month mday hours minutes seconds =
     (let mi = minutes + seconds div 60; h = hours + mi div 60; d = mday + h div 24
      in list_all machine_int [month, mday, hours, minutes, seconds, month - 1, mi, h, d])"

lemma carries_fit_normal:
  assumes "1 \<le> m" "m \<le> 12" "1 \<le> d" "d \<le> 31" "0 \<le> h" "h < 24" "0 \<le> mi" "mi < 60" "0 \<le> s" "s < 60"
  shows "carries_fit m d h mi s"
  using assms by (simp add: carries_fit_def machine_int_def div_pos_pos_trivial)

lemma hms_fields:
  assumes "0 \<le> a" "a < 24" "0 \<le> b" "b < 60" "0 \<le> c" "c < (60 :: int)"
  defines "r \<equiv> 3600 * a + 60 * b + c"
  shows "(86400 * n + r) div 86400 = n" "(86400 * n + r) mod 86400 = r"
    "r div 3600 = a" "r div 60 mod 60 = b" "r mod 60 = c"
proof -
  have r: "0 \<le> r" "r < 86400" using assms by (simp_all add: r_def)
  then show "(86400 * n + r) div 86400 = n" "(86400 * n + r) mod 86400 = r"
    by (simp_all add: div_pos_pos_trivial mod_pos_pos_trivial)
  show "r div 3600 = a" using assms by (intro int_div_pos_eq [of _ _ _ "60 * b + c"]) simp_all
  have "r div 60 = 60 * a + b" using assms by (intro int_div_pos_eq [of _ _ _ c]) simp_all
  then show "r div 60 mod 60 = b" using assms by simp
  show "r mod 60 = c" using assms by (intro int_mod_pos_eq [of _ _ "60 * a + b"]) simp_all
qed

lemma mktime_normalize_eq:
  assumes fits: "carries_fit month mday hours minutes seconds"
    and year: "0 \<le> year" "year < 4294967296"
    and y1: "1 \<le> year + (month - 1) div 12" "year + (month - 1) div 12 < 4294967296"
    and N: "N = 86400 * day_number year month mday + 3600 * hours + 60 * minutes + seconds"
    and range: "0 \<le> N" "N < 86400 * 23936166"
  shows "\<exists>y m d. mktime_normalize year month mday hours minutes seconds
      = Some (y, m, d, N mod 86400 div 3600, N mod 86400 div 60 mod 60, N mod 86400 mod 60)
    \<and> valid_date (y, m, d) \<and> ordinal (y, m, d) = N div 86400"
proof -
  define mi h D where "mi = minutes + seconds div 60" and "h = hours + mi div 60"
    and "D = mday + h div 24"
  have "machine_int mi" "machine_int h" "machine_int D" "machine_int (month - 1)"
    using fits by (simp_all add: carries_fit_def Let_def mi_def h_def D_def)
  then have mi: "s32 (minutes + seconds div 60) = mi" and h: "s32 (hours + mi div 60) = h"
    and D: "s32 (mday + h div 24) = D" "D < 2147483648" and m1: "s32 (month - 1) = month - 1"
    by (simp_all add: machine_int_def flip: mi_def h_def D_def)
  have month: "s32 (month - 1) = month - 1" "u32 (year + (month - 1) div 12) = year + (month - 1) div 12"
    using m1 y1 by simp_all
  have "day_number year month D = day_number year month mday + h div 24"
    by (simp add: day_number_def D_def)
  moreover have "24 * (h div 24) + h mod 24 = hours + mi div 60"
    "60 * (mi div 60) + mi mod 60 = minutes + seconds div 60"
    "60 * (seconds div 60) + seconds mod 60 = seconds"
    using mult_div_mod_eq [of 24 h] mult_div_mod_eq [of 60 mi] mult_div_mod_eq [of 60 seconds]
    by (simp_all only: h_def mi_def)
  ultimately have N': "N = 86400 * day_number year month D
      + (3600 * (h mod 24) + 60 * (mi mod 60) + seconds mod 60)"
    unfolding N by linarith
  have Ndiv: "N div 86400 = day_number year month D" "N mod 86400 div 3600 = h mod 24"
    "N mod 86400 div 60 mod 60 = mi mod 60" "N mod 86400 mod 60 = seconds mod 60"
    unfolding N' by (simp_all only: hms_fields pos_mod_bound pos_mod_sign zero_less_numeral)
  define Y M where "Y = year + (month - 1) div 12" and "M = (month - 1) mod 12 + 1"
  have code: "mktime_normalize year month mday hours minutes seconds =
      (case mktime_back Y M D of None \<Rightarrow> None | Some (y, m, d) \<Rightarrow>
        (case mktime_forward y m d of None \<Rightarrow> None | Some (y, m, d) \<Rightarrow>
          Some (y, m, d, h mod 24, mi mod 60, seconds mod 60)))"
    by (simp only: mktime_normalize_def Let_def carry_s32 carry_u32 prod.case mi h D(1) month
      Y_def M_def zero_less_numeral)
  have ord: "ordinal (Y, M, D) = N div 86400"
    unfolding Ndiv by (simp add: day_number_def Y_def M_def)
  have M: "1 \<le> M" "M \<le> 12" by (simp_all add: M_def)
  have "0 \<le> N div 86400" "N div 86400 < 23936166" using range by (simp_all add: pos_imp_zdiv_nonneg_iff)
  then obtain y m d where prev: "mktime_back Y M D = Some (y, m, d)" "1 \<le> m" "m \<le> 12" "1 \<le> d" "1 \<le> y"
      "d \<le> D \<or> d \<le> 31" "ordinal (y, m, d) = N div 86400"
    using mktime_back_eq [OF M, of Y D] y1 ord Y_def by auto
  have "d < 2147483648" using prev(6) D(2) by linarith
  then obtain y' m' d' where "mktime_forward y m d = Some (y', m', d')" "valid_date (y', m', d')"
      "ordinal (y', m', d') = N div 86400"
    using mktime_forward_eq [OF prev(2-4) _ prev(5)] prev(7) \<open>N div 86400 < 23936166\<close> by auto
  then show ?thesis unfolding code prev(1) Ndiv by simp
qed

text \<open>The seconds of the normalised date.\<close>

lemma seconds_sum: "a + b + c = r \<Longrightarrow> k * q + r = n \<Longrightarrow> k * (q - e) + a + b + c = n - k * (e :: int)"
  by (simp add: right_diff_distrib)

lemma year_from_ordinal:
  assumes "valid_date (y, m, d)" and "days_before_year a \<le> ordinal (y, m, d)"
    and "ordinal (y, m, d) < days_before_year b"
  shows "a \<le> y" and "y < b"
  using ordinal_in_year [OF assms(1)] assms(2,3) days_before_year_mono [of "y + 1" a]
    days_before_year_mono [of b y] by linarith+

lemma mktime_since_epoch_eq:
  assumes fits: "carries_fit month mday hours minutes seconds"
    and year: "0 \<le> year" "year < 4294967296"
    and y1: "1 \<le> year + (month - 1) div 12" "year + (month - 1) div 12 < 4294967296"
    and N: "N = 86400 * day_number year month mday + 3600 * hours + 60 * minutes + seconds"
    and range: "86400 * 719162 \<le> N" "N < 86400 * 23936166"
  shows "timeutils_mktime_since_epoch year month mday hours minutes seconds = Some (N - 86400 * 719162)"
proof -
  obtain y m d where norm: "mktime_normalize year month mday hours minutes seconds
      = Some (y, m, d, N mod 86400 div 3600, N mod 86400 div 60 mod 60, N mod 86400 mod 60)"
      "valid_date (y, m, d)" "ordinal (y, m, d) = N div 86400"
    using mktime_normalize_eq [OF fits year y1 N] range by auto
  have f: "1 \<le> m" "m \<le> 12" "1 \<le> d" "d \<le> 31"
    using norm(2) month_len_bounds [of y m] by simp_all
  have "719162 \<le> N div 86400" "N div 86400 < 23936166" using range by simp_all
  moreover have "days_before_year 1970 = 719162" "days_before_year 65536 = 23936166"
    by (simp_all add: days_before_year_def)
  ultimately have y: "1970 \<le> y" "y \<le> 65535"
    using year_from_ordinal [OF norm(2), of 1970 65536] norm(3) by simp_all
  define r where "r = N mod 86400"
  have r: "0 \<le> r" "r < 86400" by (simp_all add: r_def)
  have "timeutils_seconds_since_epoch y m d (r div 3600) (r div 60 mod 60) (r mod 60)
      = Some (86400 * (N div 86400 - 719162) + 3600 * (r div 3600) + 60 * (r div 60 mod 60) + r mod 60)"
    unfolding norm(3) [symmetric] using y f r by (intro seconds_since_epoch_eq) simp_all
  also have "86400 * (N div 86400 - 719162) + 3600 * (r div 3600) + 60 * (r div 60 mod 60) + r mod 60
      = N - 86400 * 719162"
    by (rule seconds_sum [OF hms_seconds [OF r(1)] mult_div_mod_eq [of 86400 N, folded r_def]])
  finally show ?thesis
    unfolding timeutils_mktime_since_epoch_def norm(1) using f by (simp flip: r_def)
qed

end
