(* ===== verification/Modutime.thy ===== *)
theory Modutime
  imports Mktime Mp_Int
begin

text \<open>
  The real-time clock (\<open>src/esp32/mods/machrtc.c\<close>), the module \<open>utime\<close>
  (\<open>src/esp32/mods/modutime.c\<close>) and the time stamps of files (\<open>get_fattime\<close> of
  \<open>src/esp32/fatfs_port.c\<close>, the stamps of \<open>src/lib/oofatfs/ff.c\<close> and \<open>fat_vfs_stat\<close> of
  \<open>src/extmod/vfs_fat.c\<close>). The system clock that \<open>gettimeofday\<close> reads is an argument, in seconds and
  microseconds. An integer argument is the machine integer that \<open>mp_obj_get_int\<close> makes of it.
\<close>

datatype time_error = Value_error | Type_error | OS_error | Table_overrun

section \<open>The real-time clock\<close>

record rtc_state =
  delta_from_epoch_til_boot :: int
  rtc_user_mem_len :: nat
  rtc_user_mem_data :: "u8 list"
  synced :: bool

type_synonym timeval = "int \<times> int"

definition MEM_USER_MAXLEN :: nat where "MEM_USER_MAXLEN = 2048"

fun timeval_us :: "timeval \<Rightarrow> int" where
  "timeval_us (tv_sec, tv_usec) = u64 (tv_sec * 1000000 + tv_usec)"

definition mach_rtc_set_us_since_epoch :: "int \<Rightarrow> timeval \<Rightarrow> rtc_state \<Rightarrow> rtc_state" where
  "mach_rtc_set_us_since_epoch nowus tv st =
     st\<lparr>delta_from_epoch_til_boot := u64 (nowus - timeval_us tv)\<rparr>"

definition rtc_init0 :: "timeval \<Rightarrow> rtc_state \<Rightarrow> rtc_state" where
  "rtc_init0 tv st = mach_rtc_set_us_since_epoch 0 tv st"

definition mach_rtc_synced :: "rtc_state \<Rightarrow> rtc_state" where
  "mach_rtc_synced st = st\<lparr>synced := True\<rparr>"

definition mach_rtc_get_us_since_epoch :: "timeval \<Rightarrow> rtc_state \<Rightarrow> int" where
  "mach_rtc_get_us_since_epoch tv st = u64 (timeval_us tv + delta_from_epoch_til_boot st)"

definition mach_rtc_datetime_us :: "int list \<Rightarrow> time_error + int" where
  "mach_rtc_datetime_us items =
     (let len = length items in
      if len < 3 \<or> 8 < len then Inl Value_error
      else
        let year = u16 (items ! 0);
            mon = u8 (items ! 1);
            mday = u8 (items ! 2);
            useconds = (if len < 7 then 0 else u64 (items ! 6));
            sec = (if len < 6 then 0 else u8 (items ! 5));
            min = (if len < 5 then 0 else u8 (items ! 4));
            hour = (if len < 4 then 0 else u8 (items ! 3))
        in (case timeutils_seconds_since_epoch year mon mday hour min sec of
              None \<Rightarrow> Inl Table_overrun
            | Some seconds \<Rightarrow> Inr (u64 (useconds + 1000000 * seconds))))"

definition mach_rtc_datetime :: "int list option \<Rightarrow> timeval \<Rightarrow> rtc_state \<Rightarrow> time_error + rtc_state" where
  "mach_rtc_datetime datetime tv st =
     (case datetime of
        Some items \<Rightarrow>
          (case mach_rtc_datetime_us items of
             Inl e \<Rightarrow> Inl e
           | Inr useconds \<Rightarrow> Inr (mach_rtc_set_us_since_epoch useconds tv st))
      | None \<Rightarrow> Inr (mach_rtc_set_us_since_epoch 0 tv st))"

definition mach_rtc_init :: "int list option \<Rightarrow> timeval \<Rightarrow> rtc_state \<Rightarrow> time_error + rtc_state" where
  "mach_rtc_init datetime tv st = mach_rtc_datetime datetime tv st"

definition mach_rtc_now :: "timeval \<Rightarrow> rtc_state \<Rightarrow> time_error + int list" where
  "mach_rtc_now tv st =
     (let useconds = mach_rtc_get_us_since_epoch tv st in
      case timeutils_seconds_since_epoch_to_struct_time (useconds div 1000000) of
        None \<Rightarrow> Inl Table_overrun
      | Some tm \<Rightarrow>
          Inr [tm_year tm, tm_mon tm, tm_mday tm, tm_hour tm, tm_min tm, tm_sec tm,
               useconds mod 1000000])"

definition machine_rtc_memory :: "u8 list option \<Rightarrow> rtc_state \<Rightarrow> time_error + (u8 list \<times> rtc_state)" where
  "machine_rtc_memory arg st =
     (case arg of
        None \<Rightarrow> Inr (take (rtc_user_mem_len st) (rtc_user_mem_data st), st)
      | Some buf \<Rightarrow>
          if MEM_USER_MAXLEN < length buf then Inl Value_error
          else Inr ([], st\<lparr>rtc_user_mem_data := buf @ drop (length buf) (rtc_user_mem_data st),
                           rtc_user_mem_len := length buf\<rparr>))"

section \<open>The module utime\<close>

type_synonym time_tuple = "int list"

definition seconds_to_tuple_helper ::
    "int option \<Rightarrow> int \<Rightarrow> timeval \<Rightarrow> rtc_state \<Rightarrow> time_error + time_tuple" where
  "seconds_to_tuple_helper arg offset tv st =
     (let seconds = (case arg of None \<Rightarrow> mach_rtc_get_us_since_epoch tv st div 1000000
                     | Some v \<Rightarrow> v);
          seconds = s64 (seconds + offset)
      in case timeutils_seconds_since_epoch_to_struct_time seconds of
           None \<Rightarrow> Inl Table_overrun
         | Some tm \<Rightarrow>
             Inr [tm_year tm, tm_mon tm, tm_mday tm, tm_hour tm, tm_min tm, tm_sec tm,
                  tm_wday tm, tm_yday tm])"

definition time_localtime ::
    "int \<Rightarrow> int option \<Rightarrow> timeval \<Rightarrow> rtc_state \<Rightarrow> time_error + time_tuple" where
  "time_localtime timezone_offset arg tv st = seconds_to_tuple_helper arg timezone_offset tv st"

definition time_gmtime :: "int option \<Rightarrow> timeval \<Rightarrow> rtc_state \<Rightarrow> time_error + time_tuple" where
  "time_gmtime arg tv st = seconds_to_tuple_helper arg 0 tv st"

definition time_mktime :: "int \<Rightarrow> time_tuple \<Rightarrow> time_error + int" where
  "time_mktime timezone_offset elem =
     (if length elem < 8 \<or> 9 < length elem then Inl Type_error
      else case timeutils_mktime_since_epoch (u32 (elem ! 0)) (elem ! 1) (elem ! 2) (elem ! 3)
             (elem ! 4) (elem ! 5) of
             None \<Rightarrow> Inl Table_overrun
           | Some t \<Rightarrow> Inr (u32 (timezone_offset + t)))"

definition time_ticks_diff :: "int \<Rightarrow> int \<Rightarrow> int" where
  "time_ticks_diff end_in start_in = s32 (s32 end_in - s32 start_in)"

definition time_ticks_add :: "int \<Rightarrow> int \<Rightarrow> int" where
  "time_ticks_add start_in delta_in = u32 (u32 start_in + u32 delta_in)"

definition time_time :: "timeval \<Rightarrow> rtc_state \<Rightarrow> int" where
  "time_time tv st = u32 (mach_rtc_get_us_since_epoch tv st div 1000000)"

definition time_timezone :: "int option \<Rightarrow> int \<Rightarrow> int option \<times> int" where
  "time_timezone arg timezone_offset =
     (case arg of None \<Rightarrow> (Some timezone_offset, timezone_offset) | Some v \<Rightarrow> (None, v))"

section \<open>Time stamps of files\<close>

definition get_fattime :: "timeval \<Rightarrow> rtc_state \<Rightarrow> int option" where
  "get_fattime tv st =
     (case timeutils_seconds_since_2000_to_struct_time
             (u32 (mach_rtc_get_us_since_epoch tv st div 1000000)) of
        None \<Rightarrow> None
      | Some tm \<Rightarrow>
          Some (u32 (push_bit 25 (tm_year tm - 1980) OR push_bit 21 (tm_mon tm)
            OR push_bit 16 (tm_mday tm) OR push_bit 11 (tm_hour tm)
            OR push_bit 5 (tm_min tm) OR drop_bit 1 (tm_sec tm))))"

text \<open>The two words of the stamp in a directory entry, as \<open>get_fileinfo\<close> reads them.\<close>

definition get_fileinfo_ftime :: "int \<Rightarrow> int" where
  "get_fileinfo_ftime tm = tm mod 65536"

definition get_fileinfo_fdate :: "int \<Rightarrow> int" where
  "get_fileinfo_fdate tm = tm div 65536 mod 65536"

definition fat_vfs_stat_time :: "int \<Rightarrow> int \<Rightarrow> mp_obj option" where
  "fat_vfs_stat_time fdate ftime =
     (case timeutils_seconds_since_2000
             (1980 + (drop_bit 9 fdate AND 0x7f)) (drop_bit 5 fdate AND 0x0f) (fdate AND 0x1f)
             (drop_bit 11 ftime AND 0x1f) (drop_bit 5 ftime AND 0x3f) (2 * (ftime AND 0x1f)) of
        None \<Rightarrow> None
      | Some seconds \<Rightarrow> Some (MP_OBJ_NEW_SMALL_INT (s32 seconds)))"

end
