(* ===== verification/Time_Props.thy ===== *)
theory Time_Props
  imports Modutime
begin

text \<open>
  What the time functions promise: the conversions agree with the Gregorian calendar and invert each
  other, \<open>mktime\<close> normalises any date, the clock keeps the time it was set to, and the places where
  the 32-bit seconds since 2000, the time zone and the stamps of files go wrong.
\<close>

section \<open>Shared lemmas\<close>

definition time_fields :: "int \<Rightarrow> int \<Rightarrow> int \<Rightarrow> int \<Rightarrow> timeutils_struct_time_t" where
  "time_fields y m d t =
     \<lparr>tm_year = y, tm_mon = m, tm_mday = d, tm_hour = t mod 86400 div 3600,
      tm_min = t mod 86400 div 60 mod 60, tm_sec = t mod 86400 mod 60,
      tm_wday = (t div 86400 + 719162) mod 7,
      tm_yday = t div 86400 + 719162 - ordinal (y, 1, 1) + 1\<rparr>"

lemma epoch_struct_date:
  assumes "0 \<le> t" and "t < 2005949145600"
  obtains y m d where "timeutils_seconds_since_epoch_to_struct_time t = Some (time_fields y m d t)"
    and "1970 \<le> y" "y \<le> 65535" "1 \<le> m" "m \<le> 12" "1 \<le> d" "d \<le> 31"
    and "ordinal (y, m, d) = t div 86400 + 719162"
proof -
  define n where "n = t + 719162 * 86400"
  have n: "n div 86400 = t div 86400 + 719162" "n mod 86400 = t mod 86400" "0 \<le> n"
    using assms by (simp_all only: n_def shift_days)
  obtain y m d where f: "struct_time_of n =
      \<lparr>tm_year = y, tm_mon = m, tm_mday = d, tm_hour = n mod 86400 div 3600,
       tm_min = n mod 86400 div 60 mod 60, tm_sec = n mod 86400 mod 60,
       tm_wday = n div 86400 mod 7, tm_yday = n div 86400 - ordinal (y, 1, 1) + 1\<rparr>"
    "valid_date (y, m, d)" "ordinal (y, m, d) = n div 86400"
    by (rule struct_time_of_date [OF n(3)])
  have "days_before_year 1970 = 719162" "days_before_year 65536 = 23936166"
    by (simp_all add: days_before_year_def)
  moreover have "0 \<le> t div 86400" "t div 86400 < 23217004" using assms by simp_all
  ultimately have y: "1970 \<le> y" "y \<le> 65535"
    using year_from_ordinal [OF f(2), of 1970 65536] f(3) n(1) by simp_all
  have md: "1 \<le> m" "m \<le> 12" "1 \<le> d" "d \<le> 31"
    using f(2) month_len_bounds [of y m] by simp_all
  have "timeutils_seconds_since_epoch_to_struct_time t = Some (struct_time_of n)"
    using epoch_to_struct_time [of t] assms by (simp add: n_def)
  also have "struct_time_of n = time_fields y m d t" unfolding f(1) time_fields_def n ..
  finally show thesis by (rule that [OF _ y md f(3) [unfolded n]])
qed

lemma epoch_round_trip:
  assumes "0 \<le> t" and "t < 2005949145600"
    and "timeutils_seconds_since_epoch_to_struct_time t = Some tm"
  shows "timeutils_seconds_since_epoch (tm_year tm) (tm_mon tm) (tm_mday tm) (tm_hour tm) (tm_min tm)
    (tm_sec tm) = Some t"
proof -
  obtain y m d where fields: "timeutils_seconds_since_epoch_to_struct_time t = Some (time_fields y m d t)"
    and b: "1970 \<le> y" "y \<le> 65535" "1 \<le> m" "m \<le> 12" "1 \<le> d" "d \<le> 31"
    and o: "ordinal (y, m, d) = t div 86400 + 719162"
    by (rule epoch_struct_date [OF assms(1,2)])
  have f: "tm = time_fields y m d t" using fields assms(3) by simp
  define r where "r = t mod 86400"
  have r: "0 \<le> r" "r < 86400" by (simp_all add: r_def)
  have "timeutils_seconds_since_epoch y m d (r div 3600) (r div 60 mod 60) (r mod 60)
      = Some (86400 * (ordinal (y, m, d) - 719162) + 3600 * (r div 3600) + 60 * (r div 60 mod 60)
          + r mod 60)"
    using b r by (intro seconds_since_epoch_eq) simp_all
  also have "86400 * (ordinal (y, m, d) - 719162) + 3600 * (r div 3600) + 60 * (r div 60 mod 60)
      + r mod 60 = t"
    using seconds_sum [OF hms_seconds [OF r(1)] mult_div_mod_eq [of 86400 t, folded r_def], of 0]
    unfolding o by simp
  finally show ?thesis unfolding f by (simp add: time_fields_def r_def)
qed

lemma since_2000_round_trip:
  assumes "0 \<le> t" and "t < 2152667648"
    and "timeutils_seconds_since_2000_to_struct_time t = Some tm"
  shows "timeutils_seconds_since_2000 (tm_year tm) (tm_mon tm) (tm_mday tm) (tm_hour tm) (tm_min tm)
    (tm_sec tm) = Some t"
    and "2000 \<le> tm_year tm" "tm_year tm \<le> 2068" "1 \<le> tm_mon tm" "tm_mon tm \<le> 12" "1 \<le> tm_mday tm"
      "tm_mday tm \<le> 31" "0 \<le> tm_hour tm" "tm_hour tm < 24" "0 \<le> tm_min tm" "tm_min tm < 60"
      "0 \<le> tm_sec tm" "tm_sec tm < 60" "tm_sec tm mod 2 = t mod 2"
proof -
  define n where "n = t + 730119 * 86400"
  have n: "n div 86400 = t div 86400 + 730119" "n mod 86400 = t mod 86400"
    by (simp_all only: n_def shift_days)
  have "0 \<le> n" using assms by (simp add: n_def)
  obtain y m d where f: "struct_time_of n =
      \<lparr>tm_year = y, tm_mon = m, tm_mday = d, tm_hour = n mod 86400 div 3600,
       tm_min = n mod 86400 div 60 mod 60, tm_sec = n mod 86400 mod 60,
       tm_wday = n div 86400 mod 7, tm_yday = n div 86400 - ordinal (y, 1, 1) + 1\<rparr>"
    "valid_date (y, m, d)" "ordinal (y, m, d) = n div 86400"
    by (rule struct_time_of_date [OF \<open>0 \<le> n\<close>])
  have "days_before_year 2000 = 730119" "days_before_year 2069 = 755322"
    by (simp_all add: days_before_year_def)
  moreover have "0 \<le> t div 86400" "t div 86400 < 25203" using assms by simp_all
  ultimately have y: "2000 \<le> y" "y \<le> 2068"
    using year_from_ordinal [OF f(2), of 2000 2069] f(3) n(1) by simp_all
  have md: "1 \<le> m" "m \<le> 12" "1 \<le> d" "d \<le> 31"
    using f(2) month_len_bounds [of y m] by simp_all
  have "s32 (t - LEAPOCH) + 730179 * 86400 = n" using assms by (simp add: LEAPOCH_def n_def)
  then have tm: "tm = struct_time_of n" using since_2000_to_struct_time [of t] assms(3) by simp
  define r where "r = t mod 86400"
  have r: "0 \<le> r" "r < 86400" by (simp_all add: r_def)
  have "timeutils_seconds_since_2000 y m d (r div 3600) (r div 60 mod 60) (r mod 60)
      = Some (u32 (86400 * (ordinal (y, m, d) - 730119) + 3600 * (r div 3600) + 60 * (r div 60 mod 60)
          + r mod 60))"
    using y md by (intro seconds_since_2000_eq) simp_all
  also have "86400 * (ordinal (y, m, d) - 730119) + 3600 * (r div 3600) + 60 * (r div 60 mod 60)
      + r mod 60 = t"
    using seconds_sum [OF hms_seconds [OF r(1)] mult_div_mod_eq [of 86400 t, folded r_def], of 0]
    unfolding f(3) n(1) by simp
  finally show "timeutils_seconds_since_2000 (tm_year tm) (tm_mon tm) (tm_mday tm) (tm_hour tm) (tm_min tm)
      (tm_sec tm) = Some t"
    unfolding tm f n(2) r_def [symmetric]
    using assms(1,2) by (simp only: timeutils_struct_time_t.select_convs u32_id)
  have h: "0 \<le> r div 3600" "r div 3600 < 24" "0 \<le> r div 60 mod 60" "r div 60 mod 60 < 60"
      "0 \<le> r mod 60" "r mod 60 < 60"
    using r by simp_all
  have "r mod 60 mod 2 = t mod 2" by (simp add: r_def mod_mod_cancel)
  then show "2000 \<le> tm_year tm" "tm_year tm \<le> 2068" "1 \<le> tm_mon tm" "tm_mon tm \<le> 12" "1 \<le> tm_mday tm"
      "tm_mday tm \<le> 31" "0 \<le> tm_hour tm" "tm_hour tm < 24" "0 \<le> tm_min tm" "tm_min tm < 60"
      "0 \<le> tm_sec tm" "tm_sec tm < 60" "tm_sec tm mod 2 = t mod 2"
    using y md h unfolding tm f n(2) r_def [symmetric]
    by (simp_all only: timeutils_struct_time_t.select_convs)
qed

lemma mktime_of_struct:
  assumes "0 \<le> t" and "t < 2005949145600"
    and "timeutils_seconds_since_epoch_to_struct_time t = Some tm"
  shows "timeutils_mktime_since_epoch (u32 (tm_year tm)) (tm_mon tm) (tm_mday tm) (tm_hour tm)
    (tm_min tm) (tm_sec tm) = Some t"
proof -
  obtain y m d where fields: "timeutils_seconds_since_epoch_to_struct_time t = Some (time_fields y m d t)"
    and b: "1970 \<le> y" "y \<le> 65535" "1 \<le> m" "m \<le> 12" "1 \<le> d" "d \<le> 31"
    and o: "ordinal (y, m, d) = t div 86400 + 719162"
    by (rule epoch_struct_date [OF assms(1,2)])
  have f: "tm = time_fields y m d t" using fields assms(3) by simp
  define r where "r = t mod 86400"
  have r: "0 \<le> r" "r < 86400" by (simp_all add: r_def)
  have day: "day_number y m d = t div 86400 + 719162"
    using b o by (simp add: day_number_def)
  have N: "t + 86400 * 719162 = 86400 * day_number y m d + 3600 * (r div 3600) + 60 * (r div 60 mod 60)
      + r mod 60"
    using seconds_sum [OF hms_seconds [OF r(1)] mult_div_mod_eq [of 86400 t, folded r_def], of "- 719162"]
    unfolding day by simp
  have "carries_fit m d (r div 3600) (r div 60 mod 60) (r mod 60)" using b r by (intro carries_fit_normal) simp_all
  then have "timeutils_mktime_since_epoch y m d (r div 3600) (r div 60 mod 60) (r mod 60)
      = Some (t + 86400 * 719162 - 86400 * 719162)"
    using assms(1,2) b r by (intro mktime_since_epoch_eq [OF _ _ _ _ _ N]) simp_all
  then show ?thesis unfolding f using b by (simp add: time_fields_def r_def)
qed

section \<open>Packed fields\<close>

lemma or_push_bit:
  assumes "0 \<le> b" and "b < 2 ^ n"
  shows "push_bit n a OR b = a * 2 ^ n + (b :: int)"
proof -
  have "push_bit n a OR b = concat_bit n b a"
    using assms by (simp add: concat_bit_def or.commute take_bit_int_eq_self)
  also have "\<dots> = a * 2 ^ n + b"
    using assms by (simp add: concat_bit_eq take_bit_int_eq_self push_bit_eq_mult)
  finally show ?thesis .
qed

lemma and_low_bits:
  "x AND 0x1f = x mod 32" "x AND 0x0f = x mod 16" "x AND 0x3f = x mod 64" "x AND 0x7f = x mod (128 :: int)"
proof -
  have "x AND mask n = x mod 2 ^ n" for n by (simp add: take_bit_eq_mod flip: take_bit_eq_mask)
  from this [of 5] this [of 4] this [of 6] this [of 7]
  show "x AND 0x1f = x mod 32" "x AND 0x0f = x mod 16" "x AND 0x3f = x mod 64" "x AND 0x7f = x mod 128"
    by (simp_all add: mask_eq_exp_minus_1)
qed

text \<open>The fields packed into a stamp, and read from it.\<close>

definition fat_stamp :: "int \<Rightarrow> int \<Rightarrow> int \<Rightarrow> int \<Rightarrow> int \<Rightarrow> int \<Rightarrow> int" where
  "fat_stamp y mo d h mi s2 = y * 33554432 + (mo * 2097152 + (d * 65536 + (h * 2048 + (mi * 32 + s2))))"

lemma fat_stamp_pack:
  assumes "0 \<le> y" "y < 128" "0 \<le> mo" "mo < 16" "0 \<le> d" "d < 32" "0 \<le> h" "h < 32" "0 \<le> mi" "mi < 64"
    "0 \<le> s2" "s2 < 32"
  shows "u32 (push_bit 25 y OR push_bit 21 mo OR push_bit 16 d OR push_bit 11 h OR push_bit 5 mi OR s2)
    = fat_stamp y mo d h mi s2"
  using assms by (simp add: or_push_bit fat_stamp_def)

lemma fat_stamp_unpack:
  assumes "0 \<le> y" "y < 128" "0 \<le> mo" "mo < 16" "0 \<le> d" "d < 32" "0 \<le> h" "h < 32" "0 \<le> mi" "mi < 64"
    "0 \<le> s2" "s2 < 32"
  defines "w \<equiv> fat_stamp y mo d h mi s2"
  shows "drop_bit 9 (get_fileinfo_fdate w) AND 0x7f = y" "drop_bit 5 (get_fileinfo_fdate w) AND 0x0f = mo"
    "get_fileinfo_fdate w AND 0x1f = d" "drop_bit 11 (get_fileinfo_ftime w) AND 0x1f = h"
    "drop_bit 5 (get_fileinfo_ftime w) AND 0x3f = mi" "get_fileinfo_ftime w AND 0x1f = s2"
proof -
  have t: "get_fileinfo_ftime w = h * 2048 + (mi * 32 + s2)"
    unfolding get_fileinfo_ftime_def w_def fat_stamp_def using assms(1-12)
    by (intro int_mod_pos_eq [of _ _ "y * 512 + (mo * 32 + d)"]) simp_all
  have "w div 65536 = y * 512 + (mo * 32 + d)"
    unfolding w_def fat_stamp_def using assms(1-12)
    by (intro int_div_pos_eq [of _ _ _ "h * 2048 + (mi * 32 + s2)"]) simp_all
  then have d: "get_fileinfo_fdate w = y * 512 + (mo * 32 + d)"
    unfolding get_fileinfo_fdate_def using assms(1-12) by simp
  have "(y * 512 + (mo * 32 + d)) div 512 = y" "(y * 512 + (mo * 32 + d)) div 32 = y * 16 + mo"
    using assms(1-12) by (simp_all add: int_div_pos_eq [of _ _ _ "mo * 32 + d"] int_div_pos_eq [of _ _ _ d])
  moreover have "(y * 512 + (mo * 32 + d)) mod 32 = d"
    using assms(1-12) by (intro int_mod_pos_eq [of _ _ "y * 16 + mo"]) simp_all
  ultimately show "drop_bit 9 (get_fileinfo_fdate w) AND 0x7f = y" "drop_bit 5 (get_fileinfo_fdate w) AND 0x0f = mo"
    "get_fileinfo_fdate w AND 0x1f = d"
    unfolding d and_low_bits using assms(1-12) by (simp_all add: drop_bit_eq_div)
  have "(h * 2048 + (mi * 32 + s2)) div 2048 = h" "(h * 2048 + (mi * 32 + s2)) div 32 = h * 64 + mi"
    using assms(1-12) by (simp_all add: int_div_pos_eq [of _ _ _ "mi * 32 + s2"] int_div_pos_eq [of _ _ _ s2])
  moreover have "(h * 2048 + (mi * 32 + s2)) mod 32 = s2"
    using assms(1-12) by (intro int_mod_pos_eq [of _ _ "h * 64 + mi"]) simp_all
  ultimately show "drop_bit 11 (get_fileinfo_ftime w) AND 0x1f = h"
    "drop_bit 5 (get_fileinfo_ftime w) AND 0x3f = mi" "get_fileinfo_ftime w AND 0x1f = s2"
    unfolding t and_low_bits using assms(1-12) by (simp_all add: drop_bit_eq_div)
qed

lemma even_seconds: "2 * drop_bit 1 s = s - s mod (2 :: int)"
  using mult_div_mod_eq [of 2 s] by (simp add: drop_bit_eq_div minus_mod_eq_mult_div)

lemma seconds_since_2000_less:
  assumes "timeutils_seconds_since_2000 y m d h mi s = Some t"
    and "2000 \<le> y" "y \<le> 65535" "1 \<le> m" "m \<le> 12" "1 \<le> d" "d < 65000" and "0 \<le> k" "k \<le> t"
  shows "timeutils_seconds_since_2000 y m d h mi (s - k) = Some (t - k)"
proof -
  define X where "X = 86400 * (ordinal (y, m, d) - 730119) + 3600 * h + 60 * mi"
  note eq = seconds_since_2000_eq [OF assms(2-7), of h mi, folded X_def]
  have t: "u32 (X + s) = t" using eq [of s] assms(1) by simp
  have "u32 (X + (s - k)) = u32 (u32 (X + s) - k)"
    unfolding u32_def mod_diff_left_eq by (simp add: algebra_simps)
  also have "\<dots> = t - k" using u32_sub [of k "X + s"] assms(8,9) unfolding t by simp
  finally show ?thesis using eq [of "s - k"] by simp
qed

lemma fat_stamp_time:
  assumes sec: "sec = mach_rtc_get_us_since_epoch tv st div 1000000" and "sec < 2152667648"
  obtains w where "get_fattime tv st = Some w"
    "fat_vfs_stat_time (get_fileinfo_fdate w) (get_fileinfo_ftime w)
      = Some (MP_OBJ_NEW_SMALL_INT (s32 (sec - sec mod 2)))"
proof -
  have s0: "0 \<le> sec" unfolding sec mach_rtc_get_us_since_epoch_def u64_def by (simp add: pos_imp_zdiv_nonneg_iff)
  have arg: "u32 (mach_rtc_get_us_since_epoch tv st div 1000000) = sec"
    unfolding sec [symmetric] using s0 assms(2) by simp
  obtain tm where tm: "timeutils_seconds_since_2000_to_struct_time sec = Some tm"
    using since_2000_to_struct_time by blast
  note rt = since_2000_round_trip [OF s0 assms(2) tm]
  define w where "w = fat_stamp (tm_year tm - 1980) (tm_mon tm) (tm_mday tm) (tm_hour tm) (tm_min tm)
    (drop_bit 1 (tm_sec tm))"
  have s2: "0 \<le> drop_bit 1 (tm_sec tm)" "drop_bit 1 (tm_sec tm) < 32"
    using rt(12,13) by (simp_all add: drop_bit_eq_div)
  have b: "0 \<le> tm_year tm - 1980" "tm_year tm - 1980 < 128" "0 \<le> tm_mon tm" "tm_mon tm < 16"
      "0 \<le> tm_mday tm" "tm_mday tm < 32" "0 \<le> tm_hour tm" "tm_hour tm < 32" "0 \<le> tm_min tm" "tm_min tm < 64"
    using rt(2-11) by simp_all
  have w: "get_fattime tv st = Some w"
    unfolding get_fattime_def arg tm option.case w_def fat_stamp_pack [OF b s2] ..
  have seconds: "2 * drop_bit 1 (tm_sec tm) = tm_sec tm - sec mod 2"
    unfolding even_seconds rt(14) ..
  have "timeutils_seconds_since_2000 (tm_year tm) (tm_mon tm) (tm_mday tm) (tm_hour tm) (tm_min tm)
      (tm_sec tm - sec mod 2) = Some (sec - sec mod 2)"
    using seconds_since_2000_less [OF rt(1), of "sec mod 2"] rt(2-7) s0 by (simp add: zmod_le_nonneg_dividend)
  then have "fat_vfs_stat_time (get_fileinfo_fdate w) (get_fileinfo_ftime w)
      = Some (MP_OBJ_NEW_SMALL_INT (s32 (sec - sec mod 2)))"
    unfolding fat_vfs_stat_time_def fat_stamp_unpack [OF b s2, folded w_def] seconds by simp
  with w show thesis by (rule that)
qed

section \<open>Properties\<close>

text \<open>C23: For every time from the year 1 to the year 65535, \<open>timeutils_seconds_since_epoch_to_struct_time\<close>
  gives the date of the Gregorian calendar, the time of the day, the day of the week and the day of
  the year.\<close>

theorem epoch_struct_time_calendar:
  assumes "- 62135596800 \<le> t" and "t < 2005949145600"
  shows "timeutils_seconds_since_epoch_to_struct_time t = Some (struct_time_of (t + 62135596800))"
  using assms by (rule epoch_to_struct_time)

theorem epoch_struct_time_calendar_witness:
  "struct_time_of 63718531199 =
     \<lparr>tm_year = 2020, tm_mon = 2, tm_mday = 28, tm_hour = 23, tm_min = 59, tm_sec = 59,
      tm_wday = 4, tm_yday = 59\<rparr>"
proof -
  have "timeutils_seconds_since_epoch_to_struct_time 1582934399 = Some
     \<lparr>tm_year = 2020, tm_mon = 2, tm_mday = 28, tm_hour = 23, tm_min = 59, tm_sec = 59,
      tm_wday = 4, tm_yday = 59\<rparr>"
    by (simp add: timeutils_seconds_since_epoch_to_struct_time_def LEAPOCH_1970_def year_cycles_def
      DAYS_PER_400Y_def DAYS_PER_100Y_def DAYS_PER_4Y_def days_in_month_def Let_def)
  then show ?thesis using epoch_struct_time_calendar [of 1582934399] by simp
qed

text \<open>C24: Every time from the epoch on survives the conversion to a broken-down time and back: from
  1970 to the year 65535 for the 64-bit functions, and for the 32-bit functions since 2000 for the
  first \<open>2 ^ 31\<close> seconds after March 2000.\<close>

theorem struct_time_round_trip:
  assumes "0 \<le> t"
  shows "(t < 2005949145600 \<longrightarrow> (\<exists>tm. timeutils_seconds_since_epoch_to_struct_time t = Some tm
      \<and> timeutils_seconds_since_epoch (tm_year tm) (tm_mon tm) (tm_mday tm) (tm_hour tm) (tm_min tm)
          (tm_sec tm) = Some t))
    \<and> (t < 2152667648 \<longrightarrow> (\<exists>tm. timeutils_seconds_since_2000_to_struct_time t = Some tm
      \<and> timeutils_seconds_since_2000 (tm_year tm) (tm_mon tm) (tm_mday tm) (tm_hour tm) (tm_min tm)
          (tm_sec tm) = Some t))"
  using epoch_round_trip [OF assms] since_2000_round_trip(1) [OF assms] since_2000_to_struct_time [of t]
    epoch_to_struct_time [of t] assms by auto

theorem struct_time_round_trip_witness:
  "\<exists>tm. timeutils_seconds_since_2000_to_struct_time 2152667647 = Some tm
    \<and> timeutils_seconds_since_2000 (tm_year tm) (tm_mon tm) (tm_mday tm) (tm_hour tm) (tm_min tm)
          (tm_sec tm) = Some 2152667647"
  using struct_time_round_trip [of 2152667647] by simp

text \<open>C38: The 32-bit seconds since 2000 are read as a signed number of seconds since March 2000: from
  \<open>2 ^ 31\<close> seconds after it on, in the year 2068, \<open>timeutils_seconds_since_2000_to_struct_time\<close> gives a date
  \<open>2 ^ 32\<close> seconds too early, and the correct one before.\<close>

theorem since_2000_struct_time_range:
  assumes "0 \<le> t" and "t < 4294967296"
  shows "timeutils_seconds_since_2000_to_struct_time t
    = Some (struct_time_of (t + 63082281600 - (if t < 2152667648 then 0 else 4294967296)))"
proof -
  have "s32 (t - LEAPOCH) + 730179 * 86400
      = t + 63082281600 - (if t < 2152667648 then 0 else 4294967296)"
  proof (cases "t < 2152667648")
    case False
    then have "(t - 5184000 + 2147483648) mod 4294967296 = t - 5184000 + 2147483648 - 4294967296"
      using assms by (intro int_mod_pos_eq [of _ _ 1]) simp_all
    then show ?thesis using False by (simp add: s32_def LEAPOCH_def)
  qed (use assms in \<open>simp add: LEAPOCH_def\<close>)
  then show ?thesis by (simp only: since_2000_to_struct_time)
qed

theorem since_2000_struct_time_range_witness:
  "struct_time_of (2152667648 + 63082281600 - 4294967296) =
     \<lparr>tm_year = 1932, tm_mon = 2, tm_mday = 11, tm_hour = 20, tm_min = 45, tm_sec = 52,
      tm_wday = 3, tm_yday = 42\<rparr>"
proof -
  have "timeutils_seconds_since_2000_to_struct_time 2152667648 = Some
     \<lparr>tm_year = 1932, tm_mon = 2, tm_mday = 11, tm_hour = 20, tm_min = 45, tm_sec = 52,
      tm_wday = 3, tm_yday = 42\<rparr>"
    by code_simp
  then show ?thesis using since_2000_struct_time_range [of 2152667648] by simp
qed

text \<open>C25: \<open>timeutils_mktime_since_epoch\<close> returns, for fields in or out of their ranges, the seconds of the
  day that is as many days, hours, minutes and seconds after the first of the month, when that lies
  between 1970 and the year 65535: its loops end and nothing overflows. The hypotheses are exact for the
  32-bit arithmetic of the code: the fields, the month less one and the sums that the carries make fit a
  signed machine integer, and the year with the carry of the months an unsigned one.\<close>

theorem mktime_any_date:
  assumes "carries_fit month mday hours minutes seconds"
    and "0 \<le> year" "year < 4294967296"
    and "1 \<le> year + (month - 1) div 12" "year + (month - 1) div 12 < 4294967296"
    and "N = 86400 * day_number year month mday + 3600 * hours + 60 * minutes + seconds"
    and "86400 * 719162 \<le> N" "N < 86400 * 23936166"
  shows "timeutils_mktime_since_epoch year month mday hours minutes seconds = Some (N - 86400 * 719162)"
  using assms by (rule mktime_since_epoch_eq)

theorem mktime_any_date_witness:
  "timeutils_mktime_since_epoch 2020 14 (- 40) 49 (- 130) 2000000000 = Some 3608763800"
proof -
  have "day_number 2020 14 (- 40) = 737780"
    by (simp add: day_number_def days_before_year_def days_before_month_def)
  then show ?thesis
    using mktime_any_date [where year = 2020 and month = 14 and mday = "- 40" and hours = 49
        and minutes = "- 130" and seconds = 2000000000 and N = 65744360600]
    by (simp add: carries_fit_def machine_int_def)
qed

text \<open>C39: \<open>mktime\<close> is not the inverse of \<open>localtime\<close> once a time zone is set: it adds the offset of the
  zone where it has to be taken away, and the result is off by twice the offset.\<close>

theorem mktime_localtime_offset:
  assumes "0 \<le> s + tz" and "s < 2147483648" and "tz < 2147483648"
  shows "\<exists>elem. time_localtime tz (Some s) tv st = Inr elem
    \<and> time_mktime tz elem = Inr (u32 (s + 2 * tz))"
proof -
  have t: "0 \<le> s + tz" "s + tz < 2005949145600" using assms by simp_all
  obtain tm where tm: "timeutils_seconds_since_epoch_to_struct_time (s + tz) = Some tm"
    using epoch_to_struct_time [of "s + tz"] t by auto
  have "s64 (s + tz) = s + tz" using t by simp
  then have "time_localtime tz (Some s) tv st = Inr [tm_year tm, tm_mon tm, tm_mday tm, tm_hour tm,
      tm_min tm, tm_sec tm, tm_wday tm, tm_yday tm]"
    by (simp add: time_localtime_def seconds_to_tuple_helper_def tm)
  moreover have "time_mktime tz [tm_year tm, tm_mon tm, tm_mday tm, tm_hour tm, tm_min tm, tm_sec tm,
      tm_wday tm, tm_yday tm] = Inr (u32 (s + 2 * tz))"
    using mktime_of_struct [OF t tm] by (simp add: time_mktime_def algebra_simps)
  ultimately show ?thesis by blast
qed

theorem mktime_localtime_offset_witness:
  "\<exists>elem. time_localtime 3600 (Some 1600000000) (0, 0)
      \<lparr>delta_from_epoch_til_boot = 0, rtc_user_mem_len = 0, rtc_user_mem_data = [], synced = False\<rparr>
      = Inr elem \<and> time_mktime 3600 elem = Inr 1600007200"
  using mktime_localtime_offset [where s = 1600000000 and tz = 3600 and tv = "(0, 0)"
      and st = "\<lparr>delta_from_epoch_til_boot = 0, rtc_user_mem_len = 0, rtc_user_mem_data = [],
        synced = False\<rparr>"]
  by simp

lemma u64_elapsed:
  assumes "0 \<le> n" and "n < 18446744073709551616" and "timeval_us tv' = timeval_us tv + e" and "n = T + e"
  shows "mach_rtc_get_us_since_epoch tv' (mach_rtc_set_us_since_epoch T tv st) = n"
proof -
  have "u64 (timeval_us tv' + u64 (T - timeval_us tv)) = u64 (timeval_us tv' + (T - timeval_us tv))"
    by (simp add: u64_def mod_add_right_eq)
  also have "\<dots> = n" using assms by (simp add: u64_def)
  finally show ?thesis by (simp add: mach_rtc_get_us_since_epoch_def mach_rtc_set_us_since_epoch_def)
qed

lemma datetime_us_eq:
  assumes date: "valid_date (y, m, d)" "1970 \<le> y" "y \<le> 65535"
    and hms: "0 \<le> h" "h < 24" "0 \<le> mi" "mi < 60" "0 \<le> s" "s < 60"
    and us: "0 \<le> us" "us < 1000000"
    and T: "T = 1000000 * (86400 * (ordinal (y, m, d) - 719162) + 3600 * h + 60 * mi + s) + us"
  shows "mach_rtc_datetime_us [y, m, d, h, mi, s, us] = Inr T"
proof -
  have md: "1 \<le> m" "m \<le> 12" "1 \<le> d" "d \<le> 31"
    using date(1) month_len_bounds [of y m] by simp_all
  define S where "S = 86400 * (ordinal (y, m, d) - 719162) + 3600 * h + 60 * mi + s"
  have S: "timeutils_seconds_since_epoch y m d h mi s = Some S"
    unfolding S_def using date md hms by (intro seconds_since_epoch_eq) simp_all
  have "days_before_year 1970 = 719162" "days_before_year 65536 = 23936166"
    by (simp_all add: days_before_year_def)
  then have o: "719162 \<le> ordinal (y, m, d)" "ordinal (y, m, d) < 23936166"
    using ordinal_in_year [OF date(1)] days_before_year_mono [of 1970 y]
      days_before_year_mono [of "y + 1" 65536] date(2,3) by linarith+
  have "u64 (u64 us + 1000000 * S) = T"
    using o hms us unfolding T S_def [symmetric] u64_def by (simp add: S_def)
  then show ?thesis
    using date md hms S by (simp add: mach_rtc_datetime_us_def Let_def)
qed

text \<open>C26: The clock keeps the time it was set to: after \<open>init\<close> with a date and a time of day, \<open>now\<close> gives
  the date, the time of day and the microseconds of the moment that is as many microseconds later as
  the system clock has counted. The seventh item of the date is microseconds, as the code adds it,
  and not milliseconds, as the comment of \<open>mach_rtc_datetime\<close> says.\<close>

theorem rtc_keeps_time:
  assumes "valid_date (y, m, d)" "1970 \<le> y" "y \<le> 65535"
    and "0 \<le> h" "h < 24" "0 \<le> mi" "mi < 60" "0 \<le> s" "s < 60" "0 \<le> us" "us < 1000000"
    and T: "n = 1000000 * (86400 * (ordinal (y, m, d) - 719162) + 3600 * h + 60 * mi + s) + us + e"
    and tv: "timeval_us tv' = timeval_us tv + e" and n: "0 \<le> n" "n < 2005949145600000000"
  shows "\<exists>st' tm. mach_rtc_init (Some [y, m, d, h, mi, s, us]) tv st = Inr st'
    \<and> tm = struct_time_of (n div 1000000 + 62135596800)
    \<and> mach_rtc_now tv' st' = Inr [tm_year tm, tm_mon tm, tm_mday tm, tm_hour tm, tm_min tm, tm_sec tm,
        n mod 1000000]"
proof -
  define T' where "T' = 1000000 * (86400 * (ordinal (y, m, d) - 719162) + 3600 * h + 60 * mi + s) + us"
  have "mach_rtc_datetime_us [y, m, d, h, mi, s, us] = Inr T'"
    using assms by (intro datetime_us_eq) (simp_all only: T'_def)
  then have init: "mach_rtc_init (Some [y, m, d, h, mi, s, us]) tv st
      = Inr (mach_rtc_set_us_since_epoch T' tv st)"
    by (simp add: mach_rtc_init_def mach_rtc_datetime_def)
  have now: "mach_rtc_get_us_since_epoch tv' (mach_rtc_set_us_since_epoch T' tv st) = n"
    using tv n T by (intro u64_elapsed) (simp_all add: T'_def)
  have "0 \<le> n div 1000000" "n div 1000000 < 2005949145600" using n by simp_all
  then have "timeutils_seconds_since_epoch_to_struct_time (n div 1000000)
      = Some (struct_time_of (n div 1000000 + 62135596800))"
    by (intro epoch_to_struct_time) simp_all
  then show ?thesis unfolding init by (simp add: mach_rtc_now_def now)
qed

theorem rtc_keeps_time_witness:
  "\<exists>st' tm. mach_rtc_init (Some [2019, 12, 31, 23, 59, 59, 999999]) (100, 5)
      \<lparr>delta_from_epoch_til_boot = 0, rtc_user_mem_len = 0, rtc_user_mem_data = [], synced = False\<rparr>
      = Inr st'
    \<and> tm = struct_time_of 63713433600
    \<and> mach_rtc_now (100, 6) st' = Inr [tm_year tm, tm_mon tm, tm_mday tm, tm_hour tm, tm_min tm, tm_sec tm, 0]"
  using rtc_keeps_time [where y = 2019 and m = 12 and d = 31 and h = 23 and mi = 59 and s = 59
      and us = 999999 and e = 1 and n = 1577836800000000 and tv = "(100, 5)" and tv' = "(100, 6)"
      and st = "\<lparr>delta_from_epoch_til_boot = 0, rtc_user_mem_len = 0, rtc_user_mem_data = [],
        synced = False\<rparr>"]
  by (simp add: month_len_def days_before_year_def days_before_month_def leap_def u64_def)

text \<open>C40: The modification time of a file that \<open>stat\<close> reports is the second of the clock at the write,
  rounded down to an even one, as long as that is below \<open>2 ^ 30\<close>, that is before the year 2004. Later
  times do not fit in a small integer, and \<open>stat\<close> reports them \<open>2 ^ 31\<close> seconds too early; the statement
  is for clocks below \<open>2 ^ 31\<close> seconds, that is before the year 2038.\<close>

theorem fat_stat_mtime:
  assumes "sec = mach_rtc_get_us_since_epoch tv st div 1000000" and "sec < 2147483648"
  shows "\<exists>w. get_fattime tv st = Some w
    \<and> fat_vfs_stat_time (get_fileinfo_fdate w) (get_fileinfo_ftime w)
      = Some (Small_int (sec - sec mod 2 - (if sec < 1073741824 then 0 else 2147483648)))"
proof -
  have s0: "0 \<le> sec" unfolding assms(1) mach_rtc_get_us_since_epoch_def u64_def
    by (simp add: pos_imp_zdiv_nonneg_iff)
  define v where "v = sec - sec mod 2"
  have v: "0 \<le> v" "v \<le> sec" "sec < 1073741824 \<longleftrightarrow> v < 1073741824"
    using s0 unfolding v_def by presburger+
  have "(v + 1073741824) mod 2147483648 = (if v < 1073741824 then v + 1073741824 else v - 1073741824)"
    using v(1,2) assms(2) by (auto intro: int_mod_pos_eq [of _ _ 0] int_mod_pos_eq [of _ _ 1])
  then have "signed_take_bit 30 (s32 v) = v - (if sec < 1073741824 then 0 else 2147483648)"
    using v assms(2) by (simp add: signed_take_bit_eq_take_bit_shift take_bit_eq_mod)
  moreover obtain w where "get_fattime tv st = Some w"
    "fat_vfs_stat_time (get_fileinfo_fdate w) (get_fileinfo_ftime w) = Some (MP_OBJ_NEW_SMALL_INT (s32 v))"
    using fat_stamp_time [OF assms(1)] assms(2) unfolding v_def by auto
  ultimately show ?thesis unfolding v_def [symmetric] MP_OBJ_NEW_SMALL_INT_def by simp
qed

theorem fat_stat_mtime_witness:
  "\<exists>w. get_fattime (1600000001, 0)
      \<lparr>delta_from_epoch_til_boot = 0, rtc_user_mem_len = 0, rtc_user_mem_data = [], synced = False\<rparr> = Some w
    \<and> fat_vfs_stat_time (get_fileinfo_fdate w) (get_fileinfo_ftime w) = Some (Small_int (- 547483648))"
  using fat_stat_mtime [where sec = 1600000001 and tv = "(1600000001, 0)"
      and st = "\<lparr>delta_from_epoch_til_boot = 0, rtc_user_mem_len = 0, rtc_user_mem_data = [],
        synced = False\<rparr>"]
  by (simp add: mach_rtc_get_us_since_epoch_def u64_def)

end
