(* ===== verification/Mp_Seq.thy ===== *)
theory Mp_Seq
  imports C_Int "HOL-Library.List_Lexorder"
begin

text \<open>
  The functions that the sequence types share: indices and slices, comparison, search and repetition
  (\<open>src/py/sequence.c\<close>, \<open>mp_get_index\<close> of \<open>src/py/obj.c\<close>, the macros of \<open>src/py/obj.h\<close>). An index is the
  machine integer \<open>mp_obj_get_int_maybe\<close> makes of the object, \<open>None\<close> when it is not an integer.
  Equality and order of the elements are arguments. Reading outside an array has no defined value
  and is the error \<open>Seq_overrun\<close>.
\<close>

datatype seq_error = Seq_index_error | Seq_type_error | Seq_value_error | Seq_not_implemented | Seq_overrun

text \<open>A computation that continues unless an error was raised.\<close>

fun seq_bind :: "seq_error + 'a \<Rightarrow> ('a \<Rightarrow> seq_error + 'b) \<Rightarrow> seq_error + 'b" where
  "seq_bind (Inl e) f = Inl e"
| "seq_bind (Inr x) f = f x"

section \<open>Indices\<close>

definition mp_get_index :: "nat \<Rightarrow> int option \<Rightarrow> bool \<Rightarrow> seq_error + nat" where
  "mp_get_index len index is_slice =
     (case index of
        None \<Rightarrow> Inl Seq_type_error
      | Some i \<Rightarrow>
          let i = (if i < 0 then i + int len else i) in
          if is_slice then
            Inr (nat (if i < 0 then 0 else if int len < i then int len else i))
          else if i < 0 \<or> int len \<le> i then Inl Seq_index_error
          else Inr (nat i))"

section \<open>Slices\<close>

record mp_bound_slice =
  sl_start :: int
  sl_stop :: int
  sl_step :: int

type_synonym slice_arg = "int option \<times> int option \<times> int option"

fun mp_seq_get_fast_slice_indexes :: "nat \<Rightarrow> slice_arg \<Rightarrow> seq_error + bool \<times> mp_bound_slice" where
  "mp_seq_get_fast_slice_indexes len (ostart, ostop, ostep) =
     (let step = (case ostep of None \<Rightarrow> 1 | Some v \<Rightarrow> v) in
      if step = 0 then Inl Seq_value_error
      else
        let start = (case ostart of
                       None \<Rightarrow> if 0 < step then 0 else s32 (int len - 1)
                     | Some v \<Rightarrow> v);
            stop = (case ostop of
                      None \<Rightarrow> if 0 < step then int len else 0
                    | Some v \<Rightarrow> if 0 \<le> v \<and> step < 0 then s32 (v + 1) else v);
            start = (if start < 0 then
                       let start = s32 (int len + start) in
                       if start < 0 then if step < 0 then - 1 else 0 else start
                     else if 0 < step \<and> int len < start then int len
                     else if step < 0 \<and> int len \<le> start then int len - 1
                     else start);
            stop = (if stop < 0 then
                      let stop = s32 (int len + stop);
                          stop = (if stop < 0 then - 1 else stop)
                      in if step < 0 then stop + 1 else stop
                    else if int len < stop then int len
                    else stop);
            stop = (if 0 < step \<and> stop < start then start
                    else if step < 0 \<and> start < stop then start + 1
                    else stop)
        in Inr (step = 1, \<lparr>sl_start = start, sl_stop = stop, sl_step = step\<rparr>))"

text \<open>The loops that copy the elements of a slice with a step; \<open>None\<close> is not returning.\<close>

partial_function (option) extract_down :: "'o list \<Rightarrow> int \<Rightarrow> int \<Rightarrow> int \<Rightarrow> 'o list \<Rightarrow> (seq_error + 'o list) option" where
  "extract_down seq start stop step res =
     (if stop \<le> start then
        if 0 \<le> start \<and> start < int (length seq) then
          extract_down seq (s32 (start + step)) stop step (res @ [seq ! nat start])
        else Some (Inl Seq_overrun)
      else Some (Inr res))"

partial_function (option) extract_up :: "'o list \<Rightarrow> int \<Rightarrow> int \<Rightarrow> int \<Rightarrow> 'o list \<Rightarrow> (seq_error + 'o list) option" where
  "extract_up seq start stop step res =
     (if start < stop then
        if 0 \<le> start \<and> start < int (length seq) then
          extract_up seq (s32 (start + step)) stop step (res @ [seq ! nat start])
        else Some (Inl Seq_overrun)
      else Some (Inr res))"

definition mp_seq_extract_slice :: "'o list \<Rightarrow> mp_bound_slice \<Rightarrow> (seq_error + 'o list) option" where
  "mp_seq_extract_slice seq indexes =
     (if sl_step indexes < 0 then
        extract_down seq (sl_start indexes) (sl_stop indexes) (sl_step indexes) []
      else extract_up seq (sl_start indexes) (sl_stop indexes) (sl_step indexes) [])"

section \<open>Repetition, comparison and search\<close>

fun mp_seq_multiply :: "'o list \<Rightarrow> nat \<Rightarrow> 'o list" where
  "mp_seq_multiply items 0 = []"
| "mp_seq_multiply items (Suc n) = items @ mp_seq_multiply items n"

datatype seq_relation = Rel_equal | Rel_less | Rel_less_equal | Rel_more | Rel_more_equal

fun swap_relation :: "seq_relation \<Rightarrow> seq_relation" where
  "swap_relation Rel_less = Rel_more"
| "swap_relation Rel_less_equal = Rel_more_equal"
| "swap_relation op = op"

text \<open>The end of both comparisons, when the common part is equal.\<close>

definition cmp_tie :: "seq_relation \<Rightarrow> nat \<Rightarrow> nat \<Rightarrow> bool" where
  "cmp_tie op len1 len2 =
     (if len1 \<noteq> len2 then \<not> len1 < len2
      else if op = Rel_more then False
      else True)"

text \<open>\<open>memcmp\<close>: the sign of the difference at the first byte that differs.\<close>

fun memcmp :: "u8 list \<Rightarrow> u8 list \<Rightarrow> nat \<Rightarrow> int" where
  "memcmp (x # xs) (y # ys) (Suc n) =
     (if x = y then memcmp xs ys n else if x < y then - 1 else 1)"
| "memcmp xs ys n = 0"

definition mp_seq_cmp_bytes :: "seq_relation \<Rightarrow> u8 list \<Rightarrow> u8 list \<Rightarrow> bool" where
  "mp_seq_cmp_bytes op data1 data2 =
     (if op = Rel_equal \<and> length data1 \<noteq> length data2 then False
      else
        let (data1, data2) = (if op = Rel_less \<or> op = Rel_less_equal then (data2, data1) else (data1, data2));
            op = swap_relation op;
            res = memcmp data1 data2 (min (length data1) (length data2))
        in if op = Rel_equal then res = 0
           else if res < 0 then False
           else if 0 < res then True
           else cmp_tie op (length data1) (length data2))"

fun cmp_objs_loop ::
    "('o \<Rightarrow> 'o \<Rightarrow> bool) \<Rightarrow> (seq_relation \<Rightarrow> 'o \<Rightarrow> 'o \<Rightarrow> bool) \<Rightarrow> seq_relation \<Rightarrow> 'o list \<Rightarrow> 'o list \<Rightarrow> bool option" where
  "cmp_objs_loop equal rel op (x # xs) (y # ys) =
     (if equal x y then cmp_objs_loop equal rel op xs ys
      else if op = Rel_equal then Some False
      else Some (rel op x y))"
| "cmp_objs_loop equal rel op xs ys = None"

definition mp_seq_cmp_objs ::
    "('o \<Rightarrow> 'o \<Rightarrow> bool) \<Rightarrow> (seq_relation \<Rightarrow> 'o \<Rightarrow> 'o \<Rightarrow> bool) \<Rightarrow> seq_relation \<Rightarrow> 'o list \<Rightarrow> 'o list \<Rightarrow> bool" where
  "mp_seq_cmp_objs equal rel op items1 items2 =
     (if op = Rel_equal \<and> length items1 \<noteq> length items2 then False
      else
        let (items1, items2) = (if op = Rel_less \<or> op = Rel_less_equal then (items2, items1)
                                else (items1, items2));
            op = swap_relation op
        in case cmp_objs_loop equal rel op items1 items2 of
             Some r \<Rightarrow> r
           | None \<Rightarrow> cmp_tie op (length items1) (length items2))"

fun index_loop :: "('o \<Rightarrow> 'o \<Rightarrow> bool) \<Rightarrow> 'o list \<Rightarrow> 'o \<Rightarrow> nat \<Rightarrow> nat \<Rightarrow> seq_error + nat" where
  "index_loop equal [] value i stop = Inl Seq_value_error"
| "index_loop equal (x # xs) value i stop =
     (if i < stop then if equal x value then Inr i else index_loop equal xs value (i + 1) stop
      else Inl Seq_value_error)"

definition mp_seq_index_obj ::
    "('o \<Rightarrow> 'o \<Rightarrow> bool) \<Rightarrow> 'o list \<Rightarrow> 'o \<Rightarrow> int option option \<Rightarrow> int option option \<Rightarrow> seq_error + nat" where
  "mp_seq_index_obj equal items value start_arg stop_arg =
     (let len = length items in
      case (case start_arg of None \<Rightarrow> Inr 0 | Some v \<Rightarrow> mp_get_index len v True) of
        Inl e \<Rightarrow> Inl e
      | Inr start \<Rightarrow>
          (case (case (start_arg, stop_arg) of (Some _, Some v) \<Rightarrow> mp_get_index len v True | _ \<Rightarrow> Inr len) of
             Inl e \<Rightarrow> Inl e
           | Inr stop \<Rightarrow> index_loop equal (drop start items) value start stop))"

fun mp_seq_count_obj :: "('o \<Rightarrow> 'o \<Rightarrow> bool) \<Rightarrow> 'o list \<Rightarrow> 'o \<Rightarrow> nat" where
  "mp_seq_count_obj equal [] value = 0"
| "mp_seq_count_obj equal (x # xs) value =
     (if equal x value then 1 else 0) + mp_seq_count_obj equal xs value"

section \<open>Slices are those of the language\<close>

text \<open>
  The language's definition: bounds count from the end when negative and are clamped, and the elements
  are those at \<open>start\<close>, \<open>start + step\<close>, and so on, before \<open>stop\<close> is reached.
\<close>

definition clamp_bound :: "int \<Rightarrow> int \<Rightarrow> int \<Rightarrow> int" where
  "clamp_bound len step v =
     (if v < 0 then max (v + len) (if step < 0 then - 1 else 0)
      else min v (if step < 0 then len - 1 else len))"

definition slice_start :: "int \<Rightarrow> int \<Rightarrow> int option \<Rightarrow> int" where
  "slice_start len step v =
     (case v of None \<Rightarrow> if step < 0 then len - 1 else 0 | Some v \<Rightarrow> clamp_bound len step v)"

definition slice_stop :: "int \<Rightarrow> int \<Rightarrow> int option \<Rightarrow> int" where
  "slice_stop len step v =
     (case v of None \<Rightarrow> if step < 0 then - 1 else len | Some v \<Rightarrow> clamp_bound len step v)"

definition slice_count :: "int \<Rightarrow> int \<Rightarrow> int \<Rightarrow> nat" where
  "slice_count start stop step =
     nat (if 0 < step then (stop - start + step - 1) div step else (start - stop - step - 1) div (- step))"

definition slice_elements :: "'o list \<Rightarrow> int \<Rightarrow> int \<Rightarrow> int \<Rightarrow> 'o list" where
  "slice_elements seq start stop step =
     map (\<lambda>k. seq ! nat (start + int k * step)) [0..<slice_count start stop step]"

definition python_slice :: "'o list \<Rightarrow> slice_arg \<Rightarrow> 'o list" where
  "python_slice seq arg =
     (case arg of (ostart, ostop, ostep) \<Rightarrow>
        let step = (case ostep of None \<Rightarrow> 1 | Some v \<Rightarrow> v); len = int (length seq)
        in slice_elements seq (slice_start len step ostart) (slice_stop len step ostop) step)"

lemma slice_count_up:
  assumes "0 < step"
  shows "stop \<le> start \<Longrightarrow> slice_count start stop step = 0"
    and "start < stop \<Longrightarrow> slice_count start stop step = Suc (slice_count (start + step) stop step)"
proof -
  show "slice_count start stop step = 0" if "stop \<le> start"
  proof -
    have "(stop - start + step - 1) div step \<le> 0"
      using assms that by (smt (verit) div_pos_pos_trivial pos_imp_zdiv_neg_iff)
    then show ?thesis using assms by (simp add: slice_count_def)
  qed
  show "slice_count start stop step = Suc (slice_count (start + step) stop step)" if "start < stop"
  proof -
    have "(stop - start + step - 1) div step = (stop - start - 1) div step + 1"
      using assms div_add_self2 [of step "stop - start - 1"] by (simp add: algebra_simps)
    moreover have "0 \<le> (stop - start - 1) div step" using assms that by (simp add: pos_imp_zdiv_nonneg_iff)
    ultimately show ?thesis using assms by (simp add: slice_count_def nat_add_distrib algebra_simps)
  qed
qed

lemma slice_count_down:
  assumes "step < 0"
  shows "slice_count start stop step = slice_count (- start) (- stop) (- step)"
  using assms by (simp add: slice_count_def algebra_simps)

lemma slice_elements_step:
  assumes "slice_count start stop step = Suc (slice_count (start + step) stop step)"
  shows "slice_elements seq start stop step = seq ! nat start # slice_elements seq (start + step) stop step"
  unfolding slice_elements_def assms
  by (subst upt_conv_Cons) (simp_all add: map_Suc_upt [symmetric] algebra_simps del: upt_Suc)

lemma slice_elements_up:
  assumes "0 < step"
  shows "stop \<le> start \<Longrightarrow> slice_elements seq start stop step = []"
    and "start < stop \<Longrightarrow>
      slice_elements seq start stop step = seq ! nat start # slice_elements seq (start + step) stop step"
  using slice_count_up [OF assms] slice_elements_step
  by (simp add: slice_elements_def, blast)

lemma slice_elements_down:
  assumes "step < 0"
  shows "start \<le> stop \<Longrightarrow> slice_elements seq start stop step = []"
    and "stop < start \<Longrightarrow>
      slice_elements seq start stop step = seq ! nat start # slice_elements seq (start + step) stop step"
proof -
  show "slice_elements seq start stop step = []" if "start \<le> stop"
    using that assms by (simp add: slice_elements_def slice_count_down slice_count_up(1))
  show "slice_elements seq start stop step = seq ! nat start # slice_elements seq (start + step) stop step"
    if "stop < start"
    using that assms slice_count_up(2) [of "- step" "- start" "- stop"]
    by (intro slice_elements_step) (simp add: slice_count_down)
qed

lemma extract_up_eq:
  assumes "0 < step" and "0 \<le> start" and "stop \<le> int (length seq)" and "int (length seq) + step < 2147483648"
  shows "extract_up seq start stop step res = Some (Inr (res @ slice_elements seq start stop step))"
  using assms(2)
proof (induction "nat (stop - start)" arbitrary: start res rule: less_induct)
  case less
  show ?case
  proof (cases "start < stop")
    case True
    then have "extract_up seq start stop step res
        = extract_up seq (start + step) stop step (res @ [seq ! nat start])"
      using less.prems assms by (subst extract_up.simps) simp
    also have "\<dots> = Some (Inr ((res @ [seq ! nat start]) @ slice_elements seq (start + step) stop step))"
      using less.prems assms True by (intro less.hyps) simp_all
    finally show ?thesis by (simp add: slice_elements_up(2) [OF assms(1) True])
  next
    case False
    then show ?thesis by (subst extract_up.simps) (simp add: slice_elements_up(1) [OF assms(1)])
  qed
qed

lemma extract_down_eq:
  assumes "step < 0" and "start < int (length seq)" and "- 1 \<le> stop" and "- 2147483648 \<le> step"
    and "int (length seq) < 2147483648"
  shows "extract_down seq start (stop + 1) step res = Some (Inr (res @ slice_elements seq start stop step))"
  using assms(2)
proof (induction "nat (start - stop)" arbitrary: start res rule: less_induct)
  case less
  show ?case
  proof (cases "stop < start")
    case True
    then have "extract_down seq start (stop + 1) step res
        = extract_down seq (start + step) (stop + 1) step (res @ [seq ! nat start])"
      using less.prems assms by (subst extract_down.simps) simp
    also have "\<dots> = Some (Inr ((res @ [seq ! nat start]) @ slice_elements seq (start + step) stop step))"
      using less.prems assms True by (intro less.hyps) simp_all
    finally show ?thesis by (simp add: slice_elements_down(2) [OF assms(1) True])
  next
    case False
    then show ?thesis by (subst extract_down.simps) (simp add: slice_elements_down(1) [OF assms(1)])
  qed
qed

text \<open>The bounds that the code computes; the stop of a descending slice is inclusive.\<close>

definition int32 :: "int option \<Rightarrow> bool" where
  "int32 v = (case v of None \<Rightarrow> True | Some v \<Rightarrow> - 2147483648 \<le> v \<and> v < 2147483648)"

lemma code_slice_start:
  assumes "int len < 2147483648" and "step \<noteq> 0" and "int32 ostart"
    and v: "v = (case ostart of None \<Rightarrow> if 0 < step then 0 else s32 (int len - 1) | Some v \<Rightarrow> v)"
  shows "(if v < 0 then
       if s32 (int len + v) < 0 then if step < 0 then - 1 else 0 else s32 (int len + v)
     else if 0 < step \<and> int len < v then int len
     else if step < 0 \<and> int len \<le> v then int len - 1
     else v) = slice_start (int len) step ostart"
proof (cases ostart)
  case None
  then show ?thesis using assms by (simp add: slice_start_def)
next
  case (Some w)
  then show ?thesis
    using assms by (cases "w < 0"; cases "0 < step")
      (simp_all add: int32_def slice_start_def clamp_bound_def max_def min_def)
qed

lemma code_slice_stop:
  assumes "int len < 2147483648" and "step \<noteq> 0" and "int32 ostop" and "\<not> (ostop = Some 2147483647 \<and> step < 0)"
    and v: "v = (case ostop of None \<Rightarrow> if 0 < step then int len else 0
      | Some v \<Rightarrow> if 0 \<le> v \<and> step < 0 then s32 (v + 1) else v)"
    and r: "r = (if v < 0 then
         if step < 0 then (if s32 (int len + v) < 0 then - 1 else s32 (int len + v)) + 1
         else if s32 (int len + v) < 0 then - 1 else s32 (int len + v)
       else if int len < v then int len
       else v)"
  shows "if step < 0 then r = slice_stop (int len) step ostop + 1
    else r = slice_stop (int len) step ostop \<or> r = - 1 \<and> slice_stop (int len) step ostop = 0"
proof (cases ostop)
  case None
  then show ?thesis using assms by (simp add: slice_stop_def)
next
  case (Some w)
  then show ?thesis
    using assms by (cases "w < 0"; cases "0 < step")
      (auto simp: int32_def slice_stop_def clamp_bound_def max_def min_def)
qed

lemma slice_start_nonneg: "0 < step \<Longrightarrow> 0 \<le> slice_start (int len) step ostart"
  by (simp add: slice_start_def clamp_bound_def split: option.split)

lemma fast_slice_eq:
  fixes len ostart ostop ostep
  defines "step \<equiv> (case ostep of None \<Rightarrow> 1 | Some v \<Rightarrow> v)"
  defines "start \<equiv> slice_start (int len) step ostart" and "stop \<equiv> slice_stop (int len) step ostop"
  assumes "int len < 2147483648" and "step \<noteq> 0"
    and "int32 ostart" and "int32 ostop" and "\<not> (ostop = Some 2147483647 \<and> step < 0)"
  shows "mp_seq_get_fast_slice_indexes len (ostart, ostop, ostep)
    = Inr (step = 1, \<lparr>sl_start = start, sl_stop = (if 0 < step then max stop start else min (stop + 1) (start + 1)),
        sl_step = step\<rparr>)"
proof -
  define v where "v = (case ostop of None \<Rightarrow> if 0 < step then int len else 0
      | Some v \<Rightarrow> if 0 \<le> v \<and> step < 0 then s32 (v + 1) else v)"
  define r where "r = (if v < 0 then
         if step < 0 then (if s32 (int len + v) < 0 then - 1 else s32 (int len + v)) + 1
         else if s32 (int len + v) < 0 then - 1 else s32 (int len + v)
       else if int len < v then int len
       else v)"
  have "mp_seq_get_fast_slice_indexes len (ostart, ostop, ostep)
    = Inr (step = 1, \<lparr>sl_start = start, sl_stop = (if 0 < step \<and> r < start then start
        else if step < 0 \<and> start < r then start + 1 else r), sl_step = step\<rparr>)"
    unfolding mp_seq_get_fast_slice_indexes.simps Let_def step_def [symmetric] v_def [symmetric]
      r_def [symmetric] code_slice_start [OF assms(4-6) refl] start_def [symmetric]
    using assms(5) by (simp only: if_False)
  moreover have "if step < 0 then r = stop + 1 else r = stop \<or> r = - 1 \<and> stop = 0"
    unfolding stop_def using assms(4,5,7,8) v_def r_def by (rule code_slice_stop)
  moreover have "0 < step \<Longrightarrow> 0 \<le> start" unfolding start_def by (rule slice_start_nonneg)
  ultimately show ?thesis
    using assms(5) by (cases "0 < step") (auto simp: max_def min_def)
qed

lemma slice_start_bounds: "slice_start (int len) step ostart \<le> int len"
    "step < 0 \<Longrightarrow> slice_start (int len) step ostart < int len"
    "step < 0 \<Longrightarrow> - 1 \<le> slice_start (int len) step ostart"
  by (auto simp: slice_start_def clamp_bound_def min_def max_def split: option.split)

lemma slice_stop_bounds: "slice_stop (int len) step ostop \<le> int len"
    "step < 0 \<Longrightarrow> - 1 \<le> slice_stop (int len) step ostop"
    "0 < step \<Longrightarrow> 0 \<le> slice_stop (int len) step ostop"
  by (auto simp: slice_stop_def clamp_bound_def min_def max_def split: option.split)

lemma slice_elements_max: "0 < step \<Longrightarrow> slice_elements seq start (max stop start) step = slice_elements seq start stop step"
  by (cases "stop \<le> start") (simp_all add: slice_elements_up(1) max_def)

lemma slice_elements_min: "step < 0 \<Longrightarrow> slice_elements seq start (min stop start) step = slice_elements seq start stop step"
  by (cases "start \<le> stop") (simp_all add: slice_elements_down(1) min_def)

lemma slice_elements_one:
  assumes "0 \<le> start" and "start \<le> stop" and "stop \<le> int (length seq)"
  shows "slice_elements seq start stop 1 = take (nat (stop - start)) (drop (nat start) seq)"
proof (rule nth_equalityI)
  have "slice_count start stop 1 = nat (stop - start)" by (simp add: slice_count_def)
  then show "length (slice_elements seq start stop 1) = length (take (nat (stop - start)) (drop (nat start) seq))"
    using assms by (simp add: slice_elements_def min_def) linarith
  fix i assume "i < length (slice_elements seq start stop 1)"
  then show "slice_elements seq start stop 1 ! i = take (nat (stop - start)) (drop (nat start) seq) ! i"
    using assms by (simp add: slice_elements_def slice_count_def nat_add_distrib)
qed

lemma extract_slice_eq:
  fixes seq :: "'o list" and ostart ostop ostep
  defines "len \<equiv> int (length seq)"
  assumes step: "ostep = Some step" "step \<noteq> 0" "- 2147483648 \<le> step" and sum: "len + max step 1 < 2147483648"
    and args: "int32 ostart" "int32 ostop" "\<not> (ostop = Some 2147483647 \<and> step < 0)"
  obtains b where "mp_seq_get_fast_slice_indexes (length seq) (ostart, ostop, ostep) = Inr (step = 1, b)"
    and "mp_seq_extract_slice seq b = Some (Inr (python_slice seq (ostart, ostop, ostep)))"
proof -
  define start stop where "start = slice_start len step ostart" and "stop = slice_stop len step ostop"
  define b where "b = \<lparr>sl_start = start,
    sl_stop = (if 0 < step then max stop start else min (stop + 1) (start + 1)), sl_step = step\<rparr>"
  have b: "mp_seq_get_fast_slice_indexes (length seq) (ostart, ostop, ostep) = Inr (step = 1, b)"
    using fast_slice_eq [of "length seq" ostep ostart ostop] step sum args
    by (simp add: b_def start_def stop_def len_def)
  have py: "python_slice seq (ostart, ostop, ostep) = slice_elements seq start stop step"
    by (simp add: python_slice_def start_def stop_def len_def step Let_def)
  have "mp_seq_extract_slice seq b = Some (Inr (slice_elements seq start stop step))"
  proof (cases "0 < step")
    case True
    have "extract_up seq start (max stop start) step []
        = Some (Inr ([] @ slice_elements seq start (max stop start) step))"
      using True sum slice_start_nonneg [OF True, of "length seq" ostart]
        slice_start_bounds(1) [of "length seq" step ostart] slice_stop_bounds(1) [of "length seq" step ostop]
      by (intro extract_up_eq) (simp_all add: start_def stop_def len_def)
    then show ?thesis using True by (simp add: mp_seq_extract_slice_def b_def slice_elements_max)
  next
    case False
    then have neg: "step < 0" using step by simp
    have "min (stop + 1) (start + 1) = min stop start + 1" by simp
    moreover have "extract_down seq start (min stop start + 1) step []
        = Some (Inr ([] @ slice_elements seq start (min stop start) step))"
      using neg sum step slice_start_bounds(2,3) [OF neg, of "length seq" ostart]
        slice_stop_bounds(2) [OF neg, of "length seq" ostop]
      by (intro extract_down_eq) (simp_all add: start_def stop_def len_def)
    ultimately show ?thesis
      using neg by (simp add: mp_seq_extract_slice_def b_def slice_elements_min)
  qed
  then show thesis using that b py by simp
qed

lemma slice_elements_map_up:
  assumes "0 < step" and "0 \<le> start" and "stop \<le> int (length xs)"
  shows "slice_elements (map f xs) start stop step = map f (slice_elements xs start stop step)"
  using assms(2)
proof (induction "nat (stop - start)" arbitrary: start rule: less_induct)
  case less
  show ?case
  proof (cases "start < stop")
    case True
    then show ?thesis
      using less.hyps [of "start + step"] less.prems assms by (simp add: slice_elements_up(2))
  qed (use assms in \<open>simp add: slice_elements_up(1)\<close>)
qed

lemma slice_elements_map_down:
  assumes "step < 0" and "start < int (length xs)" and "- 1 \<le> stop"
  shows "slice_elements (map f xs) start stop step = map f (slice_elements xs start stop step)"
  using assms(2)
proof (induction "nat (start - stop)" arbitrary: start rule: less_induct)
  case less
  show ?case
  proof (cases "stop < start")
    case True
    then show ?thesis
      using less.hyps [of "start + step"] less.prems assms by (simp add: slice_elements_down(2))
  qed (use assms in \<open>simp add: slice_elements_down(1)\<close>)
qed

lemma python_slice_map:
  assumes "snd (snd sl) \<noteq> Some 0"
  shows "python_slice (map f xs) sl = map f (python_slice xs sl)"
proof -
  obtain ostart ostop ostep where sl: "sl = (ostart, ostop, ostep)" by (cases sl)
  define step where "step = (case ostep of None \<Rightarrow> 1 | Some v \<Rightarrow> v)"
  have "step \<noteq> 0" using assms by (auto simp: sl step_def split: option.splits)
  then consider "0 < step" | "step < 0" by linarith
  then show ?thesis
  proof cases
    case 1
    then show ?thesis
      by (simp add: sl python_slice_def step_def [symmetric] Let_def slice_elements_map_up slice_start_nonneg
          slice_stop_bounds(1))
  next
    case 2
    then show ?thesis
      by (simp add: sl python_slice_def step_def [symmetric] Let_def slice_elements_map_down slice_start_bounds(2)
          slice_stop_bounds(2))
  qed
qed

lemma slice_elements_length_up:
  assumes "0 < step"
  shows "length (slice_elements xs start stop step) \<le> nat (stop - start)"
proof (induction "nat (stop - start)" arbitrary: start rule: less_induct)
  case less
  show ?case
  proof (cases "start < stop")
    case True
    then show ?thesis using less.hyps [of "start + step"] assms by (simp add: slice_elements_up(2))
  qed (use assms in \<open>simp add: slice_elements_up(1)\<close>)
qed

lemma slice_elements_length_down:
  assumes "step < 0"
  shows "length (slice_elements xs start stop step) \<le> nat (start - stop)"
proof (induction "nat (start - stop)" arbitrary: start rule: less_induct)
  case less
  show ?case
  proof (cases "stop < start")
    case True
    then show ?thesis using less.hyps [of "start + step"] assms by (simp add: slice_elements_down(2))
  qed (use assms in \<open>simp add: slice_elements_down(1)\<close>)
qed

lemma python_slice_length:
  assumes "snd (snd sl) \<noteq> Some 0"
  shows "length (python_slice xs sl) \<le> length xs"
proof -
  obtain ostart ostop ostep where sl: "sl = (ostart, ostop, ostep)" by (cases sl)
  define step where "step = (case ostep of None \<Rightarrow> 1 | Some v \<Rightarrow> v)"
  define start stop where "start = slice_start (int (length xs)) step ostart"
    and "stop = slice_stop (int (length xs)) step ostop"
  have py: "python_slice xs sl = slice_elements xs start stop step"
    by (simp add: sl python_slice_def step_def [symmetric] Let_def start_def stop_def)
  have "step \<noteq> 0" using assms by (auto simp: sl step_def split: option.splits)
  then consider "0 < step" | "step < 0" by linarith
  then show ?thesis
  proof cases
    case 1
    then have "0 \<le> start" "stop \<le> int (length xs)"
      by (simp_all add: start_def stop_def slice_start_nonneg slice_stop_bounds(1))
    then show ?thesis using slice_elements_length_up [OF 1, of xs start stop] unfolding py by linarith
  next
    case 2
    then have "start < int (length xs)" "- 1 \<le> stop"
      by (simp_all add: start_def stop_def slice_start_bounds(2) slice_stop_bounds(2))
    then show ?thesis using slice_elements_length_down [OF 2, of xs start stop] unfolding py by linarith
  qed
qed

section \<open>Comparison, search and repetition\<close>

lemma Nil_less_iff: "[] < ys \<longleftrightarrow> ys \<noteq> ([] :: 'a :: linorder list)"
  by (cases ys) simp_all

lemma memcmp_order:
  "(memcmp xs ys (min (length xs) (length ys)) < 0 \<longrightarrow> xs < ys)
   \<and> (0 < memcmp xs ys (min (length xs) (length ys)) \<longrightarrow> ys < xs)
   \<and> (memcmp xs ys (min (length xs) (length ys)) = 0 \<longrightarrow>
       (xs < ys \<longleftrightarrow> length xs < length ys) \<and> (xs = ys \<longleftrightarrow> length xs = length ys))"
proof (induction xs arbitrary: ys)
  case Nil
  show ?case by (auto simp: Nil_less_iff)
next
  case (Cons x xs)
  show ?case
  proof (cases ys)
    case ys: (Cons y ys')
    show ?thesis using Cons.IH [of ys'] by (auto simp: ys split: if_splits)
  qed simp
qed

definition list_relation :: "seq_relation \<Rightarrow> 'o :: linorder \<Rightarrow> 'o \<Rightarrow> bool" where
  "list_relation op x y =
     (case op of Rel_equal \<Rightarrow> x = y | Rel_less \<Rightarrow> x < y | Rel_less_equal \<Rightarrow> x \<le> y
      | Rel_more \<Rightarrow> y < x | Rel_more_equal \<Rightarrow> y \<le> x)"

lemma list_relation_swap:
  "list_relation op xs ys = list_relation (swap_relation op)
      (if op = Rel_less \<or> op = Rel_less_equal then ys else xs)
      (if op = Rel_less \<or> op = Rel_less_equal then xs else ys)"
  by (cases op) (simp_all add: list_relation_def)

lemma swap_relation_cases:
  "swap_relation op = Rel_equal \<and> op = Rel_equal \<or> swap_relation op = Rel_more \<or> swap_relation op = Rel_more_equal"
  by (cases op) simp_all

lemma memcmp_relation:
  fixes xs ys :: "u8 list"
  assumes "op = Rel_equal \<and> length xs = length ys \<or> op = Rel_more \<or> op = Rel_more_equal"
    and r: "r = memcmp xs ys (min (length xs) (length ys))"
  shows "(if op = Rel_equal then r = 0 else if r < 0 then False else if 0 < r then True
      else cmp_tie op (length xs) (length ys)) = list_relation op xs ys"
proof -
  note o = memcmp_order [of xs ys, folded r]
  consider "r < 0" | "0 < r" | "r = 0" by linarith
  then show ?thesis
  proof cases
    case 1
    then have "xs < ys" using o by blast
    then show ?thesis using 1 assms(1) by (auto simp: list_relation_def)
  next
    case 2
    then have "ys < xs" using o by blast
    then show ?thesis using 2 assms(1) by (auto simp: list_relation_def)
  next
    case 3
    then have "xs < ys \<longleftrightarrow> length xs < length ys" "xs = ys \<longleftrightarrow> length xs = length ys" using o by blast+
    then have "ys < xs \<longleftrightarrow> length ys < length xs" by (metis linorder_neqE_nat not_less_iff_gr_or_eq neqE)
    then show ?thesis
      using 3 assms(1) \<open>xs = ys \<longleftrightarrow> length xs = length ys\<close>
      by (auto simp: list_relation_def cmp_tie_def le_less)
  qed
qed

lemma seq_cmp_bytes_eq: "mp_seq_cmp_bytes op xs ys = list_relation op xs ys"
proof (cases "op = Rel_equal \<and> length xs \<noteq> length ys")
  case True
  then show ?thesis by (auto simp: mp_seq_cmp_bytes_def list_relation_def)
next
  case False
  define as bs where "as = (if op = Rel_less \<or> op = Rel_less_equal then ys else xs)"
    and "bs = (if op = Rel_less \<or> op = Rel_less_equal then xs else ys)"
  have "mp_seq_cmp_bytes op xs ys = (let r = memcmp as bs (min (length as) (length bs)) in
      if swap_relation op = Rel_equal then r = 0 else if r < 0 then False else if 0 < r then True
      else cmp_tie (swap_relation op) (length as) (length bs))"
    using False by (cases op) (simp_all add: mp_seq_cmp_bytes_def as_def bs_def Let_def)
  also have "\<dots> = list_relation (swap_relation op) as bs"
    unfolding Let_def using False swap_relation_cases [of op]
    by (intro memcmp_relation) (auto simp: as_def bs_def)
  finally show ?thesis using list_relation_swap [of op xs ys] by (simp only: as_def bs_def)
qed

text \<open>Comparing objects, when equality and order of the elements are those of a linear order.\<close>

lemma cmp_objs_loop_order:
  fixes xs ys :: "'o :: linorder list"
  shows "(cmp_objs_loop (=) list_relation op xs ys = None \<longrightarrow>
      (xs < ys \<longleftrightarrow> length xs < length ys) \<and> (ys < xs \<longleftrightarrow> length ys < length xs)
      \<and> (xs = ys \<longleftrightarrow> length xs = length ys))
    \<and> (\<forall>b. cmp_objs_loop (=) list_relation op xs ys = Some b \<longrightarrow> b = list_relation op xs ys)"
proof (induction xs arbitrary: ys)
  case Nil
  show ?case by (auto simp: Nil_less_iff)
next
  case (Cons x xs)
  show ?case
  proof (cases ys)
    case Nil
    then show ?thesis by simp
  next
    case ys: (Cons y ys')
    show ?thesis using Cons.IH [of ys']
      by (cases "x = y"; cases op) (auto simp: ys list_relation_def)
  qed
qed

lemma seq_cmp_objs_eq:
  "mp_seq_cmp_objs (=) list_relation op xs ys = list_relation op xs (ys :: 'o :: linorder list)"
proof (cases "op = Rel_equal \<and> length xs \<noteq> length ys")
  case True
  then show ?thesis by (auto simp: mp_seq_cmp_objs_def list_relation_def)
next
  case False
  define as bs where "as = (if op = Rel_less \<or> op = Rel_less_equal then ys else xs)"
    and "bs = (if op = Rel_less \<or> op = Rel_less_equal then xs else ys)"
  have len: "swap_relation op = Rel_equal \<Longrightarrow> length as = length bs"
    using False swap_relation_cases [of op] by (auto simp: as_def bs_def)
  have "mp_seq_cmp_objs (=) list_relation op xs ys
      = (case cmp_objs_loop (=) list_relation (swap_relation op) as bs of
           Some r \<Rightarrow> r | None \<Rightarrow> cmp_tie (swap_relation op) (length as) (length bs))"
    using False by (cases op) (simp_all add: mp_seq_cmp_objs_def as_def bs_def Let_def split: option.split)
  also have "\<dots> = list_relation (swap_relation op) as bs"
  proof (cases "cmp_objs_loop (=) list_relation (swap_relation op) as bs")
    case None
    then have "as < bs \<longleftrightarrow> length as < length bs" "bs < as \<longleftrightarrow> length bs < length as"
      "as = bs \<longleftrightarrow> length as = length bs"
      using cmp_objs_loop_order [of "swap_relation op" as bs] by blast+
    then show ?thesis
      using None len swap_relation_cases [of op] by (auto simp: list_relation_def cmp_tie_def le_less)
  next
    case (Some r)
    then show ?thesis using cmp_objs_loop_order [of "swap_relation op" as bs] by simp
  qed
  finally show ?thesis using list_relation_swap [of op xs ys] by (simp only: as_def bs_def)
qed

lemma mp_seq_multiply_eq: "mp_seq_multiply items n = concat (replicate n items)"
  by (induction n) simp_all

lemma mp_seq_count_obj_eq: "mp_seq_count_obj equal xs v = length (filter (\<lambda>x. equal x v) xs)"
  by (induction xs) simp_all

lemma index_loop_Inr:
  "index_loop equal xs v i stop = Inr k \<Longrightarrow>
    i \<le> k \<and> k < stop \<and> k - i < length xs \<and> equal (xs ! (k - i)) v \<and> (\<forall>j < k - i. \<not> equal (xs ! j) v)"
proof (induction xs arbitrary: i)
  case (Cons x xs)
  show ?case
  proof (cases "equal x v")
    case False
    then have *: "i + 1 \<le> k" "k < stop" "k - (i + 1) < length xs" "equal (xs ! (k - (i + 1))) v"
      "\<forall>j < k - (i + 1). \<not> equal (xs ! j) v"
      using Cons.IH [of "i + 1"] Cons.prems by (auto split: if_splits)
    then have "k - i = Suc (k - (i + 1))" by simp
    then show ?thesis using * False by (auto simp: less_Suc_eq_0_disj)
  qed (use Cons.prems in \<open>auto split: if_splits\<close>)
qed simp

lemma index_loop_Inl:
  "index_loop equal xs v i stop = Inl e \<Longrightarrow>
    e = Seq_value_error \<and> (\<forall>j < length xs. i + j < stop \<longrightarrow> \<not> equal (xs ! j) v)"
proof (induction xs arbitrary: i)
  case (Cons x xs)
  then show ?case using Cons.IH [of "i + 1"] by (auto simp: less_Suc_eq_0_disj split: if_splits)
qed simp

end
