(* ===== verification/Mp_Sort.thy ===== *)
theory Mp_Sort
  imports Mp_Prelude "HOL-Library.Multiset"
begin

text \<open>
  The sorting of lists (\<open>mp_quicksort\<close> of \<open>src/py/objlist.c\<close>). The pointers \<open>head\<close>, \<open>tail\<close>, \<open>h\<close> and
  \<open>t\<close> are indices, which may be one below the first element. The order \<open>lt\<close> of the language and the
  function \<open>key\<close> are arguments; \<open>r\<close> is the truth value that \<open>lt\<close> is compared with, false when the list
  is sorted in reverse.

  For every strict weak order the result is sorted and a permutation, and the recursion, which the
  code makes on the smaller part, is no deeper than the binary logarithm of the length.
\<close>

section \<open>The algorithm\<close>

function scan_up :: "('o \<Rightarrow> bool) \<Rightarrow> 'o list \<Rightarrow> int \<Rightarrow> int \<Rightarrow> int" where
  "scan_up p xs t h =
     (let h = h + 1 in if h < t \<and> p (xs ! nat h) then scan_up p xs t h else h)"
  by pat_completeness auto
termination
  by (relation "measure (\<lambda>(p, xs, t, h). nat (t - h))") auto

function scan_down :: "('o \<Rightarrow> bool) \<Rightarrow> 'o list \<Rightarrow> int \<Rightarrow> int \<Rightarrow> int" where
  "scan_down p xs h t =
     (let t = t - 1 in if h < t \<and> p (xs ! nat t) then scan_down p xs h t else t)"
  by pat_completeness auto
termination
  by (relation "measure (\<lambda>(p, xs, h, t). nat (t - h))") auto

declare scan_up.simps [simp del] scan_down.simps [simp del]

definition swap_at :: "int \<Rightarrow> int \<Rightarrow> 'o list \<Rightarrow> 'o list" where
  "swap_at i j xs = xs[nat i := xs ! nat j, nat j := xs ! nat i]"

text \<open>Where the scans stop: at the first element that fails the test, or where they meet.\<close>

lemma scan_up_result:
  assumes "h < t"
  shows "h < scan_up p xs t h \<and> scan_up p xs t h \<le> t
    \<and> (\<forall>i. h < i \<and> i < scan_up p xs t h \<longrightarrow> p (xs ! nat i))
    \<and> (scan_up p xs t h < t \<longrightarrow> \<not> p (xs ! nat (scan_up p xs t h)))"
  using assms
proof (induction p xs t h rule: scan_up.induct)
  case (1 p xs t h)
  show ?case
  proof (cases "h + 1 < t \<and> p (xs ! nat (h + 1))")
    case True
    define h' where "h' = scan_up p xs t (h + 1)"
    have ih: "h + 1 < h' \<and> h' \<le> t \<and> (\<forall>i. h + 1 < i \<and> i < h' \<longrightarrow> p (xs ! nat i))
      \<and> (h' < t \<longrightarrow> \<not> p (xs ! nat h'))"
      using 1 True by (auto simp: h'_def)
    have "scan_up p xs t h = h'" using True by (subst scan_up.simps) (simp add: h'_def)
    moreover have "p (xs ! nat i)" if "h < i" "i < h'" for i
      using that ih True by (cases "i = h + 1") auto
    ultimately show ?thesis using ih by auto
  next
    case False
    then have "scan_up p xs t h = h + 1" by (subst scan_up.simps) (auto simp: Let_def)
    then show ?thesis using False 1(2) by auto
  qed
qed

lemma scan_down_result:
  "scan_down p xs h t < t \<and> min h (t - 1) \<le> scan_down p xs h t
    \<and> (\<forall>i. scan_down p xs h t < i \<and> i < t \<longrightarrow> p (xs ! nat i))
    \<and> (h < scan_down p xs h t \<longrightarrow> \<not> p (xs ! nat (scan_down p xs h t)))"
proof (induction p xs h t rule: scan_down.induct)
  case (1 p xs h t)
  show ?case
  proof (cases "h < t - 1 \<and> p (xs ! nat (t - 1))")
    case True
    define t' where "t' = scan_down p xs h (t - 1)"
    have ih: "t' < t - 1 \<and> min h (t - 1 - 1) \<le> t' \<and> (\<forall>i. t' < i \<and> i < t - 1 \<longrightarrow> p (xs ! nat i))
      \<and> (h < t' \<longrightarrow> \<not> p (xs ! nat t'))"
      using 1 True by (auto simp: t'_def)
    have "scan_down p xs h t = t'" using True by (subst scan_down.simps) (simp add: t'_def)
    moreover have "p (xs ! nat i)" if "t' < i" "i < t" for i
      using that ih True by (cases "i = t - 1") auto
    ultimately show ?thesis using ih True by auto
  next
    case False
    then have "scan_down p xs h t = t - 1" by (subst scan_down.simps) (auto simp: Let_def)
    then show ?thesis using False by auto
  qed
qed

function partition_loop ::
    "('k \<Rightarrow> 'k \<Rightarrow> bool) \<Rightarrow> ('o \<Rightarrow> 'k) \<Rightarrow> bool \<Rightarrow> 'k \<Rightarrow> 'o list \<Rightarrow> int \<Rightarrow> int \<Rightarrow> 'o list \<times> int \<times> int" where
  "partition_loop lt key r v xs h t =
     (let h' = scan_up (\<lambda>a. lt (key a) v = r) xs t h;
          t' = scan_down (\<lambda>a. lt v (key a) = r) xs h' t
      in if t' \<le> h' then (xs, h', t')
         else partition_loop lt key r v (swap_at h' t' xs) h' t')"
  by pat_completeness auto
termination
proof (relation "measure (\<lambda>(lt, key, r, v, xs, h, t). nat (t - h))", goal_cases)
  case (2 lt key r v xs h t h' t')
  then have "t' < t" using scan_down_result [of "\<lambda>a. lt v (key a) = r" xs h' t] by simp
  moreover have "h < h'"
  proof (cases "h < t")
    case True
    then show ?thesis using scan_up_result [of h t "\<lambda>a. lt (key a) v = r" xs] 2 by simp
  next
    case False
    then have "scan_up (\<lambda>a. lt (key a) v = r) xs t h = h + 1" by (subst scan_up.simps) (auto simp: Let_def)
    then show ?thesis using 2 by simp
  qed
  ultimately show ?case using 2 by simp
qed simp

declare partition_loop.simps [simp del]

text \<open>A position of the result of a partition is inside the range, the next one for the lower part below its end.\<close>

lemma partition_loop_range:
  assumes "h < t"
  shows "case partition_loop lt key r v xs h t of (ys, h', t') \<Rightarrow>
    h < h' \<and> h' \<le> t \<and> t' < t \<and> (t' = h' \<or> t' = h' - 1)"
  using assms
proof (induction lt key r v xs h t rule: partition_loop.induct)
  case (1 lt key r v xs h t)
  define h1 where "h1 = scan_up (\<lambda>a. lt (key a) v = r) xs t h"
  define t1 where "t1 = scan_down (\<lambda>a. lt v (key a) = r) xs h1 t"
  have h1: "h < h1" "h1 \<le> t" using scan_up_result [OF 1(2), of "\<lambda>a. lt (key a) v = r" xs] by (simp_all add: h1_def)
  have t1: "t1 < t" "min h1 (t - 1) \<le> t1" using scan_down_result [of "\<lambda>a. lt v (key a) = r" xs h1 t] by (simp_all add: t1_def)
  have unf: "partition_loop lt key r v xs h t
      = (if t1 \<le> h1 then (xs, h1, t1) else partition_loop lt key r v (swap_at h1 t1 xs) h1 t1)"
    by (subst partition_loop.simps) (simp only: Let_def h1_def t1_def)
  show ?case
  proof (cases "t1 \<le> h1")
    case True
    then show ?thesis using unf h1 t1 by auto
  next
    case False
    then show ?thesis
      using 1(1) [OF h1_def t1_def] h1 t1 unfolding unf by (fastforce split: prod.splits)
  qed
qed

text \<open>
  A run of the sort gives the sorted array and how deep the recursion went: the second part is sorted
  by the loop, without a call.
\<close>

function quicksort_run ::
    "('k \<Rightarrow> 'k \<Rightarrow> bool) \<Rightarrow> ('o \<Rightarrow> 'k) \<Rightarrow> bool \<Rightarrow> 'o list \<Rightarrow> int \<Rightarrow> int \<Rightarrow> 'o list \<times> nat" where
  "quicksort_run lt key r xs head tail =
     (if head < tail then
        let v = key (xs ! nat tail);
            (ys, h, t) = partition_loop lt key r v xs (head - 1) tail;
            zs = swap_at h tail ys
        in if t - head < tail - h - 1 then
             let (ws, m) = quicksort_run lt key r zs head t;
                 (us, n) = quicksort_run lt key r ws (h + 1) tail
             in (us, max (1 + m) n)
           else
             let (ws, m) = quicksort_run lt key r zs (h + 1) tail;
                 (us, n) = quicksort_run lt key r ws head t
             in (us, max (1 + m) n)
      else (xs, 0))"
  by pat_completeness auto
termination
proof (relation "measure (\<lambda>(lt, key, r, xs, head, tail). nat (tail - head))", goal_cases)
  case (2 lt key r xs head tail v p ys q h t zs)
  then show ?case using partition_loop_range [of "head - 1" tail lt key r v xs] by auto
next
  case (3 lt key r xs head tail v p ys q h t zs)
  then show ?case using partition_loop_range [of "head - 1" tail lt key r v xs] by auto
next
  case (4 lt key r xs head tail v p ys q h t zs)
  then show ?case using partition_loop_range [of "head - 1" tail lt key r v xs] by auto
next
  case (5 lt key r xs head tail v p ys q h t zs)
  then show ?case using partition_loop_range [of "head - 1" tail lt key r v xs] by auto
qed simp

declare quicksort_run.simps [simp del]

definition mp_quicksort ::
    "('k \<Rightarrow> 'k \<Rightarrow> bool) \<Rightarrow> ('o \<Rightarrow> 'k) \<Rightarrow> bool \<Rightarrow> 'o list \<Rightarrow> int \<Rightarrow> int \<Rightarrow> 'o list" where
  "mp_quicksort lt key r xs head tail = fst (quicksort_run lt key r xs head tail)"

definition quicksort_depth ::
    "('k \<Rightarrow> 'k \<Rightarrow> bool) \<Rightarrow> ('o \<Rightarrow> 'k) \<Rightarrow> bool \<Rightarrow> 'o list \<Rightarrow> int \<Rightarrow> int \<Rightarrow> nat" where
  "quicksort_depth lt key r xs head tail = snd (quicksort_run lt key r xs head tail)"

lemma mp_quicksort_rec:
  "mp_quicksort lt key r xs head tail =
     (if head < tail then
        let v = key (xs ! nat tail);
            (ys, h, t) = partition_loop lt key r v xs (head - 1) tail;
            zs = swap_at h tail ys
        in if t - head < tail - h - 1 then
             mp_quicksort lt key r (mp_quicksort lt key r zs head t) (h + 1) tail
           else
             mp_quicksort lt key r (mp_quicksort lt key r zs (h + 1) tail) head t
      else xs)"
  by (simp add: mp_quicksort_def quicksort_run.simps [of lt key r xs head tail] Let_def case_prod_unfold)

lemma quicksort_depth_rec:
  "quicksort_depth lt key r xs head tail =
     (if head < tail then
        let v = key (xs ! nat tail);
            (ys, h, t) = partition_loop lt key r v xs (head - 1) tail;
            zs = swap_at h tail ys
        in if t - head < tail - h - 1 then
             max (1 + quicksort_depth lt key r zs head t)
               (quicksort_depth lt key r (mp_quicksort lt key r zs head t) (h + 1) tail)
           else
             max (1 + quicksort_depth lt key r zs (h + 1) tail)
               (quicksort_depth lt key r (mp_quicksort lt key r zs (h + 1) tail) head t)
      else 0)"
  by (simp add: mp_quicksort_def quicksort_depth_def quicksort_run.simps [of lt key r xs head tail] Let_def case_prod_unfold)

text \<open>Whatever the comparison answers, the recursion is no deeper than the binary logarithm of the length.\<close>

lemma power_max: "2 ^ max m n = max (2 ^ m) (2 ^ n :: int)"
  by (simp add: max_def)

lemma quicksort_depth_bound: "2 ^ quicksort_depth lt key r xs head tail \<le> max 1 (tail - head + 1)"
proof (induction "nat (tail - head)" arbitrary: xs head tail rule: less_induct)
  case less
  show ?case
  proof (cases "head < tail")
    case False
    then show ?thesis by (subst quicksort_depth_rec) simp
  next
    case True
    obtain ys h t where part: "partition_loop lt key r (key (xs ! nat tail)) xs (head - 1) tail = (ys, h, t)"
      by (cases "partition_loop lt key r (key (xs ! nat tail)) xs (head - 1) tail")
    have ht: "head \<le> h" "h \<le> tail" "t < tail" "t = h \<or> t = h - 1"
      using partition_loop_range [of "head - 1" tail lt key r "key (xs ! nat tail)" xs] part True by auto
    have ih: "2 ^ quicksort_depth lt key r ws head t \<le> max 1 (t - head + 1)"
      "2 ^ quicksort_depth lt key r ws (h + 1) tail \<le> max 1 (tail - h)" for ws
      using less.hyps [of t head ws] less.hyps [of tail "h + 1" ws] ht True by auto
    note unf = quicksort_depth_rec [of lt key r xs head tail]
    show ?thesis
    proof (cases "t - head < tail - h - 1")
      case smaller: True
      have "2 ^ (1 + quicksort_depth lt key r ws head t) \<le> tail - head + 1" for ws
        using ih(1) [of ws] smaller ht True by auto
      moreover have "2 ^ quicksort_depth lt key r ws (h + 1) tail \<le> tail - head + 1" for ws
        using ih(2) [of ws] ht True by auto
      ultimately show ?thesis using True smaller
        by (simp only: unf Let_def part prod.case if_True power_max) (simp add: max.coboundedI2)
    next
      case larger: False
      have "2 ^ (1 + quicksort_depth lt key r ws (h + 1) tail) \<le> tail - head + 1" for ws
        using ih(2) [of ws] larger ht True by auto
      moreover have "2 ^ quicksort_depth lt key r ws head t \<le> tail - head + 1" for ws
        using ih(1) [of ws] ht True by auto
      ultimately show ?thesis using True larger
        by (simp only: unf Let_def part prod.case if_True if_False power_max) (simp add: max.coboundedI2)
    qed
  qed
qed

section \<open>Rearranging a part of a list\<close>

definition rearranges :: "'o list \<Rightarrow> 'o list \<Rightarrow> int \<Rightarrow> int \<Rightarrow> bool" where
  "rearranges xs ys a b \<longleftrightarrow> mset ys = mset xs
     \<and> (\<forall>i. 0 \<le> i \<and> (i < a \<or> b < i) \<longrightarrow> ys ! nat i = xs ! nat i)
     \<and> (\<forall>P. (\<forall>i. a \<le> i \<and> i \<le> b \<longrightarrow> P (xs ! nat i)) \<longrightarrow> (\<forall>i. a \<le> i \<and> i \<le> b \<longrightarrow> P (ys ! nat i)))"

lemma rearranges_refl: "rearranges xs xs a b"
  by (simp add: rearranges_def)

lemma rearranges_trans:
  assumes 1: "rearranges xs ys a b" and 2: "rearranges ys zs a b"
  shows "rearranges xs zs a b"
  unfolding rearranges_def
proof (intro conjI allI impI)
  show "mset zs = mset xs" using 1 2 by (simp only: rearranges_def)
  show "zs ! nat i = xs ! nat i" if "0 \<le> i \<and> (i < a \<or> b < i)" for i
  proof -
    have "ys ! nat i = xs ! nat i" using 1 that unfolding rearranges_def by blast
    moreover have "zs ! nat i = ys ! nat i" using 2 that unfolding rearranges_def by blast
    ultimately show ?thesis by simp
  qed
  fix P i assume "\<forall>i. a \<le> i \<and> i \<le> b \<longrightarrow> P (xs ! nat i)" and i: "a \<le> i \<and> i \<le> b"
  then have "\<forall>i. a \<le> i \<and> i \<le> b \<longrightarrow> P (ys ! nat i)" using 1 unfolding rearranges_def by blast
  then show "P (zs ! nat i)" using 2 i unfolding rearranges_def by blast
qed

lemma rearranges_length: "rearranges xs ys a b \<Longrightarrow> length ys = length xs"
  by (simp add: rearranges_def size_mset [symmetric] del: size_mset)

lemma rearranges_mono:
  assumes r: "rearranges xs ys a b" and "a' \<le> a" "b \<le> b'" "0 \<le> a'"
  shows "rearranges xs ys a' b'"
  unfolding rearranges_def
proof (intro conjI allI impI)
  show "mset ys = mset xs" using r by (simp add: rearranges_def)
  show "ys ! nat i = xs ! nat i" if "0 \<le> i \<and> (i < a' \<or> b' < i)" for i
    using r that assms by (auto simp: rearranges_def)
  fix P i assume P: "\<forall>i. a' \<le> i \<and> i \<le> b' \<longrightarrow> P (xs ! nat i)" and i: "a' \<le> i \<and> i \<le> b'"
  show "P (ys ! nat i)"
  proof (cases "a \<le> i \<and> i \<le> b")
    case True
    have "\<forall>i. a \<le> i \<and> i \<le> b \<longrightarrow> P (xs ! nat i)" using P assms(2,3) by auto
    then show ?thesis using r True unfolding rearranges_def by blast
  next
    case False
    then have "ys ! nat i = xs ! nat i" using r i assms(4) by (auto simp: rearranges_def)
    then show ?thesis using P i by simp
  qed
qed

lemma swap_at_nth:
  assumes "0 \<le> i" "i < int (length xs)" "0 \<le> j" "j < int (length xs)" "0 \<le> k"
  shows "swap_at i j xs ! nat k = (if k = i then xs ! nat j else if k = j then xs ! nat i else xs ! nat k)"
  using assms by (auto simp: swap_at_def nth_list_update eq_nat_nat_iff)

lemma rearranges_swap:
  assumes "0 \<le> a" "a \<le> i" "i \<le> b" "a \<le> j" "j \<le> b" "b < int (length xs)"
  shows "rearranges xs (swap_at i j xs) a b"
proof -
  have "mset (swap_at i j xs) = mset xs"
    using assms by (simp add: swap_at_def mset_swap)
  then show ?thesis
    using assms unfolding rearranges_def by (auto simp: swap_at_nth)
qed

lemma rearranges_other:
  "rearranges xs ys c d \<Longrightarrow> b < c \<or> d < a \<Longrightarrow> 0 \<le> a \<Longrightarrow> a \<le> i \<Longrightarrow> i \<le> b \<Longrightarrow> ys ! nat i = xs ! nat i"
  by (auto simp: rearranges_def)

lemma rearranges_all:
  assumes "rearranges xs ys a b" "a' \<le> a" "b \<le> b'" "0 \<le> a'" "\<forall>i. a' \<le> i \<and> i \<le> b' \<longrightarrow> P (xs ! nat i)"
  shows "\<forall>i. a' \<le> i \<and> i \<le> b' \<longrightarrow> P (ys ! nat i)"
  using rearranges_mono [OF assms(1-4)] assms(5) unfolding rearranges_def by blast

section \<open>The comparisons that matter\<close>

text \<open>Two orders that agree on the elements in the range sort it in the same way.\<close>

lemma scan_up_cong:
  assumes "head \<le> h + 1" and "t \<le> tail" and "\<forall>i. head \<le> i \<and> i \<le> tail \<longrightarrow> p (xs ! nat i) = q (xs ! nat i)"
  shows "scan_up p xs t h = scan_up q xs t h"
  using assms
proof (induction p xs t h rule: scan_up.induct)
  case (1 p xs t h)
  have "p (xs ! nat (h + 1)) = q (xs ! nat (h + 1))" if "h + 1 < t" using that 1(2-4) by simp
  then show ?case
    using 1 by (subst scan_up.simps, subst (2) scan_up.simps) (auto simp: Let_def)
qed

lemma scan_down_cong:
  assumes "head \<le> h" and "t \<le> tail" and "\<forall>i. head \<le> i \<and> i \<le> tail \<longrightarrow> p (xs ! nat i) = q (xs ! nat i)"
  shows "scan_down p xs h t = scan_down q xs h t"
  using assms
proof (induction p xs h t rule: scan_down.induct)
  case (1 p xs h t)
  have "p (xs ! nat (t - 1)) = q (xs ! nat (t - 1))" if "h < t - 1" using that 1(2-4) by simp
  then show ?case
    using 1 by (subst scan_down.simps, subst (2) scan_down.simps) (auto simp: Let_def)
qed

lemma partition_loop_cong:
  assumes "0 \<le> head" and "tail < int (length xs)" and "head \<le> h + 1" and "h < t" and "t \<le> tail"
    and "\<forall>i. head \<le> i \<and> i \<le> tail \<longrightarrow> xs ! nat i \<in> S"
    and "\<forall>x \<in> S. lt (key x) v = lt' (key' x) v' \<and> lt v (key x) = lt' v' (key' x)"
  shows "partition_loop lt key r v xs h t = partition_loop lt' key' r v' xs h t
    \<and> rearranges xs (fst (partition_loop lt' key' r v' xs h t)) head tail"
  using assms
proof (induction lt key r v xs h t rule: partition_loop.induct)
  case (1 lt key r v xs h t)
  define h1 where "h1 = scan_up (\<lambda>a. lt (key a) v = r) xs t h"
  define t1 where "t1 = scan_down (\<lambda>a. lt v (key a) = r) xs h1 t"
  have h1: "h < h1" "h1 \<le> t" using scan_up_result [OF 1(5)] unfolding h1_def by blast+
  have t1: "t1 < t" using scan_down_result unfolding t1_def by blast
  have h1': "scan_up (\<lambda>a. lt' (key' a) v' = r) xs t h = h1"
    unfolding h1_def using 1(4,6-8) by (intro scan_up_cong [symmetric, of head _ _ tail]) auto
  have t1': "scan_down (\<lambda>a. lt' v' (key' a) = r) xs h1 t = t1"
    unfolding t1_def using 1(4,6-8) h1 by (intro scan_down_cong [symmetric, of head _ _ tail]) auto
  note unf = partition_loop.simps [of lt key r v xs h t] partition_loop.simps [of lt' key' r v' xs h t]
  show ?case
  proof (cases "t1 \<le> h1")
    case True
    then show ?thesis by (simp add: unf h1_def [symmetric] t1_def [symmetric] h1' t1' Let_def rearranges_refl)
  next
    case False
    have m: "rearranges xs (swap_at h1 t1 xs) head tail"
      using False h1 t1 1(2-6) by (intro rearranges_swap) auto
    then have S: "\<forall>i. head \<le> i \<and> i \<le> tail \<longrightarrow> swap_at h1 t1 xs ! nat i \<in> S"
      by (rule rearranges_all) (use 1(2,7) in auto)
    have "partition_loop lt key r v (swap_at h1 t1 xs) h1 t1 = partition_loop lt' key' r v' (swap_at h1 t1 xs) h1 t1
      \<and> rearranges (swap_at h1 t1 xs) (fst (partition_loop lt' key' r v' (swap_at h1 t1 xs) h1 t1)) head tail"
      using False h1 t1 1(2-6) rearranges_length [OF m] by (intro 1(1) [OF h1_def t1_def _ _ _ _ _ _ S 1(8)]) auto
    then show ?thesis using False rearranges_trans [OF m]
      by (simp add: unf h1_def [symmetric] t1_def [symmetric] h1' t1' Let_def)
  qed
qed

lemma mp_quicksort_cong:
  assumes "0 \<le> head" and "tail < int (length xs)" and "\<forall>i. head \<le> i \<and> i \<le> tail \<longrightarrow> xs ! nat i \<in> S"
    and agree: "\<forall>x \<in> S. \<forall>y \<in> S. lt (key x) (key y) = lt' (key' x) (key' y)"
  shows "mp_quicksort lt key r xs head tail = mp_quicksort lt' key' r xs head tail
    \<and> rearranges xs (mp_quicksort lt' key' r xs head tail) head tail"
  using assms(1-3)
proof (induction "nat (tail - head)" arbitrary: xs head tail rule: less_induct)
  case less
  show ?case
  proof (cases "head < tail")
    case False
    then show ?thesis by (simp add: mp_quicksort_rec rearranges_refl)
  next
    case True
    let ?v = "key (xs ! nat tail)" and ?v' = "key' (xs ! nat tail)"
    let ?sort = "mp_quicksort lt key r" and ?sort' = "mp_quicksort lt' key' r"
    obtain ys h t where part: "partition_loop lt key r ?v xs (head - 1) tail = (ys, h, t)"
      by (cases "partition_loop lt key r ?v xs (head - 1) tail")
    have tl: "xs ! nat tail \<in> S" using less.prems True by simp
    have "partition_loop lt key r ?v xs (head - 1) tail = partition_loop lt' key' r ?v' xs (head - 1) tail
      \<and> rearranges xs (fst (partition_loop lt' key' r ?v' xs (head - 1) tail)) head tail"
      using less.prems True agree tl by (intro partition_loop_cong [where S = S]) auto
    then have part': "partition_loop lt' key' r ?v' xs (head - 1) tail = (ys, h, t)" and ys: "rearranges xs ys head tail"
      unfolding part by (auto dest: sym)
    have ht: "head \<le> h" "h \<le> tail" "t < tail" "t = h \<or> t = h - 1"
      using partition_loop_range [of "head - 1" tail lt key r ?v xs] part True by auto
    define zs where "zs = swap_at h tail ys"
    have zs: "rearranges xs zs head tail"
      unfolding zs_def using less.prems ht True rearranges_length [OF ys]
      by (intro rearranges_trans [OF ys] rearranges_swap) auto
    have ih: "?sort ws a b = ?sort' ws a b \<and> rearranges xs (?sort' ws a b) head tail"
      if ws: "rearranges xs ws head tail" and ab: "(a, b) = (head, t) \<or> (a, b) = (h + 1, tail)" for ws a b
    proof -
      have "\<forall>i. head \<le> i \<and> i \<le> tail \<longrightarrow> ws ! nat i \<in> S"
        using ws by (rule rearranges_all) (use less.prems in auto)
      then have "?sort ws a b = ?sort' ws a b \<and> rearranges ws (?sort' ws a b) a b"
        using ab less.prems ht True rearranges_length [OF ws] by (intro less.hyps) auto
      moreover have "head \<le> a" "b \<le> tail" using ab ht by auto
      ultimately show ?thesis using rearranges_trans [OF ws rearranges_mono] less.prems(1) by blast
    qed
    have left: "?sort zs head t = ?sort' zs head t" "rearranges xs (?sort' zs head t) head tail"
      and right: "?sort zs (h + 1) tail = ?sort' zs (h + 1) tail" "rearranges xs (?sort' zs (h + 1) tail) head tail"
      using ih [OF zs] by auto
    note unf = mp_quicksort_rec [of lt key r xs head tail] mp_quicksort_rec [of lt' key' r xs head tail]
    show ?thesis
      using True ih [OF left(2), of "h + 1" tail] ih [OF right(2), of head t] left(1) right(1)
      by (simp only: unf Let_def part part' prod.case zs_def [symmetric] if_True) (simp split: if_split)
  qed
qed

section \<open>Partition\<close>

text \<open>The order of the result: ascending, or descending when the list is sorted in reverse.\<close>

definition in_order :: "('k \<Rightarrow> 'k \<Rightarrow> bool) \<Rightarrow> bool \<Rightarrow> 'k \<Rightarrow> 'k \<Rightarrow> bool" where
  "in_order lt r a b = (if r then \<not> lt b a else \<not> lt a b)"

definition sorted_range :: "('k \<Rightarrow> 'k \<Rightarrow> bool) \<Rightarrow> ('o \<Rightarrow> 'k) \<Rightarrow> bool \<Rightarrow> 'o list \<Rightarrow> int \<Rightarrow> int \<Rightarrow> bool" where
  "sorted_range lt key r xs a b \<longleftrightarrow>
     (\<forall>i j. a \<le> i \<and> i < j \<and> j \<le> b \<longrightarrow> in_order lt r (key (xs ! nat i)) (key (xs ! nat j)))"

locale sort_order =
  fixes lt :: "'k \<Rightarrow> 'k \<Rightarrow> bool"
  assumes lt_asym: "lt a b \<Longrightarrow> \<not> lt b a"
    and not_lt_trans: "\<not> lt a b \<Longrightarrow> \<not> lt b c \<Longrightarrow> \<not> lt a c"
begin

lemma in_order_trans: "in_order lt r a b \<Longrightarrow> in_order lt r b c \<Longrightarrow> in_order lt r a c"
  by (auto simp: in_order_def dest: not_lt_trans split: if_splits)

lemma lower_test: "if lt a v = r then in_order lt r a v else in_order lt r v a"
  using lt_asym by (auto simp: in_order_def)

lemma upper_test: "if lt v a = r then in_order lt r v a else in_order lt r a v"
  using lt_asym by (auto simp: in_order_def)

lemma partition_loop_result:
  fixes key :: "'o \<Rightarrow> 'k"
  assumes "h < t" "t \<le> tail" "0 \<le> head" "head \<le> h + 1" "tail < int (length xs)"
    and "\<forall>i. head \<le> i \<and> i \<le> h \<longrightarrow> in_order lt r (key (xs ! nat i)) v"
    and "\<forall>i. t \<le> i \<and> i < tail \<longrightarrow> in_order lt r v (key (xs ! nat i))"
  shows "case partition_loop lt key r v xs h t of (ys, h', t') \<Rightarrow>
    rearranges xs ys head (tail - 1)
    \<and> (\<forall>i. head \<le> i \<and> i < h' \<longrightarrow> in_order lt r (key (ys ! nat i)) v)
    \<and> (\<forall>i. h' \<le> i \<and> i < tail \<longrightarrow> in_order lt r v (key (ys ! nat i)))"
  using assms
proof (induction "nat (t - h)" arbitrary: xs h t rule: less_induct)
  case less
  define h1 where "h1 = scan_up (\<lambda>a. lt (key a) v = r) xs t h"
  define t1 where "t1 = scan_down (\<lambda>a. lt v (key a) = r) xs h1 t"
  have h1: "h < h1" "h1 \<le> t" "\<forall>i. h < i \<and> i < h1 \<longrightarrow> lt (key (xs ! nat i)) v = r"
    "h1 < t \<longrightarrow> lt (key (xs ! nat h1)) v \<noteq> r"
    using scan_up_result [OF less.prems(1), of "\<lambda>a. lt (key a) v = r" xs] unfolding h1_def by blast+
  have t1: "t1 < t" "min h1 (t - 1) \<le> t1" "\<forall>i. t1 < i \<and> i < t \<longrightarrow> lt v (key (xs ! nat i)) = r"
    "h1 < t1 \<longrightarrow> lt v (key (xs ! nat t1)) \<noteq> r"
    using scan_down_result [of "\<lambda>a. lt v (key a) = r" xs h1 t] unfolding t1_def by blast+
  have unf: "partition_loop lt key r v xs h t
      = (if t1 \<le> h1 then (xs, h1, t1) else partition_loop lt key r v (swap_at h1 t1 xs) h1 t1)"
    by (subst partition_loop.simps) (simp only: Let_def h1_def t1_def)
  have low: "in_order lt r (key (xs ! nat i)) v" if "head \<le> i" "i < h1" for i
    using that less.prems(6) h1(3) lower_test [of "key (xs ! nat i)" v r] by (cases "i \<le> h") auto
  have up: "in_order lt r v (key (xs ! nat i))" if "t1 < i" "i < tail" for i
    using that less.prems(7) t1(3) upper_test [of v "key (xs ! nat i)" r] by (cases "t \<le> i") auto
  show ?case
  proof (cases "t1 \<le> h1")
    case True
    have "in_order lt r v (key (xs ! nat h1))" if "h1 < tail"
      using that h1(2,4) less.prems(2,7) lower_test [of "key (xs ! nat h1)" v r]
      by (cases "h1 = t") auto
    moreover have "in_order lt r v (key (xs ! nat i))" if "h1 < i" "i < tail" for i
      using that True by (intro up) auto
    ultimately have "\<forall>i. h1 \<le> i \<and> i < tail \<longrightarrow> in_order lt r v (key (xs ! nat i))"
      by (metis order_le_less)
    then show ?thesis using True unf low by (auto simp: rearranges_refl)
  next
    case False
    define ys where "ys = swap_at h1 t1 xs"
    have swap: "rearranges xs ys head (tail - 1)"
      unfolding ys_def using less.prems h1 t1 False by (intro rearranges_swap) auto
    have nth: "ys ! nat i = (if i = h1 then xs ! nat t1 else if i = t1 then xs ! nat h1 else xs ! nat i)"
      if "head \<le> i" for i
      unfolding ys_def using that less.prems h1 t1 False by (intro swap_at_nth) auto
    have "in_order lt r (key (xs ! nat t1)) v" "in_order lt r v (key (xs ! nat h1))"
      using t1(1,4) h1(4) False upper_test [of v "key (xs ! nat t1)" r] lower_test [of "key (xs ! nat h1)" v r]
      by auto
    then have "\<forall>i. head \<le> i \<and> i \<le> h1 \<longrightarrow> in_order lt r (key (ys ! nat i)) v"
      "\<forall>i. t1 \<le> i \<and> i < tail \<longrightarrow> in_order lt r v (key (ys ! nat i))"
      using low up nth False h1(1) less.prems(4) by auto
    then have "case partition_loop lt key r v ys h1 t1 of (zs, h', t') \<Rightarrow>
        rearranges ys zs head (tail - 1)
        \<and> (\<forall>i. head \<le> i \<and> i < h' \<longrightarrow> in_order lt r (key (zs ! nat i)) v)
        \<and> (\<forall>i. h' \<le> i \<and> i < tail \<longrightarrow> in_order lt r v (key (zs ! nat i)))"
      using less.prems h1 t1 False rearranges_length [OF swap] by (intro less.hyps) auto
    then show ?thesis
      using False swap unfolding unf ys_def by (auto intro: rearranges_trans)
  qed
qed

text \<open>Two sorted parts around the pivot make a sorted whole.\<close>

lemma sorted_join:
  assumes "sorted_range lt key r ws head t" "sorted_range lt key r ws (h + 1) tail"
    and low: "\<forall>i. head \<le> i \<and> i \<le> h \<longrightarrow> in_order lt r (key (ws ! nat i)) v"
    and up: "\<forall>i. h + 1 \<le> i \<and> i \<le> tail \<longrightarrow> in_order lt r v (key (ws ! nat i))"
    and t: "t = h \<or> t = h - 1 \<and> key (ws ! nat h) = v"
  shows "sorted_range lt key r ws head tail"
  unfolding sorted_range_def
proof (intro allI impI)
  fix i j assume ij: "head \<le> i \<and> i < j \<and> j \<le> tail"
  consider "h + 1 \<le> i" | "i \<le> h" "h + 1 \<le> j" | "j \<le> t" | "j = h" "key (ws ! nat h) = v"
    using t by linarith
  then show "in_order lt r (key (ws ! nat i)) (key (ws ! nat j))"
  proof cases
    case 2
    then have "in_order lt r (key (ws ! nat i)) v" "in_order lt r v (key (ws ! nat j))"
      using low up ij by blast+
    then show ?thesis by (rule in_order_trans)
  qed (use assms(1,2) low ij in \<open>auto simp: sorted_range_def\<close>)
qed

lemma sorted_range_cong:
  assumes "sorted_range lt key r xs a b" and "\<And>i. a \<le> i \<Longrightarrow> i \<le> b \<Longrightarrow> ys ! nat i = xs ! nat i"
  shows "sorted_range lt key r ys a b"
  unfolding sorted_range_def
proof (intro allI impI)
  fix i j assume ij: "a \<le> i \<and> i < j \<and> j \<le> b"
  then have "ys ! nat i = xs ! nat i" "ys ! nat j = xs ! nat j" by (auto intro!: assms(2))
  then show "in_order lt r (key (ys ! nat i)) (key (ys ! nat j))"
    using assms(1) ij unfolding sorted_range_def by simp
qed

lemma sort_parts:
  assumes b: "0 \<le> head" "head \<le> h" "h \<le> tail" "t = h \<or> t = h - 1"
    and low: "\<forall>i. head \<le> i \<and> i \<le> h \<longrightarrow> in_order lt r (key (zs ! nat i)) v"
    and up: "\<forall>i. h + 1 \<le> i \<and> i \<le> tail \<longrightarrow> in_order lt r v (key (zs ! nat i))"
    and zh: "key (zs ! nat h) = v"
    and "rearranges zs w1 head t \<and> sorted_range lt key r w1 head t
        \<and> rearranges w1 w2 (h + 1) tail \<and> sorted_range lt key r w2 (h + 1) tail
      \<or> rearranges zs w1 (h + 1) tail \<and> sorted_range lt key r w1 (h + 1) tail
        \<and> rearranges w1 w2 head t \<and> sorted_range lt key r w2 head t"
  shows "rearranges zs w2 head tail \<and> sorted_range lt key r w2 head tail"
  using assms(8)
proof
  assume *: "rearranges zs w1 head t \<and> sorted_range lt key r w1 head t
    \<and> rearranges w1 w2 (h + 1) tail \<and> sorted_range lt key r w2 (h + 1) tail"
  then have r: "rearranges zs w1 head t" "rearranges w1 w2 (h + 1) tail" by blast+
  have w2: "w2 ! nat i = w1 ! nat i" if "head \<le> i" "i \<le> h" for i
    using r(2) _ b(1) that by (rule rearranges_other) simp
  have "\<forall>i. head \<le> i \<and> i \<le> h \<longrightarrow> in_order lt r (key (w1 ! nat i)) v"
    using r(1) _ _ b(1) low by (rule rearranges_all) (use b in auto)
  then have low2: "\<forall>i. head \<le> i \<and> i \<le> h \<longrightarrow> in_order lt r (key (w2 ! nat i)) v" using w2 by simp
  have "w1 ! nat i = zs ! nat i" if "h + 1 \<le> i" "i \<le> tail" for i
    using r(1) _ _ that by (rule rearranges_other) (use b in auto)
  then have up2: "\<forall>i. h + 1 \<le> i \<and> i \<le> tail \<longrightarrow> in_order lt r v (key (w2 ! nat i))"
    using r(2) up b by (intro rearranges_all [OF r(2)]) auto
  have "t = h \<or> t = h - 1 \<and> key (w2 ! nat h) = v"
  proof (cases "t = h")
    case False
    then have "w1 ! nat h = zs ! nat h" using r(1) b by (intro rearranges_other [OF r(1), of h h]) auto
    then show ?thesis using w2 [of h] b zh False by simp
  qed simp
  moreover have "sorted_range lt key r w2 head t"
    by (rule sorted_range_cong [OF conjunct1 [OF conjunct2 [OF *]] w2]) (use b in auto)
  ultimately have "sorted_range lt key r w2 head tail"
    using * sorted_join [OF _ _ low2 up2] by blast
  moreover have "rearranges zs w2 head tail"
    using b by (intro rearranges_trans [OF rearranges_mono [OF r(1)] rearranges_mono [OF r(2)]]) auto
  ultimately show ?thesis by blast
next
  assume *: "rearranges zs w1 (h + 1) tail \<and> sorted_range lt key r w1 (h + 1) tail
    \<and> rearranges w1 w2 head t \<and> sorted_range lt key r w2 head t"
  then have r: "rearranges zs w1 (h + 1) tail" "rearranges w1 w2 head t" by blast+
  have w1: "w1 ! nat i = zs ! nat i" if "head \<le> i" "i \<le> h" for i
    using r(1) _ b(1) that by (rule rearranges_other) simp
  have w2: "w2 ! nat i = w1 ! nat i" if "h + 1 \<le> i" "i \<le> tail" for i
    using r(2) _ _ that by (rule rearranges_other) (use b in auto)
  have low2: "\<forall>i. head \<le> i \<and> i \<le> h \<longrightarrow> in_order lt r (key (w2 ! nat i)) v"
    using r(2) _ _ b(1) by (rule rearranges_all) (use b low w1 in auto)
  have "\<forall>i. h + 1 \<le> i \<and> i \<le> tail \<longrightarrow> in_order lt r v (key (w1 ! nat i))"
    using r(1) _ _ _ up by (rule rearranges_all) (use b in auto)
  then have up2: "\<forall>i. h + 1 \<le> i \<and> i \<le> tail \<longrightarrow> in_order lt r v (key (w2 ! nat i))" using w2 by simp
  have "t = h \<or> t = h - 1 \<and> key (w2 ! nat h) = v"
  proof (cases "t = h")
    case False
    then have "w2 ! nat h = w1 ! nat h" using r(2) b by (intro rearranges_other [OF r(2), of h h]) auto
    then show ?thesis using w1 [of h] b zh False by simp
  qed simp
  moreover have "sorted_range lt key r w2 (h + 1) tail"
    by (rule sorted_range_cong [OF conjunct1 [OF conjunct2 [OF *]] w2])
  ultimately have "sorted_range lt key r w2 head tail"
    using * sorted_join [OF _ _ low2 up2] by blast
  moreover have "rearranges zs w2 head tail"
    using b by (intro rearranges_trans [OF rearranges_mono [OF r(1)] rearranges_mono [OF r(2)]]) auto
  ultimately show ?thesis by blast
qed

lemma partition_parts:
  fixes key :: "'o \<Rightarrow> 'k" and xs :: "'o list"
  defines "v \<equiv> \<lambda>tail. key (xs ! nat tail)"
  assumes b: "0 \<le> head" "head < tail" "tail < int (length xs)"
    and part: "partition_loop lt key r (v tail) xs (head - 1) tail = (ys, h, t)"
  shows "rearranges xs (swap_at h tail ys) head tail"
    and "\<forall>i. head \<le> i \<and> i \<le> h \<longrightarrow> in_order lt r (key (swap_at h tail ys ! nat i)) (v tail)"
    and "\<forall>i. h + 1 \<le> i \<and> i \<le> tail \<longrightarrow> in_order lt r (v tail) (key (swap_at h tail ys ! nat i))"
    and "key (swap_at h tail ys ! nat h) = v tail"
proof -
  have ht: "head \<le> h" "h \<le> tail" "t < tail"
    using partition_loop_range [of "head - 1" tail lt key r "v tail" xs] part b by auto
  have "case partition_loop lt key r (v tail) xs (head - 1) tail of (ys, h', t') \<Rightarrow>
      rearranges xs ys head (tail - 1)
      \<and> (\<forall>i. head \<le> i \<and> i < h' \<longrightarrow> in_order lt r (key (ys ! nat i)) (v tail))
      \<and> (\<forall>i. h' \<le> i \<and> i < tail \<longrightarrow> in_order lt r (v tail) (key (ys ! nat i)))"
    using b by (intro partition_loop_result) auto
  then have p: "rearranges xs ys head (tail - 1)"
    "\<forall>i. head \<le> i \<and> i < h \<longrightarrow> in_order lt r (key (ys ! nat i)) (v tail)"
    "\<forall>i. h \<le> i \<and> i < tail \<longrightarrow> in_order lt r (v tail) (key (ys ! nat i))"
    unfolding part prod.case by blast+
  have len: "length ys = length xs" using rearranges_length [OF p(1)] .
  have pivot: "key (ys ! nat tail) = v tail" using p(1) b by (auto simp: rearranges_def v_def)
  show "rearranges xs (swap_at h tail ys) head tail"
    using rearranges_trans [OF rearranges_mono [OF p(1)] rearranges_swap [of head h tail tail ys]] ht b len by simp
  have nth: "swap_at h tail ys ! nat i
      = (if i = h then ys ! nat tail else if i = tail then ys ! nat h else ys ! nat i)"
    if "head \<le> i" for i
    using that b ht len by (intro swap_at_nth) auto
  have refl: "in_order lt r (v tail) (v tail)" using lt_asym [of "v tail" "v tail"] by (auto simp: in_order_def)
  show "\<forall>i. head \<le> i \<and> i \<le> h \<longrightarrow> in_order lt r (key (swap_at h tail ys ! nat i)) (v tail)"
    using p(2) nth pivot refl ht by auto
  show "\<forall>i. h + 1 \<le> i \<and> i \<le> tail \<longrightarrow> in_order lt r (v tail) (key (swap_at h tail ys ! nat i))"
    using p(3) nth ht by auto
  show "key (swap_at h tail ys ! nat h) = v tail" using nth [OF ht(1)] pivot by simp
qed

lemma mp_quicksort_sorts:
  fixes key :: "'o \<Rightarrow> 'k"
  assumes "0 \<le> head" and "tail < int (length xs)"
  shows "rearranges xs (mp_quicksort lt key r xs head tail) head tail
    \<and> sorted_range lt key r (mp_quicksort lt key r xs head tail) head tail"
  using assms
proof (induction "nat (tail - head)" arbitrary: xs head tail rule: less_induct)
  case less
  show ?case
  proof (cases "head < tail")
    case False
    then have "mp_quicksort lt key r xs head tail = xs" by (subst mp_quicksort_rec) simp
    then show ?thesis using False by (auto simp: rearranges_refl sorted_range_def)
  next
    case True
    let ?v = "key (xs ! nat tail)"
    let ?sort = "mp_quicksort lt key r"
    obtain ys h t where part: "partition_loop lt key r ?v xs (head - 1) tail = (ys, h, t)"
      by (cases "partition_loop lt key r ?v xs (head - 1) tail")
    define zs where "zs = swap_at h tail ys"
    have bounds: "0 \<le> head" "head \<le> h" "h \<le> tail" "t = h \<or> t = h - 1" and tl: "t < tail"
      using partition_loop_range [of "head - 1" tail lt key r ?v xs] part True less.prems by auto
    note parts = partition_parts [OF less.prems(1) True less.prems(2) part, folded zs_def]
    have unf: "?sort xs head tail =
        (if t - head < tail - h - 1 then ?sort (?sort zs head t) (h + 1) tail
         else ?sort (?sort zs (h + 1) tail) head t)"
      using True by (subst mp_quicksort_rec) (simp only: Let_def part prod.case zs_def [symmetric] if_True)
    have sorts: "rearranges ws (?sort ws a b) a b \<and> sorted_range lt key r (?sort ws a b) a b"
      if "length ws = length xs" "(a, b) = (head, t) \<or> (a, b) = (h + 1, tail)" for ws a b
      by (rule less.hyps) (use that less.prems bounds tl True in auto)
    have lz: "length zs = length xs" by (rule rearranges_length [OF parts(1)])
    have l1: "length (?sort zs a b) = length xs" if "(a, b) = (head, t) \<or> (a, b) = (h + 1, tail)" for a b
      using rearranges_length conjunct1 [OF sorts [OF lz that]] lz by metis
    have "rearranges zs (?sort xs head tail) head tail \<and> sorted_range lt key r (?sort xs head tail) head tail"
    proof (cases "t - head < tail - h - 1")
      case True
      then show ?thesis unfolding unf
        using sorts [OF lz, of head t] sorts [OF l1, of head t "h + 1" tail]
        by (intro sort_parts [OF bounds parts(2-4), of "?sort zs head t"]) simp
    next
      case False
      then show ?thesis unfolding unf
        using sorts [OF lz, of "h + 1" tail] sorts [OF l1, of "h + 1" tail head t]
        by (intro sort_parts [OF bounds parts(2-4), of "?sort zs (h + 1) tail"]) simp
    qed
    then show ?thesis using rearranges_trans [OF parts(1)] by blast
  qed
qed

end

end
