(* ===== verification/Objlist.thy ===== *)
theory Objlist
  imports Mp_Seq Mp_Sort
begin

text \<open>
  Lists (\<open>src/py/objlist.c\<close>, \<open>src/py/objlist.h\<close>). A list is an array of \<open>alloc\<close> slots of which the
  first \<open>len\<close> hold its elements; a slot is \<open>None\<close> when it holds \<open>MP_OBJ_NULL\<close>. The allocator gives
  memory of unknown contents, the argument \<open>junk\<close>, and the size in bytes it is asked for wraps at 32
  bits; allocations of a size that does not wrap are taken to succeed. Reading or writing outside the
  array is the error \<open>Seq_overrun\<close>. The equality, the order and the printing of elements, and the
  elements an iterator yields, are arguments.
\<close>

record 'o mp_list =
  ls_alloc :: nat
  ls_len :: nat
  ls_items :: "'o option list"

definition LIST_MIN_ALLOC :: nat where "LIST_MIN_ALLOC = 4"

section \<open>Memory\<close>

definition alloc_slots :: "nat \<Rightarrow> nat" where
  "alloc_slots n = nat (u32 (4 * int n)) div 4"

definition m_new :: "(nat \<Rightarrow> 'o option) \<Rightarrow> nat \<Rightarrow> 'o option list" where
  "m_new junk n = map junk [0..<alloc_slots n]"

definition m_renew :: "(nat \<Rightarrow> 'o option) \<Rightarrow> 'o option list \<Rightarrow> nat \<Rightarrow> 'o option list" where
  "m_renew junk items n = take (alloc_slots n) items @ map junk [length items..<alloc_slots n]"

definition read_slots :: "'o option list \<Rightarrow> nat \<Rightarrow> nat \<Rightarrow> seq_error + 'o option list" where
  "read_slots items at n =
     (if at + n \<le> length items then Inr (take n (drop at items)) else Inl Seq_overrun)"

definition write_slots :: "'o option list \<Rightarrow> nat \<Rightarrow> 'o option list \<Rightarrow> seq_error + 'o option list" where
  "write_slots items at vs =
     (if at + length vs \<le> length items then Inr (take at items @ vs @ drop (at + length vs) items)
      else Inl Seq_overrun)"

definition read_slot :: "'o option list \<Rightarrow> nat \<Rightarrow> seq_error + 'o option" where
  "read_slot items i = (if i < length items then Inr (items ! i) else Inl Seq_overrun)"

definition write_slot :: "'o option list \<Rightarrow> nat \<Rightarrow> 'o option \<Rightarrow> seq_error + 'o option list" where
  "write_slot items i v = (if i < length items then Inr (items[i := v]) else Inl Seq_overrun)"

definition memmove :: "'o option list \<Rightarrow> nat \<Rightarrow> nat \<Rightarrow> nat \<Rightarrow> seq_error + 'o option list" where
  "memmove items dst src n = seq_bind (read_slots items src n) (write_slots items dst)"

text \<open>The length of a \<open>memset\<close> whose end is before its start wraps to almost the whole memory.\<close>

definition mp_seq_clear :: "'o option list \<Rightarrow> nat \<Rightarrow> nat \<Rightarrow> seq_error + 'o option list" where
  "mp_seq_clear items n alloc_len =
     (if n \<le> alloc_len then write_slots items n (replicate (alloc_len - n) None) else Inl Seq_overrun)"

definition mp_seq_replace_slice_no_grow ::
    "'o option list \<Rightarrow> nat \<Rightarrow> nat \<Rightarrow> nat \<Rightarrow> 'o option list \<Rightarrow> seq_error + 'o option list" where
  "mp_seq_replace_slice_no_grow dest dest_len b e vals =
     seq_bind (write_slots dest b vals) (\<lambda>dest.
       if e \<le> dest_len then memmove dest (b + length vals) e (dest_len - e) else Inl Seq_overrun)"

definition mp_seq_replace_slice_grow_inplace ::
    "'o option list \<Rightarrow> nat \<Rightarrow> nat \<Rightarrow> nat \<Rightarrow> 'o option list \<Rightarrow> nat \<Rightarrow> seq_error + 'o option list" where
  "mp_seq_replace_slice_grow_inplace dest dest_len b e vals len_adj =
     (if b + length vals \<le> dest_len + len_adj then
        seq_bind (memmove dest (b + length vals) e (dest_len + len_adj - (b + length vals)))
          (\<lambda>dest. write_slots dest b vals)
      else Inl Seq_overrun)"

section \<open>Making lists\<close>

definition mp_obj_list_init :: "(nat \<Rightarrow> 'o option) \<Rightarrow> nat \<Rightarrow> seq_error + 'o mp_list" where
  "mp_obj_list_init junk n =
     (let alloc = (if n < LIST_MIN_ALLOC then LIST_MIN_ALLOC else n) in
      seq_bind (mp_seq_clear (m_new junk alloc) n alloc) (\<lambda>items.
        Inr \<lparr>ls_alloc = alloc, ls_len = n, ls_items = items\<rparr>))"

definition list_new :: "(nat \<Rightarrow> 'o option) \<Rightarrow> nat \<Rightarrow> seq_error + 'o mp_list" where
  "list_new junk n = mp_obj_list_init junk n"

definition list_set_items :: "'o mp_list \<Rightarrow> seq_error + 'o option list \<Rightarrow> seq_error + 'o mp_list" where
  "list_set_items l items = seq_bind items (\<lambda>items. Inr (l\<lparr>ls_items := items\<rparr>))"

definition mp_obj_new_list :: "(nat \<Rightarrow> 'o option) \<Rightarrow> 'o option list \<Rightarrow> seq_error + 'o mp_list" where
  "mp_obj_new_list junk xs =
     seq_bind (list_new junk (length xs)) (\<lambda>l. list_set_items l (write_slots (ls_items l) 0 xs))"

section \<open>Growing and shrinking\<close>

definition mp_obj_list_append :: "(nat \<Rightarrow> 'o option) \<Rightarrow> 'o mp_list \<Rightarrow> 'o \<Rightarrow> seq_error + 'o mp_list" where
  "mp_obj_list_append junk l arg =
     seq_bind
       (if ls_alloc l \<le> ls_len l then
          let alloc = ls_alloc l * 2 in
          seq_bind (mp_seq_clear (m_renew junk (ls_items l) alloc) (ls_len l + 1) alloc) (\<lambda>items.
            Inr (l\<lparr>ls_alloc := alloc, ls_items := items\<rparr>))
        else Inr l)
       (\<lambda>l. seq_bind (write_slot (ls_items l) (ls_len l) (Some arg)) (\<lambda>items.
         Inr (l\<lparr>ls_len := ls_len l + 1, ls_items := items\<rparr>)))"

fun list_extend_from_iter :: "(nat \<Rightarrow> 'o option) \<Rightarrow> 'o mp_list \<Rightarrow> 'o list \<Rightarrow> seq_error + 'o mp_list" where
  "list_extend_from_iter junk l [] = Inr l"
| "list_extend_from_iter junk l (x # xs) =
     seq_bind (mp_obj_list_append junk l x) (\<lambda>l. list_extend_from_iter junk l xs)"

definition list_make_new :: "(nat \<Rightarrow> 'o option) \<Rightarrow> 'o list option \<Rightarrow> seq_error + 'o mp_list" where
  "list_make_new junk iterable =
     (case iterable of
        None \<Rightarrow> mp_obj_new_list junk []
      | Some xs \<Rightarrow> seq_bind (mp_obj_new_list junk []) (\<lambda>l. list_extend_from_iter junk l xs))"

datatype 'o list_operand =
    Operand_list "'o mp_list"
  | Operand_iter "'o list"
  | Operand_int int
  | Operand_other

definition list_extend :: "(nat \<Rightarrow> 'o option) \<Rightarrow> 'o mp_list \<Rightarrow> 'o list_operand \<Rightarrow> seq_error + 'o mp_list" where
  "list_extend junk l arg =
     (case arg of
        Operand_list a \<Rightarrow>
          seq_bind
            (if ls_alloc l < ls_len l + ls_len a then
               let alloc = ls_len l + ls_len a + 4 in
               seq_bind (mp_seq_clear (m_renew junk (ls_items l) alloc) (ls_len l + ls_len a) alloc) (\<lambda>items.
                 Inr (l\<lparr>ls_alloc := alloc, ls_items := items\<rparr>))
             else Inr l)
            (\<lambda>l. seq_bind (read_slots (ls_items a) 0 (ls_len a)) (\<lambda>vs.
              seq_bind (write_slots (ls_items l) (ls_len l) vs) (\<lambda>items.
                Inr (l\<lparr>ls_len := ls_len l + ls_len a, ls_items := items\<rparr>))))
      | Operand_iter xs \<Rightarrow> list_extend_from_iter junk l xs
      | _ \<Rightarrow> Inl Seq_type_error)"

definition list_pop :: "(nat \<Rightarrow> 'o option) \<Rightarrow> 'o mp_list \<Rightarrow> int option option \<Rightarrow> seq_error + 'o option \<times> 'o mp_list" where
  "list_pop junk l arg =
     (if ls_len l = 0 then Inl Seq_index_error
      else seq_bind (mp_get_index (ls_len l) (case arg of None \<Rightarrow> Some (- 1) | Some i \<Rightarrow> i) False) (\<lambda>index.
        seq_bind (read_slot (ls_items l) index) (\<lambda>ret.
          let len = ls_len l - 1 in
          seq_bind (memmove (ls_items l) index (index + 1) (len - index)) (\<lambda>items.
            seq_bind (write_slot items len None) (\<lambda>items.
              if LIST_MIN_ALLOC < ls_alloc l \<and> 2 * len < ls_alloc l then
                Inr (ret, \<lparr>ls_alloc = ls_alloc l div 2, ls_len = len,
                  ls_items = m_renew junk items (ls_alloc l div 2)\<rparr>)
              else Inr (ret, l\<lparr>ls_len := len, ls_items := items\<rparr>))))))"

definition list_clear :: "(nat \<Rightarrow> 'o option) \<Rightarrow> 'o mp_list \<Rightarrow> seq_error + 'o mp_list" where
  "list_clear junk l =
     seq_bind (mp_seq_clear (m_renew junk (ls_items l) LIST_MIN_ALLOC) 0 LIST_MIN_ALLOC) (\<lambda>items.
       Inr \<lparr>ls_alloc = LIST_MIN_ALLOC, ls_len = 0, ls_items = items\<rparr>)"

definition list_copy :: "(nat \<Rightarrow> 'o option) \<Rightarrow> 'o mp_list \<Rightarrow> seq_error + 'o mp_list" where
  "list_copy junk l = seq_bind (read_slots (ls_items l) 0 (ls_len l)) (mp_obj_new_list junk)"

section \<open>Subscripts\<close>

datatype list_subscript = Index "int option" | Slice slice_arg

definition mp_obj_list_store :: "'o mp_list \<Rightarrow> int option \<Rightarrow> 'o \<Rightarrow> seq_error + 'o mp_list" where
  "mp_obj_list_store l index value =
     seq_bind (mp_get_index (ls_len l) index False) (\<lambda>i.
       list_set_items l (write_slot (ls_items l) i (Some value)))"

definition list_subscr_delete :: "(nat \<Rightarrow> 'o option) \<Rightarrow> 'o mp_list \<Rightarrow> list_subscript \<Rightarrow> seq_error + 'o mp_list" where
  "list_subscr_delete junk l index =
     (case index of
        Slice sl \<Rightarrow>
          seq_bind (mp_seq_get_fast_slice_indexes (ls_len l) sl) (\<lambda>(fast, b).
            if \<not> fast then Inl Seq_not_implemented
            else
              let start = nat (sl_start b); stop = nat (sl_stop b);
                  len = nat (int (ls_len l) + (sl_start b - sl_stop b))
              in seq_bind (mp_seq_replace_slice_no_grow (ls_items l) (ls_len l) start stop []) (\<lambda>items.
                   seq_bind (mp_seq_clear items len (ls_len l)) (\<lambda>items.
                     Inr (l\<lparr>ls_len := len, ls_items := items\<rparr>))))
      | Index i \<Rightarrow> seq_bind (list_pop junk l (Some i)) (\<lambda>(_, l). Inr l))"

datatype 'o list_loaded = Loaded_item "'o option" | Loaded_list "'o mp_list"

definition list_subscr_load ::
    "(nat \<Rightarrow> 'o option) \<Rightarrow> 'o mp_list \<Rightarrow> list_subscript \<Rightarrow> (seq_error + 'o list_loaded) option" where
  "list_subscr_load junk l index =
     (case index of
        Slice sl \<Rightarrow>
          (case mp_seq_get_fast_slice_indexes (ls_len l) sl of
             Inl e \<Rightarrow> Some (Inl e)
           | Inr (fast, b) \<Rightarrow>
               if \<not> fast then
                 (case mp_seq_extract_slice (take (ls_len l) (ls_items l)) b of
                    None \<Rightarrow> None
                  | Some r \<Rightarrow> Some (seq_bind r (\<lambda>vs.
                      seq_bind (mp_obj_new_list junk []) (\<lambda>res.
                        seq_bind (list_extend_from_iter junk res (map the vs)) (\<lambda>res. Inr (Loaded_list res))))))
               else Some (
                 seq_bind (list_new junk (nat (sl_stop b - sl_start b))) (\<lambda>res.
                   seq_bind (read_slots (ls_items l) (nat (sl_start b)) (ls_len res)) (\<lambda>vs.
                     seq_bind (list_set_items res (write_slots (ls_items res) 0 vs)) (\<lambda>res.
                       Inr (Loaded_list res))))))
      | Index i \<Rightarrow> Some (
          seq_bind (mp_get_index (ls_len l) i False) (\<lambda>i.
            seq_bind (read_slot (ls_items l) i) (\<lambda>v. Inr (Loaded_item v)))))"

text \<open>Storing to a slice; \<open>values\<close> are the elements of the tuple or list that is stored, which is not the list itself.\<close>

definition list_store_slice ::
    "(nat \<Rightarrow> 'o option) \<Rightarrow> 'o mp_list \<Rightarrow> slice_arg \<Rightarrow> 'o list \<Rightarrow> seq_error + 'o mp_list" where
  "list_store_slice junk l sl values =
     seq_bind (mp_seq_get_fast_slice_indexes (ls_len l) sl) (\<lambda>(fast, b).
       if \<not> fast then Inl Seq_not_implemented
       else
         let start = nat (sl_start b); stop = nat (sl_stop b);
             len_adj = int (length values) - (sl_stop b - sl_start b);
             len = nat (int (ls_len l) + len_adj)
         in if 0 < len_adj then
              let (alloc, items) = (if ls_alloc l < len then (len, m_renew junk (ls_items l) len)
                                    else (ls_alloc l, ls_items l))
              in seq_bind (mp_seq_replace_slice_grow_inplace items (ls_len l) start stop
                     (map Some values) (nat len_adj)) (\<lambda>items.
                   Inr \<lparr>ls_alloc = alloc, ls_len = len, ls_items = items\<rparr>)
            else
              seq_bind (mp_seq_replace_slice_no_grow (ls_items l) (ls_len l) start stop (map Some values)) (\<lambda>items.
                seq_bind (mp_seq_clear items len (ls_len l)) (\<lambda>items.
                  Inr (l\<lparr>ls_len := len, ls_items := items\<rparr>))))"

section \<open>Operators\<close>

datatype list_operator = List_add | List_inplace_add | List_multiply | List_relation seq_relation

datatype 'o list_value = Not_supported | New_list "'o mp_list" | Same_list "'o mp_list" | List_truth bool

definition list_multiply :: "(nat \<Rightarrow> 'o option) \<Rightarrow> 'o mp_list \<Rightarrow> int \<Rightarrow> seq_error + 'o mp_list" where
  "list_multiply junk l n =
     (let n = (if n < 0 then 0 else n) in
      seq_bind (list_new junk (nat (u32 (int (ls_len l) * n)))) (\<lambda>s.
        seq_bind (read_slots (ls_items l) 0 (ls_len l)) (\<lambda>vs.
          list_set_items s (write_slots (ls_items s) 0 (mp_seq_multiply vs (nat n))))))"

definition list_binary_op ::
    "(nat \<Rightarrow> 'o option) \<Rightarrow> ('o \<Rightarrow> 'o \<Rightarrow> bool) \<Rightarrow> (seq_relation \<Rightarrow> 'o \<Rightarrow> 'o \<Rightarrow> bool) \<Rightarrow>
      list_operator \<Rightarrow> 'o mp_list \<Rightarrow> 'o list_operand \<Rightarrow> seq_error + 'o list_value" where
  "list_binary_op junk equal rel op l rhs =
     (case op of
        List_add \<Rightarrow>
          (case rhs of
             Operand_list p \<Rightarrow>
               seq_bind (list_new junk (ls_len l + ls_len p)) (\<lambda>s.
                 seq_bind (read_slots (ls_items l) 0 (ls_len l)) (\<lambda>vs.
                   seq_bind (list_set_items s (write_slots (ls_items s) 0 vs)) (\<lambda>s.
                     seq_bind (read_slots (ls_items p) 0 (ls_len p)) (\<lambda>vs.
                       seq_bind (list_set_items s (write_slots (ls_items s) (ls_len l) vs)) (\<lambda>s.
                         Inr (New_list s))))))
           | _ \<Rightarrow> Inr Not_supported)
      | List_inplace_add \<Rightarrow> seq_bind (list_extend junk l rhs) (\<lambda>l. Inr (Same_list l))
      | List_multiply \<Rightarrow>
          (case rhs of
             Operand_int n \<Rightarrow> seq_bind (list_multiply junk l n) (\<lambda>s. Inr (New_list s))
           | _ \<Rightarrow> Inr Not_supported)
      | List_relation r \<Rightarrow>
          (case rhs of
             Operand_list p \<Rightarrow>
               seq_bind (read_slots (ls_items l) 0 (ls_len l)) (\<lambda>xs.
                 seq_bind (read_slots (ls_items p) 0 (ls_len p)) (\<lambda>ys.
                   Inr (List_truth (mp_seq_cmp_objs equal rel r (map the xs) (map the ys)))))
           | _ \<Rightarrow> Inr (if r = Rel_equal then List_truth False else Not_supported)))"

datatype list_unop = List_bool | List_len | List_other_unop

datatype list_unary_value = Unary_bool bool | Unary_int int | Unary_not_supported

fun list_unary_op :: "list_unop \<Rightarrow> 'o mp_list \<Rightarrow> list_unary_value" where
  "list_unary_op List_bool l = Unary_bool (ls_len l \<noteq> 0)"
| "list_unary_op List_len l = Unary_int (int (ls_len l))"
| "list_unary_op List_other_unop l = Unary_not_supported"

section \<open>Methods\<close>

definition list_count :: "('o \<Rightarrow> 'o \<Rightarrow> bool) \<Rightarrow> 'o mp_list \<Rightarrow> 'o \<Rightarrow> seq_error + nat" where
  "list_count equal l value =
     seq_bind (read_slots (ls_items l) 0 (ls_len l)) (\<lambda>vs. Inr (mp_seq_count_obj equal (map the vs) value))"

definition list_index ::
    "('o \<Rightarrow> 'o \<Rightarrow> bool) \<Rightarrow> 'o mp_list \<Rightarrow> 'o \<Rightarrow> int option option \<Rightarrow> int option option \<Rightarrow> seq_error + nat" where
  "list_index equal l value start stop =
     seq_bind (read_slots (ls_items l) 0 (ls_len l)) (\<lambda>vs.
       mp_seq_index_obj equal (map the vs) value start stop)"

fun insert_loop :: "'o option list \<Rightarrow> nat \<Rightarrow> nat \<Rightarrow> seq_error + 'o option list" where
  "insert_loop items 0 index = Inr items"
| "insert_loop items (Suc i) index =
     (if index < Suc i then
        seq_bind (read_slot items i) (\<lambda>v.
          seq_bind (write_slot items (Suc i) v) (\<lambda>items. insert_loop items i index))
      else Inr items)"

definition list_insert :: "(nat \<Rightarrow> 'o option) \<Rightarrow> 'o \<Rightarrow> 'o mp_list \<Rightarrow> int \<Rightarrow> 'o \<Rightarrow> seq_error + 'o mp_list" where
  "list_insert junk none l index obj =
     (let index = (if index < 0 then index + int (ls_len l) else index);
          index = (if index < 0 then 0 else index);
          index = (if int (ls_len l) < index then int (ls_len l) else index)
      in seq_bind (mp_obj_list_append junk l none) (\<lambda>l.
           seq_bind (insert_loop (ls_items l) (ls_len l - 1) (nat index)) (\<lambda>items.
             list_set_items l (write_slot items (nat index) (Some obj)))))"

definition mp_obj_list_remove ::
    "(nat \<Rightarrow> 'o option) \<Rightarrow> ('o \<Rightarrow> 'o \<Rightarrow> bool) \<Rightarrow> 'o mp_list \<Rightarrow> 'o \<Rightarrow> seq_error + 'o mp_list" where
  "mp_obj_list_remove junk equal l value =
     seq_bind (list_index equal l value None None) (\<lambda>i.
       seq_bind (list_pop junk l (Some (Some (int i)))) (\<lambda>(_, l). Inr l))"

function reverse_loop :: "'o option list \<Rightarrow> nat \<Rightarrow> nat \<Rightarrow> seq_error + 'o option list" where
  "reverse_loop items len i =
     (if i < len div 2 then
        seq_bind (read_slot items i) (\<lambda>a.
          seq_bind (read_slot items (len - i - 1)) (\<lambda>b.
            seq_bind (write_slot items i b) (\<lambda>items.
              seq_bind (write_slot items (len - i - 1) a) (\<lambda>items. reverse_loop items len (i + 1)))))
      else Inr items)"
  by pat_completeness auto
termination
  by (relation "measure (\<lambda>(items, len, i). len div 2 - i)") auto

declare reverse_loop.simps [simp del]

definition list_reverse :: "'o mp_list \<Rightarrow> seq_error + 'o mp_list" where
  "list_reverse l = list_set_items l (reverse_loop (ls_items l) (ls_len l) 0)"

definition mp_obj_list_sort :: "('k \<Rightarrow> 'k \<Rightarrow> bool) \<Rightarrow> ('o \<Rightarrow> 'k) \<Rightarrow> bool \<Rightarrow> 'o mp_list \<Rightarrow> 'o mp_list" where
  "mp_obj_list_sort lt key reverse l =
     (if 1 < ls_len l then
        l\<lparr>ls_items := mp_quicksort lt (key \<circ> the) (\<not> reverse) (ls_items l) 0 (int (ls_len l) - 1)\<rparr>
      else l)"

definition mp_obj_list_get :: "'o mp_list \<Rightarrow> nat \<times> 'o option list" where
  "mp_obj_list_get l = (ls_len l, ls_items l)"

definition mp_obj_list_set_len :: "'o mp_list \<Rightarrow> nat \<Rightarrow> 'o mp_list" where
  "mp_obj_list_set_len l len = l\<lparr>ls_len := len\<rparr>"

text \<open>The iterator holds the position of the next element; the list may change between its steps.\<close>

definition list_it_iternext :: "'o mp_list \<Rightarrow> nat \<Rightarrow> seq_error + 'o option option \<times> nat" where
  "list_it_iternext l cur =
     (if cur < ls_len l then seq_bind (read_slot (ls_items l) cur) (\<lambda>v. Inr (Some v, cur + 1))
      else Inr (None, cur))"

definition mp_obj_new_list_iterator :: "nat \<Rightarrow> nat" where
  "mp_obj_new_list_iterator cur = cur"

definition list_getiter :: nat where "list_getiter = mp_obj_new_list_iterator 0"

definition list_print :: "('o \<Rightarrow> string) \<Rightarrow> 'o mp_list \<Rightarrow> string" where
  "list_print show_item l =
     ''['' @ concat (map (\<lambda>i. (if 0 < i then '', '' else []) @ show_item (the (ls_items l ! i))) [0..<ls_len l])
       @ '']''"

end
