(* ===== verification/Mp_Refine.thy ===== *)
theory Mp_Refine
  imports Mp_Prelude
begin

text \<open>
  Refinement of a data structure to what it promises. A call either raises an error, and the state
  stays as it was, or gives a value and a new state. When every call of an implementation does what
  the specification says on related states, so does every sequence of calls. Nothing here models a
  line of the sources.
\<close>

fun run_calls :: "('c \<Rightarrow> 's \<Rightarrow> 'e + 'v \<times> 's) \<Rightarrow> 'c list \<Rightarrow> 's \<Rightarrow> ('e + 'v) list \<times> 's" where
  "run_calls step [] s = ([], s)"
| "run_calls step (c # cs) s =
     (case step c s of
        Inl e \<Rightarrow> let (vs, t) = run_calls step cs s in (Inl e # vs, t)
      | Inr (v, s') \<Rightarrow> let (vs, t) = run_calls step cs s' in (Inr v # vs, t))"

text \<open>That a condition on the abstract state holds at every call of a run.\<close>

fun calls_ok :: "('c \<Rightarrow> 'a \<Rightarrow> bool) \<Rightarrow> ('c \<Rightarrow> 'a \<Rightarrow> 'e + 'v \<times> 'a) \<Rightarrow> 'c list \<Rightarrow> 'a \<Rightarrow> bool" where
  "calls_ok ok spec [] a = True"
| "calls_ok ok spec (c # cs) a =
     (ok c a \<and> (case spec c a of Inl e \<Rightarrow> calls_ok ok spec cs a | Inr (v, a') \<Rightarrow> calls_ok ok spec cs a'))"

locale simulation =
  fixes step :: "'c \<Rightarrow> 's \<Rightarrow> 'e + 'v \<times> 's" and spec :: "'c \<Rightarrow> 'a \<Rightarrow> 'e + 'v \<times> 'a"
    and R :: "'s \<Rightarrow> 'a \<Rightarrow> bool" and ok :: "'c \<Rightarrow> 'a \<Rightarrow> bool"
  assumes sim: "R s a \<Longrightarrow> ok c a \<Longrightarrow>
    case spec c a of Inl e \<Rightarrow> step c s = Inl e | Inr (v, a') \<Rightarrow> \<exists>s'. step c s = Inr (v, s') \<and> R s' a'"
begin

lemma run_refines:
  assumes "R s a" and "calls_ok ok spec cs a"
  shows "fst (run_calls step cs s) = fst (run_calls spec cs a) \<and> R (snd (run_calls step cs s)) (snd (run_calls spec cs a))"
  using assms
proof (induction cs arbitrary: s a)
  case (Cons c cs)
  show ?case
  proof (cases "spec c a")
    case (Inl e)
    then have "step c s = Inl e" using sim [OF Cons.prems(1), of c] Cons.prems(2) by simp
    then show ?thesis using Cons.IH [OF Cons.prems(1)] Cons.prems(2) Inl by (simp add: case_prod_beta)
  next
    case (Inr va)
    obtain v a' where va: "va = (v, a')" by (cases va)
    obtain s' where s': "step c s = Inr (v, s')" "R s' a'"
      using sim [OF Cons.prems(1), of c] Cons.prems(2) Inr va by auto
    then show ?thesis using Cons.IH [OF s'(2)] Cons.prems(2) Inr va by (simp add: case_prod_beta)
  qed
qed simp

end

end
