(* ===== verification/Objlist_Spec.thy ===== *)
theory Objlist_Spec
  imports Objlist Mp_Refine
begin

text \<open>
  What lists promise. A list represents the sequence of its elements when its array has the
  recorded size, the elements fill the first slots and every other slot is null, so that the
  garbage collector finds no stale pointer. Every operation keeps this, stays inside the array and
  has the meaning of the language on the represented sequence.
\<close>

section \<open>The sequence a list represents\<close>

definition list_holds :: "'o mp_list \<Rightarrow> 'o list \<Rightarrow> bool" where
  "list_holds l xs \<longleftrightarrow> ls_len l = length xs \<and> length xs \<le> ls_alloc l \<and> 0 < ls_alloc l
     \<and> ls_items l = map Some xs @ replicate (ls_alloc l - length xs) None"

text \<open>Sizes for which no request to the allocator wraps.\<close>

definition list_limit :: nat where "list_limit = 268435456"

lemma alloc_slots_id [simp]: "n < 1073741824 \<Longrightarrow> alloc_slots n = n"
  by (simp add: alloc_slots_def u32_def)

lemma list_holdsD:
  assumes "list_holds l xs"
  shows "ls_len l = length xs" and "length xs \<le> ls_alloc l" and "0 < ls_alloc l"
    and "ls_items l = map Some xs @ replicate (ls_alloc l - length xs) None"
    and "length (ls_items l) = ls_alloc l"
  using assms by (auto simp: list_holds_def)

section \<open>Memory\<close>

lemma read_slots_eq: "length pre = at \<Longrightarrow> n \<le> length xs \<Longrightarrow> read_slots (pre @ xs) at n = Inr (take n xs)"
  by (simp add: read_slots_def)

lemma write_slots_eq:
  "length pre = at \<Longrightarrow> length vs \<le> length xs \<Longrightarrow>
    write_slots (pre @ xs) at vs = Inr (pre @ vs @ drop (length vs) xs)"
  by (simp add: write_slots_def)

lemma write_slot_eq: "length pre = i \<Longrightarrow> write_slot (pre @ old # post) i v = Inr (pre @ v # post)"
  by (auto simp: write_slot_def)

lemma read_slot_eq: "length pre = i \<Longrightarrow> read_slot (pre @ v # post) i = Inr v"
  by (auto simp: read_slot_def)

lemma seq_clear_eq:
  "length pre = n \<Longrightarrow> n \<le> alloc_len \<Longrightarrow> alloc_len \<le> n + length xs \<Longrightarrow>
    mp_seq_clear (pre @ xs) n alloc_len = Inr (pre @ replicate (alloc_len - n) None @ drop (alloc_len - n) xs)"
  by (simp add: mp_seq_clear_def write_slots_eq)

text \<open>Replacing elements by fewer and by more of them.\<close>

lemma replace_no_grow:
  assumes "length new \<le> length old"
  obtains mid where "mp_seq_replace_slice_no_grow (as @ old @ bs @ rest) (length as + length old + length bs)
      (length as) (length as + length old) new = Inr (as @ new @ bs @ mid @ rest)"
    and "length mid = length old - length new"
proof -
  define keep where "keep = drop (length new) old"
  have k: "length keep = length old - length new" by (simp add: keep_def)
  have "write_slots (as @ old @ bs @ rest) (length as) new = Inr (as @ new @ keep @ bs @ rest)"
    using assms by (simp add: write_slots_eq keep_def)
  moreover have "read_slots (as @ new @ keep @ bs @ rest) (length as + length old) (length bs) = Inr bs"
    using assms k read_slots_eq [of "as @ new @ keep" "length as + length old" "length bs" "bs @ rest"] by simp
  moreover have "write_slots (as @ new @ keep @ bs @ rest) (length as + length new) bs
      = Inr (as @ new @ bs @ drop (length bs) (keep @ bs) @ rest)"
    using write_slots_eq [of "as @ new" "length as + length new" bs "keep @ bs @ rest"] by simp
  ultimately have "mp_seq_replace_slice_no_grow (as @ old @ bs @ rest) (length as + length old + length bs)
      (length as) (length as + length old) new = Inr (as @ new @ bs @ drop (length bs) (keep @ bs) @ rest)"
    by (simp add: mp_seq_replace_slice_no_grow_def memmove_def)
  then show thesis using that k by simp
qed

lemma replace_grow:
  assumes "length new = length old + length free"
  shows "mp_seq_replace_slice_grow_inplace (as @ old @ bs @ free @ rest) (length as + length old + length bs)
      (length as) (length as + length old) new (length free) = Inr (as @ new @ bs @ rest)"
proof -
  define moved more where "moved = take (length new) (old @ bs @ free)" and "more = drop (length new) (old @ bs @ free)"
  have m: "length moved = length new" "length more = length bs"
    using assms by (simp_all add: moved_def more_def)
  have "old @ bs @ free = moved @ more" unfolding moved_def more_def by (rule append_take_drop_id [symmetric])
  then have split: "as @ old @ bs @ free @ rest = (as @ moved) @ more @ rest" by (metis append.assoc)
  have "read_slots (as @ old @ bs @ free @ rest) (length as + length old) (length bs) = Inr bs"
    using read_slots_eq [of "as @ old" "length as + length old" "length bs" "bs @ free @ rest"] by simp
  moreover have "write_slots (as @ old @ bs @ free @ rest) (length as + length new) bs = Inr (as @ moved @ bs @ rest)"
    unfolding split using m by (subst write_slots_eq) simp_all
  ultimately show ?thesis
    using assms m by (simp add: mp_seq_replace_slice_grow_inplace_def memmove_def write_slots_eq)
qed

section \<open>Making lists\<close>

lemma list_new_eq:
  assumes "n \<le> 2 * list_limit"
  obtains l vs where "list_new junk n = Inr l" and "ls_len l = n" and "ls_alloc l = max LIST_MIN_ALLOC n"
    and "n \<le> ls_alloc l" and "0 < ls_alloc l"
    and "ls_items l = vs @ replicate (ls_alloc l - n) None" and "length vs = n"
proof -
  define alloc where "alloc = (if n < LIST_MIN_ALLOC then LIST_MIN_ALLOC else n)"
  have a: "n \<le> alloc" "0 < alloc" "alloc < 1073741824" using assms by (auto simp: alloc_def LIST_MIN_ALLOC_def list_limit_def)
  define vs where "vs = map junk [0..<n]"
  have "m_new junk alloc = vs @ map junk [n..<alloc]"
    using a upt_add_eq_append [of 0 n "alloc - n"] by (simp add: m_new_def vs_def)
  then have "list_new junk n = Inr \<lparr>ls_alloc = alloc, ls_len = n, ls_items = vs @ replicate (alloc - n) None\<rparr>"
    using a by (simp add: list_new_def mp_obj_list_init_def Let_def alloc_def [symmetric] seq_clear_eq vs_def)
  moreover have "alloc = max LIST_MIN_ALLOC n" by (simp add: alloc_def max_def)
  ultimately show thesis using that a by (simp add: vs_def)
qed

lemma mp_obj_new_list_eq:
  assumes "length xs \<le> 2 * list_limit"
  obtains l where "mp_obj_new_list junk (map Some xs) = Inr l" and "list_holds l xs"
    and "ls_alloc l = max LIST_MIN_ALLOC (length xs)"
proof -
  obtain l vs where l: "list_new junk (length xs) = Inr l" "ls_len l = length xs" "ls_alloc l = max LIST_MIN_ALLOC (length xs)" "length xs \<le> ls_alloc l"
      "0 < ls_alloc l" "ls_items l = vs @ replicate (ls_alloc l - length xs) None" "length vs = length xs"
    using list_new_eq [OF assms] by blast
  then have "write_slots (ls_items l) 0 (map Some xs) = Inr (map Some xs @ replicate (ls_alloc l - length xs) None)"
    using write_slots_eq [of "[]" 0 "map Some xs" "ls_items l"] by simp
  then show thesis using l that [of "l\<lparr>ls_items := map Some xs @ replicate (ls_alloc l - length xs) None\<rparr>"]
    by (simp add: mp_obj_new_list_def list_set_items_def list_holds_def)
qed

section \<open>Growing and shrinking\<close>

lemma replicate_split: "a \<le> n \<Longrightarrow> replicate n x = replicate a x @ replicate (n - a) x"
  by (simp add: replicate_add [symmetric])

lemma m_renew_grow:
  "length items \<le> n \<Longrightarrow> n < 1073741824 \<Longrightarrow> m_renew junk items n = items @ map junk [length items..<n]"
  by (simp add: m_renew_def)

lemma list_append_eq:
  assumes r: "list_holds l xs" and lim: "ls_alloc l \<le> list_limit"
  obtains l' where "mp_obj_list_append junk l x = Inr l'" and "list_holds l' (xs @ [x])"
    and "ls_alloc l' \<le> max (ls_alloc l) (2 * length xs)"
proof -
  note d = list_holdsD [OF r]
  have "\<exists>l1 free. ls_len l1 = length xs \<and> ls_items l1 = map Some xs @ free @ replicate (ls_alloc l1 - length xs - 1) None
      \<and> length free = 1 \<and> length xs < ls_alloc l1 \<and> ls_alloc l1 \<le> max (ls_alloc l) (2 * length xs)
      \<and> mp_obj_list_append junk l x = seq_bind (write_slot (ls_items l1) (ls_len l1) (Some x)) (\<lambda>items.
         Inr (l1\<lparr>ls_len := ls_len l1 + 1, ls_items := items\<rparr>))"
  proof (cases "ls_alloc l \<le> ls_len l")
    case True
    then have full: "ls_alloc l = length xs" "ls_items l = map Some xs" using d by simp_all
    define free rest where "free = [junk (length xs)]" and "rest = map junk [Suc (length xs)..<length xs * 2]"
    have len: "length free = 1" "length rest = length xs - 1" "1 \<le> length xs"
      using d full by (simp_all add: free_def rest_def Suc_le_eq)
    have "m_renew junk (ls_items l) (ls_alloc l * 2) = (map Some xs @ free) @ rest"
      using full d lim by (simp add: m_renew_grow list_limit_def free_def rest_def upt_conv_Cons)
    then have "mp_seq_clear (m_renew junk (ls_items l) (ls_alloc l * 2)) (ls_len l + 1) (ls_alloc l * 2)
        = Inr (map Some xs @ free @ replicate (length xs * 2 - length xs - 1) None)"
      using full d len seq_clear_eq [of "map Some xs @ free" "length xs + 1" "length xs * 2" rest] by simp
    then show ?thesis using True full d
      by (intro exI [of _ "l\<lparr>ls_alloc := ls_alloc l * 2,
          ls_items := map Some xs @ free @ replicate (length xs * 2 - length xs - 1) None\<rparr>"] exI [of _ free])
        (simp add: mp_obj_list_append_def free_def)
  next
    case False
    then have "1 \<le> ls_alloc l - length xs" using d by simp
    then show ?thesis using d False replicate_split [of 1 "ls_alloc l - length xs" None]
      by (intro exI [of _ l] exI [of _ "[None]"]) (simp add: mp_obj_list_append_def)
  qed
  then obtain l1 free where l1: "ls_len l1 = length xs"
    "ls_items l1 = map Some xs @ free @ replicate (ls_alloc l1 - length xs - 1) None"
    "length free = 1" "length xs < ls_alloc l1" "ls_alloc l1 \<le> max (ls_alloc l) (2 * length xs)"
    and app: "mp_obj_list_append junk l x = seq_bind (write_slot (ls_items l1) (ls_len l1) (Some x)) (\<lambda>items.
       Inr (l1\<lparr>ls_len := ls_len l1 + 1, ls_items := items\<rparr>))"
    by blast
  then obtain f where "free = [f]" by (auto simp: length_Suc_conv)
  then have "write_slot (ls_items l1) (ls_len l1) (Some x)
      = Inr (map Some xs @ Some x # replicate (ls_alloc l1 - length xs - 1) None)"
    using l1 by (simp add: write_slot_eq)
  then show thesis using app l1 that by (simp add: list_holds_def)
qed

lemma list_extend_from_iter_eq:
  assumes "list_holds l xs" and "ls_alloc l \<le> list_limit" and "2 * (length xs + length ys) \<le> list_limit"
  shows "\<exists>l'. list_extend_from_iter junk l ys = Inr l' \<and> list_holds l' (xs @ ys) \<and> ls_alloc l' \<le> list_limit"
  using assms
proof (induction ys arbitrary: l xs)
  case (Cons y ys)
  obtain l1 where l1: "mp_obj_list_append junk l y = Inr l1" "list_holds l1 (xs @ [y])"
    "ls_alloc l1 \<le> max (ls_alloc l) (2 * length xs)"
    using list_append_eq [OF Cons.prems(1,2)] by blast
  then show ?case using Cons.IH [OF l1(2)] Cons.prems by simp
qed auto

lemma list_extend_eq:
  assumes r: "list_holds l xs" "list_holds a ys" and lim: "ls_alloc l \<le> list_limit" "length ys \<le> list_limit"
  obtains l' where "list_extend junk l (Operand_list a) = Inr l'" and "list_holds l' (xs @ ys)"
    and "ls_alloc l' \<le> max (ls_alloc l) (length (xs @ ys) + 4)"
proof -
  note d = list_holdsD [OF r(1)] and e = list_holdsD [OF r(2)]
  have vs: "read_slots (ls_items a) 0 (ls_len a) = Inr (map Some ys)"
    using e read_slots_eq [of "[]" 0 "length ys" "ls_items a"] by simp
  show thesis
  proof (cases "ls_alloc l < ls_len l + ls_len a")
    case True
    define n where "n = length xs + length ys + 4"
    define more where "more = replicate (ls_alloc l - length xs) None @ map junk [ls_alloc l..<n]"
    have more: "length more = length ys + 4" using True d e by (simp add: more_def n_def)
    have "m_renew junk (ls_items l) n = (map Some xs @ take (length ys) more) @ drop (length ys) more"
      using True d e lim by (simp add: m_renew_grow n_def list_limit_def more_def del: take_append drop_append)
    then have "mp_seq_clear (m_renew junk (ls_items l) n) (length xs + length ys) n
        = Inr (map Some xs @ take (length ys) more @ replicate 4 None)"
      using more seq_clear_eq [of "map Some xs @ take (length ys) more" "length xs + length ys" n "drop (length ys) more"]
      by (simp add: n_def)
    moreover have "write_slots (map Some xs @ take (length ys) more @ replicate 4 None) (length xs) (map Some ys)
        = Inr (map Some xs @ map Some ys @ replicate 4 None)"
      using more by (subst write_slots_eq) simp_all
    ultimately show thesis using True vs d e that
      by (simp add: list_extend_def Let_def n_def list_holds_def)
  next
    case False
    then have "write_slots (ls_items l) (ls_len l) (map Some ys)
        = Inr (map Some xs @ map Some ys @ replicate (ls_alloc l - length xs - length ys) None)"
      using d e by (simp add: write_slots_eq)
    then show thesis using False vs d e that by (simp add: list_extend_def list_holds_def)
  qed
qed

lemma list_pop_eq:
  assumes r: "list_holds l (as @ x # bs)" and lim: "ls_alloc l \<le> list_limit"
    and i: "mp_get_index (length (as @ x # bs)) (case arg of None \<Rightarrow> Some (- 1) | Some i \<Rightarrow> i) False = Inr (length as)"
  obtains l' where "list_pop junk l arg = Inr (Some x, l')" and "list_holds l' (as @ bs)"
    and "ls_alloc l' \<le> ls_alloc l"
proof -
  note d = list_holdsD [OF r]
  define nulls :: "'a option list" where "nulls = replicate (ls_alloc l - length (as @ x # bs)) None"
  have items: "ls_items l = map Some as @ Some x # map Some bs @ nulls" using d(4) by (simp add: nulls_def)
  have nulls: "None # nulls = replicate (ls_alloc l - (length as + length bs)) None"
    using d by (simp add: nulls_def replicate_Suc [symmetric] Suc_diff_Suc del: replicate_Suc)
  have "length (drop (length bs) (Some x # map Some bs)) = 1" by simp
  then obtain z where "drop (length bs) (Some x # map Some bs) = [z]" by (auto simp: length_Suc_conv simp del: length_drop)
  then have z: "drop (length bs) (Some x # map Some bs @ nulls) = z # nulls"
    using drop_append [of "length bs" "Some x # map Some bs" nulls] by simp
  have "read_slots (ls_items l) (length as + 1) (length bs) = Inr (map Some bs)"
    using read_slots_eq [of "map Some as @ [Some x]" "length as + 1" "length bs" "map Some bs @ nulls"]
    by (simp add: items)
  moreover have "write_slots (ls_items l) (length as) (map Some bs) = Inr (map Some as @ map Some bs @ z # nulls)"
    using write_slots_eq [of "map Some as" "length as" "map Some bs" "Some x # map Some bs @ nulls"] z
    by (simp add: items)
  ultimately have mv: "memmove (ls_items l) (length as) (length as + 1) (length bs)
      = Inr ((map Some as @ map Some bs) @ z # nulls)" by (simp add: memmove_def)
  have wr: "write_slot ((map Some as @ map Some bs) @ z # nulls) (length as + length bs) None
      = Inr (map Some (as @ bs) @ None # nulls)"
    by (subst write_slot_eq) simp_all
  have ret: "read_slot (ls_items l) (length as) = Inr (Some x)" by (simp add: items read_slot_eq)
  show thesis
  proof (cases "LIST_MIN_ALLOC < ls_alloc l \<and> 2 * (length as + length bs) < ls_alloc l")
    case True
    define half where "half = ls_alloc l div 2"
    have half: "length as + length bs \<le> half" "0 < half" "half < 1073741824" "half < ls_alloc l"
      using True lim by (auto simp: half_def LIST_MIN_ALLOC_def list_limit_def)
    have "m_renew junk (map Some (as @ bs) @ None # nulls) half
        = map Some (as @ bs) @ replicate (half - length (as @ bs)) None"
      using half d by (simp add: m_renew_def nulls)
    then show thesis using True i mv wr ret d half that
      by (simp add: list_pop_def Let_def half_def list_holds_def)
  next
    case False
    then show thesis using nulls i mv wr ret d that
      by (auto simp: list_pop_def Let_def list_holds_def)
  qed
qed

lemma list_clear_eq:
  assumes "list_holds l xs"
  obtains l' where "list_clear junk l = Inr l'" and "list_holds l' []" and "ls_alloc l' = LIST_MIN_ALLOC"
proof -
  have "length (m_renew junk (ls_items l) LIST_MIN_ALLOC) = LIST_MIN_ALLOC"
    by (simp add: m_renew_def LIST_MIN_ALLOC_def)
  then have "mp_seq_clear (m_renew junk (ls_items l) LIST_MIN_ALLOC) 0 LIST_MIN_ALLOC
      = Inr (replicate LIST_MIN_ALLOC None)"
    using seq_clear_eq [of "[]" 0 LIST_MIN_ALLOC "m_renew junk (ls_items l) LIST_MIN_ALLOC"] by simp
  then show thesis
    using that [of "\<lparr>ls_alloc = LIST_MIN_ALLOC, ls_len = 0, ls_items = replicate LIST_MIN_ALLOC None\<rparr>"]
    by (simp add: list_clear_def list_holds_def LIST_MIN_ALLOC_def)
qed

lemma read_elements:
  assumes "list_holds l xs"
  shows "read_slots (ls_items l) 0 (ls_len l) = Inr (map Some xs)"
  using list_holdsD [OF assms] read_slots_eq [of "[]" 0 "length xs" "ls_items l"] by simp

lemma list_copy_eq:
  assumes "list_holds l xs" and "length xs \<le> list_limit"
  obtains l' where "list_copy junk l = Inr l'" and "list_holds l' xs"
  using mp_obj_new_list_eq [of xs junk] assms read_elements [OF assms(1)] by (auto simp: list_copy_def)

section \<open>Methods\<close>

lemma insert_loop_eq:
  "\<exists>w. insert_loop (as @ bs @ z # rest) (length as + length bs) (length as) = Inr (as @ w # bs @ rest)"
proof (induction bs arbitrary: z rest rule: rev_induct)
  case Nil
  show ?case by (cases as) auto
next
  case (snoc c cs)
  have "read_slot (as @ (cs @ [c]) @ z # rest) (length as + length cs) = Inr c"
    using read_slot_eq [of "as @ cs" "length as + length cs" c "z # rest"] by simp
  moreover have "write_slot (as @ (cs @ [c]) @ z # rest) (Suc (length as + length cs)) c
      = Inr (as @ cs @ c # c # rest)"
    using write_slot_eq [of "as @ cs @ [c]" "Suc (length as + length cs)" z rest c] by simp
  ultimately show ?case using snoc.IH [of c "c # rest"] by simp
qed

lemma list_insert_eq:
  assumes r: "list_holds l (as @ bs)" and lim: "ls_alloc l \<le> list_limit"
    and i: "length as = (let n = length (as @ bs); j = (if i < 0 then i + int n else i)
        in nat (min (max j 0) (int n)))"
  obtains l' where "list_insert junk none l i x = Inr l'" and "list_holds l' (as @ x # bs)"
    and "ls_alloc l' \<le> max (ls_alloc l) (2 * length (as @ bs))"
proof -
  note d = list_holdsD [OF r]
  obtain l1 where l1: "mp_obj_list_append junk l none = Inr l1" "list_holds l1 ((as @ bs) @ [none])"
    "ls_alloc l1 \<le> max (ls_alloc l) (2 * length (as @ bs))"
    using list_append_eq [OF r lim] by blast
  note e = list_holdsD [OF l1(2)]
  define rest :: "'a option list" where "rest = replicate (ls_alloc l1 - length ((as @ bs) @ [none])) None"
  obtain w where w: "insert_loop (ls_items l1) (ls_len l1 - 1) (length as)
      = Inr (map Some as @ w # map Some bs @ rest)"
    using insert_loop_eq [of "map Some as" "map Some bs" "Some none" rest] e by (auto simp: rest_def)
  define index where "index = (let n = int (ls_len l); j = (if i < 0 then i + n else i);
    j = (if j < 0 then 0 else j) in if n < j then n else j)"
  have "nat index = length as" using i d by (auto simp: index_def Let_def min_def max_def split: if_splits)
  then have "list_insert junk none l i x = Inr (l1\<lparr>ls_items := map Some as @ Some x # map Some bs @ rest\<rparr>)"
    using w l1(1) write_slot_eq [of "map Some as" "length as" w "map Some bs @ rest" "Some x"]
    unfolding list_insert_def index_def Let_def by (simp add: list_set_items_def)
  then show thesis using that e l1(3) by (simp add: list_holds_def rest_def)
qed

lemma reverse_loop_eq:
  assumes "len \<le> length items"
  shows "\<exists>ys. reverse_loop items len i = Inr ys \<and> length ys = length items
    \<and> (\<forall>k < length items. ys ! k = (if i \<le> k \<and> k < len - i then items ! (len - 1 - k) else items ! k))"
  using assms
proof (induction "len div 2 - i" arbitrary: items i)
  case 0
  then have "reverse_loop items len i = Inr items" by (subst reverse_loop.simps) simp
  moreover have "len - 1 - k = k" if "i \<le> k" "k < len - i" for k using 0 that by linarith
  ultimately show ?case by auto
next
  case (Suc n)
  define zs where "zs = items[i := items ! (len - i - 1), len - i - 1 := items ! i]"
  have i: "i < len div 2" "i < len - i - 1" "len - i - 1 < length items" using Suc by linarith+
  have step: "reverse_loop items len i = reverse_loop zs len (i + 1)"
    using i by (subst reverse_loop.simps) (simp add: read_slot_def write_slot_def zs_def)
  obtain ys where ys: "reverse_loop zs len (i + 1) = Inr ys" "length ys = length items"
    "\<forall>k < length items. ys ! k = (if i + 1 \<le> k \<and> k < len - (i + 1) then zs ! (len - 1 - k) else zs ! k)"
  proof -
    have "n = len div 2 - (i + 1)" "len \<le> length zs" "length zs = length items"
      using Suc.hyps(2) Suc.prems by (auto simp: zs_def)
    then show thesis using Suc.hyps(1) [of "i + 1" zs] that by auto
  qed
  have "ys ! k = (if i \<le> k \<and> k < len - i then items ! (len - 1 - k) else items ! k)" if "k < length items" for k
  proof -
    define j where "j = len - i - 1"
    have j: "len = i + j + 1" "i < j" "j < length items" using i by (simp_all add: j_def)
    have zs: "zs = items[i := items ! j, j := items ! i]" by (simp add: zs_def j)
    have k: "ys ! k = (if i + 1 \<le> k \<and> k < j then zs ! (i + j - k) else zs ! k)"
      using ys(3) that by (simp add: j)
    consider "k < i" | "k = i" | "i + 1 \<le> k" "k < j" | "k = j" | "j < k" by linarith
    then show ?thesis using k j that by cases (simp_all add: zs)
  qed
  then show ?case using step ys by simp
qed

lemma list_reverse_eq:
  assumes "list_holds l xs"
  obtains l' where "list_reverse l = Inr l'" and "list_holds l' (rev xs)" and "ls_alloc l' = ls_alloc l"
proof -
  note d = list_holdsD [OF assms]
  obtain ys where ys: "reverse_loop (ls_items l) (length xs) 0 = Inr ys" "length ys = ls_alloc l"
    "\<forall>k < ls_alloc l. ys ! k = (if k < length xs then ls_items l ! (length xs - 1 - k) else ls_items l ! k)"
    using reverse_loop_eq [of "length xs" "ls_items l" 0] d by auto
  have "ys = map Some (rev xs) @ replicate (ls_alloc l - length xs) None"
    using ys(2,3) d by (intro nth_equalityI) (auto simp: nth_append rev_nth)
  then show thesis using ys(1) that [of "l\<lparr>ls_items := ys\<rparr>"] d
    by (simp add: list_reverse_def list_set_items_def list_holds_def)
qed

section \<open>Subscripts\<close>

text \<open>The index of the language: from the end when negative.\<close>

definition py_index :: "nat \<Rightarrow> int option \<Rightarrow> seq_error + nat" where
  "py_index n i =
     (case i of
        None \<Rightarrow> Inl Seq_type_error
      | Some i \<Rightarrow> if - int n \<le> i \<and> i < int n then Inr (nat (i mod int n)) else Inl Seq_index_error)"

lemma mp_get_index_eq: "mp_get_index n i False = py_index n i"
proof (cases i)
  case (Some j)
  have "(j + int n) mod int n = j + int n" if "- int n \<le> j" "j < 0" using that by (intro mod_pos_pos_trivial) auto
  then have "j mod int n = j + int n" if "- int n \<le> j" "j < 0" using that by simp
  then show ?thesis by (auto simp: Some mp_get_index_def py_index_def Let_def)
qed (simp add: mp_get_index_def py_index_def)

lemma py_index_bound: "py_index n i = Inr k \<Longrightarrow> k < n"
  by (auto simp: py_index_def nat_less_iff split: option.splits if_splits)

lemma list_store_eq:
  assumes "list_holds l xs" and "py_index (length xs) i = Inr k"
  obtains l' where "mp_obj_list_store l i x = Inr l'" and "list_holds l' (xs[k := x])" and "ls_alloc l' = ls_alloc l"
proof -
  note d = list_holdsD [OF assms(1)]
  have "k < length xs" using py_index_bound assms(2) by blast
  then show thesis using d assms(2) that [of "l\<lparr>ls_items := (ls_items l)[k := Some x]\<rparr>"]
    by (simp add: mp_obj_list_store_def mp_get_index_eq list_set_items_def write_slot_def list_holds_def
        list_update_append map_update)
qed

text \<open>The bounds of a slice with step one.\<close>

definition plain_step :: "slice_arg \<Rightarrow> bool" where
  "plain_step sl = (case sl of (_, _, ostep) \<Rightarrow> ostep = None \<or> ostep = Some 1)"

text \<open>The bounds fit a machine integer, and the increment of the stop that a negative step makes does not wrap.\<close>

definition slice_arg_ok :: "slice_arg \<Rightarrow> bool" where
  "slice_arg_ok sl = (case sl of (ostart, ostop, ostep) \<Rightarrow>
     int32 ostart \<and> int32 ostop \<and> \<not> (ostop = Some 2147483647 \<and> (case ostep of None \<Rightarrow> 1 | Some k \<Rightarrow> k) < 0))"

definition py_bounds :: "nat \<Rightarrow> slice_arg \<Rightarrow> nat \<times> nat" where
  "py_bounds n sl = (case sl of (ostart, ostop, _) \<Rightarrow>
     let a = slice_start (int n) 1 ostart in (nat a, nat (max a (slice_stop (int n) 1 ostop))))"

lemma py_bounds_range: "py_bounds n sl = (a, b) \<Longrightarrow> a \<le> b \<and> b \<le> n"
  using slice_start_bounds(1) [of n 1] slice_stop_bounds(1) [of n 1]
  by (cases sl) (auto simp: py_bounds_def Let_def nat_le_iff)

lemma fast_slice_plain:
  assumes "n \<le> 2 * list_limit" and "slice_arg_ok sl" and "plain_step sl" and "py_bounds n sl = (a, b)"
  shows "mp_seq_get_fast_slice_indexes n sl = Inr (True, \<lparr>sl_start = int a, sl_stop = int b, sl_step = 1\<rparr>)"
proof -
  obtain ostart ostop ostep where sl: "sl = (ostart, ostop, ostep)" by (cases sl)
  define start stop where "start = slice_start (int n) 1 ostart" and "stop = slice_stop (int n) 1 ostop"
  have s: "(case ostep of None \<Rightarrow> 1 | Some v \<Rightarrow> v) = (1 :: int)"
    using assms(3) by (auto simp: plain_step_def sl)
  have "mp_seq_get_fast_slice_indexes n sl = Inr (True, \<lparr>sl_start = start, sl_stop = max stop start, sl_step = 1\<rparr>)"
    using fast_slice_eq [of n ostep ostart ostop] assms(1,2)
    by (simp add: sl s slice_arg_ok_def list_limit_def start_def stop_def)
  moreover have "0 \<le> start" unfolding start_def by (rule slice_start_nonneg) simp
  then have "int a = start" "int b = max stop start"
    using assms(4) by (auto simp: py_bounds_def sl Let_def start_def stop_def max.commute)
  ultimately show ?thesis by simp
qed

lemma fast_slice_step:
  assumes "n \<le> 2 * list_limit" and "slice_arg_ok sl" and "\<not> plain_step sl"
  shows "mp_seq_get_fast_slice_indexes n sl = Inl Seq_value_error \<and> snd (snd sl) = Some 0
    \<or> (\<exists>b. mp_seq_get_fast_slice_indexes n sl = Inr (False, b)) \<and> snd (snd sl) \<noteq> Some 0"
proof -
  obtain ostart ostop step where sl: "sl = (ostart, ostop, Some step)" "step \<noteq> 1"
    using assms(3) by (cases sl) (auto simp: plain_step_def)
  show ?thesis
  proof (cases "step = 0")
    case False
    then show ?thesis using fast_slice_eq [of n "Some step" ostart ostop] assms sl
      by (simp add: slice_arg_ok_def list_limit_def)
  qed (simp add: sl)
qed

lemma nulls_after:
  "n \<le> len \<Longrightarrow> len \<le> alloc \<Longrightarrow>
    replicate (len - n) None @ replicate (alloc - len) None = replicate (alloc - n) None"
  by (simp add: replicate_add [symmetric])

lemma slice_parts:
  assumes "py_bounds (length xs) sl = (a, b)"
  obtains as old bs where "xs = as @ old @ bs" and "a = length as" and "b = length as + length old"
    and "take a xs = as" and "drop b xs = bs"
proof
  have ab: "a \<le> b" "b \<le> length xs" using py_bounds_range [OF assms] by auto
  have "take a xs @ take (b - a) (drop a xs) = take b xs"
    using ab take_add [of a "b - a" xs] by simp
  then show "xs = take a xs @ take (b - a) (drop a xs) @ drop b xs" by (metis append_assoc append_take_drop_id)
  show "a = length (take a xs)" "b = length (take a xs) + length (take (b - a) (drop a xs))" using ab by simp_all
qed auto

text \<open>Both stores to a slice, and its deletion, put the new elements in place of the old.\<close>

lemma shrink_slice:
  assumes r: "list_holds l (as @ old @ bs)" and new: "length new \<le> length old"
  obtains items where "mp_seq_replace_slice_no_grow (ls_items l) (ls_len l) (length as) (length as + length old)
      (map Some new) = Inr items"
    and "mp_seq_clear items (length as + length new + length bs) (ls_len l)
      = Inr (map Some (as @ new @ bs) @ replicate (ls_alloc l - length (as @ new @ bs)) None)"
proof -
  note d = list_holdsD [OF r]
  define rest :: "'a option list" where "rest = replicate (ls_alloc l - length (as @ old @ bs)) None"
  obtain mid where mid: "mp_seq_replace_slice_no_grow (ls_items l) (ls_len l) (length as) (length as + length old)
      (map Some new) = Inr (map Some as @ map Some new @ map Some bs @ mid @ rest)"
    "length mid = length old - length new"
    using replace_no_grow [of "map Some new" "map Some old" "map Some as" "map Some bs" rest] new d
    by (auto simp: rest_def add.assoc)
  have "mp_seq_clear ((map Some as @ map Some new @ map Some bs) @ mid @ rest)
      (length as + length new + length bs) (ls_len l)
    = Inr ((map Some as @ map Some new @ map Some bs) @ replicate (length old - length new) None @ rest)"
    using mid(2) d new by (subst seq_clear_eq) simp_all
  moreover have "replicate (length old - length new) None @ rest
      = replicate (ls_alloc l - length (as @ new @ bs)) (None :: 'a option)"
    using d new nulls_after [of "length (as @ new @ bs)" "length (as @ old @ bs)" "ls_alloc l"]
    by (simp add: rest_def)
  ultimately show thesis using that mid(1) by simp
qed

lemma list_delete_slice_eq:
  assumes r: "list_holds l xs" and lim: "ls_alloc l \<le> list_limit" and sl: "slice_arg_ok sl" "plain_step sl"
    and ab: "py_bounds (length xs) sl = (a, b)"
  obtains l' where "list_subscr_delete junk l (Slice sl) = Inr l'" and "list_holds l' (take a xs @ drop b xs)"
    and "ls_alloc l' = ls_alloc l"
proof -
  note d = list_holdsD [OF r]
  obtain as old bs where p: "xs = as @ old @ bs" "a = length as" "b = length as + length old"
    "take a xs = as" "drop b xs = bs" using slice_parts [OF ab] by blast
  obtain items where items: "mp_seq_replace_slice_no_grow (ls_items l) (ls_len l) (length as)
      (length as + length old) [] = Inr items"
    "mp_seq_clear items (length as + length bs) (ls_len l)
      = Inr (map Some (as @ bs) @ replicate (ls_alloc l - length (as @ bs)) None)"
    using shrink_slice [of l as old bs "[]"] r p(1) by auto
  have fast: "mp_seq_get_fast_slice_indexes (ls_len l) sl
      = Inr (True, \<lparr>sl_start = int a, sl_stop = int b, sl_step = 1\<rparr>)"
    using fast_slice_plain [OF _ sl, of "length xs"] ab d lim by simp
  have n: "nat (int (ls_len l) + (int a - int b)) = length as + length bs" using d p by simp
  show thesis
    using that [of "l\<lparr>ls_len := length as + length bs,
        ls_items := map Some (as @ bs) @ replicate (ls_alloc l - length (as @ bs)) None\<rparr>"]
      fast items n d p by (simp add: list_subscr_delete_def Let_def list_holds_def nat_int_add)
qed

lemma grow_slice:
  assumes r: "list_holds l (as @ old @ bs)" and new: "length old < length new"
    and lim: "length (as @ new @ bs) < 1073741824"
  defines "len \<equiv> length (as @ new @ bs)"
  shows "\<exists>items. (if ls_alloc l < len then (len, m_renew junk (ls_items l) len) else (ls_alloc l, ls_items l))
      = (max (ls_alloc l) len, items)
    \<and> mp_seq_replace_slice_grow_inplace items (ls_len l) (length as) (length as + length old) (map Some new)
        (length new - length old)
      = Inr (map Some (as @ new @ bs) @ replicate (max (ls_alloc l) len - len) None)"
proof -
  note d = list_holdsD [OF r]
  have grow: "mp_seq_replace_slice_grow_inplace (map Some as @ map Some old @ map Some bs @ free @ rest) (ls_len l)
      (length as) (length as + length old) (map Some new) (length new - length old)
      = Inr (map Some (as @ new @ bs) @ rest)" if "length free = length new - length old" for free rest
    using replace_grow [of "map Some new" "map Some old" free "map Some as" "map Some bs" rest] that new d
    by (simp add: add.assoc)
  show ?thesis
  proof (cases "ls_alloc l < len")
    case True
    define free where "free = replicate (ls_alloc l - length (as @ old @ bs)) None @ map junk [ls_alloc l..<len]"
    have "length free = length new - length old" using True d new by (simp add: free_def len_def)
    moreover have "m_renew junk (ls_items l) len = map Some as @ map Some old @ map Some bs @ free @ []"
      using True d lim by (simp add: m_renew_grow free_def len_def)
    ultimately show ?thesis using True grow [of free "[]"] by simp
  next
    case False
    define k where "k = length new - length old"
    have "k \<le> ls_alloc l - length (as @ old @ bs)" "ls_alloc l - length (as @ old @ bs) - k = ls_alloc l - len"
      using False d(2) new by (simp_all add: k_def len_def)
    then have "ls_items l = map Some as @ map Some old @ map Some bs @ replicate k None @ replicate (ls_alloc l - len) None"
      using d(4) replicate_split [of k "ls_alloc l - length (as @ old @ bs)" None] by simp
    then show ?thesis using False grow [of "replicate k None" "replicate (ls_alloc l - len) None"] by (simp add: k_def)
  qed
qed

lemma list_store_slice_eq:
  assumes r: "list_holds l xs" and lim: "ls_alloc l \<le> list_limit" "length new \<le> list_limit"
    and sl: "slice_arg_ok sl" "plain_step sl" and ab: "py_bounds (length xs) sl = (a, b)"
  obtains l' where "list_store_slice junk l sl new = Inr l'" and "list_holds l' (take a xs @ new @ drop b xs)"
    and "ls_alloc l' \<le> max (ls_alloc l) (length (take a xs @ new @ drop b xs))"
proof -
  note d = list_holdsD [OF r]
  obtain as old bs where p: "xs = as @ old @ bs" "a = length as" "b = length as + length old"
    "take a xs = as" "drop b xs = bs" using slice_parts [OF ab] by blast
  define len where "len = length (as @ new @ bs)"
  have fast: "mp_seq_get_fast_slice_indexes (ls_len l) sl
      = Inr (True, \<lparr>sl_start = int a, sl_stop = int b, sl_step = 1\<rparr>)"
    using fast_slice_plain [OF _ sl, of "length xs"] ab d lim by simp
  have adj: "int (length new) - (int b - int a) = int (length new) - int (length old)" using p by simp
  have n: "nat (int (ls_len l) + (int (length new) - int (length old))) = len" using d p by (simp add: len_def)
  note unf = list_store_slice_def fast seq_bind.simps prod.case mp_bound_slice.select_convs adj Let_def n nat_int
  show thesis
  proof (cases "length old < length new")
    case True
    obtain items where items: "(if ls_alloc l < len then (len, m_renew junk (ls_items l) len) else (ls_alloc l, ls_items l))
        = (max (ls_alloc l) len, items)"
      "mp_seq_replace_slice_grow_inplace items (ls_len l) a b (map Some new) (length new - length old)
        = Inr (map Some (as @ new @ bs) @ replicate (max (ls_alloc l) len - len) None)"
      using grow_slice [of l as old bs new junk] r True lim d p unfolding len_def by (auto simp: list_limit_def)
    have "nat (int (length new) - int (length old)) = length new - length old" by simp
    then have "list_store_slice junk l sl new = Inr \<lparr>ls_alloc = max (ls_alloc l) len, ls_len = len,
        ls_items = map Some (as @ new @ bs) @ replicate (max (ls_alloc l) len - len) None\<rparr>"
      using True unfolding unf items(1) by (simp add: items(2))
    then show thesis using that p d by (simp add: list_holds_def len_def)
  next
    case False
    then have "length new \<le> length old" by simp
    then obtain items where items: "mp_seq_replace_slice_no_grow (ls_items l) (ls_len l) a b (map Some new) = Inr items"
      "mp_seq_clear items len (ls_len l) = Inr (map Some (as @ new @ bs) @ replicate (ls_alloc l - len) None)"
      using shrink_slice [of l as old bs new] r p by (auto simp: len_def add.assoc)
    then have "list_store_slice junk l sl new = Inr (l\<lparr>ls_len := len,
        ls_items := map Some (as @ new @ bs) @ replicate (ls_alloc l - len) None\<rparr>)"
      using False unfolding unf by simp
    then show thesis using that p d False by (simp add: list_holds_def len_def)
  qed
qed

section \<open>Search and removal\<close>

fun find_index :: "('o \<Rightarrow> bool) \<Rightarrow> 'o list \<Rightarrow> nat option" where
  "find_index p [] = None"
| "find_index p (x # xs) = (if p x then Some 0 else map_option Suc (find_index p xs))"

lemma index_loop_find:
  "index_loop equal xs v i (i + length xs) = (case find_index (\<lambda>x. equal x v) xs of
     None \<Rightarrow> Inl Seq_value_error | Some k \<Rightarrow> Inr (i + k))"
proof (induction xs arbitrary: i)
  case (Cons x xs)
  then show ?case using Cons [of "i + 1"] by (auto split: option.split)
qed simp

lemma find_index_bound: "find_index p xs = Some k \<Longrightarrow> k < length xs"
  by (induction xs arbitrary: k) (auto split: if_splits)

lemma list_index_eq:
  assumes "list_holds l xs"
  shows "list_index equal l v None None = (case find_index (\<lambda>x. equal x v) xs of
     None \<Rightarrow> Inl Seq_value_error | Some k \<Rightarrow> Inr k)"
  using index_loop_find [of equal xs v 0] read_elements [OF assms]
  by (simp add: list_index_def mp_seq_index_obj_def comp_def split: option.split)

lemma split_at: "k < length xs \<Longrightarrow> xs = take k xs @ xs ! k # drop (Suc k) xs"
  by (rule id_take_nth_drop)

lemma list_pop_at:
  assumes r: "list_holds l xs" and lim: "ls_alloc l \<le> list_limit"
    and i: "py_index (length xs) (case arg of None \<Rightarrow> Some (- 1) | Some i \<Rightarrow> i) = Inr k"
  obtains l' where "list_pop junk l arg = Inr (Some (xs ! k), l')" and "list_holds l' (take k xs @ drop (Suc k) xs)"
    and "ls_alloc l' \<le> ls_alloc l"
proof -
  have k: "k < length xs" using py_index_bound [OF i] .
  then have "xs = take k xs @ xs ! k # drop (Suc k) xs" "length (take k xs) = k" by (simp_all add: split_at)
  then show thesis using list_pop_eq [of l "take k xs" "xs ! k" "drop (Suc k) xs" arg junk] that r lim i
    unfolding mp_get_index_eq by metis
qed

lemma list_pop_error:
  assumes "list_holds l xs" and "py_index (length xs) (case arg of None \<Rightarrow> Some (- 1) | Some i \<Rightarrow> i) = Inl e"
    and "xs = [] \<Longrightarrow> e = Seq_index_error"
  shows "list_pop junk l arg = Inl e"
  using assms list_holdsD [OF assms(1)] by (auto simp: list_pop_def mp_get_index_eq)

lemma list_remove_eq:
  assumes r: "list_holds l xs" and lim: "ls_alloc l \<le> list_limit"
    and k: "find_index (\<lambda>x. equal x v) xs = Some k"
  obtains l' where "mp_obj_list_remove junk equal l v = Inr l'" and "list_holds l' (take k xs @ drop (Suc k) xs)"
    and "ls_alloc l' \<le> ls_alloc l"
proof -
  have "py_index (length xs) (Some (int k)) = Inr k"
    using find_index_bound [OF k] by (simp add: py_index_def)
  then obtain l' where "list_pop junk l (Some (Some (int k))) = Inr (Some (xs ! k), l')"
    "list_holds l' (take k xs @ drop (Suc k) xs)" "ls_alloc l' \<le> ls_alloc l"
    using list_pop_at [OF r lim, of "Some (Some (int k))" k junk] by auto
  then show thesis using that k list_index_eq [OF r, of equal v] by (simp add: mp_obj_list_remove_def)
qed

section \<open>Calls\<close>

datatype 'o list_method =
    Call_append 'o
  | Call_extend "'o mp_list"
  | Call_extend_iter "'o list"
  | Call_pop "int option option"
  | Call_insert int 'o
  | Call_remove 'o
  | Call_reverse
  | Call_clear
  | Call_set "int option" 'o
  | Call_set_slice slice_arg "'o list"
  | Call_delete list_subscript

definition returns_none :: "seq_error + 'o mp_list \<Rightarrow> seq_error + 'o option \<times> 'o mp_list" where
  "returns_none r = seq_bind r (\<lambda>l. Inr (None, l))"

fun list_call ::
    "(nat \<Rightarrow> 'o option) \<Rightarrow> ('o \<Rightarrow> 'o \<Rightarrow> bool) \<Rightarrow> 'o \<Rightarrow> 'o list_method \<Rightarrow> 'o mp_list \<Rightarrow> seq_error + 'o option \<times> 'o mp_list" where
  "list_call junk equal none (Call_append x) l = returns_none (mp_obj_list_append junk l x)"
| "list_call junk equal none (Call_extend a) l = returns_none (list_extend junk l (Operand_list a))"
| "list_call junk equal none (Call_extend_iter xs) l = returns_none (list_extend junk l (Operand_iter xs))"
| "list_call junk equal none (Call_pop i) l = list_pop junk l i"
| "list_call junk equal none (Call_insert i x) l = returns_none (list_insert junk none l i x)"
| "list_call junk equal none (Call_remove x) l = returns_none (mp_obj_list_remove junk equal l x)"
| "list_call junk equal none Call_reverse l = returns_none (list_reverse l)"
| "list_call junk equal none Call_clear l = returns_none (list_clear junk l)"
| "list_call junk equal none (Call_set i x) l = returns_none (mp_obj_list_store l i x)"
| "list_call junk equal none (Call_set_slice sl xs) l = returns_none (list_store_slice junk l sl xs)"
| "list_call junk equal none (Call_delete i) l = returns_none (list_subscr_delete junk l i)"

text \<open>
  The same calls on sequences, as the language defines them. A store to a slice with a step other
  than one replaces the elements at the indexes of the slice and takes as many new elements, and a
  deletion removes the elements at these indexes.
\<close>

definition list_elements :: "'o mp_list \<Rightarrow> 'o list" where
  "list_elements l = map the (take (ls_len l) (ls_items l))"

definition delete_at :: "nat \<Rightarrow> 'o list \<Rightarrow> 'o list" where
  "delete_at k xs = take k xs @ drop (Suc k) xs"

definition py_pop :: "int option \<Rightarrow> 'o list \<Rightarrow> seq_error + 'o option \<times> 'o list" where
  "py_pop i xs = seq_bind (py_index (length xs) i) (\<lambda>k. Inr (Some (xs ! k), delete_at k xs))"

definition slice_indexes :: "nat \<Rightarrow> slice_arg \<Rightarrow> nat list" where
  "slice_indexes n sl = python_slice [0..<n] sl"

definition py_set_slice :: "slice_arg \<Rightarrow> 'o list \<Rightarrow> 'o list \<Rightarrow> seq_error + 'o option \<times> 'o list" where
  "py_set_slice sl new xs =
     (if snd (snd sl) = Some 0 then Inl Seq_value_error
      else if plain_step sl then let (a, b) = py_bounds (length xs) sl in Inr (None, take a xs @ new @ drop b xs)
      else let ks = slice_indexes (length xs) sl
           in if length new = length ks then Inr (None, fold (\<lambda>(k, x) xs. xs[k := x]) (zip ks new) xs)
              else Inl Seq_value_error)"

definition py_delete_slice :: "slice_arg \<Rightarrow> 'o list \<Rightarrow> seq_error + 'o option \<times> 'o list" where
  "py_delete_slice sl xs =
     (if snd (snd sl) = Some 0 then Inl Seq_value_error
      else if plain_step sl then let (a, b) = py_bounds (length xs) sl in Inr (None, take a xs @ drop b xs)
      else Inr (None, map ((!) xs) (filter (\<lambda>k. k \<notin> set (slice_indexes (length xs) sl)) [0..<length xs])))"

definition py_insert :: "int \<Rightarrow> 'o \<Rightarrow> 'o list \<Rightarrow> 'o list" where
  "py_insert i x xs =
     (let n = length xs; j = (if i < 0 then i + int n else i); k = nat (min (max j 0) (int n))
      in take k xs @ x # drop k xs)"

fun py_call :: "('o \<Rightarrow> 'o \<Rightarrow> bool) \<Rightarrow> 'o list_method \<Rightarrow> 'o list \<Rightarrow> seq_error + 'o option \<times> 'o list" where
  "py_call equal (Call_append x) xs = Inr (None, xs @ [x])"
| "py_call equal (Call_extend a) xs = Inr (None, xs @ list_elements a)"
| "py_call equal (Call_extend_iter ys) xs = Inr (None, xs @ ys)"
| "py_call equal (Call_pop i) xs = py_pop (case i of None \<Rightarrow> Some (- 1) | Some i \<Rightarrow> i) xs"
| "py_call equal (Call_insert i x) xs = Inr (None, py_insert i x xs)"
| "py_call equal (Call_remove x) xs =
     (case find_index (\<lambda>y. equal y x) xs of None \<Rightarrow> Inl Seq_value_error | Some k \<Rightarrow> Inr (None, delete_at k xs))"
| "py_call equal Call_reverse xs = Inr (None, rev xs)"
| "py_call equal Call_clear xs = Inr (None, [])"
| "py_call equal (Call_set i x) xs = seq_bind (py_index (length xs) i) (\<lambda>k. Inr (None, xs[k := x]))"
| "py_call equal (Call_set_slice sl ys) xs = py_set_slice sl ys xs"
| "py_call equal (Call_delete (Slice sl)) xs = py_delete_slice sl xs"
| "py_call equal (Call_delete (Index i)) xs = seq_bind (py_pop i xs) (\<lambda>(_, ys). Inr (None, ys))"

text \<open>
  The calls that the code implements. The lists stay small enough for the memory, the bounds of slices
  are machine integers, a slice that is stored to or deleted has step one (or zero, which is an error),
  and the index of a \<open>pop\<close> from an empty list is an integer.
\<close>

definition py_limit :: nat where "py_limit = 134217726"

fun list_arg_ok :: "'o list_method \<Rightarrow> bool" where
  "list_arg_ok (Call_extend a) = list_holds a (list_elements a)"
| "list_arg_ok (Call_set_slice sl xs) = (slice_arg_ok sl \<and> (plain_step sl \<or> snd (snd sl) = Some 0))"
| "list_arg_ok (Call_delete (Slice sl)) = (slice_arg_ok sl \<and> (plain_step sl \<or> snd (snd sl) = Some 0))"
| "list_arg_ok c = True"

fun pop_index_ok :: "'o list_method \<Rightarrow> 'o list \<Rightarrow> bool" where
  "pop_index_ok (Call_pop (Some None)) xs = (xs \<noteq> [])"
| "pop_index_ok (Call_delete (Index None)) xs = (xs \<noteq> [])"
| "pop_index_ok c xs = True"

fun result_fits :: "seq_error + 'o option \<times> 'o list \<Rightarrow> bool" where
  "result_fits (Inl e) = True"
| "result_fits (Inr (v, ys)) = (length ys \<le> py_limit)"

definition py_call_ok :: "('o \<Rightarrow> 'o \<Rightarrow> bool) \<Rightarrow> 'o list_method \<Rightarrow> 'o list \<Rightarrow> bool" where
  "py_call_ok equal c xs = (list_arg_ok c \<and> pop_index_ok c xs \<and> result_fits (py_call equal c xs))"

definition list_rep :: "'o mp_list \<Rightarrow> 'o list \<Rightarrow> bool" where
  "list_rep l xs = (list_holds l xs \<and> ls_alloc l \<le> list_limit \<and> length xs \<le> py_limit)"

definition follows :: "seq_error + 'o option \<times> 'o mp_list \<Rightarrow> seq_error + 'o option \<times> 'o list \<Rightarrow> bool" where
  "follows r p = (case p of Inl e \<Rightarrow> r = Inl e | Inr (v, ys) \<Rightarrow> \<exists>l. r = Inr (v, l) \<and> list_rep l ys)"

lemma follows_none:
  "r = Inr l \<Longrightarrow> list_holds l ys \<Longrightarrow> ls_alloc l \<le> list_limit \<Longrightarrow> length ys \<le> py_limit \<Longrightarrow>
    follows (returns_none r) (Inr (None, ys))"
  by (simp add: follows_def returns_none_def list_rep_def)

lemma list_elements_eq: "list_holds a ys \<Longrightarrow> list_elements a = ys"
  using list_holdsD [of a ys] by (simp add: list_elements_def comp_def)

lemma follows_pop:
  assumes "list_rep l xs" and arg: "arg = Some None \<longrightarrow> xs \<noteq> []"
  shows "follows (list_pop junk l arg) (py_pop (case arg of None \<Rightarrow> Some (- 1) | Some i \<Rightarrow> i) xs)"
proof (cases "xs = []")
  case True
  then have "list_pop junk l arg = Inl Seq_index_error"
    using assms list_holdsD(1) [of l xs] by (simp add: list_rep_def list_pop_def)
  then show ?thesis using True arg by (auto simp: follows_def py_pop_def py_index_def split: option.splits)
next
  case False
  note rep = assms [unfolded list_rep_def]
  show ?thesis
  proof (cases "py_index (length xs) (case arg of None \<Rightarrow> Some (- 1) | Some i \<Rightarrow> i)")
    case (Inl e)
    then show ?thesis using list_pop_error [of l xs arg e junk] rep False by (simp add: follows_def py_pop_def)
  next
    case (Inr k)
    obtain l' where "list_pop junk l arg = Inr (Some (xs ! k), l')" "list_holds l' (take k xs @ drop (Suc k) xs)"
      "ls_alloc l' \<le> ls_alloc l" using list_pop_at [OF _ _ Inr] rep by blast
    then show ?thesis using Inr False rep py_index_bound [OF Inr]
      by (auto simp: follows_def py_pop_def list_rep_def delete_at_def)
  qed
qed

lemma follows_set_slice:
  assumes rep: "list_rep l xs" and ok: "slice_arg_ok sl" and step: "plain_step sl \<or> snd (snd sl) = Some 0"
    and fits: "result_fits (py_set_slice sl new xs)"
  shows "follows (returns_none (list_store_slice junk l sl new)) (py_set_slice sl new xs)"
proof -
  note r = rep [unfolded list_rep_def]
  have len: "ls_len l = length xs" "length xs \<le> 2 * list_limit"
    using r list_holdsD(1,2) [of l xs] by auto
  obtain a b where ab: "py_bounds (length xs) sl = (a, b)" by (cases "py_bounds (length xs) sl")
  show ?thesis
  proof (cases "plain_step sl")
    case True
    then have sp: "py_set_slice sl new xs = Inr (None, take a xs @ new @ drop b xs)"
      using ab by (auto simp: py_set_slice_def plain_step_def split: prod.splits)
    then have lim: "length (take a xs @ new @ drop b xs) \<le> py_limit" using fits by simp
    then obtain l1 where l1: "list_store_slice junk l sl new = Inr l1" "list_holds l1 (take a xs @ new @ drop b xs)"
      "ls_alloc l1 \<le> max (ls_alloc l) (length (take a xs @ new @ drop b xs))"
      using list_store_slice_eq [OF _ _ _ ok True ab, of l new junk] r by (auto simp: list_limit_def py_limit_def)
    then show ?thesis unfolding sp using lim r by (auto intro!: follows_none simp: list_limit_def py_limit_def)
  next
    case False
    then show ?thesis using fast_slice_step [OF len(2) ok False] step len(1)
      by (auto simp: py_set_slice_def follows_def returns_none_def list_store_slice_def)
  qed
qed

lemma follows_delete_slice:
  assumes rep: "list_rep l xs" and ok: "slice_arg_ok sl" and step: "plain_step sl \<or> snd (snd sl) = Some 0"
  shows "follows (returns_none (list_subscr_delete junk l (Slice sl))) (py_delete_slice sl xs)"
proof -
  note r = rep [unfolded list_rep_def]
  have len: "ls_len l = length xs" "length xs \<le> 2 * list_limit"
    using r list_holdsD(1,2) [of l xs] by auto
  obtain a b where ab: "py_bounds (length xs) sl = (a, b)" by (cases "py_bounds (length xs) sl")
  have le: "length (take a xs @ drop b xs) \<le> length xs" using py_bounds_range [OF ab] by (simp, linarith)
  show ?thesis
  proof (cases "plain_step sl")
    case True
    then have sp: "py_delete_slice sl xs = Inr (None, take a xs @ drop b xs)"
      using ab by (auto simp: py_delete_slice_def plain_step_def split: prod.splits)
    obtain l2 where "list_subscr_delete junk l (Slice sl) = Inr l2" "list_holds l2 (take a xs @ drop b xs)"
      "ls_alloc l2 = ls_alloc l"
      using list_delete_slice_eq [OF _ _ ok True ab, of l junk] r by blast
    then show ?thesis unfolding sp using le r by (intro follows_none) auto
  next
    case False
    then show ?thesis using fast_slice_step [OF len(2) ok False] step len(1)
      by (auto simp: py_delete_slice_def follows_def returns_none_def list_subscr_delete_def)
  qed
qed

text \<open>Stores to and deletions of slices with another step are not implemented.\<close>

lemma stepped_slice_not_implemented:
  assumes rep: "list_rep l xs" and ok: "slice_arg_ok sl" and step: "\<not> plain_step sl" "snd (snd sl) \<noteq> Some 0"
  shows "list_store_slice junk l sl new = Inl Seq_not_implemented" "list_subscr_delete junk l (Slice sl) = Inl Seq_not_implemented"
proof -
  have len: "ls_len l = length xs" "length xs \<le> 2 * list_limit"
    using rep list_holdsD(1,2) [of l xs] by (auto simp: list_rep_def)
  then show "list_store_slice junk l sl new = Inl Seq_not_implemented" "list_subscr_delete junk l (Slice sl) = Inl Seq_not_implemented"
    using fast_slice_step [OF len(2) ok step(1)] step(2) by (auto simp: list_store_slice_def list_subscr_delete_def)
qed

lemma follows_delete_index:
  assumes "list_rep l xs" and "i = None \<longrightarrow> xs \<noteq> []"
  shows "follows (returns_none (list_subscr_delete junk l (Index i))) (seq_bind (py_pop i xs) (\<lambda>(_, ys). Inr (None, ys)))"
  using follows_pop [OF assms(1), of "Some i" junk] assms(2)
  by (cases "py_pop i xs") (auto simp: follows_def returns_none_def list_subscr_delete_def)

lemma follows_insert:
  assumes rep: "list_rep l xs" and fits: "length (py_insert i x xs) \<le> py_limit"
  shows "follows (returns_none (list_insert junk none l i x)) (Inr (None, py_insert i x xs))"
proof -
  define k where "k = (let n = length xs; j = (if i < 0 then i + int n else i) in nat (min (max j 0) (int n)))"
  have k: "length (take k xs) = k" by (auto simp: k_def Let_def nat_le_iff)
  have i: "py_insert i x xs = take k xs @ x # drop k xs" by (simp add: py_insert_def k_def Let_def)
  have len: "length (take k xs) = (let n = length (take k xs @ drop k xs); j = (if i < 0 then i + int n else i)
      in nat (min (max j 0) (int n)))"
    unfolding append_take_drop_id k by (rule k_def)
  obtain l' where "list_insert junk none l i x = Inr l'" "list_holds l' (take k xs @ x # drop k xs)"
    "ls_alloc l' \<le> max (ls_alloc l) (2 * length xs)"
    using list_insert_eq [OF _ _ len, of l junk none x] rep unfolding append_take_drop_id list_rep_def by blast
  then show ?thesis using rep fits unfolding i
    by (intro follows_none) (auto simp: list_rep_def list_limit_def py_limit_def)
qed

lemma list_call_follows:
  assumes rep: "list_rep l xs" and ok: "py_call_ok equal c xs"
  shows "follows (list_call junk equal none c l) (py_call equal c xs)"
proof -
  note r = rep [unfolded list_rep_def, THEN conjunct1] and lim = rep [unfolded list_rep_def, THEN conjunct2]
  have args: "list_arg_ok c" and pop: "pop_index_ok c xs" and fits: "result_fits (py_call equal c xs)"
    using ok by (auto simp: py_call_ok_def)
  show ?thesis
  proof (cases c)
    case (Call_append x)
    obtain l' where "mp_obj_list_append junk l x = Inr l'" "list_holds l' (xs @ [x])"
      "ls_alloc l' \<le> max (ls_alloc l) (2 * length xs)" using list_append_eq [OF r] lim by blast
    then show ?thesis using Call_append lim fits
      by (auto intro!: follows_none simp: list_limit_def py_limit_def)
  next
    case (Call_extend a)
    have a: "list_holds a (list_elements a)" "length (list_elements a) \<le> list_limit"
      using Call_extend args fits by (auto simp: list_limit_def py_limit_def)
    obtain l' where "list_extend junk l (Operand_list a) = Inr l'" "list_holds l' (xs @ list_elements a)"
      "ls_alloc l' \<le> max (ls_alloc l) (length (xs @ list_elements a) + 4)"
      using list_extend_eq [OF r a(1) _ a(2)] lim by blast
    then show ?thesis using Call_extend lim fits
      by (auto intro!: follows_none simp: list_limit_def py_limit_def)
  next
    case (Call_extend_iter ys)
    obtain l' where "list_extend_from_iter junk l ys = Inr l'" "list_holds l' (xs @ ys)" "ls_alloc l' \<le> list_limit"
      using list_extend_from_iter_eq [OF r, of ys junk] lim fits Call_extend_iter
      by (auto simp: list_limit_def py_limit_def)
    then show ?thesis using Call_extend_iter lim fits by (auto intro!: follows_none simp: list_extend_def)
  next
    case (Call_remove x)
    show ?thesis
    proof (cases "find_index (\<lambda>y. equal y x) xs")
      case None
      then show ?thesis using Call_remove list_index_eq [OF r, of equal x]
        by (simp add: follows_def returns_none_def mp_obj_list_remove_def)
    next
      case (Some k)
      obtain l' where "mp_obj_list_remove junk equal l x = Inr l'" "list_holds l' (take k xs @ drop (Suc k) xs)"
        "ls_alloc l' \<le> ls_alloc l" using list_remove_eq [where equal = equal and v = x, OF r _ Some] lim by blast
      then show ?thesis using Call_remove Some lim fits by (auto intro!: follows_none simp: delete_at_def)
    qed
  next
    case Call_reverse
    obtain l' where "list_reverse l = Inr l'" "list_holds l' (rev xs)" "ls_alloc l' = ls_alloc l"
      using list_reverse_eq [OF r] by blast
    then show ?thesis using Call_reverse lim by (auto intro!: follows_none)
  next
    case Call_clear
    obtain l' where "list_clear junk l = Inr l'" "list_holds l' []" "ls_alloc l' = LIST_MIN_ALLOC"
      using list_clear_eq [OF r] by blast
    then show ?thesis using Call_clear by (auto intro!: follows_none simp: LIST_MIN_ALLOC_def list_limit_def)
  next
    case (Call_set i x)
    show ?thesis
    proof (cases "py_index (length xs) i")
      case (Inl e)
      then show ?thesis using Call_set list_holdsD(1) [OF r]
        by (simp add: follows_def returns_none_def mp_obj_list_store_def mp_get_index_eq)
    next
      case (Inr k)
      obtain l' where "mp_obj_list_store l i x = Inr l'" "list_holds l' (xs[k := x])" "ls_alloc l' = ls_alloc l"
        using list_store_eq [OF r Inr] by blast
      then show ?thesis using Call_set Inr lim by (auto intro!: follows_none)
    qed
  next
    case (Call_delete i)
    show ?thesis
    proof (cases i)
      case (Index k)
      have "k = None \<longrightarrow> xs \<noteq> []" using pop Call_delete Index by (cases k) auto
      then show ?thesis using Call_delete Index follows_delete_index [OF rep] by simp
    next
      case (Slice sl)
      then show ?thesis using Call_delete args follows_delete_slice [OF rep] by simp
    qed
  next
    case (Call_pop i)
    have "i = Some None \<longrightarrow> xs \<noteq> []" using pop Call_pop by auto
    then show ?thesis using Call_pop follows_pop [OF rep] by simp
  qed (use follows_insert [OF rep] follows_set_slice [OF rep] args fits in auto)
qed

interpretation list_calls: simulation "list_call junk equal none" "py_call equal" list_rep "py_call_ok equal"
  for junk equal none
  by unfold_locales (use list_call_follows in \<open>auto simp: follows_def\<close>)

end
