(* ===== verification/Objlist_Load.thy ===== *)
theory Objlist_Load
  imports Objlist_Spec
begin

text \<open>
  Operations of lists that make a value and leave the list as it is: loads of elements and slices,
  concatenation, repetition, comparison and iteration.
\<close>

section \<open>Loads\<close>

definition slice_step_ok :: "nat \<Rightarrow> slice_arg \<Rightarrow> bool" where
  "slice_step_ok n sl = (case snd (snd sl) of None \<Rightarrow> True
     | Some s \<Rightarrow> - 2147483648 \<le> s \<and> int n + s < 2147483648)"

lemma python_slice_plain:
  assumes "plain_step sl" and "py_bounds (length xs) sl = (a, b)"
  shows "python_slice xs sl = take (b - a) (drop a xs)"
proof -
  obtain ostart ostop ostep where sl: "sl = (ostart, ostop, ostep)" by (cases sl)
  define start stop where "start = slice_start (int (length xs)) 1 ostart"
    and "stop = slice_stop (int (length xs)) 1 ostop"
  have b: "0 \<le> start" "start \<le> int (length xs)" "stop \<le> int (length xs)"
    by (simp_all add: start_def stop_def slice_start_nonneg slice_start_bounds(1) slice_stop_bounds(1))
  have ab: "a = nat start" "b = nat (max start stop)"
    using assms(2) by (auto simp: sl py_bounds_def Let_def start_def stop_def)
  have "(case ostep of None \<Rightarrow> 1 | Some v \<Rightarrow> v) = (1 :: int)" using assms(1) by (auto simp: plain_step_def sl)
  then have "python_slice xs sl = slice_elements xs start (max stop start) 1"
    by (simp add: sl python_slice_def Let_def start_def stop_def slice_elements_max)
  also have "\<dots> = take (nat (max stop start - start)) (drop (nat start) xs)"
    using b by (intro slice_elements_one) auto
  also have "nat (max stop start - start) = b - a" using b ab by (simp add: max.commute nat_diff_distrib)
  finally show ?thesis using ab by simp
qed

lemma load_plain_slice:
  assumes r: "list_holds l xs" and lim: "ls_alloc l \<le> list_limit" and sl: "slice_arg_ok sl" "plain_step sl"
  obtains l' where "list_subscr_load junk l (Slice sl) = Some (Inr (Loaded_list l'))"
    and "list_holds l' (python_slice xs sl)"
proof -
  note d = list_holdsD [OF r]
  obtain a b where ab: "py_bounds (length xs) sl = (a, b)" by (cases "py_bounds (length xs) sl")
  have range: "a \<le> b" "b \<le> length xs" using py_bounds_range [OF ab] by auto
  have fast: "mp_seq_get_fast_slice_indexes (ls_len l) sl
      = Inr (True, \<lparr>sl_start = int a, sl_stop = int b, sl_step = 1\<rparr>)"
    using fast_slice_plain [OF _ sl, of "length xs"] ab d lim by simp
  define ys where "ys = take (b - a) (drop a xs)"
  have len: "length ys = b - a" using range by (simp add: ys_def)
  obtain res vs where res: "list_new junk (b - a) = Inr res" "ls_len res = b - a" "b - a \<le> ls_alloc res"
    "0 < ls_alloc res" "ls_items res = vs @ replicate (ls_alloc res - (b - a)) None" "length vs = b - a"
  proof -
    have "b - a \<le> 2 * list_limit" using range d lim by linarith
    then show thesis using list_new_eq [of "b - a" junk] that by blast
  qed
  have "read_slots (ls_items l) a (b - a) = Inr (map Some ys)"
    using range read_slots_eq [of "map Some (take a xs)" a "b - a"
        "map Some (drop a xs) @ replicate (ls_alloc l - length xs) None"]
    by (simp add: d(4) ys_def take_map drop_map flip: map_append append_assoc)
  moreover have "write_slots (ls_items res) 0 (map Some ys)
      = Inr (map Some ys @ replicate (ls_alloc res - (b - a)) None)"
    using write_slots_eq [of "[]" 0 "map Some ys" "ls_items res"] res len by simp
  moreover have "nat (int b - int a) = b - a" by simp
  ultimately have "list_subscr_load junk l (Slice sl)
      = Some (Inr (Loaded_list (res\<lparr>ls_items := map Some ys @ replicate (ls_alloc res - (b - a)) None\<rparr>)))"
    using res(1,2) by (simp add: list_subscr_load_def fast list_set_items_def)
  then show thesis
    using that res len python_slice_plain [OF sl(2) ab] by (simp add: list_holds_def ys_def [symmetric])
qed

lemma load_step_slice:
  assumes r: "list_holds l xs" and lim: "length xs \<le> py_limit" and sl: "slice_arg_ok sl" "\<not> plain_step sl"
    and step: "slice_step_ok (length xs) sl" "snd (snd sl) \<noteq> Some 0"
  obtains l' where "list_subscr_load junk l (Slice sl) = Some (Inr (Loaded_list l'))"
    and "list_holds l' (python_slice xs sl)"
proof -
  note d = list_holdsD [OF r]
  obtain ostart ostop k where s: "sl = (ostart, ostop, Some k)" "k \<noteq> 1" "k \<noteq> 0"
    using sl(2) step(2) by (cases sl) (auto simp: plain_step_def)
  obtain b where b: "mp_seq_get_fast_slice_indexes (length xs) sl = Inr (False, b)"
    "mp_seq_extract_slice (map Some xs) b = Some (Inr (python_slice (map Some xs) sl))"
  proof -
    have "- 2147483648 \<le> k" "int (length (map Some xs)) + max k 1 < 2147483648"
      "int32 ostart" "int32 ostop" "\<not> (ostop = Some 2147483647 \<and> k < 0)"
      using s(1) step(1) sl(1) lim by (simp_all add: slice_step_ok_def slice_arg_ok_def py_limit_def max_def)
    then obtain c where "mp_seq_get_fast_slice_indexes (length (map Some xs)) (ostart, ostop, Some k) = Inr (k = 1, c)"
      "mp_seq_extract_slice (map Some xs) c = Some (Inr (python_slice (map Some xs) (ostart, ostop, Some k)))"
      using extract_slice_eq [OF refl s(3), of "map Some xs" ostart ostop] by blast
    then show thesis using that s(1,2) by (simp del: mp_seq_get_fast_slice_indexes.simps)
  qed
  obtain l0 where l0: "mp_obj_new_list junk (map Some []) = Inr l0" "list_holds l0 []"
    "ls_alloc l0 = max LIST_MIN_ALLOC (length ([] :: 'a list))"
    using mp_obj_new_list_eq [of "[] :: 'a list" junk] by auto
  have "length (python_slice xs sl) \<le> py_limit"
    using python_slice_length [OF step(2), of xs] lim by simp
  then obtain l' where l': "list_extend_from_iter junk l0 (python_slice xs sl) = Inr l'"
    "list_holds l' ([] @ python_slice xs sl)"
    using list_extend_from_iter_eq [OF l0(2), of "python_slice xs sl" junk] l0(3)
    by (auto simp: LIST_MIN_ALLOC_def list_limit_def py_limit_def)
  have "take (ls_len l) (ls_items l) = map Some xs" using d by simp
  moreover have "map the (python_slice (map Some xs) sl) = python_slice xs sl"
    by (simp add: python_slice_map [OF step(2)] comp_def)
  ultimately have "list_subscr_load junk l (Slice sl) = Some (Inr (Loaded_list l'))"
    using b l0(1) l'(1) d(1) by (simp add: list_subscr_load_def)
  then show thesis using that l'(2) by simp
qed

lemma list_load_index:
  assumes "list_holds l xs"
  shows "list_subscr_load junk l (Index i) = Some (seq_bind (py_index (length xs) i) (\<lambda>k. Inr (Loaded_item (Some (xs ! k)))))"
proof (cases "py_index (length xs) i")
  case (Inr k)
  have "read_slot (ls_items l) k = Inr (Some (xs ! k))"
    using py_index_bound [OF Inr] list_holdsD [OF assms] by (simp add: read_slot_def nth_append)
  then show ?thesis using Inr list_holdsD(1) [OF assms] by (simp add: list_subscr_load_def mp_get_index_eq)
qed (use list_holdsD(1) [OF assms] in \<open>simp add: list_subscr_load_def mp_get_index_eq\<close>)

lemma list_load_slice:
  assumes rep: "list_rep l xs" and sl: "slice_arg_ok sl" "slice_step_ok (length xs) sl"
  shows "if snd (snd sl) = Some 0 then list_subscr_load junk l (Slice sl) = Some (Inl Seq_value_error)
    else \<exists>l'. list_subscr_load junk l (Slice sl) = Some (Inr (Loaded_list l')) \<and> list_holds l' (python_slice xs sl)"
proof -
  note r = rep [unfolded list_rep_def]
  show ?thesis
  proof (cases "snd (snd sl) = Some 0")
    case True
    then show ?thesis by (cases sl) (simp add: list_subscr_load_def)
  next
    case False
    then show ?thesis
      using load_plain_slice [OF _ _ sl(1), of l xs junk] load_step_slice [OF _ _ sl(1) _ sl(2), of l junk] r
      by (cases "plain_step sl") auto
  qed
qed

section \<open>Operators\<close>

lemma list_fill:
  assumes "length ys \<le> 2 * list_limit"
  obtains s where "list_new junk (length ys) = Inr s"
    and "\<exists>t. list_set_items s (write_slots (ls_items s) 0 (map Some ys)) = Inr t \<and> list_holds t ys"
    and "\<And>xs zs. ys = xs @ zs \<Longrightarrow> \<exists>t u. list_set_items s (write_slots (ls_items s) 0 (map Some xs)) = Inr t
      \<and> list_set_items t (write_slots (ls_items t) (length xs) (map Some zs)) = Inr u \<and> list_holds u ys"
proof -
  obtain s vs where s: "list_new junk (length ys) = Inr s" "ls_len s = length ys" "length ys \<le> ls_alloc s"
    "0 < ls_alloc s" "ls_items s = vs @ replicate (ls_alloc s - length ys) None" "length vs = length ys"
    using list_new_eq [OF assms] by blast
  have one: "list_set_items s (write_slots (ls_items s) 0 (map Some xs))
      = Inr (s\<lparr>ls_items := map Some xs @ drop (length xs) vs @ replicate (ls_alloc s - length ys) None\<rparr>)"
    if "length xs \<le> length ys" for xs
    using write_slots_eq [of "[]" 0 "map Some xs" "ls_items s"] that s by (simp add: list_set_items_def)
  show thesis
  proof
    show "list_new junk (length ys) = Inr s" by (rule s)
    show "\<exists>t. list_set_items s (write_slots (ls_items s) 0 (map Some ys)) = Inr t \<and> list_holds t ys"
      using one [of ys] s by (simp add: list_holds_def)
    fix xs zs assume ys: "ys = xs @ zs"
    define t where "t = s\<lparr>ls_items := map Some xs @ drop (length xs) vs @ replicate (ls_alloc s - length ys) None\<rparr>"
    have "list_set_items t (write_slots (ls_items t) (length xs) (map Some zs))
        = Inr (t\<lparr>ls_items := map Some xs @ map Some zs @ replicate (ls_alloc s - length ys) None\<rparr>)"
      using s ys write_slots_eq [of "map Some xs" "length xs" "map Some zs"
          "drop (length xs) vs @ replicate (ls_alloc s - length ys) None"]
      by (simp add: list_set_items_def t_def)
    then show "\<exists>t u. list_set_items s (write_slots (ls_items s) 0 (map Some xs)) = Inr t
        \<and> list_set_items t (write_slots (ls_items t) (length xs) (map Some zs)) = Inr u \<and> list_holds u ys"
      using one [of xs] s ys by (auto simp: t_def list_holds_def)
  qed
qed

lemma list_add_eq:
  assumes r: "list_holds l xs" "list_holds p ys" and lim: "length (xs @ ys) \<le> 2 * list_limit"
  shows "\<exists>s. list_binary_op junk equal rel List_add l (Operand_list p) = Inr (New_list s) \<and> list_holds s (xs @ ys)"
proof -
  obtain s where s: "list_new junk (length (xs @ ys)) = Inr s"
    "\<exists>t u. list_set_items s (write_slots (ls_items s) 0 (map Some xs)) = Inr t
      \<and> list_set_items t (write_slots (ls_items t) (length xs) (map Some ys)) = Inr u \<and> list_holds u (xs @ ys)"
    using list_fill [OF lim, of junk] by metis
  then obtain t u where tu: "list_set_items s (write_slots (ls_items s) 0 (map Some xs)) = Inr t"
    "list_set_items t (write_slots (ls_items t) (length xs) (map Some ys)) = Inr u" "list_holds u (xs @ ys)" by blast
  show ?thesis
    using s(1) tu read_elements [OF r(1)] read_elements [OF r(2)] list_holdsD(1) [OF r(1)] list_holdsD(1) [OF r(2)]
    by (simp add: list_binary_op_def)
qed

lemma map_concat_replicate: "concat (replicate n (map f xs)) = map f (concat (replicate n xs))"
  by (simp add: map_concat)

lemma length_concat_replicate: "length (concat (replicate n xs)) = n * length xs"
  by (induction n) simp_all

lemma list_multiply_eq:
  assumes r: "list_holds l xs" and lim: "length xs * nat n \<le> 2 * list_limit"
  shows "\<exists>s. list_multiply junk l n = Inr s \<and> list_holds s (concat (replicate (nat n) xs))"
proof -
  define ys where "ys = concat (replicate (nat n) xs)"
  have len: "length ys = length xs * nat n" by (simp add: ys_def length_concat_replicate mult.commute)
  have "int (length xs) * (if n < 0 then 0 else n) = int (length xs * nat n)" by simp
  moreover have "u32 (int (length xs * nat n)) = int (length xs * nat n)"
    using lim by (intro u32_id) (simp_all add: list_limit_def flip: of_nat_mult)
  ultimately have n: "nat (u32 (int (length xs) * (if n < 0 then 0 else n))) = length ys"
    unfolding len by (simp only: nat_int)
  obtain s where s: "list_new junk (length ys) = Inr s"
    "\<exists>t. list_set_items s (write_slots (ls_items s) 0 (map Some ys)) = Inr t \<and> list_holds t ys"
    using list_fill [of ys junk] lim len by metis
  have "nat (if n < 0 then 0 else n) = nat n" by simp
  then show ?thesis
    using s read_elements [OF r] list_holdsD(1) [OF r] n
    by (simp add: list_multiply_def Let_def mp_seq_multiply_eq map_concat_replicate ys_def [symmetric])
qed

text \<open>When the product of the length and the factor wraps, the copies are written past the new array.\<close>

lemma list_multiply_overrun:
  assumes r: "list_holds l xs" and n: "4294967296 \<le> int (length xs) * n"
    and small: "u32 (int (length xs) * n) \<le> int list_limit"
  shows "list_multiply junk l n = Inl Seq_overrun"
proof -
  define m where "m = nat (u32 (int (length xs) * n))"
  have pos: "0 < n"
  proof (rule ccontr)
    assume "\<not> 0 < n"
    then have "int (length xs) * n \<le> 0" by (simp add: mult_nonneg_nonpos)
    then show False using n by simp
  qed
  have m: "m \<le> 2 * list_limit" using small by (simp add: m_def)
  obtain s vs where s: "list_new junk m = Inr s" "ls_len s = m" "ls_alloc s = max LIST_MIN_ALLOC m" "m \<le> ls_alloc s"
    "ls_items s = vs @ replicate (ls_alloc s - m) None" "length vs = m" using list_new_eq [OF m] by blast
  have "int (length xs * nat n) = int (length xs) * n" using pos by simp
  then have "4294967296 \<le> length xs * nat n" using n by linarith
  then have "length (ls_items s) < length (concat (replicate (nat n) (map Some xs)))"
    using s m by (simp add: length_concat_replicate LIST_MIN_ALLOC_def list_limit_def mult.commute max_def)
  then have "write_slots (ls_items s) 0 (mp_seq_multiply (map Some xs) (nat n)) = Inl Seq_overrun"
    by (simp add: write_slots_def mp_seq_multiply_eq)
  then show ?thesis
    using s(1) pos read_elements [OF r] list_holdsD(1) [OF r]
    by (simp add: list_multiply_def Let_def m_def list_set_items_def)
qed

lemma list_relation_eq:
  fixes xs ys :: "'o :: linorder list"
  assumes "list_holds l xs" and "list_holds p ys"
  shows "list_binary_op junk (=) list_relation (List_relation op) l (Operand_list p)
    = Inr (List_truth (list_relation op xs ys))"
  using read_elements [OF assms(1)] read_elements [OF assms(2)]
  by (simp add: list_binary_op_def comp_def seq_cmp_objs_eq)

lemma list_it_iternext_eq:
  assumes "list_holds l xs"
  shows "list_it_iternext l cur = Inr (if cur < length xs then (Some (Some (xs ! cur)), cur + 1) else (None, cur))"
  using list_holdsD [OF assms] by (simp add: list_it_iternext_def read_slot_def nth_append)

end
