(* ===== verification/Objlist_Sort.thy ===== *)
theory Objlist_Sort
  imports Objlist_Spec Mp_Int
begin

text \<open>
  Sorting lists of integers. The comparison is the operator of the runtime (\<open>mp_binary_op\<close> with
  \<open>MP_BINARY_OP_LESS\<close>), on small and big integers and booleans alike. It agrees on values with the
  comparison of small integers, which is a strict weak order, and so the theory of the sorting
  algorithm applies.
\<close>

definition binop_less :: "junk \<Rightarrow> nat \<Rightarrow> mp_obj \<Rightarrow> mp_obj \<Rightarrow> bool" where
  "binop_less jk fresh x y = (mp_binary_op jk fresh Op_less x y = Some (Inr (Truth True)))"

definition small_int_less :: "int \<Rightarrow> int \<Rightarrow> bool" where
  "small_int_less a b = (small_int_binary_op Op_less a b = Return (Inr (Truth True)))"

lemma small_int_less_iff: "small_int_less a b \<longleftrightarrow> a < b"
  by (simp add: small_int_less_def small_int_binary_op_def)

interpretation small_int_order: sort_order small_int_less
  by unfold_locales (auto simp: small_int_less_iff)

lemma binop_less_value:
  assumes "int_ok x" and "int_ok y" and "same_object x y \<longrightarrow> x = y"
  shows "binop_less jk fresh x y = small_int_less (int_val x) (int_val y)"
proof -
  have "int_op_ok Op_less x y" using assms(3) by (simp add: int_op_ok_def)
  then have "result_means (mp_binary_op jk fresh Op_less x y) (Inr (M_truth (int_val x < int_val y)))"
    using binary_op_means [OF assms(1,2)] by fastforce
  then obtain v where "mp_binary_op jk fresh Op_less x y = Some (Inr v)" "value_means v (M_truth (int_val x < int_val y))"
    by (auto simp: result_means_def)
  then show ?thesis by (cases v) (auto simp: binop_less_def small_int_less_iff)
qed

text \<open>Sorting the elements of a list leaves the empty slots alone.\<close>

lemma rearranges_elements:
  assumes r: "list_holds l xs" and re: "rearranges (ls_items l) items 0 (int (length xs) - 1)"
  obtains ys where "items = map Some ys @ replicate (ls_alloc l - length xs) None" and "mset ys = mset xs"
proof
  note d = list_holdsD [OF r]
  define ys where "ys = map the (take (length xs) items)"
  have len: "length items = ls_alloc l" using rearranges_length [OF re] d(5) by simp
  have "\<forall>i. 0 \<le> i \<and> i \<le> int (length xs) - 1 \<longrightarrow> items ! nat i \<noteq> None"
    using re by (rule rearranges_all) (auto simp: d(4) nth_append)
  then have some: "items ! k \<noteq> None" if "k < length xs" for k using that by (auto dest: spec [of _ "int k"])
  have null: "items ! k = None" if "length xs \<le> k" "k < ls_alloc l" for k
    using rearranges_other [OF re, of "int (ls_alloc l)" "int (length xs)" "int k"] that
    by (simp add: d(4) nth_append)
  show eq: "items = map Some ys @ replicate (ls_alloc l - length xs) None"
    using len d(2) some null by (intro nth_equalityI) (auto simp: ys_def nth_append)
  have "mset items = mset (ls_items l)" using re by (simp add: rearranges_def)
  then have "image_mset Some (mset ys) = image_mset Some (mset xs)" unfolding eq d(4) by simp
  then have "image_mset the (image_mset Some (mset ys)) = image_mset the (image_mset Some (mset xs))" by (rule arg_cong)
  then show "mset ys = mset xs" by (simp add: image_mset.compositionality comp_def)
qed

lemma list_sort_eq:
  assumes r: "list_holds l xs" and ok: "\<forall>x \<in> set xs. int_ok (key x)"
    and obj: "\<forall>x \<in> set xs. \<forall>y \<in> set xs. same_object (key x) (key y) \<longrightarrow> key x = key y"
  obtains ys where "list_holds (mp_obj_list_sort (binop_less jk fresh) key reverse l) ys" and "mset ys = mset xs"
    and "sorted_wrt (\<lambda>x y. if reverse then int_val (key y) \<le> int_val (key x) else int_val (key x) \<le> int_val (key y)) ys"
proof (cases "1 < length xs")
  case False
  then have "mp_obj_list_sort (binop_less jk fresh) key reverse l = l"
    using list_holdsD(1) [OF r] by (simp add: mp_obj_list_sort_def)
  moreover obtain x where "xs = [] \<or> xs = [x]" using False by (cases xs) auto
  ultimately show thesis using that [of xs] r by auto
next
  case True
  note d = list_holdsD [OF r]
  let ?n = "int (length xs) - 1"
  define k where "k = int_val \<circ> (key \<circ> the)"
  define items where "items = mp_quicksort small_int_less k (\<not> reverse) (ls_items l) 0 ?n"
  have "mp_quicksort (binop_less jk fresh) (key \<circ> the) (\<not> reverse) (ls_items l) 0 ?n = items
    \<and> rearranges (ls_items l) items 0 ?n"
    unfolding items_def
  proof (rule mp_quicksort_cong [where S = "Some ` set xs"])
    show "\<forall>i. 0 \<le> i \<and> i \<le> ?n \<longrightarrow> ls_items l ! nat i \<in> Some ` set xs"
      by (auto simp: d(4) nth_append intro!: imageI nth_mem)
    show "\<forall>x \<in> Some ` set xs. \<forall>y \<in> Some ` set xs.
        binop_less jk fresh ((key \<circ> the) x) ((key \<circ> the) y) = small_int_less (k x) (k y)"
      using ok obj by (auto simp: k_def binop_less_value)
  qed (use d in auto)
  then have sort: "mp_obj_list_sort (binop_less jk fresh) key reverse l = l\<lparr>ls_items := items\<rparr>"
    and re: "rearranges (ls_items l) items 0 ?n"
    using True d(1) by (simp_all add: mp_obj_list_sort_def)
  obtain ys where ys: "items = map Some ys @ replicate (ls_alloc l - length xs) None" "mset ys = mset xs"
    using rearranges_elements [OF r re] .
  have len: "length ys = length xs" using mset_eq_length [OF ys(2)] .
  have "sorted_range small_int_less k (\<not> reverse) items 0 ?n"
    unfolding items_def using small_int_order.mp_quicksort_sorts [of 0 ?n "ls_items l"] d by simp
  then have "in_order small_int_less (\<not> reverse) (int_val (key (ys ! i))) (int_val (key (ys ! j)))"
    if "i < j" "j < length ys" for i j
  proof -
    have "in_order small_int_less (\<not> reverse) (k (items ! nat (int i))) (k (items ! nat (int j)))"
      using \<open>sorted_range small_int_less k (\<not> reverse) items 0 ?n\<close> [unfolded sorted_range_def, THEN spec, THEN spec,
          THEN mp, of "int i" "int j"] that len by simp
    then show ?thesis using that by (simp add: ys(1) nth_append k_def)
  qed
  then have "sorted_wrt (\<lambda>x y. if reverse then int_val (key y) \<le> int_val (key x) else int_val (key x) \<le> int_val (key y)) ys"
    by (auto simp: sorted_wrt_iff_nth_less in_order_def small_int_less_iff not_less)
  then show thesis using that [of ys] sort ys len d by (simp add: list_holds_def)
qed

end
