(* ===== verification/List_Props.thy ===== *)
theory List_Props
  imports Objlist_Load Objlist_Sort
begin

text \<open>
  The properties of lists: any sequence of calls has the meaning of the language, loads of slices
  and the operators give the sequences of the language, sorting gives a sorted permutation within
  logarithmic stack, and the two places where an unchecked sum or product leaves the array.
\<close>

text \<open>C12: Any sequence of calls that change a list (append, extend, pop, insert, remove, reverse, clear,
  stores and deletions of elements and of slices) returns what the language says, raises the error it
  says, and leaves the list with the elements it says. No call reads or writes outside the array, and
  the unused slots are null after every call. The calls are those of \<open>py_call_ok\<close>: the lists stay within
  the sizes the memory has; the bounds of slices are machine integers; a slice that is stored to or
  deleted has step one or zero, since the code raises \<open>NotImplementedError\<close> for the other steps of the language
  (\<open>stepped_slice_not_implemented\<close>); and the index of a \<open>pop\<close> or deletion on an empty list is an integer, since
  the code raises \<open>IndexError\<close> before it looks at the type.\<close>

theorem list_refines_sequence:
  assumes "list_rep l xs" and "calls_ok (py_call_ok equal) (py_call equal) cs xs"
  shows "fst (run_calls (list_call junk equal none) cs l) = fst (run_calls (py_call equal) cs xs)
    \<and> list_rep (snd (run_calls (list_call junk equal none) cs l)) (snd (run_calls (py_call equal) cs xs))"
  using assms by (rule list_calls.run_refines)

definition list_start :: "int mp_list" where
  "list_start = \<lparr>ls_alloc = 4, ls_len = 2, ls_items = [Some 5, Some 7, None, None]\<rparr>"

definition list_session :: "int list_method list" where
  "list_session = [Call_append 9, Call_insert (- 1) 8, Call_extend_iter [1, 2], Call_pop None, Call_pop (Some (Some 40)),
     Call_set_slice (Some 1, Some 3, None) [6, 6, 6], Call_remove 5, Call_remove 5, Call_reverse]"

theorem list_refines_sequence_witness:
  "fst (run_calls (list_call (\<lambda>_. Some 77) (=) 0) list_session list_start)
     = [Inr None, Inr None, Inr None, Inr (Some 2), Inl Seq_index_error, Inr None, Inr None, Inl Seq_value_error, Inr None]
   \<and> list_rep (snd (run_calls (list_call (\<lambda>_. Some 77) (=) 0) list_session list_start)) [1, 9, 6, 6, 6]"
proof -
  have rep: "list_rep list_start [5, 7]"
    by (simp add: list_rep_def list_holds_def list_start_def list_limit_def py_limit_def numeral_2_eq_2)
  note eval = py_call_ok_def py_limit_def py_insert_def py_pop_def py_index_def delete_at_def
    py_set_slice_def py_bounds_def plain_step_def slice_arg_ok_def int32_def slice_start_def slice_stop_def clamp_bound_def
  have steps: "py_call (=) (Call_append 9) [5, 7 :: int] = Inr (None, [5, 7, 9])"
    "py_call (=) (Call_insert (- 1) 8) [5, 7, 9 :: int] = Inr (None, [5, 7, 8, 9])"
    "py_call (=) (Call_extend_iter [1, 2]) [5, 7, 8, 9 :: int] = Inr (None, [5, 7, 8, 9, 1, 2])"
    "py_call (=) (Call_pop None) [5, 7, 8, 9, 1, 2 :: int] = Inr (Some 2, [5, 7, 8, 9, 1])"
    "py_call (=) (Call_pop (Some (Some 40))) [5, 7, 8, 9, 1 :: int] = Inl Seq_index_error"
    "py_call (=) (Call_set_slice (Some 1, Some 3, None) [6, 6, 6]) [5, 7, 8, 9, 1 :: int] = Inr (None, [5, 6, 6, 6, 9, 1])"
    "py_call (=) (Call_remove 5) [5, 6, 6, 6, 9, 1 :: int] = Inr (None, [6, 6, 6, 9, 1])"
    "py_call (=) (Call_remove 5) [6, 6, 6, 9, 1 :: int] = Inl Seq_value_error"
    "py_call (=) Call_reverse [6, 6, 6, 9, 1 :: int] = Inr (None, [1, 9, 6, 6, 6])"
    by (simp_all add: eval)
  have oks: "py_call_ok (=) (Call_append 9) [5, 7 :: int]"
    "py_call_ok (=) (Call_insert (- 1) 8) [5, 7, 9 :: int]"
    "py_call_ok (=) (Call_extend_iter [1, 2]) [5, 7, 8, 9 :: int]"
    "py_call_ok (=) (Call_pop None) [5, 7, 8, 9, 1, 2 :: int]"
    "py_call_ok (=) (Call_pop (Some (Some 40))) [5, 7, 8, 9, 1 :: int]"
    "py_call_ok (=) (Call_set_slice (Some 1, Some 3, None) [6, 6, 6]) [5, 7, 8, 9, 1 :: int]"
    "py_call_ok (=) (Call_remove 5) [5, 6, 6, 6, 9, 1 :: int]"
    "py_call_ok (=) (Call_remove 5) [6, 6, 6, 9, 1 :: int]"
    "py_call_ok (=) Call_reverse [6, 6, 6, 9, 1 :: int]"
    by (simp_all add: eval)
  have ok: "calls_ok (py_call_ok (=)) (py_call (=)) list_session [5, 7]"
    by (simp add: list_session_def steps oks del: py_call.simps)
  have run: "run_calls (py_call (=)) list_session [5, 7]
      = ([Inr None, Inr None, Inr None, Inr (Some 2), Inl Seq_index_error, Inr None, Inr None, Inl Seq_value_error,
          Inr None], [1, 9, 6, 6, 6])"
    by (simp add: list_session_def steps del: py_call.simps)
  show ?thesis using list_refines_sequence [OF rep ok, of "\<lambda>_. Some 77" 0] unfolding run by simp
qed

text \<open>C14: Loading a slice gives a new list with the elements of the slice of the language, for start, stop and
  step of any sign; a step of zero raises the error. The bounds are machine integers of 32 bits, and two
  cases are left out where the code overflows: a step that does not fit a machine integer when the length
  is added to it, and a stop of \<open>2 ^ 31 - 1\<close> with a negative step.\<close>

theorem list_load_slice_correct:
  assumes "list_rep l xs" and "slice_arg_ok sl" and "slice_step_ok (length xs) sl"
  shows "if snd (snd sl) = Some 0 then list_subscr_load junk l (Slice sl) = Some (Inl Seq_value_error)
    else \<exists>l'. list_subscr_load junk l (Slice sl) = Some (Inr (Loaded_list l')) \<and> list_holds l' (python_slice xs sl)"
  using assms by (rule list_load_slice)

definition list_five :: "int mp_list" where
  "list_five = \<lparr>ls_alloc = 5, ls_len = 5, ls_items = map Some [10, 11, 12, 13, 14]\<rparr>"

theorem list_load_slice_correct_witness:
  "\<exists>l'. list_subscr_load (\<lambda>_. None) list_five (Slice (Some (- 1), None, Some (- 2))) = Some (Inr (Loaded_list l'))
     \<and> list_holds l' [14, 12, 10]"
proof -
  have rep: "list_rep list_five [10, 11, 12, 13, 14]"
    by (simp add: list_rep_def list_holds_def list_five_def list_limit_def py_limit_def)
  have py: "python_slice [10, 11, 12, 13, 14] (Some (- 1), None, Some (- 2)) = [14, 12, 10 :: int]"
    by code_simp
  show ?thesis
    using list_load_slice_correct [OF rep, of "(Some (- 1), None, Some (- 2))" "\<lambda>_. None"] unfolding py
    by (simp add: slice_arg_ok_def slice_step_ok_def int32_def)
qed

text \<open>C15: Concatenation, repetition and comparison of lists: the sum holds the elements of both, the product the
  repeated elements, none for a negative factor, and the comparisons are those of the lexicographic order,
  when the elements have the equality and the order of a linear order.\<close>

theorem list_operators_correct:
  fixes xs ys :: "'o :: linorder list"
  assumes "list_holds l xs" and "list_holds p ys" and "length (xs @ ys) \<le> 2 * list_limit"
    and "length xs * nat n \<le> 2 * list_limit"
  shows "(\<exists>s. list_binary_op junk (=) list_relation List_add l (Operand_list p) = Inr (New_list s)
      \<and> list_holds s (xs @ ys))
    \<and> (\<exists>s. list_binary_op junk (=) list_relation List_multiply l (Operand_int n) = Inr (New_list s)
      \<and> list_holds s (concat (replicate (nat n) xs)))
    \<and> list_binary_op junk (=) list_relation (List_relation op) l (Operand_list p)
      = Inr (List_truth (list_relation op xs ys))"
proof -
  obtain s where "list_multiply junk l n = Inr s" "list_holds s (concat (replicate (nat n) xs))"
    using list_multiply_eq [OF assms(1,4)] by blast
  then have "\<exists>s. list_binary_op junk (=) list_relation List_multiply l (Operand_int n) = Inr (New_list s)
      \<and> list_holds s (concat (replicate (nat n) xs))" by (simp add: list_binary_op_def)
  then show ?thesis using list_add_eq [OF assms(1-3)] list_relation_eq [OF assms(1,2)] by blast
qed

theorem list_operators_correct_witness:
  "(\<exists>s. list_binary_op (\<lambda>_. None) (=) list_relation List_multiply list_start (Operand_int 3) = Inr (New_list s)
      \<and> list_holds s [5, 7, 5, 7, 5, 7])
   \<and> list_binary_op (\<lambda>_. None) (=) list_relation (List_relation Rel_less) list_start (Operand_list list_five)
     = Inr (List_truth True)"
proof -
  have rep: "list_holds list_start [5, 7]" "list_holds list_five [10, 11, 12, 13, 14]"
    by (simp_all add: list_holds_def list_start_def list_five_def numeral_2_eq_2)
  have "concat (replicate (nat 3) [5, 7]) = [5, 7, 5, 7, 5, 7 :: int]" by (simp add: numeral_3_eq_3)
  then show ?thesis
    using list_operators_correct [OF rep, of 3 "\<lambda>_. None" Rel_less]
    by (simp add: list_limit_def list_relation_def)
qed

text \<open>C13: Sorting a list whose keys are integers, small or big, gives a list with the same elements, in ascending
  order of the values of the keys, or descending when \<open>reverse\<close> is given. The comparison is the operator of
  the runtime on both representations. At one address there is one object.\<close>

theorem list_sort_integers:
  assumes "list_holds l xs" and "\<forall>x \<in> set xs. int_ok (key x)"
    and "\<forall>x \<in> set xs. \<forall>y \<in> set xs. same_object (key x) (key y) \<longrightarrow> key x = key y"
  shows "\<exists>ys. list_holds (mp_obj_list_sort (binop_less jk fresh) key reverse l) ys \<and> mset ys = mset xs
    \<and> sorted_wrt (\<lambda>x y. if reverse then int_val (key y) \<le> int_val (key x) else int_val (key x) \<le> int_val (key y)) ys"
proof -
  obtain ys where "list_holds (mp_obj_list_sort (binop_less jk fresh) key reverse l) ys" "mset ys = mset xs"
    "sorted_wrt (\<lambda>x y. if reverse then int_val (key y) \<le> int_val (key x) else int_val (key x) \<le> int_val (key y)) ys"
    by (rule list_sort_eq [OF assms])
  then show ?thesis by (intro exI [of _ ys] conjI)
qed

definition list_unsorted :: "mp_obj mp_list" where
  "list_unsorted = \<lparr>ls_alloc = 4, ls_len = 3, ls_items = [Some (Small_int 4), Some (Bool True), Some (Small_int (- 2)), None]\<rparr>"

theorem list_sort_integers_witness:
  "\<exists>ys. list_holds (mp_obj_list_sort (binop_less (\<lambda>_. 0) 0) (\<lambda>x. x) False list_unsorted) ys
     \<and> map int_val ys = [- 2, 1, 4]"
proof -
  let ?xs = "[Small_int 4, Bool True, Small_int (- 2)]"
  have rep: "list_holds list_unsorted ?xs" by (simp add: list_holds_def list_unsorted_def)
  obtain ys where ys: "list_holds (mp_obj_list_sort (binop_less (\<lambda>_. 0) 0) (\<lambda>x. x) False list_unsorted) ys"
    "mset ys = mset ?xs" "sorted_wrt (\<lambda>x y. int_val x \<le> int_val y) ys"
  proof -
    have "\<forall>x \<in> set ?xs. int_ok x" "\<forall>x \<in> set ?xs. \<forall>y \<in> set ?xs. same_object x y \<longrightarrow> x = y"
      by (simp_all add: small_def)
    from list_sort_integers [OF rep this, of "\<lambda>_. 0" 0 False] show thesis
      using that unfolding if_False by (elim exE conjE)
  qed
  have "sorted (map int_val ys)" using ys(3) by (simp add: sorted_wrt_map)
  moreover have "mset (map int_val ys) = mset [- 2, 1, 4]" using ys(2) by simp
  ultimately have "map int_val ys = sort [- 2, 1, 4 :: int]" by (intro properties_for_sort [symmetric]) simp_all
  then have "map int_val ys = [- 2, 1, 4]" by simp
  then show ?thesis using ys(1) by (intro exI [of _ ys] conjI)
qed

text \<open>C27: Whatever the comparison answers, sorting a list recurses no deeper than the binary logarithm of its
  length, as the comment in the code promises.\<close>

theorem list_sort_stack_bound:
  "2 ^ quicksort_depth lt (key \<circ> the) reverse (ls_items l) 0 (int (ls_len l) - 1) \<le> max 1 (int (ls_len l))"
  using quicksort_depth_bound [of lt "key \<circ> the" reverse "ls_items l" 0 "int (ls_len l) - 1"] by simp


text \<open>C33: Repeating a list so often that the number of elements wraps at 32 bits: the new array has the wrapped
  size and the copies are written past its end.\<close>

theorem list_multiply_wraps:
  assumes "list_holds l xs" and "4294967296 \<le> int (length xs) * n" and "u32 (int (length xs) * n) \<le> int list_limit"
  shows "list_multiply junk l n = Inl Seq_overrun"
  using assms by (rule list_multiply_overrun)

theorem list_multiply_wraps_witness: "list_multiply (\<lambda>_. None) list_five 858993460 = Inl Seq_overrun"
  using list_multiply_wraps [of list_five "[10, 11, 12, 13, 14]" 858993460 "\<lambda>_. None"]
  by (simp add: list_holds_def list_five_def u32_def list_limit_def)

end
