(* ===== verification/Spec2Isabelle.thy ===== *)
theory Spec2Isabelle
  imports Mpz_Div Mpz_Conv Mp_Dict_Spec Objset_Spec Mp_Int_Props Gc_Props Time_Props List_Props
begin

text \<open>
  Verification of the core of MicroPython as shipped for the Pycom boards (\<open>src/py\<close> and the esp32
  port under \<open>src/esp32\<close>), in the configuration of the esp32 port: 32-bit machine words, 16-bit
  digits of big integers, single-precision floats.

  \<^bold>\<open>Big integers\<close> (\<open>src/py/mpz.c\<close>, \<open>src/py/mpz.h\<close>). The code has two layers. The \<open>mpn\<close> functions
  compute on arrays of digits; \<open>Mpn\<close> models comparison, shifts, addition, subtraction and
  multiplication, \<open>Mpn_Bitwise\<close> the two's complement operations on sign and magnitude, and
  \<open>Mpn_Div\<close> the division. A digit array is a list of 16-bit words, least significant digit first,
  and carries and borrows are 32-bit words. The \<open>mpz\<close> functions compute on objects with a sign, a
  length and a buffer; \<open>Mpz\<close> models the objects, the in-place operations and the comparison,
  \<open>Mpz_Div\<close> division and powers, \<open>Mpz_Conv\<close> the conversions. Objects live in a store, so the
  sharing of destination and operands is explicit. The theorems state that each operation stores
  the exact integer result, keeps the invariant \<open>mpz_ok\<close>, changes no other object, and never writes
  out of its buffer. Loops whose end is not syntactically evident are partial functions whose
  result \<open>None\<close> is not returning; the theorems prove that they return. The exceptions that the code
  has are theorems of their own.

  \<^bold>\<open>Maps and dictionaries\<close> (\<open>src/py/map.c\<close>, \<open>src/py/objdict.c\<close>). \<open>Mp_Hash\<close> has the open-addressing table
  with its probe sequence and deletion marks, and the locale \<open>hash_keys\<close> of what it asks of the
  keys; \<open>Mp_Map\<close> models \<open>mp_map_t\<close> with lookup, insertion, removal and rehashing, and the ordered
  arrays; \<open>Mp_Obj\<close> models equality and hash of the objects used as keys (\<open>src/py/obj.c\<close>,
  \<open>src/py/runtime.c\<close>, \<open>src/py/objstr.c\<close>, \<open>src/py/qstr.c\<close>) and shows that they meet \<open>hash_keys\<close>. \<open>Mp_Dict\<close> models the
  dictionary methods, proved once against the locale \<open>map_contract\<close>, which hash tables and ordered
  arrays both meet. \<open>Mp_Dict_Spec\<close> states that any sequence of the calls of \<open>dict_op\<close> refines a finite
  map; \<open>popitem\<close> is treated apart, since it is wrong on ordered arrays, where it leaves a sentinel that
  the search does not expect.

  \<^bold>\<open>Sets\<close> (\<open>src/py/map.c\<close>, \<open>src/py/objset.c\<close>). \<open>Mp_Set\<close> models \<open>mp_set_t\<close>, the table without values, whose lookup
  may add, remove or toggle an element. \<open>Objset\<close> models the methods and operators of \<open>set\<close> and
  \<open>frozenset\<close>; the argument of a method may be the set itself, and then the loop walks over the table
  that it changes. \<open>Objset_Spec\<close> shows that sequences of method calls refine a mathematical set, and that
  the operators are those of set algebra.

  \<^bold>\<open>Integers\<close> (\<open>src/py/smallint.c\<close>, \<open>src/py/objint_mpz.c\<close>, \<open>src/py/runtime.c\<close>, \<open>src/py/objbool.c\<close>). \<open>Mp_Int\<close> models the
  unary and binary operators of the language on integers: the switch on two small integers with its
  overflow checks, the operations on big integers, which call the functions of \<open>Mpz\<close> and \<open>Mpz_Div\<close>, and
  the choice between the two. \<open>Mp_Int_Props\<close> states that the operators are exact on unbounded
  integers across the representations, and where they are not. A result that is a float is the
  value \<open>To_float\<close>; of the float code only the conversion from integers (\<open>mpz_as_float\<close>) and the test for a
  negative power of zero (\<open>src/py/objfloat.c\<close>) are modelled.

  \<^bold>\<open>Garbage collector\<close> (\<open>src/py/gc.c\<close>). \<open>Gc_Table\<close> has the state \<open>mp_state_mem\<close> as the record \<open>gc\<close>
  with the two-bit allocation table and the finaliser table, and the macros that read and write
  them. \<open>Gc\<close> models every operation of the file: initialisation, marking with the bounded stack and
  the rescan after its overflow, sweeping with finalisers, allocation, freeing, reallocation and the
  statistics. The roots the port passes to the collector and the finaliser \<open>__del__\<close> are arguments.
  \<open>Gc_Mark\<close> shows that marking ends and marks the heads reachable from the roots and no others,
  \<open>Gc_Collect\<close> that a collection keeps these blocks, frees the rest and changes memory only through the
  finalisers it runs, \<open>Gc_Alloc\<close> that allocation,
  freeing and in-place reallocation change the table as intended, and \<open>Gc_Props\<close> states the results.
  The hypothesis \<open>table_end_ok\<close> says that the last chain of tails ends inside the table, which the code
  does not test; \<open>gc_table_overrun\<close> shows what happens without it.

  \<^bold>\<open>Time\<close> (\<open>src/lib/timeutils/timeutils.c\<close>, \<open>src/esp32/util/timeutils.c\<close>, \<open>src/esp32/mods/machrtc.c\<close>,
  \<open>src/esp32/mods/modutime.c\<close>, \<open>src/esp32/fatfs_port.c\<close>, \<open>src/extmod/vfs_fat.c\<close>). \<open>Calendar\<close> is the reference: the
  Gregorian calendar as days that follow one another. \<open>C_Int\<close> has the machine integers of fixed width. \<open>Timeutils\<close> models the conversions between
  seconds and dates and shows that they agree with it, \<open>Mktime\<close> shows that the normalisation of a date
  ends and keeps the day, \<open>Modutime\<close> models the clock, the module \<open>utime\<close> and the stamps of files, and
  \<open>Time_Props\<close> states the results. The system clock is an argument.

  \<^bold>\<open>Lists\<close> (\<open>src/py/objlist.c\<close>, \<open>src/py/sequence.c\<close>, \<open>mp_get_index\<close> of \<open>src/py/obj.c\<close>). \<open>Mp_Seq\<close> models what the sequence
  types share: indices, slices, comparison, search and repetition, and shows that slices are those of
  the language. \<open>Mp_Sort\<close> models the quicksort, proved for any comparison that meets the locale
  \<open>sort_order\<close>. \<open>Objlist\<close> has the list as an array of slots with a length, and every function of the
  file over it; a read or write outside the array is an error value, and fresh memory has unknown
  contents. \<open>Objlist_Spec\<close> shows that each call keeps the array well formed and has the meaning of the
  language, and \<open>Mp_Refine\<close> lifts this from one call to sequences of calls. \<open>Objlist_Load\<close> treats loads and
  operators, \<open>Objlist_Sort\<close> the sorting of integers with the comparison of \<open>Mp_Int\<close>, and \<open>List_Props\<close> states the
  results. The limits \<open>list_limit\<close> and \<open>py_limit\<close> are sizes for which no request to the allocator wraps; they
  exceed the memory of the boards. The specification is that of the language; the calls that the code
  does not implement, stores to and deletions of slices with a step, are outside \<open>list_arg_ok\<close>.

  \<^bold>\<open>Not modelled.\<close> Of the parts above: running out of memory in the allocator when called from the big
  integers and the lists; the values of floats; a list that is stored to
  a slice of itself, or changed by the functions that sorting calls; the oscillator, the tick counters and
  the sleeping of the clock modules, which are calls into the platform. Other parts of the system are
  not modelled: the lexer, the parser, the compiler and the emitters of native code, the virtual machine
  with its unwinding by saved registers, the methods of strings, floats, classes and generators, the
  remaining built-in types and modules, the extension modules, the file system, and the tasks, drivers
  and radio stacks of the port, which are input and output or call code that is not part of the
  repository.
\<close>

end
